(* ===== verification/Rt_Prelude.thy ===== *)
theory Rt_Prelude
  imports Main "HOL-Library.Word"
begin

text \<open>
  Shared vocabulary of the development: machine words, the word-granular store every
  component reads and writes, results of C functions that may leave through \<open>longjmp\<close>,
  and the generic lemmas on bits, words and lists that the component theories rely on.

  The target is the 64-bit little-endian configuration the JIT is built for
  (\<open>ARCH_SIXTYFOUR\<close>, no profinfo, flat float arrays, \<open>USE_RUST_JIT\<close>).
\<close>

unbundle bit_operations_syntax

named_theorems rt_simps \<open>unfolding rules for the accessors of the runtime state\<close>
named_theorems val_simps \<open>how the value macros behave on tagged integers and pointers\<close>

type_synonym u8 = "8 word"
type_synonym u16 = "16 word"
type_synonym u32 = "32 word"
type_synonym u64 = "64 word"
type_synonym byte = "8 word"

text \<open>The store: the contents of the aligned 8-byte cell at each byte address.\<close>

type_synonym store = "u64 \<Rightarrow> u64"

section \<open>Results of runtime calls\<close>

text \<open>
  A C function of the runtime either returns or leaves by \<open>siglongjmp\<close> to the enclosing
  \<open>sigsetjmp\<close>; the exception value then sits in \<open>Caml_state->exn_bucket\<close>, so the state
  is all there is to carry. \<open>caml_fatal_error\<close> stops
  the process; \<open>Diverge\<close> is a call that never comes back.
\<close>

datatype ('r, 's) cres = Ret 'r 's | Longjmp 's | Fatal string | Diverge

fun cbind :: "('r, 's) cres \<Rightarrow> ('r \<Rightarrow> 's \<Rightarrow> ('q, 's) cres) \<Rightarrow> ('q, 's) cres" where
  "cbind (Ret r s) f = f r s"
| "cbind (Longjmp s) f = Longjmp s"
| "cbind (Fatal e) f = Fatal e"
| "cbind Diverge f = Diverge"

text \<open>Continue a call that returns no value with a plain state update.\<close>

definition cthen :: "(unit, 's) cres \<Rightarrow> ('s \<Rightarrow> 's) \<Rightarrow> (unit, 's) cres" where
  "cthen m f = cbind m (\<lambda>_ s. Ret () (f s))"

lemma cthen_simps [simp]:
  "cthen (Ret u s) f = Ret () (f s)"
  "cthen (Longjmp s) f = Longjmp s"
  "cthen (Fatal e) f = Fatal e"
  "cthen Diverge f = Diverge"
  by (simp_all add: cthen_def)

lemma cbind_assoc: "cbind (cbind m f) g = cbind m (\<lambda>r s. cbind (f r s) g)"
  by (cases m) simp_all

lemma cbind_Ret [simp]: "cbind m Ret = m"
  by (cases m) simp_all

lemma cbind_eq_Ret: "cbind m f = Ret q t \<longleftrightarrow> (\<exists>r s. m = Ret r s \<and> f r s = Ret q t)"
  by (cases m) simp_all

lemma cthen_eq_Ret: "cthen m f = Ret u t \<longleftrightarrow> (\<exists>s. m = Ret () s \<and> t = f s)"
  by (cases m) (auto simp: cthen_def)

lemma cbind_cong:
  "m = m' \<Longrightarrow> (\<And>r t. m' = Ret r t \<Longrightarrow> f r t = g r t) \<Longrightarrow> cbind m f = cbind m' g"
  by (cases m') simp_all

section \<open>Bits and words\<close>

lemma bit_ucast_le:
  fixes x :: "'a::len word"
  shows "LENGTH('a) \<le> LENGTH('b::len) \<Longrightarrow> bit (ucast x :: 'b word) n = bit x n"
  using bit_imp_le_length [of x n] by (auto simp: bit_simps)

lemma and_1_neq_0_iff: "(x AND 1 \<noteq> (0 :: 'a::len word)) = bit x 0"
  by (simp add: and_one_eq bit_0 odd_iff_mod_2_eq_one)

lemma and_1_eq_0_iff: "(x AND 1 = (0 :: 'a::len word)) = (\<not> bit x 0)"
  using and_1_neq_0_iff [of x] by blast

lemma bit_0_odd_sint: "bit (x :: 'a::len word) 0 = odd (sint x)"
proof -
  have "bit (sint x) 0 = bit x 0"
    by (simp only: bit_sint_iff) (cases "LENGTH('a)"; simp add: bit_simps)
  then show ?thesis by (simp add: bit_0)
qed

lemma sint_eqD: "sint x = sint y \<Longrightarrow> x = y"
  by (rule signed_word_eqI)

lemma bit_small_word: "unat (x :: 'a::len word) < 2 ^ n \<Longrightarrow> bit x i \<Longrightarrow> i < n"
proof -
  assume "unat x < 2 ^ n" and b: "bit x i"
  then have "take_bit n (unat x) = unat x"
    by (simp add: take_bit_nat_eq_self_iff)
  then have "take_bit n x = x"
    by (metis unsigned_take_bit_eq unsigned_word_eqI)
  then show "i < n"
    using b by (metis bit_take_bit_iff)
qed

text \<open>
  The library rewrites a bit of a word numeral to a bit of the integer numeral; the masks
  the runtime uses are then read off here.
\<close>

lemma bit_int_255 [simp]: "bit (255 :: int) n \<longleftrightarrow> n < 8"
proof -
  have "(255 :: int) = mask 8" by (simp add: mask_eq_exp_minus_1)
  then show ?thesis by (simp only: bit_mask_iff) auto
qed

lemma bit_int_768 [simp]: "bit (768 :: int) n \<longleftrightarrow> n = 8 \<or> n = 9"
proof -
  have "(768 :: int) = push_bit 8 (mask 2)" by (simp add: mask_eq_exp_minus_1)
  then show ?thesis by (simp only: bit_push_bit_iff bit_mask_iff) auto
qed

lemma bit_int_3 [simp]: "bit (3 :: int) n \<longleftrightarrow> n < 2"
proof -
  have "(3 :: int) = mask 2" by (simp add: mask_eq_exp_minus_1)
  then show ?thesis by (simp only: bit_mask_iff) auto
qed

lemma bit_int_7 [simp]: "bit (7 :: int) n \<longleftrightarrow> n < 3"
proof -
  have "(7 :: int) = mask 3" by (simp add: mask_eq_exp_minus_1)
  then show ?thesis by (simp only: bit_mask_iff) auto
qed

lemma bit_int_not_numerals [simp]:
  "bit (- 8 :: int) n \<longleftrightarrow> 3 \<le> n" "bit (- 4 :: int) n \<longleftrightarrow> 2 \<le> n"
  "bit (- 769 :: int) n \<longleftrightarrow> n \<noteq> 8 \<and> n \<noteq> 9"
proof -
  have "(- 8 :: int) = NOT 7" "(- 4 :: int) = NOT 3" "(- 769 :: int) = NOT 768"
    by simp_all
  then show "bit (- 8 :: int) n \<longleftrightarrow> 3 \<le> n" "bit (- 4 :: int) n \<longleftrightarrow> 2 \<le> n"
    "bit (- 769 :: int) n \<longleftrightarrow> n \<noteq> 8 \<and> n \<noteq> 9"
    by (simp_all only: bit_not_int_iff bit_int_7 bit_int_3 bit_int_768 not_less de_Morgan_disj)
qed

lemma drop_bit_signed_take_bit:
  "drop_bit m (signed_take_bit (m + n) k) = signed_take_bit n (drop_bit m (k :: int))"
  by (rule bit_eqI) (auto simp: bit_simps min_def ac_simps)

lemma sint_range64: "- (2 ^ 63) \<le> sint (x :: u64)" "sint (x :: u64) < 2 ^ 63"
  using sint_greater_eq [of x] sint_less [of x] by simp_all

lemma unat_range64: "unat (x :: u64) < 2 ^ 64"
  using unsigned_less [of x] by simp

lemma sint_of_small:
  "- (2 ^ 63) \<le> k \<Longrightarrow> k < 2 ^ 63 \<Longrightarrow> sint (word_of_int k :: u64) = k"
  by (simp add: signed_of_int signed_take_bit_int_eq_self_iff)

text \<open>Carry of an addition modulo \<open>M\<close>.\<close>

lemma add_mod_carry:
  "a < M \<Longrightarrow> b < M \<Longrightarrow> (a + b) mod M = (if M \<le> a + b then a + b - M else a + b)" for a b M :: nat
  by (simp add: mod_if)

lemma carry_iff: "a < M \<Longrightarrow> b < M \<Longrightarrow> (a + b) mod M < a \<longleftrightarrow> M \<le> a + b" for a b M :: nat
  by (auto simp: add_mod_carry)

lemma carry_div: "a < M \<Longrightarrow> b < M \<Longrightarrow> (a + b) div M = (if M \<le> a + b then 1 else 0)" for a b M :: nat
  by (simp add: div_nat_eqI)

lemma sint_word_of_int: "sint (word_of_int k :: 'a::len word) = signed_take_bit (LENGTH('a) - 1) k"
  by (simp add: signed_of_int)

section \<open>Runs of words in the store\<close>

definition waddr :: "u64 \<Rightarrow> nat \<Rightarrow> u64" where
  "waddr a i = a + 8 * of_nat i"

definition read_words :: "store \<Rightarrow> u64 \<Rightarrow> nat \<Rightarrow> u64 list" where
  "read_words m a n = map (\<lambda>i. m (waddr a i)) [0..<n]"

fun write_words :: "u64 \<Rightarrow> u64 list \<Rightarrow> store \<Rightarrow> store" where
  "write_words a [] m = m"
| "write_words a (x # xs) m = write_words (a + 8) xs (m(a := x))"

text \<open>The set of cells of a run, and runs that do not meet.\<close>

definition cells :: "u64 \<Rightarrow> nat \<Rightarrow> u64 set" where
  "cells a n = waddr a ` {..<n}"

lemma waddr_0 [simp]: "waddr a 0 = a"
  by (simp add: waddr_def)

lemma waddr_add: "waddr (waddr a i) j = waddr a (i + j)"
  by (simp add: waddr_def algebra_simps)

lemma waddr_Suc: "waddr (a + 8) i = waddr a (Suc i)"
  by (simp add: waddr_def algebra_simps)

lemma waddr_inj:
  assumes "i < 2 ^ 61" and "j < 2 ^ 61"
  shows "waddr a i = waddr a j \<longleftrightarrow> i = j"
proof
  have u: "unat (8 * of_nat k :: u64) = 8 * k" if "k < 2 ^ 61" for k
  proof -
    have e: "(8 * of_nat k :: u64) = of_nat (8 * k)" by simp
    have "8 * k < 2 ^ LENGTH(64)" using that by simp
    then show ?thesis unfolding e by (rule of_nat_inverse [OF refl])
  qed
  assume "waddr a i = waddr a j"
  then have "(8 * of_nat i :: u64) = 8 * of_nat j"
    by (simp add: waddr_def)
  then show "i = j"
    using u [OF assms(1)] u [OF assms(2)] by (metis mult_cancel1 zero_neq_numeral)
qed simp

lemma mem_cells_iff: "x \<in> cells a n \<longleftrightarrow> (\<exists>i < n. x = waddr a i)"
  by (auto simp: cells_def)

lemma waddr_in_cells [simp]: "i < n \<Longrightarrow> waddr a i \<in> cells a n"
  by (auto simp: cells_def)

lemma cells_Suc: "cells a (Suc n) = insert a (cells (a + 8) n)"
  by (auto simp: cells_def waddr_Suc image_iff lessThan_Suc_eq_insert_0)

lemma cells_Suc_last: "cells a (Suc n) = insert (waddr a n) (cells a n)"
  by (simp add: cells_def lessThan_Suc)

lemma length_read_words [simp]: "length (read_words m a n) = n"
  by (simp add: read_words_def)

lemma nth_read_words [simp]: "i < n \<Longrightarrow> read_words m a n ! i = m (waddr a i)"
  by (simp add: read_words_def)

lemma read_words_cong: "(\<And>i. i < n \<Longrightarrow> m (waddr a i) = m' (waddr b i)) \<Longrightarrow>
    read_words m a n = read_words m' b n"
  by (simp add: read_words_def)

lemma read_words_Suc: "read_words m a (Suc n) = m a # read_words m (a + 8) n"
  by (rule nth_equalityI) (auto simp: nth_Cons waddr_Suc split: nat.split)

lemma read_words_snoc: "read_words m a (Suc n) = read_words m a n @ [m (waddr a n)]"
  by (simp add: read_words_def)

lemma write_words_outside: "x \<notin> cells a (length xs) \<Longrightarrow> write_words a xs m x = m x"
  by (induction xs arbitrary: a m) (auto simp: cells_Suc)

lemma write_words_nth:
  "length xs < 2 ^ 61 \<Longrightarrow> i < length xs \<Longrightarrow> write_words a xs m (waddr a i) = xs ! i"
proof (induction xs arbitrary: a m i)
  case (Cons x xs)
  show ?case
  proof (cases i)
    case 0
    have "a \<notin> cells (a + 8) (length xs)"
    proof
      assume "a \<in> cells (a + 8) (length xs)"
      then obtain j where "j < length xs" "waddr a 0 = waddr a (Suc j)"
        by (auto simp: mem_cells_iff waddr_Suc)
      with Cons.prems show False by (simp add: waddr_inj del: waddr_0)
    qed
    with 0 show ?thesis by (simp add: write_words_outside)
  next
    case (Suc j)
    with Cons show ?thesis by (simp add: waddr_Suc [symmetric])
  qed
qed simp

lemma read_write_words:
  "length xs < 2 ^ 61 \<Longrightarrow> read_words (write_words a xs m) a (length xs) = xs"
  by (rule nth_equalityI) (simp_all add: write_words_nth)

end
