(* ===== verification/Mlvalues.thy ===== *)
theory Mlvalues
  imports Rt_Prelude
begin

text \<open>
  The representation of OCaml values (\<^verbatim>\<open>runtime/caml/mlvalues.h\<close>) and of block headers
  (\<^verbatim>\<open>runtime/caml/gc.h\<close>): tagged integers, header packing, colours, infix headers,
  encoded exception results, and field and byte access in the store.
  The macros become functions on 64-bit words; the ones that read memory take the store.
\<close>

section \<open>Longs and blocks\<close>

definition Is_long :: "u64 \<Rightarrow> bool" where
  "Is_long x = (x AND 1 \<noteq> 0)"

definition Is_block :: "u64 \<Rightarrow> bool" where
  "Is_block x = (x AND 1 = 0)"

definition Val_long :: "u64 \<Rightarrow> u64" where
  "Val_long x = push_bit 1 x + 1"

definition Long_val :: "u64 \<Rightarrow> u64" where
  "Long_val x = signed_drop_bit 1 x"

definition Max_long :: u64 where
  "Max_long = push_bit 62 1 - 1"

definition Min_long :: u64 where
  "Min_long = - push_bit 62 1"

definition Val_int :: "u32 \<Rightarrow> u64" where
  "Val_int x = Val_long (scast x)"

definition Int_val :: "u64 \<Rightarrow> u32" where
  "Int_val x = ucast (Long_val x)"

definition Unsigned_long_val :: "u64 \<Rightarrow> u64" where
  "Unsigned_long_val x = drop_bit 1 x"

definition Val_unit :: u64 where
  "Val_unit = Val_int 0"

definition Val_false :: u64 where
  "Val_false = Val_int 0"

definition Val_true :: u64 where
  "Val_true = Val_int 1"

definition Val_bool :: "bool \<Rightarrow> u64" where
  "Val_bool b = Val_int (if b then 1 else 0)"

definition Val_not :: "u64 \<Rightarrow> u64" where
  "Val_not x = Val_false + Val_true - x"

section \<open>Encoded exception results\<close>

definition Make_exception_result :: "u64 \<Rightarrow> u64" where
  "Make_exception_result v = v OR 2"

definition Is_exception_result :: "u64 \<Rightarrow> bool" where
  "Is_exception_result v = (v AND 3 = 2)"

definition Extract_exception :: "u64 \<Rightarrow> u64" where
  "Extract_exception v = v AND NOT 3"

section \<open>Headers\<close>

definition Caml_white :: u64 where "Caml_white = push_bit 8 0"
definition Caml_gray :: u64 where "Caml_gray = push_bit 8 1"
definition Caml_blue :: u64 where "Caml_blue = push_bit 8 2"
definition Caml_black :: u64 where "Caml_black = push_bit 8 3"

definition Tag_hd :: "u64 \<Rightarrow> u32" where
  "Tag_hd h = ucast (h AND 0xFF)"

definition Wosize_hd :: "u64 \<Rightarrow> u64" where
  "Wosize_hd h = drop_bit 10 h"

definition Color_hd :: "u64 \<Rightarrow> u64" where
  "Color_hd h = h AND Caml_black"

definition Make_header :: "u64 \<Rightarrow> u32 \<Rightarrow> u64 \<Rightarrow> u64" where
  "Make_header wosize tag color = push_bit 10 wosize + color + ucast tag"

definition Whitehd_hd :: "u64 \<Rightarrow> u64" where
  "Whitehd_hd h = h AND NOT Caml_black"

definition Grayhd_hd :: "u64 \<Rightarrow> u64" where
  "Grayhd_hd h = (h AND NOT Caml_black) OR Caml_gray"

definition Blackhd_hd :: "u64 \<Rightarrow> u64" where
  "Blackhd_hd h = h OR Caml_black"

definition Bluehd_hd :: "u64 \<Rightarrow> u64" where
  "Bluehd_hd h = (h AND NOT Caml_black) OR Caml_blue"

definition Is_white_hd :: "u64 \<Rightarrow> bool" where
  "Is_white_hd h = (Color_hd h = Caml_white)"

definition Whsize_wosize :: "u64 \<Rightarrow> u64" where
  "Whsize_wosize sz = sz + 1"

definition Bsize_wsize :: "u64 \<Rightarrow> u64" where
  "Bsize_wsize sz = sz * 8"

definition Bhsize_wosize :: "u64 \<Rightarrow> u64" where
  "Bhsize_wosize sz = Bsize_wsize (Whsize_wosize sz)"

definition Bosize_hd :: "u64 \<Rightarrow> u64" where
  "Bosize_hd h = Bsize_wsize (Wosize_hd h)"

definition Infix_offset_hd :: "u64 \<Rightarrow> u64" where
  "Infix_offset_hd h = Bosize_hd h"

text \<open>Tags and sizes fixed by the header file (\<open>Max_young_wosize\<close> is in \<open>config.h\<close>).\<close>

definition No_scan_tag :: u32 where "No_scan_tag = 251"
definition Forward_tag :: u32 where "Forward_tag = 250"
definition Infix_tag :: u32 where "Infix_tag = 249"
definition Object_tag :: u32 where "Object_tag = 248"
definition Closure_tag :: u32 where "Closure_tag = 247"
definition Lazy_tag :: u32 where "Lazy_tag = 246"
definition Abstract_tag :: u32 where "Abstract_tag = 251"
definition String_tag :: u32 where "String_tag = 252"
definition Double_tag :: u32 where "Double_tag = 253"
definition Double_array_tag :: u32 where "Double_array_tag = 254"
definition Custom_tag :: u32 where "Custom_tag = 255"
definition Double_wosize :: u64 where "Double_wosize = 1"
definition Max_young_wosize :: u64 where "Max_young_wosize = 256"

section \<open>Access through the store\<close>

text \<open>Byte \<open>i\<close> of a little-endian cell, and the byte at an arbitrary address.\<close>

definition cell_of :: "u64 \<Rightarrow> u64" where
  "cell_of a = a AND NOT 7"

definition byte_pos :: "u64 \<Rightarrow> nat" where
  "byte_pos a = 8 * unat (a AND 7)"

definition load_byte :: "store \<Rightarrow> u64 \<Rightarrow> u8" where
  "load_byte m a = ucast (drop_bit (byte_pos a) (m (cell_of a)))"

definition store_byte :: "u64 \<Rightarrow> u8 \<Rightarrow> store \<Rightarrow> store" where
  "store_byte a b m = m(cell_of a :=
     (m (cell_of a) AND NOT (push_bit (byte_pos a) 0xFF)) OR push_bit (byte_pos a) (ucast b))"

definition Field :: "store \<Rightarrow> u64 \<Rightarrow> u64 \<Rightarrow> u64" where
  "Field m v i = m (v + 8 * i)"

definition set_Field :: "u64 \<Rightarrow> u64 \<Rightarrow> u64 \<Rightarrow> store \<Rightarrow> store" where
  "set_Field v i x m = m(v + 8 * i := x)"

definition Hp_val :: "u64 \<Rightarrow> u64" where
  "Hp_val v = v - 8"

definition Val_hp :: "u64 \<Rightarrow> u64" where
  "Val_hp hp = hp + 8"

definition Hd_val :: "store \<Rightarrow> u64 \<Rightarrow> u64" where
  "Hd_val m v = m (v - 8)"

definition Wosize_val :: "store \<Rightarrow> u64 \<Rightarrow> u64" where
  "Wosize_val m v = Wosize_hd (Hd_val m v)"

definition Tag_val :: "store \<Rightarrow> u64 \<Rightarrow> u32" where
  "Tag_val m v = ucast (load_byte m (v - 8))"

definition Infix_offset_val :: "store \<Rightarrow> u64 \<Rightarrow> u64" where
  "Infix_offset_val m v = Infix_offset_hd (Hd_val m v)"

definition Byte_u :: "store \<Rightarrow> u64 \<Rightarrow> u64 \<Rightarrow> u8" where
  "Byte_u m v i = load_byte m (v + i)"

definition set_Byte :: "u64 \<Rightarrow> u64 \<Rightarrow> u8 \<Rightarrow> store \<Rightarrow> store" where
  "set_Byte v i b m = store_byte (v + i) b m"

section \<open>Tagged integers\<close>

text \<open>The mathematical integer a tagged word stands for, and 63-bit wrap-around.\<close>

definition ocaml_int :: "u64 \<Rightarrow> int" where
  "ocaml_int v = sint (Long_val v)"

definition wrap63 :: "int \<Rightarrow> int" where
  "wrap63 k = signed_take_bit 62 k"

lemma Is_long_iff_bit: "Is_long x = bit x 0"
  by (simp add: Is_long_def and_1_neq_0_iff)

lemma Is_block_iff: "Is_block x = (\<not> Is_long x)"
  by (simp add: Is_long_def Is_block_def)

lemma Is_long_odd: "Is_long x = odd (sint x)"
  by (simp add: Is_long_iff_bit bit_0_odd_sint)

lemma Val_long_alt: "Val_long x = 2 * x + 1"
  by (simp add: Val_long_def push_bit_eq_mult)

lemma Val_long_word_of_int: "Val_long x = word_of_int (2 * sint x + 1)"
  by (simp add: Val_long_alt)

lemma ocaml_int_alt: "ocaml_int v = sint v div 2"
  by (simp add: ocaml_int_def Long_val_def sint_signed_drop_bit_eq drop_bit_eq_div)

lemma sint_word_of_int64: "sint (word_of_int j :: u64) = signed_take_bit 63 j"
  by (simp only: signed_of_int) simp

lemma ocaml_int_of_odd: "ocaml_int (word_of_int (2 * k + 1)) = wrap63 k"
proof -
  have "drop_bit 1 (signed_take_bit (1 + 62) (2 * k + 1)) = signed_take_bit 62 (drop_bit 1 (2 * k + 1))"
    by (rule drop_bit_signed_take_bit)
  then show ?thesis
    by (simp only: ocaml_int_alt wrap63_def sint_word_of_int64) (simp add: drop_bit_eq_div)
qed

lemma Is_long_of_odd: "Is_long (word_of_int (2 * k + 1))"
proof -
  have "bit (signed_take_bit 63 (2 * k + 1)) 0 = bit (2 * k + 1) 0"
    by (simp only: bit_signed_take_bit_iff) simp
  then show ?thesis
    by (simp only: Is_long_odd sint_word_of_int64) (simp add: bit_0)
qed

lemma Is_long_Val_long [simp]: "Is_long (Val_long x)"
  by (simp only: Val_long_word_of_int Is_long_of_odd)

lemma ocaml_int_Val_long: "ocaml_int (Val_long x) = wrap63 (sint x)"
  by (simp only: Val_long_word_of_int ocaml_int_of_odd)

lemma wrap63_id: "- (2 ^ 62) \<le> k \<Longrightarrow> k < 2 ^ 62 \<Longrightarrow> wrap63 k = k"
  by (simp add: wrap63_def signed_take_bit_int_eq_self_iff)

lemma wrap63_range: "- (2 ^ 62) \<le> wrap63 k \<and> wrap63 k < 2 ^ 62"
  using signed_take_bit_int_greater_eq_minus_exp [of 62 k] signed_take_bit_int_less_exp [of 62 k]
  by (simp add: wrap63_def)

lemma Is_long_repr: "Is_long v \<Longrightarrow> v = word_of_int (2 * ocaml_int v + 1)"
proof -
  assume "Is_long v"
  then have "2 * ocaml_int v + 1 = sint v"
    by (simp add: ocaml_int_alt Is_long_odd)
  then show ?thesis by (simp only: of_int_sint scast_id)
qed

lemma ocaml_int_range: "- (2 ^ 62) \<le> ocaml_int v \<and> ocaml_int v < 2 ^ 62"
  using sint_range64 [of v] by (auto simp: ocaml_int_alt)

lemma wrap63_ocaml_int [simp]: "wrap63 (ocaml_int v) = ocaml_int v"
  using ocaml_int_range [of v] by (simp add: wrap63_id)

lemma ocaml_int_inject: "Is_long v \<Longrightarrow> Is_long w \<Longrightarrow> ocaml_int v = ocaml_int w \<longleftrightarrow> v = w"
  using Is_long_repr [of v] Is_long_repr [of w] by metis

lemma Val_long_Long_val: "Is_long v \<Longrightarrow> Val_long (Long_val v) = v"
  by (simp only: Val_long_word_of_int ocaml_int_def [symmetric] Is_long_repr [symmetric])

lemma Long_val_Val_long:
  "- (2 ^ 62) \<le> sint x \<Longrightarrow> sint x < 2 ^ 62 \<Longrightarrow> Long_val (Val_long x) = x"
  using ocaml_int_Val_long [of x]
  by (intro sint_eqD) (simp only: ocaml_int_def wrap63_id)

section \<open>Header fields\<close>

lemma Caml_black_val: "Caml_black = 768" and Caml_gray_val: "Caml_gray = 256"
  and Caml_blue_val: "Caml_blue = 512" and Caml_white_val: "Caml_white = 0"
  by (simp_all add: Caml_black_def Caml_gray_def Caml_blue_def Caml_white_def)

lemmas Caml_color_vals = Caml_black_val Caml_gray_val Caml_blue_val Caml_white_val

lemma bit_768: "bit (768 :: u64) n \<longleftrightarrow> n = 8 \<or> n = 9"
  by auto

lemma tag_bits: "bit (ucast (t :: u32) :: u64) n = bit t n"
  by (rule bit_ucast_le) simp

lemma Make_header_or:
  assumes "unat t < 256" and "color AND 768 = color"
  shows "Make_header w t color = push_bit 10 w OR color OR ucast t"
proof -
  have c: "bit color n \<Longrightarrow> n = 8 \<or> n = 9" for n
    using assms(2) by (metis bit_768 bit_and_iff)
  have t: "bit t n \<Longrightarrow> n < 8" for n
    using bit_small_word [of t 8 n] assms(1) by simp
  have "push_bit 10 w + color = push_bit 10 w OR color"
    by (rule disjunctive_add) (auto simp: bit_push_bit_iff dest: c)
  moreover have "(push_bit 10 w OR color) + ucast t = (push_bit 10 w OR color) OR ucast t"
    by (rule disjunctive_add) (use t c in \<open>fastforce simp: bit_push_bit_iff bit_or_iff tag_bits\<close>)
  ultimately show ?thesis by (simp add: Make_header_def or.assoc)
qed

lemma bit_Make_header:
  assumes "unat t < 256" and "color AND 768 = color"
  shows "bit (Make_header w t color) n \<longleftrightarrow> n < 64 \<and>
    (if n < 8 then bit t n else if n < 10 then bit color n else bit w (n - 10))"
proof -
  have c: "bit color n \<Longrightarrow> n = 8 \<or> n = 9"
    using assms(2) by (metis bit_768 bit_and_iff)
  have t: "bit t n \<Longrightarrow> n < 8"
    using bit_small_word [of t 8 n] assms(1) by simp
  show ?thesis
    using bit_imp_le_length [of color n] c t
    by (auto simp: Make_header_or [OF assms] bit_or_iff bit_push_bit_iff tag_bits)
qed

lemma Wosize_Make_header:
  assumes "unat w < 2 ^ 54" and "unat t < 256" and "color AND 768 = color"
  shows "Wosize_hd (Make_header w t color) = w"
proof (rule bit_word_eqI)
  fix n assume "n < LENGTH(64)"
  then show "bit (Wosize_hd (Make_header w t color)) n = bit w n"
    using bit_small_word [OF assms(1), of n]
    by (auto simp: Wosize_hd_def bit_drop_bit_eq bit_Make_header [OF assms(2,3)])
qed

lemma bit_Tag_hd: "bit (Tag_hd h) n \<longleftrightarrow> n < 8 \<and> bit h n"
  by (auto simp: Tag_hd_def bit_ucast_iff bit_and_iff)

lemma Tag_Make_header:
  assumes "unat t < 256" and "color AND 768 = color"
  shows "Tag_hd (Make_header w t color) = t"
proof (rule bit_word_eqI)
  fix n assume "n < LENGTH(32)"
  then show "bit (Tag_hd (Make_header w t color)) n = bit t n"
    using bit_small_word [of t 8 n] assms(1)
    by (auto simp: bit_Tag_hd bit_Make_header [OF assms])
qed

lemma Color_Make_header:
  assumes "unat t < 256" and "color AND 768 = color"
  shows "Color_hd (Make_header w t color) = color"
proof (rule bit_word_eqI)
  fix n assume "n < LENGTH(64)"
  have "bit color n \<Longrightarrow> n = 8 \<or> n = 9"
    using assms(2) by (metis bit_768 bit_and_iff)
  with \<open>n < LENGTH(64)\<close> show "bit (Color_hd (Make_header w t color)) n = bit color n"
    by (auto simp: Color_hd_def Caml_black_val bit_and_iff bit_768 bit_Make_header [OF assms])
qed

text \<open>Recolouring keeps size and tag: the collectors only move a block between colours.\<close>

definition recolour :: "u64 \<Rightarrow> u64 \<Rightarrow> u64" where
  "recolour c h = (h AND NOT Caml_black) OR c"

lemma recolour_eqs:
  "Whitehd_hd = recolour Caml_white" "Grayhd_hd = recolour Caml_gray"
  "Blackhd_hd = recolour Caml_black" "Bluehd_hd = recolour Caml_blue"
  by (auto simp: fun_eq_iff recolour_def Whitehd_hd_def Grayhd_hd_def Blackhd_hd_def
      Bluehd_hd_def Caml_white_val intro!: bit_word_eqI simp: bit_simps)

lemma bit_recolour:
  assumes "c AND 768 = c"
  shows "bit (recolour c h) n \<longleftrightarrow> (if n = 8 \<or> n = 9 then bit c n else bit h n)"
proof -
  have "bit c n \<Longrightarrow> n = 8 \<or> n = 9"
    using assms by (metis bit_768 bit_and_iff)
  then show ?thesis
    using bit_imp_le_length [of h n]
    by (auto simp: recolour_def Caml_black_val bit_or_iff bit_and_iff bit_not_iff)
qed

lemma recolour_fields:
  assumes "c AND 768 = c"
  shows "Wosize_hd (recolour c h) = Wosize_hd h" "Tag_hd (recolour c h) = Tag_hd h"
    "Color_hd (recolour c h) = c"
proof -
  have c: "bit c n \<Longrightarrow> n = 8 \<or> n = 9" for n
    using assms by (metis bit_768 bit_and_iff)
  show "Wosize_hd (recolour c h) = Wosize_hd h"
    by (rule bit_word_eqI) (simp add: Wosize_hd_def bit_drop_bit_eq bit_recolour [OF assms])
  show "Tag_hd (recolour c h) = Tag_hd h"
    by (rule bit_word_eqI) (simp add: bit_Tag_hd bit_recolour [OF assms])
  show "Color_hd (recolour c h) = c"
    by (rule bit_word_eqI)
       (use c in \<open>auto simp: Color_hd_def Caml_black_val bit_and_iff bit_recolour [OF assms]\<close>)
qed

section \<open>Addresses, fields and bytes\<close>

definition aligned :: "u64 \<Rightarrow> bool" where
  "aligned a = (a AND 7 = 0)"

lemma bit_cell_of: "bit (cell_of a) n \<longleftrightarrow> 3 \<le> n \<and> bit a n"
  using bit_imp_le_length [of a n] by (auto simp: cell_of_def bit_and_iff bit_not_iff)

lemma aligned_iff_bits: "aligned a \<longleftrightarrow> (\<forall>n < 3. \<not> bit a n)"
proof
  assume al: "aligned a"
  show "\<forall>n < 3. \<not> bit a n"
  proof (intro allI impI)
    fix n :: nat
    assume "n < 3"
    moreover have "\<not> bit (a AND 7) n"
      using al by (simp add: aligned_def)
    ultimately show "\<not> bit a n"
      by (simp add: bit_and_iff)
  qed
next
  assume "\<forall>n < 3. \<not> bit a n"
  then show "aligned a"
    unfolding aligned_def by (intro bit_word_eqI) (auto simp: bit_and_iff)
qed

lemma cell_of_aligned: "aligned a \<Longrightarrow> cell_of a = a"
  by (rule bit_word_eqI) (auto simp: bit_cell_of aligned_iff_bits not_less)

lemma aligned_cell_of: "aligned (cell_of a)"
  by (simp add: aligned_iff_bits bit_cell_of)

lemma aligned_Is_block: "aligned a \<Longrightarrow> Is_block a"
  by (simp add: aligned_iff_bits Is_block_iff Is_long_iff_bit)

lemma aligned_iff_dvd: "aligned a \<longleftrightarrow> 8 dvd unat a"
proof -
  have "(7 :: u64) = mask 3" by (simp add: mask_eq_exp_minus_1)
  then have "a AND 7 = take_bit 3 a"
    by (simp only: take_bit_eq_mask)
  then have "unat (a AND 7) = take_bit 3 (unat a)"
    by (simp only: unsigned_take_bit_eq)
  then have "unat (a AND 7) = unat a mod 8"
    by (simp only: take_bit_eq_mod) simp
  then show ?thesis
    by (metis aligned_def dvd_eq_mod_eq_0 unat_0 unsigned_eq_0_iff)
qed

lemma aligned_add: "aligned a \<Longrightarrow> aligned b \<Longrightarrow> aligned (a + b)"
  unfolding aligned_iff_dvd unat_word_ariths
  by (rule dvd_mod) (simp_all add: dvd_add)

lemma aligned_mult8: "aligned (8 * x)"
  unfolding aligned_iff_dvd unat_word_ariths
  by (rule dvd_mod) simp_all

lemma aligned_minus8 [simp]: "aligned (a - 8) = aligned a"
proof
  have n8: "aligned (- 8)" and p8: "aligned 8"
    by (simp_all add: aligned_def)
  show "aligned (a - 8) \<Longrightarrow> aligned a"
    using aligned_add [of "a - 8" 8] p8 by simp
  show "aligned a \<Longrightarrow> aligned (a - 8)"
    using aligned_add [of a "- 8"] n8 by simp
qed

lemma Tag_val_aligned:
  assumes "aligned v"
  shows "Tag_val m v = Tag_hd (Hd_val m v)"
proof -
  have a: "aligned (v - 8)" using assms by simp
  then have p: "byte_pos (v - 8) = 0"
    by (simp add: byte_pos_def aligned_def)
  show ?thesis
    by (rule bit_word_eqI)
       (auto simp: Tag_val_def load_byte_def Hd_val_def cell_of_aligned [OF a] p
          bit_ucast_iff bit_Tag_hd)
qed

end
