(* ===== verification/Caml_State.thy ===== *)
theory Caml_State
  imports Mlvalues
begin

text \<open>
  The runtime state shared by the interpreter and the JIT support code: the fields of
  \<open>Caml_state\<close> (\<^verbatim>\<open>runtime/caml/domain_state.tbl\<close>) and the globals they use, the tables of
  the minor collector (\<^verbatim>\<open>runtime/minor_gc.c\<close>), \<open>caml_darken\<close> (\<^verbatim>\<open>runtime/major_gc.c\<close>), the
  write barrier (\<open>caml_initialize\<close>, \<open>caml_modify\<close> of \<^verbatim>\<open>runtime/memory.c\<close>) and the inline
  allocator \<open>Alloc_small\<close> (\<^verbatim>\<open>runtime/caml/memory.h\<close>).

  What these operations call and this development does not open (the collection itself,
  the major-heap allocator, the signal and finaliser machinery, the debugger, the C
  primitives, IEEE arithmetic on the bit patterns of doubles) is a record of parameters, \<open>rt\<close>.
\<close>

section \<open>State\<close>

datatype gc_phase_t = Phase_mark | Phase_clean | Phase_sweep | Phase_idle

text \<open>
  \<open>CAML_TABLE_STRUCT\<close>: the entries between \<open>base\<close> and \<open>ptr\<close>; the other pointers are
  kept as numbers of entries from \<open>base\<close>.
\<close>

record 'e generic_table =
  tbl_allocated :: bool
  tbl_entries :: "'e list"
  tbl_threshold :: nat
  tbl_limit :: nat
  tbl_end :: nat
  tbl_size :: nat
  tbl_reserve :: nat

record ephe_ref_elt =
  ephe :: u64
  offset :: u64

record custom_elt =
  custom_block :: u64
  custom_mem :: u64
  custom_max :: u64

text \<open>
  \<open>c_roots\<close> holds the values that the C functions now running have registered with
  \<open>CAMLparam\<close> and \<open>CAMLlocal\<close>, the most recent first: a collection that moves blocks updates
  them there.
\<close>

record caml_state =
  mem :: store
  young_ptr :: u64
  young_limit :: u64
  young_start :: u64
  young_end :: u64
  young_alloc_start :: u64
  young_alloc_mid :: u64
  young_alloc_end :: u64
  young_trigger :: u64
  caml_memprof_young_trigger :: u64
  minor_heap_wsz :: u64
  requested_major_slice :: bool
  requested_minor_gc :: bool
  ref_table :: "u64 generic_table"
  custom_table :: "custom_elt generic_table"
  extra_heap_resources_minor :: u64
  caml_extra_heap_resources :: u64
  c_roots :: "u64 list"
  stack_low :: u64
  stack_high :: u64
  stack_threshold :: u64
  extern_sp :: u64
  trapsp :: u64
  trap_barrier :: u64
  caml_max_stack_size :: u64
  exn_bucket :: u64
  backtrace_active :: bool
  local_roots :: u64
  external_raise :: u64
  caml_gc_phase :: gc_phase_t
  gray_vals :: "u64 list"
  gray_vals_size :: nat
  heap_is_pure :: bool
  stat_heap_wsz :: nat
  ephe_list_pure :: bool
  in_heap :: "u64 \<Rightarrow> bool"
  caml_something_to_do :: bool
  caml_callback_depth :: u64
  caml_event_count :: u64
  caml_global_data :: u64
  caml_atom_table :: u64

text \<open>Registers the JIT hands to its C helpers (\<open>struct jit_state\<close>), and the interpreter's.\<close>

record jit_state = caml_state +
  accu :: u64
  env :: u64
  sp :: u64
  extra_args :: u64

record machine = jit_state +
  pc :: u64
  code :: "u64 \<Rightarrow> u32"

text \<open>A runtime call works on the shared part of the state and leaves the registers alone.\<close>

definition on_cs :: "(caml_state \<Rightarrow> ('r, caml_state) cres) \<Rightarrow>
    'a caml_state_scheme \<Rightarrow> ('r, 'a caml_state_scheme) cres" where
  "on_cs f s =
    map_cres id (\<lambda>c. caml_state.extend c (caml_state.more s)) (f (caml_state.truncate s))"

definition upd_cs :: "(caml_state \<Rightarrow> caml_state) \<Rightarrow> 'a caml_state_scheme \<Rightarrow>
    'a caml_state_scheme" where
  "upd_cs f s = caml_state.extend (f (caml_state.truncate s)) (caml_state.more s)"

section \<open>Parameters: the parts of the runtime that are called but not modelled here\<close>

datatype debug_event = EVENT_COUNT | BREAKPOINT | TRAP_BARRIER

record rt =
  rt_alloc_small_dispatch :: "u64 \<Rightarrow> caml_state \<Rightarrow> (unit, caml_state) cres"
  rt_alloc_shr :: "u64 \<Rightarrow> u32 \<Rightarrow> caml_state \<Rightarrow> (u64, caml_state) cres"
  rt_process_pending_actions :: "caml_state \<Rightarrow> (unit, caml_state) cres"
  rt_primitive :: "u32 \<Rightarrow> u64 list \<Rightarrow> caml_state \<Rightarrow> (u64, caml_state) cres"
  rt_primitive_n :: "u32 \<Rightarrow> u64 \<Rightarrow> u32 \<Rightarrow> caml_state \<Rightarrow> (u64, caml_state) cres"
  rt_raise_zero_divide :: "caml_state \<Rightarrow> (unit, caml_state) cres"
  rt_raise_stack_overflow :: "caml_state \<Rightarrow> (unit, caml_state) cres"
  rt_stash_backtrace :: "u64 \<Rightarrow> u64 \<Rightarrow> bool \<Rightarrow> caml_state \<Rightarrow> caml_state"
  rt_debugger :: "debug_event \<Rightarrow> caml_state \<Rightarrow> caml_state"
  rt_saved_instruction :: "u64 \<Rightarrow> u32"
  rt_stat_alloc :: "u64 \<Rightarrow> caml_state \<Rightarrow> (u64, caml_state) cres"
  rt_table_alloc_ok :: "nat \<Rightarrow> bool"
  rt_empty_minor_heap :: "caml_state \<Rightarrow> (unit, caml_state) cres"
  rt_major_collection_slice :: "caml_state \<Rightarrow> (unit, caml_state) cres"
  rt_process_signals_exn :: "caml_state \<Rightarrow> (u64, caml_state) cres"
  rt_memprof_postponed_exn :: "caml_state \<Rightarrow> (u64, caml_state) cres"
  rt_final_do_calls_exn :: "caml_state \<Rightarrow> (u64, caml_state) cres"
  rt_memprof_track_young :: "u64 \<Rightarrow> bool \<Rightarrow> caml_state \<Rightarrow> (unit, caml_state) cres"
  rt_memprof_renew_minor_sample :: "caml_state \<Rightarrow> caml_state"
  rt_failwith :: "string \<Rightarrow> caml_state \<Rightarrow> (unit, caml_state) cres"
  rt_invalid_argument :: "string \<Rightarrow> caml_state \<Rightarrow> (unit, caml_state) cres"
  rt_array_bound_error :: "caml_state \<Rightarrow> (unit, caml_state) cres"
  rt_raise_out_of_memory :: "caml_state \<Rightarrow> (unit, caml_state) cres"
  rt_in_static_data :: "u64 \<Rightarrow> bool"
  rt_int32_ops :: u64
  rt_int64_ops :: u64
  rt_nativeint_ops :: u64
  rt_f_of_u64 :: "u64 \<Rightarrow> u64"
  rt_f_add :: "u64 \<Rightarrow> u64 \<Rightarrow> u64"
  rt_f_div :: "u64 \<Rightarrow> u64 \<Rightarrow> u64"
  rt_f_gt :: "u64 \<Rightarrow> u64 \<Rightarrow> bool"

section \<open>Tables of the minor collector\<close>

definition alloc_generic_table :: "(nat \<Rightarrow> bool) \<Rightarrow> nat \<Rightarrow> nat \<Rightarrow> nat \<Rightarrow>
    string + 'e generic_table" where
  "alloc_generic_table ok sz rsv element_size =
    (if \<not> ok ((sz + rsv) * element_size) then Inl ''not enough memory''
     else Inr \<lparr>tbl_allocated = True, tbl_entries = [], tbl_threshold = sz, tbl_limit = sz,
               tbl_end = sz + rsv, tbl_size = sz, tbl_reserve = rsv\<rparr>)"

definition reset_table :: "'e generic_table \<Rightarrow> 'e generic_table" where
  "reset_table tbl = \<lparr>tbl_allocated = False, tbl_entries = [], tbl_threshold = 0,
     tbl_limit = 0, tbl_end = 0, tbl_size = 0, tbl_reserve = 0\<rparr>"

definition clear_table :: "'e generic_table \<Rightarrow> 'e generic_table" where
  "clear_table tbl = tbl\<lparr>tbl_entries := [], tbl_limit := tbl_threshold tbl\<rparr>"

text \<open>
  \<open>realloc_generic_table\<close> returns the table and whether it asked for a minor collection
  (\<open>caml_request_minor_gc\<close>).
\<close>

definition realloc_generic_table :: "(nat \<Rightarrow> bool) \<Rightarrow> nat \<Rightarrow> nat \<Rightarrow> string \<Rightarrow>
    'e generic_table \<Rightarrow> string + ('e generic_table \<times> bool)" where
  "realloc_generic_table ok heap_wsz element_size msg_error tbl =
    (if \<not> tbl_allocated tbl then
       map_sum id (\<lambda>t. (t, False)) (alloc_generic_table ok (heap_wsz div 8) 256 element_size)
     else if tbl_limit tbl = tbl_threshold tbl then
       Inr (tbl\<lparr>tbl_limit := tbl_end tbl\<rparr>, True)
     else
       (let size' = tbl_size tbl * 2
        in if \<not> ok ((size' + tbl_reserve tbl) * element_size) then Inl msg_error
           else Inr (tbl\<lparr>tbl_size := size', tbl_end := size' + tbl_reserve tbl,
                         tbl_threshold := size', tbl_limit := size' + tbl_reserve tbl\<rparr>, False)))"

definition add_to_table :: "(nat \<Rightarrow> bool) \<Rightarrow> nat \<Rightarrow> nat \<Rightarrow> string \<Rightarrow> 'e \<Rightarrow>
    'e generic_table \<Rightarrow> string + ('e generic_table \<times> bool)" where
  "add_to_table ok heap_wsz element_size msg_error e tbl =
    map_sum id (\<lambda>(t, req). (t\<lparr>tbl_entries := tbl_entries t @ [e]\<rparr>, req))
      (if tbl_limit tbl \<le> length (tbl_entries tbl)
       then realloc_generic_table ok heap_wsz element_size msg_error tbl
       else Inr (tbl, False))"

section \<open>Requests to the collector\<close>

definition caml_set_action_pending :: "'a caml_state_scheme \<Rightarrow> 'a caml_state_scheme" where
  "caml_set_action_pending s = s\<lparr>caml_something_to_do := True, young_limit := young_alloc_end s\<rparr>"

definition caml_update_young_limit :: "'a caml_state_scheme \<Rightarrow> 'a caml_state_scheme" where
  "caml_update_young_limit s =
    s\<lparr>young_limit :=
        (if caml_something_to_do s then young_alloc_end s
         else if caml_memprof_young_trigger s < young_trigger s then young_trigger s
         else caml_memprof_young_trigger s)\<rparr>"

definition caml_request_major_slice :: "'a caml_state_scheme \<Rightarrow> 'a caml_state_scheme" where
  "caml_request_major_slice s = caml_set_action_pending (s\<lparr>requested_major_slice := True\<rparr>)"

definition caml_request_minor_gc :: "'a caml_state_scheme \<Rightarrow> 'a caml_state_scheme" where
  "caml_request_minor_gc s = caml_set_action_pending (s\<lparr>requested_minor_gc := True\<rparr>)"

definition add_to_ref_table :: "rt \<Rightarrow> u64 \<Rightarrow> 'a caml_state_scheme \<Rightarrow>
    (unit, 'a caml_state_scheme) cres" where
  "add_to_ref_table rt p s =
    (case add_to_table (rt_table_alloc_ok rt) (unat (minor_heap_wsz s)) 8
        ''ref_table overflow'' p (ref_table s) of
       Inl e \<Rightarrow> Fatal e
     | Inr (t, req) \<Rightarrow>
         Ret () ((if req then caml_request_minor_gc s else s)\<lparr>ref_table := t\<rparr>))"

section \<open>Address classes, darkening and the write barrier\<close>

definition Is_young :: "'a caml_state_scheme \<Rightarrow> u64 \<Rightarrow> bool" where
  "Is_young s v = (v < young_end s \<and> young_start s < v)"

definition Is_in_heap :: "'a caml_state_scheme \<Rightarrow> u64 \<Rightarrow> bool" where
  "Is_in_heap s v = in_heap s v"

definition store_at :: "u64 \<Rightarrow> u64 \<Rightarrow> 'a caml_state_scheme \<Rightarrow> 'a caml_state_scheme" where
  "store_at a x s = s\<lparr>mem := (mem s)(a := x)\<rparr>"

text \<open>
  The grey stack of the marking phase: the entries below \<open>gray_vals_cur\<close>, the most recent
  last. When it is full it doubles, or, past its limit or out of memory, gives up entries and
  marks the heap impure, so that the marker will rescan it.
\<close>

definition realloc_gray_vals :: "rt \<Rightarrow> 'a caml_state_scheme \<Rightarrow> 'a caml_state_scheme" where
  "realloc_gray_vals rt s =
    (if gray_vals_size s < stat_heap_wsz s div 32 then
       (if \<not> rt_table_alloc_ok rt (2 * gray_vals_size s * 8)
        then s\<lparr>gray_vals := [], heap_is_pure := False\<rparr>
        else s\<lparr>gray_vals_size := gray_vals_size s * 2\<rparr>)
     else s\<lparr>gray_vals := take (gray_vals_size s div 2) (gray_vals s), heap_is_pure := False\<rparr>)"

definition caml_darken :: "rt \<Rightarrow> u64 \<Rightarrow> 'a caml_state_scheme \<Rightarrow> 'a caml_state_scheme" where
  "caml_darken rt v s =
    (if Is_block v \<and> Is_in_heap s v then
       (let h0 = Hd_val (mem s) v;
            v' = (if Tag_hd h0 = Infix_tag then v - Infix_offset_val (mem s) v else v);
            h = Hd_val (mem s) v';
            t = Tag_hd h
        in if Is_white_hd h then
             (let s1 = s\<lparr>ephe_list_pure := False\<rparr>
              in if t < No_scan_tag
                 then (let s2 = (store_at (v' - 8) (Grayhd_hd h) s1)\<lparr>gray_vals := gray_vals s1 @ [v']\<rparr>
                       in if gray_vals_size s2 \<le> length (gray_vals s2)
                          then realloc_gray_vals rt s2 else s2)
                 else store_at (v' - 8) (Blackhd_hd h) s1)
           else s)
     else s)"

definition caml_initialize :: "rt \<Rightarrow> u64 \<Rightarrow> u64 \<Rightarrow> 'a caml_state_scheme \<Rightarrow>
    (unit, 'a caml_state_scheme) cres" where
  "caml_initialize rt fp val s =
    (let s1 = store_at fp val s
     in if \<not> Is_young s1 fp \<and> Is_block val \<and> Is_young s1 val then add_to_ref_table rt fp s1
        else Ret () s1)"

definition caml_modify :: "rt \<Rightarrow> u64 \<Rightarrow> u64 \<Rightarrow> 'a caml_state_scheme \<Rightarrow>
    (unit, 'a caml_state_scheme) cres" where
  "caml_modify rt fp val s =
    (if Is_young s fp then Ret () (store_at fp val s)
     else
       (let old = mem s fp; s1 = store_at fp val s
        in if Is_block old \<and> Is_young s1 old then Ret () s1
           else
             (let s2 = (if Is_block old \<and> caml_gc_phase s1 = Phase_mark
                        then caml_darken rt old s1 else s1)
              in if Is_block val \<and> Is_young s2 val then add_to_ref_table rt fp s2
                 else Ret () s2)))"

section \<open>Allocation in the minor heap\<close>

text \<open>
  \<open>Setup_for_gc\<close> and \<open>Restore_after_gc\<close>. The two definitions of the macro (\<^verbatim>\<open>interp.c\<close> and
  \<^verbatim>\<open>jit_support.c\<close>) differ only in the third word of the frame: the interpreter saves its
  \<open>pc\<close>, the JIT helpers save \<open>Val_unit\<close>.
\<close>

definition Setup_for_gc :: "u64 \<Rightarrow> 'a jit_state_scheme \<Rightarrow> 'a jit_state_scheme" where
  "Setup_for_gc w s =
    (let sp' = sp s - 8 * 3
     in s\<lparr>sp := sp', mem := (mem s)(sp' := accu s, sp' + 8 := env s, sp' + 16 := w),
          extern_sp := sp'\<rparr>)"

definition Restore_after_gc :: "'a jit_state_scheme \<Rightarrow> 'a jit_state_scheme" where
  "Restore_after_gc s =
    (let sp' = extern_sp s
     in s\<lparr>accu := mem s sp', env := mem s (sp' + 8), sp := sp' + 8 * 3\<rparr>)"

text \<open>\<open>Alloc_small\<close>: the address of the new block is \<open>Val_hp\<close> of the final \<open>young_ptr\<close>.\<close>

definition Alloc_small :: "rt \<Rightarrow> u64 \<Rightarrow> u64 \<Rightarrow> u32 \<Rightarrow> 'a jit_state_scheme \<Rightarrow>
    (unit, 'a jit_state_scheme) cres" where
  "Alloc_small rt frame_word wosize tag s =
    (let s1 = s\<lparr>young_ptr := young_ptr s - 8 * Whsize_wosize wosize\<rparr>
     in cthen
          (if young_ptr s1 < young_limit s1
           then cthen (on_cs (rt_alloc_small_dispatch rt wosize) (Setup_for_gc frame_word s1))
                  Restore_after_gc
           else Ret () s1)
          (\<lambda>s3. store_at (young_ptr s3) (Make_header wosize tag Caml_white) s3))"

definition new_block :: "'a caml_state_scheme \<Rightarrow> u64" where
  "new_block s = Val_hp (young_ptr s)"

text \<open>\<open>caml_alloc_shr\<close>, which hands back the new block; it never runs the collector.\<close>

definition caml_alloc_shr :: "rt \<Rightarrow> u64 \<Rightarrow> u32 \<Rightarrow> 'a caml_state_scheme \<Rightarrow>
    (u64, 'a caml_state_scheme) cres" where
  "caml_alloc_shr rt wosize tag = on_cs (rt_alloc_shr rt wosize tag)"

section \<open>Lemmas\<close>

text \<open>With room in the minor heap the word saved for the collector plays no part.\<close>

definition young_room :: "u64 \<Rightarrow> 'a caml_state_scheme \<Rightarrow> bool" where
  "young_room wosize s = (young_limit s \<le> young_ptr s - 8 * Whsize_wosize wosize)"

lemma Alloc_small_room:
  "young_room wosize s \<Longrightarrow> Alloc_small rt w wosize tag s =
    Ret () (store_at (young_ptr s - 8 * Whsize_wosize wosize) (Make_header wosize tag Caml_white)
      (s\<lparr>young_ptr := young_ptr s - 8 * Whsize_wosize wosize\<rparr>))"
  by (auto simp: Alloc_small_def young_room_def Let_def)

lemma extend_truncate [simp]: "caml_state.extend (caml_state.truncate s) (caml_state.more s) = s"
  by (cases s) (simp add: caml_state.defs)

lemma on_cs_same: "f (caml_state.truncate s) = Ret r (caml_state.truncate s) \<Longrightarrow> on_cs f s = Ret r s"
  by (simp add: on_cs_def)

end
