(* ===== verification/Stacks.thy ===== *)
theory Stacks
  imports Caml_State
begin

text \<open>
  The bytecode stack (\<^verbatim>\<open>runtime/stacks.c\<close>): initialisation, growth, the limit, and the trap
  frames threaded through it. The stack grows downwards from \<open>stack_high\<close>; growing it copies
  the live part to a new area and moves the links of the trap frames with it.
\<close>

section \<open>Definitions\<close>

definition Stack_size :: u64 where "Stack_size = 4096 * 8"
definition Stack_threshold :: u64 where "Stack_threshold = 256 * 8"

definition Trap_pc :: "store \<Rightarrow> u64 \<Rightarrow> u64" where
  "Trap_pc m tp = m tp"

definition Trap_link :: "store \<Rightarrow> u64 \<Rightarrow> u64" where
  "Trap_link m tp = m (tp + 8)"

text \<open>Difference of two \<open>value\<close> pointers, in words.\<close>

definition ptr_diff :: "u64 \<Rightarrow> u64 \<Rightarrow> u64" where
  "ptr_diff p q = signed_drop_bit 3 (p - q)"

definition caml_init_stack :: "rt \<Rightarrow> u64 \<Rightarrow> 'a caml_state_scheme \<Rightarrow>
    (unit, 'a caml_state_scheme) cres" where
  "caml_init_stack rt initial_max_size s =
    cbind (on_cs (rt_stat_alloc rt Stack_size) s) (\<lambda>low s.
      (let high = low + 8 * (Stack_size div 8)
       in Ret () (s\<lparr>stack_low := low, stack_high := high,
            stack_threshold := low + 8 * (Stack_threshold div 8),
            extern_sp := high, trapsp := high, trap_barrier := high + 8,
            caml_max_stack_size := initial_max_size\<rparr>)))"

text \<open>
  The doubling loop of \<open>caml_realloc_stack\<close>: \<open>Some None\<close> is the exit through
  \<open>caml_raise_stack_overflow\<close>, and \<open>None\<close> a loop that never ends (a size of zero).
\<close>

partial_function (option) grow_size :: "u64 \<Rightarrow> u64 \<Rightarrow> u64 \<Rightarrow> u64 option option" where
  "grow_size max_size need sz =
    (if max_size \<le> sz then Some None
     else (let sz' = sz * 2
           in if sz' < need then grow_size max_size need sz' else Some (Some sz')))"

text \<open>The relocation loop over the trap frames, which stops at the first frame past the stack.\<close>

partial_function (option) shift_traps :: "u64 \<Rightarrow> u64 \<Rightarrow> u64 \<Rightarrow> store \<Rightarrow> store option" where
  "shift_traps delta new_high p m =
    (if p < new_high
     then (let m' = m(p + 8 := Trap_link m p + delta)
           in shift_traps delta new_high (Trap_link m' p) m')
     else Some m)"

definition caml_realloc_stack :: "rt \<Rightarrow> u64 \<Rightarrow> 'a caml_state_scheme \<Rightarrow>
    (unit, 'a caml_state_scheme) cres" where
  "caml_realloc_stack rt required_space s =
    (case grow_size (caml_max_stack_size s)
            (ptr_diff (stack_high s) (extern_sp s) + required_space)
            (ptr_diff (stack_high s) (stack_low s)) of
       None \<Rightarrow> Diverge
     | Some None \<Rightarrow> on_cs (rt_raise_stack_overflow rt) s
     | Some (Some sz) \<Rightarrow>
         cbind (on_cs (rt_stat_alloc rt (sz * 8)) s) (\<lambda>new_low s.
           (let new_high = new_low + 8 * sz;
                delta = new_high - stack_high s;
                new_sp = extern_sp s + delta;
                n = unat (ptr_diff (stack_high s) (extern_sp s));
                m1 = write_words new_sp (read_words (mem s) (extern_sp s) n) (mem s);
                trapsp' = trapsp s + delta
            in case shift_traps delta new_high trapsp' m1 of
                 None \<Rightarrow> Diverge
               | Some m2 \<Rightarrow>
                   Ret () (s\<lparr>mem := m2, trapsp := trapsp', trap_barrier := trap_barrier s + delta,
                     stack_low := new_low, stack_high := new_high,
                     stack_threshold := new_low + 8 * (Stack_threshold div 8),
                     extern_sp := new_sp\<rparr>))))"

definition caml_ensure_stack_capacity :: "rt \<Rightarrow> u64 \<Rightarrow> 'a caml_state_scheme \<Rightarrow>
    (u64, 'a caml_state_scheme) cres" where
  "caml_ensure_stack_capacity rt required_space s =
    (let req = Long_val required_space
     in cbind (if extern_sp s - 8 * req < stack_low s then caml_realloc_stack rt req s
               else Ret () s)
          (\<lambda>_ s. Ret Val_unit s))"

definition caml_change_max_stack_size :: "u64 \<Rightarrow> 'a caml_state_scheme \<Rightarrow>
    'a caml_state_scheme" where
  "caml_change_max_stack_size new_max_size s =
    (let sz = ptr_diff (stack_high s) (extern_sp s) + Stack_threshold div 8
     in s\<lparr>caml_max_stack_size := (if new_max_size < sz then sz else new_max_size)\<rparr>)"

definition caml_stack_usage :: "(caml_state \<Rightarrow> u64) option \<Rightarrow> 'a caml_state_scheme \<Rightarrow> u64" where
  "caml_stack_usage hook s =
    (let sz = ptr_diff (stack_high s) (extern_sp s)
     in case hook of None \<Rightarrow> sz | Some f \<Rightarrow> sz + f (caml_state.truncate s))"

end
