(* ===== verification/Interp.thy ===== *)
theory Interp
  imports Stacks "HOL-Library.Signed_Division"
begin

text \<open>
  The bytecode interpreter (\<^verbatim>\<open>runtime/interp.c\<close>, \<open>actual_caml_interprete\<close>), one definition
  per instruction or family of instructions that differ in a constant, in the order of the
  source, and the dispatch over the enumeration of \<^verbatim>\<open>runtime/caml/instruct.h\<close>.

  A handler runs with \<open>pc\<close> already past the opcode. It either goes to a label of the
  source (\<open>goto_label\<close>) or leaves through a runtime call (\<open>cres\<close>). The configuration is
  the one the JIT builds: \<open>USE_RUST_JIT\<close>, hence no threaded code and no method cache.
\<close>

section \<open>Registers and operands\<close>

datatype goto_label = Next | Check_stacks | Process_actions | Raise_notrace
  | Dispatch_instr u32 | Stop_instr

type_synonym handler = "rt \<Rightarrow> machine \<Rightarrow> (goto_label, machine) cres"

definition sext :: "u32 \<Rightarrow> u64" where
  "sext x = scast x"

text \<open>\<open>pc[k]\<close>, and \<open>pc + n\<close> for a signed displacement.\<close>

definition opnd :: "machine \<Rightarrow> u32" where
  "opnd s = code s (pc s)"

definition opnd_at :: "machine \<Rightarrow> u64 \<Rightarrow> u32" where
  "opnd_at s k = code s (pc s + 4 * k)"

definition pc_plus :: "machine \<Rightarrow> u32 \<Rightarrow> u64" where
  "pc_plus s d = pc s + 4 * sext d"

definition adv :: "u64 \<Rightarrow> machine \<Rightarrow> machine" where
  "adv k s = s\<lparr>pc := pc s + 4 * k\<rparr>"

definition stk :: "'a jit_state_scheme \<Rightarrow> u64 \<Rightarrow> u64" where
  "stk s i = mem s (sp s + 8 * i)"

definition push :: "u64 \<Rightarrow> 'a jit_state_scheme \<Rightarrow> 'a jit_state_scheme" where
  "push v s = s\<lparr>sp := sp s - 8, mem := (mem s)(sp s - 8 := v)\<rparr>"

definition popn :: "u64 \<Rightarrow> 'a jit_state_scheme \<Rightarrow> 'a jit_state_scheme" where
  "popn n s = s\<lparr>sp := sp s + 8 * n\<rparr>"

definition Code_val :: "store \<Rightarrow> u64 \<Rightarrow> u64" where
  "Code_val m v = m v"

definition Atom :: "'a caml_state_scheme \<Rightarrow> u64 \<Rightarrow> u64" where
  "Atom s tag = Val_hp (caml_atom_table s + 8 * tag)"

definition continue :: "machine \<Rightarrow> (goto_label, machine) cres" where
  "continue s = Ret Next s"

text \<open>The frame macros around calls of the runtime.\<close>

definition Setup_for_c_call :: "machine \<Rightarrow> machine" where
  "Setup_for_c_call s =
    (let sp' = sp s - 8 * 2
     in s\<lparr>sp := sp', mem := (mem s)(sp' := env s, sp' + 8 := pc s + 4), extern_sp := sp'\<rparr>)"

definition Restore_after_c_call :: "machine \<Rightarrow> machine" where
  "Restore_after_c_call s = s\<lparr>env := mem s (extern_sp s), sp := extern_sp s + 8 * 2\<rparr>"

definition Setup_for_event :: "machine \<Rightarrow> machine" where
  "Setup_for_event s =
    (let sp' = sp s - 8 * 6
     in s\<lparr>sp := sp', mem := write_words sp'
            [accu s, Val_unit, Val_unit, pc s, env s, Val_long (extra_args s)] (mem s),
          extern_sp := sp'\<rparr>)"

definition Restore_after_event :: "machine \<Rightarrow> machine" where
  "Restore_after_event s =
    (let sp' = extern_sp s
     in s\<lparr>accu := mem s sp', pc := mem s (sp' + 8 * 3), env := mem s (sp' + 8 * 4),
          extra_args := Long_val (mem s (sp' + 8 * 5)), sp := sp' + 8 * 6\<rparr>)"

definition Setup_for_debugger :: "machine \<Rightarrow> machine" where
  "Setup_for_debugger s =
    (let sp' = sp s - 8 * 4
     in s\<lparr>sp := sp', mem := write_words sp'
            [accu s, pc s - 4, env s, Val_long (extra_args s)] (mem s), extern_sp := sp'\<rparr>)"

definition Restore_after_debugger :: "machine \<Rightarrow> machine" where
  "Restore_after_debugger s = popn 4 s"

definition Check_trap_barrier :: "rt \<Rightarrow> machine \<Rightarrow> machine" where
  "Check_trap_barrier rt s =
    (if trap_barrier s \<le> trapsp s then upd_cs (rt_debugger rt TRAP_BARRIER) s else s)"

section \<open>Basic stack operations\<close>

definition i_ACC :: "u64 \<Rightarrow> handler" where
  "i_ACC n rt s = continue (s\<lparr>accu := stk s n\<rparr>)"

definition i_PUSH :: handler where
  "i_PUSH rt s = continue (push (accu s) s)"

definition i_PUSHACC :: "u64 \<Rightarrow> handler" where
  "i_PUSHACC n rt s = i_ACC n rt (push (accu s) s)"

definition i_ACC_op :: handler where
  "i_ACC_op rt s = continue (adv 1 (s\<lparr>accu := stk s (sext (opnd s))\<rparr>))"

definition i_PUSHACC_op :: handler where
  "i_PUSHACC_op rt s = i_ACC_op rt (push (accu s) s)"

definition i_POP :: handler where
  "i_POP rt s = continue (adv 1 (popn (sext (opnd s)) s))"

definition i_ASSIGN :: handler where
  "i_ASSIGN rt s =
    continue (adv 1 ((store_at (sp s + 8 * sext (opnd s)) (accu s) s)\<lparr>accu := Val_unit\<rparr>))"

section \<open>Access in the heap-allocated environment\<close>

definition i_ENVACC :: "u64 \<Rightarrow> handler" where
  "i_ENVACC n rt s = continue (s\<lparr>accu := Field (mem s) (env s) n\<rparr>)"

definition i_PUSHENVACC :: "u64 \<Rightarrow> handler" where
  "i_PUSHENVACC n rt s = i_ENVACC n rt (push (accu s) s)"

definition i_ENVACC_op :: handler where
  "i_ENVACC_op rt s = continue (adv 1 (s\<lparr>accu := Field (mem s) (env s) (sext (opnd s))\<rparr>))"

definition i_PUSHENVACC_op :: handler where
  "i_PUSHENVACC_op rt s = i_ENVACC_op rt (push (accu s) s)"

section \<open>Function application\<close>

text \<open>Jump to the closure in \<open>accu\<close>.\<close>

definition enter_closure :: "machine \<Rightarrow> machine" where
  "enter_closure s = s\<lparr>pc := Code_val (mem s) (accu s), env := accu s, accu := Val_unit\<rparr>"

text \<open>Return to the caller's frame on top of the stack.\<close>

definition pop_return_frame :: "machine \<Rightarrow> machine" where
  "pop_return_frame s =
    s\<lparr>pc := stk s 0, env := stk s 1, extra_args := Long_val (stk s 2), sp := sp s + 8 * 3\<rparr>"

definition i_PUSH_RETADDR :: handler where
  "i_PUSH_RETADDR rt s =
    (let sp' = sp s - 8 * 3
     in continue (adv 1 (s\<lparr>sp := sp', mem := write_words sp'
               [pc_plus s (opnd s), env s, Val_long (extra_args s)] (mem s)\<rparr>)))"

definition i_APPLY :: handler where
  "i_APPLY rt s = Ret Check_stacks (enter_closure (s\<lparr>extra_args := sext (opnd s - 1)\<rparr>))"

text \<open>\<open>APPLY1\<close>, \<open>APPLY2\<close>, \<open>APPLY3\<close>: insert a return frame under the \<open>n\<close> arguments.\<close>

definition i_APPLYn :: "nat \<Rightarrow> handler" where
  "i_APPLYn n rt s =
    (let args = read_words (mem s) (sp s) n; sp' = sp s - 8 * 3
     in Ret Check_stacks (enter_closure (s\<lparr>sp := sp',
          mem := write_words sp' (args @ [pc s, env s, Val_long (extra_args s)]) (mem s),
          extra_args := of_nat (n - 1)\<rparr>)))"

text \<open>The loop of \<open>APPTERM\<close>: \<open>for (i = nargs - 1; i >= 0; i--) newsp[i] = sp[i]\<close>.\<close>

fun slide_down :: "nat \<Rightarrow> u64 \<Rightarrow> u64 \<Rightarrow> store \<Rightarrow> store" where
  "slide_down 0 newsp oldsp m = m"
| "slide_down (Suc i) newsp oldsp m =
     slide_down i newsp oldsp (m(waddr newsp i := m (waddr oldsp i)))"

definition i_APPTERM :: handler where
  "i_APPTERM rt s =
    (let nargs = opnd s; slotsize = opnd_at s 1;
         newsp = sp s + 8 * sext slotsize - 8 * sext nargs
     in Ret Check_stacks (enter_closure (s\<lparr>
          mem := slide_down (nat (sint nargs)) newsp (sp s) (mem s),
          sp := newsp, extra_args := extra_args s + sext (nargs - 1)\<rparr>)))"

definition i_APPTERMn :: "nat \<Rightarrow> handler" where
  "i_APPTERMn n rt s =
    (let args = read_words (mem s) (sp s) n;
         sp' = sp s + 8 * sext (opnd s) - 8 * of_nat n
     in Ret Check_stacks (enter_closure (s\<lparr>sp := sp', mem := write_words sp' args (mem s),
          extra_args := extra_args s + of_nat (n - 1)\<rparr>)))"

definition i_RETURN :: handler where
  "i_RETURN rt s =
    (let s1 = adv 1 (popn (sext (opnd s)) s)
     in if 0 < sint (extra_args s1)
        then continue (enter_closure (s1\<lparr>extra_args := extra_args s1 - 1\<rparr>))
        else continue (pop_return_frame s1))"

text \<open>\<open>for (i = 0; i < n; i++) dst[i] = src[i]\<close>.\<close>

fun copy_up :: "nat \<Rightarrow> u64 \<Rightarrow> u64 \<Rightarrow> store \<Rightarrow> store" where
  "copy_up 0 dst src m = m"
| "copy_up (Suc n) dst src m = copy_up n (dst + 8) (src + 8) (m(dst := m src))"

definition i_RESTART :: handler where
  "i_RESTART rt s =
    (let num_args = (ucast (Wosize_val (mem s) (env s) - 2) :: u32);
         sp' = sp s - 8 * sext num_args;
         m = copy_up (nat (sint num_args)) sp' (env s + 8 * 2) (mem s)
     in continue (s\<lparr>sp := sp', mem := m, env := Field m (env s) 1,
               extra_args := extra_args s + sext num_args\<rparr>))"

definition i_GRAB :: handler where
  "i_GRAB rt s0 =
    (let required = opnd s0; s = adv 1 s0
     in if sint required \<le> sint (extra_args s)
        then continue (s\<lparr>extra_args := extra_args s - sext required, accu := Val_unit\<rparr>)
        else
          (let num_args = 1 + extra_args s
           in cbind (Alloc_small rt (pc s) (num_args + 2) Closure_tag s) (\<lambda>_ s.
                (let blk = new_block s;
                     m1 = set_Field blk 1 (env s) (mem s);
                     m2 = copy_up (unat num_args) (blk + 8 * 2) (sp s) m1;
                     m3 = set_Field blk 0 (pc s - 4 * 3) m2
                 in continue (pop_return_frame (popn num_args (s\<lparr>accu := blk, mem := m3\<rparr>)))))))"

section \<open>Closures\<close>

text \<open>\<open>for (i = 0; i < n; i++) caml_initialize(dst + i, src[i])\<close>.\<close>

fun initialize_up :: "rt \<Rightarrow> nat \<Rightarrow> u64 \<Rightarrow> u64 \<Rightarrow> 'a jit_state_scheme \<Rightarrow>
    (unit, 'a jit_state_scheme) cres" where
  "initialize_up rt 0 dst src s = Ret () s"
| "initialize_up rt (Suc n) dst src s =
     cbind (caml_initialize rt dst (mem s src) s) (\<lambda>_ s.
       initialize_up rt n (dst + 8) (src + 8) s)"

definition i_CLOSURE :: handler where
  "i_CLOSURE rt s0 =
    (let nvars = opnd s0; s1 = adv 1 s0;
         s = (if 0 < sint nvars then push (accu s1) s1 else s1)
     in cbind
          (if sint nvars < sint Max_young_wosize then
             cbind (Alloc_small rt (pc s) (sext (1 + nvars)) Closure_tag s) (\<lambda>_ s.
               (let blk = new_block s
                in Ret () (s\<lparr>accu := blk,
                     mem := copy_up (nat (sint nvars)) (blk + 8) (sp s) (mem s)\<rparr>)))
           else
             cbind (caml_alloc_shr rt (sext (1 + nvars)) Closure_tag s) (\<lambda>blk s.
               initialize_up rt (nat (sint nvars)) (blk + 8) (sp s) (s\<lparr>accu := blk\<rparr>)))
          (\<lambda>_ s. continue (popn (sext nvars)
             (adv 1 (store_at (accu s) (pc_plus s (opnd s)) s)))))"

text \<open>
  The loop that lays out the further functions of a recursive closure: an infix header,
  the code pointer, and the closure's own address pushed on the stack.
\<close>

fun infix_loop :: "nat \<Rightarrow> u64 \<Rightarrow> (u64 \<Rightarrow> u64) \<Rightarrow> u64 \<Rightarrow> 'a jit_state_scheme \<Rightarrow>
    'a jit_state_scheme" where
  "infix_loop 0 i codeval p s = s"
| "infix_loop (Suc n) i codeval p s =
     infix_loop n (i + 1) codeval (p + 16)
       (push (p + 8)
         (s\<lparr>mem := (mem s)(p := Make_header (i * 2) Infix_tag Caml_white,
                           p + 8 := codeval i)\<rparr>))"

definition i_CLOSUREREC :: handler where
  "i_CLOSUREREC rt s0 =
    (let nfuncs = opnd s0; nvars = opnd_at s0 1; s1 = adv 2 s0;
         blksize = sext (nfuncs * 2 - 1 + nvars);
         varofs = 8 * sext (nfuncs * 2 - 1);
         s = (if 0 < sint nvars then push (accu s1) s1 else s1)
     in cbind
          (if blksize \<le> Max_young_wosize then
             cbind (Alloc_small rt (pc s) blksize Closure_tag s) (\<lambda>_ s.
               (let blk = new_block s
                in Ret () (s\<lparr>accu := blk,
                     mem := copy_up (nat (sint nvars)) (blk + varofs) (sp s) (mem s)\<rparr>)))
           else
             cbind (caml_alloc_shr rt blksize Closure_tag s) (\<lambda>blk s.
               initialize_up rt (nat (sint nvars)) (blk + varofs) (sp s) (s\<lparr>accu := blk\<rparr>)))
          (\<lambda>_ s2.
             (let s3 = popn (sext nvars) s2;
                  s4 = push (accu s3) (store_at (accu s3) (pc_plus s3 (opnd s3)) s3);
                  s5 = infix_loop (nat (sint nfuncs - 1)) 1 (\<lambda>i. pc_plus s3 (opnd_at s3 i))
                         (accu s4 + 8) s4
              in continue (adv (sext nfuncs) s5))))"

definition i_OFFSETCLOSURE :: "u64 \<Rightarrow> handler" where
  "i_OFFSETCLOSURE n rt s = continue (s\<lparr>accu := env s + n * 8\<rparr>)"

definition i_PUSHOFFSETCLOSURE :: "u64 \<Rightarrow> handler" where
  "i_PUSHOFFSETCLOSURE n rt s = i_OFFSETCLOSURE n rt (push (accu s) s)"

definition i_OFFSETCLOSURE_op :: handler where
  "i_OFFSETCLOSURE_op rt s = continue (adv 1 (s\<lparr>accu := env s + sext (opnd s) * 8\<rparr>))"

definition i_PUSHOFFSETCLOSURE_op :: handler where
  "i_PUSHOFFSETCLOSURE_op rt s = i_OFFSETCLOSURE_op rt (push (accu s) s)"

section \<open>Global variables and blocks\<close>

definition i_GETGLOBAL :: handler where
  "i_GETGLOBAL rt s =
    continue (adv 1 (s\<lparr>accu := Field (mem s) (caml_global_data s) (sext (opnd s))\<rparr>))"

definition i_PUSHGETGLOBAL :: handler where
  "i_PUSHGETGLOBAL rt s = i_GETGLOBAL rt (push (accu s) s)"

definition i_GETGLOBALFIELD :: handler where
  "i_GETGLOBALFIELD rt s =
    (let g = Field (mem s) (caml_global_data s) (sext (opnd s))
     in continue (adv 2 (s\<lparr>accu := Field (mem s) g (sext (opnd_at s 1))\<rparr>)))"

definition i_PUSHGETGLOBALFIELD :: handler where
  "i_PUSHGETGLOBALFIELD rt s = i_GETGLOBALFIELD rt (push (accu s) s)"

definition i_SETGLOBAL :: handler where
  "i_SETGLOBAL rt s =
    cbind (caml_modify rt (caml_global_data s + 8 * sext (opnd s)) (accu s) s) (\<lambda>_ s.
      continue (adv 1 (s\<lparr>accu := Val_unit\<rparr>)))"

definition i_ATOM :: "u64 \<Rightarrow> handler" where
  "i_ATOM tag rt s = continue (s\<lparr>accu := Atom s tag\<rparr>)"

definition i_PUSHATOM :: "u64 \<Rightarrow> handler" where
  "i_PUSHATOM tag rt s = i_ATOM tag rt (push (accu s) s)"

definition i_ATOM_op :: handler where
  "i_ATOM_op rt s = continue (adv 1 (s\<lparr>accu := Atom s (sext (opnd s))\<rparr>))"

definition i_PUSHATOM_op :: handler where
  "i_PUSHATOM_op rt s = i_ATOM_op rt (push (accu s) s)"

text \<open>\<open>for (i = 1; i < wosize; i++) Field(block, i) = *sp++\<close>, plainly and with the barrier.\<close>

fun fill_from_stack :: "nat \<Rightarrow> u64 \<Rightarrow> 'a jit_state_scheme \<Rightarrow> 'a jit_state_scheme" where
  "fill_from_stack 0 dst s = s"
| "fill_from_stack (Suc n) dst s =
     fill_from_stack n (dst + 8) (popn 1 (store_at dst (stk s 0) s))"

fun initialize_from_stack :: "rt \<Rightarrow> nat \<Rightarrow> u64 \<Rightarrow> 'a jit_state_scheme \<Rightarrow>
    (unit, 'a jit_state_scheme) cres" where
  "initialize_from_stack rt 0 dst s = Ret () s"
| "initialize_from_stack rt (Suc n) dst s =
     cbind (caml_initialize rt dst (stk s 0) (popn 1 s)) (\<lambda>_ s.
       initialize_from_stack rt n (dst + 8) s)"

definition i_MAKEBLOCK :: handler where
  "i_MAKEBLOCK rt s0 =
    (let wosize = sext (opnd s0); tag = opnd_at s0 1; s = adv 2 s0
     in if wosize \<le> Max_young_wosize then
          cbind (Alloc_small rt (pc s) wosize tag s) (\<lambda>_ s.
            (let blk = new_block s;
                 s1 = fill_from_stack (unat wosize - 1) (blk + 8) (store_at blk (accu s) s)
             in continue (s1\<lparr>accu := blk\<rparr>)))
        else
          cbind (caml_alloc_shr rt wosize tag s) (\<lambda>blk s.
            cbind (caml_initialize rt blk (accu s) s) (\<lambda>_ s.
              cbind (initialize_from_stack rt (unat wosize - 1) (blk + 8) s) (\<lambda>_ s.
                continue (s\<lparr>accu := blk\<rparr>)))))"

definition i_MAKEBLOCK1 :: handler where
  "i_MAKEBLOCK1 rt s0 =
    (let tag = opnd s0; s = adv 1 s0
     in cbind (Alloc_small rt (pc s) 1 tag s) (\<lambda>_ s.
          (let blk = new_block s
           in continue ((store_at blk (accu s) s)\<lparr>accu := blk\<rparr>))))"

definition i_MAKEBLOCK2 :: handler where
  "i_MAKEBLOCK2 rt s0 =
    (let tag = opnd s0; s = adv 1 s0
     in cbind (Alloc_small rt (pc s) 2 tag s) (\<lambda>_ s.
          (let blk = new_block s;
               s1 = store_at blk (accu s) s;
               s2 = store_at (blk + 8) (stk s1 0) s1
           in continue ((popn 1 s2)\<lparr>accu := blk\<rparr>))))"

definition i_MAKEBLOCK3 :: handler where
  "i_MAKEBLOCK3 rt s0 =
    (let tag = opnd s0; s = adv 1 s0
     in cbind (Alloc_small rt (pc s) 3 tag s) (\<lambda>_ s.
          (let blk = new_block s;
               s1 = store_at blk (accu s) s;
               s2 = store_at (blk + 8) (stk s1 0) s1;
               s3 = store_at (blk + 16) (stk s2 1) s2
           in continue ((popn 2 s3)\<lparr>accu := blk\<rparr>))))"

text \<open>
  Doubles are moved as their 64-bit patterns: \<open>Double_val\<close> reads the cell of the boxed
  float, \<open>Store_double_flat_field\<close> writes the cell of the flat block.
\<close>

fun fill_doubles :: "nat \<Rightarrow> u64 \<Rightarrow> 'a jit_state_scheme \<Rightarrow> 'a jit_state_scheme" where
  "fill_doubles 0 dst s = s"
| "fill_doubles (Suc n) dst s =
     fill_doubles n (dst + 8) (popn 1 (store_at dst (mem s (stk s 0)) s))"

definition i_MAKEFLOATBLOCK :: handler where
  "i_MAKEFLOATBLOCK rt s0 =
    (let sz = sext (opnd s0); s = adv 1 s0
     in cbind
          (if sz \<le> Max_young_wosize div Double_wosize then
             cbind (Alloc_small rt (pc s) (sz * Double_wosize) Double_array_tag s)
               (\<lambda>_ s. Ret (new_block s) s)
           else caml_alloc_shr rt (sz * Double_wosize) Double_array_tag s)
          (\<lambda>blk s.
             (let s1 = fill_doubles (unat sz - 1) (blk + 8)
                         (store_at blk (mem s (accu s)) s)
              in continue (s1\<lparr>accu := blk\<rparr>))))"

section \<open>Components of blocks, arrays and strings\<close>

definition i_GETFIELD :: "u64 \<Rightarrow> handler" where
  "i_GETFIELD n rt s = continue (s\<lparr>accu := Field (mem s) (accu s) n\<rparr>)"

definition i_GETFIELD_op :: handler where
  "i_GETFIELD_op rt s = continue (adv 1 (s\<lparr>accu := Field (mem s) (accu s) (sext (opnd s))\<rparr>))"

definition i_GETFLOATFIELD :: handler where
  "i_GETFLOATFIELD rt s0 =
    (let d = mem s0 (accu s0 + 8 * sext (opnd s0)); s = adv 1 s0
     in cbind (Alloc_small rt (pc s) Double_wosize Double_tag s) (\<lambda>_ s.
          (let blk = new_block s
           in continue ((store_at blk d s)\<lparr>accu := blk\<rparr>))))"

definition i_SETFIELD :: "u64 \<Rightarrow> handler" where
  "i_SETFIELD n rt s =
    cbind (caml_modify rt (accu s + 8 * n) (stk s 0) (popn 1 s)) (\<lambda>_ s.
      continue (s\<lparr>accu := Val_unit\<rparr>))"

definition i_SETFIELD_op :: handler where
  "i_SETFIELD_op rt s =
    cbind (caml_modify rt (accu s + 8 * sext (opnd s)) (stk s 0) (popn 1 s)) (\<lambda>_ s.
      continue (adv 1 (s\<lparr>accu := Val_unit\<rparr>)))"

definition i_SETFLOATFIELD :: handler where
  "i_SETFLOATFIELD rt s =
    continue (adv 1 (popn 1
      ((store_at (accu s + 8 * sext (opnd s)) (mem s (stk s 0)) s)\<lparr>accu := Val_unit\<rparr>)))"

definition i_VECTLENGTH :: handler where
  "i_VECTLENGTH rt s =
    (let sz = Wosize_val (mem s) (accu s);
         sz' = (if Tag_val (mem s) (accu s) = Double_array_tag then sz div Double_wosize else sz)
     in continue (s\<lparr>accu := Val_long sz'\<rparr>))"

definition i_GETVECTITEM :: handler where
  "i_GETVECTITEM rt s =
    continue (popn 1 (s\<lparr>accu := Field (mem s) (accu s) (Long_val (stk s 0))\<rparr>))"

definition i_SETVECTITEM :: handler where
  "i_SETVECTITEM rt s =
    cbind (caml_modify rt (accu s + 8 * Long_val (stk s 0)) (stk s 1) s) (\<lambda>_ s.
      continue (popn 2 (s\<lparr>accu := Val_unit\<rparr>)))"

definition i_GETBYTESCHAR :: handler where
  "i_GETBYTESCHAR rt s =
    continue (popn 1 (s\<lparr>accu :=
      Val_int (ucast (Byte_u (mem s) (accu s) (Long_val (stk s 0))))\<rparr>))"

definition i_SETBYTESCHAR :: handler where
  "i_SETBYTESCHAR rt s =
    continue (popn 2 (s\<lparr>
      mem := set_Byte (accu s) (Long_val (stk s 0)) (ucast (Int_val (stk s 1))) (mem s),
      accu := Val_unit\<rparr>))"

section \<open>Branches\<close>

definition i_BRANCH :: handler where
  "i_BRANCH rt s = continue (s\<lparr>pc := pc_plus s (opnd s)\<rparr>)"

definition branch_if :: "bool \<Rightarrow> machine \<Rightarrow> machine" where
  "branch_if b s = (if b then s\<lparr>pc := pc_plus s (opnd s)\<rparr> else adv 1 s)"

definition i_BRANCHIF :: handler where
  "i_BRANCHIF rt s = continue (branch_if (accu s \<noteq> Val_false) s)"

definition i_BRANCHIFNOT :: handler where
  "i_BRANCHIFNOT rt s = continue (branch_if (accu s = Val_false) s)"

definition i_SWITCH :: handler where
  "i_SWITCH rt s0 =
    (let sizes = opnd s0; s = adv 1 s0
     in if Is_block (accu s)
        then continue (s\<lparr>pc := pc_plus s
               (opnd_at s (ucast (sizes AND 0xFFFF) + ucast (Tag_val (mem s) (accu s))))\<rparr>)
        else continue (s\<lparr>pc := pc_plus s (opnd_at s (Long_val (accu s)))\<rparr>))"

definition i_BOOLNOT :: handler where
  "i_BOOLNOT rt s = continue (s\<lparr>accu := Val_not (accu s)\<rparr>)"

section \<open>Exceptions\<close>

definition i_PUSHTRAP :: handler where
  "i_PUSHTRAP rt s =
    (let sp' = sp s - 8 * 4
     in continue (adv 1 (s\<lparr>sp := sp', mem := write_words sp'
               [pc_plus s (opnd s), trapsp s, env s, Val_long (extra_args s)] (mem s),
               trapsp := sp'\<rparr>)))"

definition i_POPTRAP :: handler where
  "i_POPTRAP rt s =
    (if caml_something_to_do s then Ret Process_actions (s\<lparr>pc := pc s - 4\<rparr>)
     else continue (popn 4 (s\<lparr>trapsp := Trap_link (mem s) (sp s)\<rparr>)))"

definition i_RAISE_NOTRACE :: handler where
  "i_RAISE_NOTRACE rt s = Ret Raise_notrace (Check_trap_barrier rt s)"

text \<open>\<open>RAISE\<close> and \<open>RERAISE\<close> differ in the flag they pass to \<open>caml_stash_backtrace\<close>.\<close>

definition i_RAISE :: "bool \<Rightarrow> handler" where
  "i_RAISE reraise rt s0 =
    (let s = Check_trap_barrier rt s0
     in Ret Raise_notrace
          (if backtrace_active s
           then (let s1 = push (pc s - 4) s
                 in upd_cs (rt_stash_backtrace rt (accu s1) (sp s1) reraise) s1)
           else s))"

section \<open>Signals and calls of C primitives\<close>

definition i_CHECK_SIGNALS :: handler where
  "i_CHECK_SIGNALS rt s =
    (if caml_something_to_do s then Ret Process_actions s else continue s)"

definition i_C_CALL :: "nat \<Rightarrow> handler" where
  "i_C_CALL n rt s0 =
    (let s = Setup_for_c_call s0
     in cbind (on_cs (rt_primitive rt (opnd s)
                 (accu s # read_words (mem s) (sp s + 8 * 2) (n - 1))) s) (\<lambda>r s.
          continue (adv 1 (popn (of_nat (n - 1)) (Restore_after_c_call (s\<lparr>accu := r\<rparr>))))))"

definition i_C_CALLN :: handler where
  "i_C_CALLN rt s0 =
    (let nargs = opnd s0; s = Setup_for_c_call (push (accu s0) (adv 1 s0))
     in cbind (on_cs (rt_primitive_n rt (opnd s) (sp s + 8 * 2) nargs) s) (\<lambda>r s.
          continue (adv 1 (popn (sext nargs) (Restore_after_c_call (s\<lparr>accu := r\<rparr>))))))"

section \<open>Integers\<close>

definition i_CONST :: "u32 \<Rightarrow> handler" where
  "i_CONST n rt s = continue (s\<lparr>accu := Val_int n\<rparr>)"

definition i_PUSHCONST :: "u32 \<Rightarrow> handler" where
  "i_PUSHCONST n rt s = i_CONST n rt (push (accu s) s)"

definition i_CONSTINT :: handler where
  "i_CONSTINT rt s = continue (adv 1 (s\<lparr>accu := Val_int (opnd s)\<rparr>))"

definition i_PUSHCONSTINT :: handler where
  "i_PUSHCONSTINT rt s = i_CONSTINT rt (push (accu s) s)"

definition i_NEGINT :: handler where
  "i_NEGINT rt s = continue (s\<lparr>accu := 2 - accu s\<rparr>)"

text \<open>A binary operation on \<open>accu\<close> and the popped top of the stack.\<close>

definition binop :: "(u64 \<Rightarrow> u64 \<Rightarrow> u64) \<Rightarrow> handler" where
  "binop f rt s = continue (popn 1 (s\<lparr>accu := f (accu s) (stk s 0)\<rparr>))"

definition add_op :: "u64 \<Rightarrow> u64 \<Rightarrow> u64" where "add_op a b = a + b - 1"
definition sub_op :: "u64 \<Rightarrow> u64 \<Rightarrow> u64" where "sub_op a b = a - b + 1"
definition mul_op :: "u64 \<Rightarrow> u64 \<Rightarrow> u64" where
  "mul_op a b = Val_long (Long_val a * Long_val b)"
definition and_op :: "u64 \<Rightarrow> u64 \<Rightarrow> u64" where "and_op a b = a AND b"
definition or_op :: "u64 \<Rightarrow> u64 \<Rightarrow> u64" where "or_op a b = a OR b"
definition xor_op :: "u64 \<Rightarrow> u64 \<Rightarrow> u64" where "xor_op a b = (a XOR b) OR 1"

text \<open>
  Shift counts outside \<open>0..63\<close> are undefined in C; the model takes the low six bits, as the
  x86-64 shift instructions do.
\<close>

definition shift_count :: "u64 \<Rightarrow> nat" where
  "shift_count b = unat (Long_val b AND 63)"

definition lsl_op :: "u64 \<Rightarrow> u64 \<Rightarrow> u64" where
  "lsl_op a b = push_bit (shift_count b) (a - 1) + 1"
definition lsr_op :: "u64 \<Rightarrow> u64 \<Rightarrow> u64" where
  "lsr_op a b = drop_bit (shift_count b) a OR 1"
definition asr_op :: "u64 \<Rightarrow> u64 \<Rightarrow> u64" where
  "asr_op a b = signed_drop_bit (shift_count b) a OR 1"

text \<open>Division: C's operators truncate towards zero; a zero divisor raises.\<close>

definition c_div :: "u64 \<Rightarrow> u64 \<Rightarrow> u64" where
  "c_div a b = word_of_int (sint a sdiv sint b)"

definition c_mod :: "u64 \<Rightarrow> u64 \<Rightarrow> u64" where
  "c_mod a b = word_of_int (sint a smod sint b)"

definition i_DIV :: "(u64 \<Rightarrow> u64 \<Rightarrow> u64) \<Rightarrow> handler" where
  "i_DIV f rt s0 =
    (let divisor = Long_val (stk s0 0); s = popn 1 s0
     in cbind (if divisor = 0 then on_cs (rt_raise_zero_divide rt) (Setup_for_c_call s)
               else Ret () s)
          (\<lambda>_ s. continue (s\<lparr>accu := Val_long (f (Long_val (accu s)) divisor)\<rparr>)))"

text \<open>\<open>Integer_comparison\<close> and \<open>Integer_branch_comparison\<close>.\<close>

definition i_CMP :: "(u64 \<Rightarrow> u64 \<Rightarrow> bool) \<Rightarrow> handler" where
  "i_CMP tst = binop (\<lambda>a b. Val_int (if tst a b then 1 else 0))"

definition i_BCMP :: "(u64 \<Rightarrow> u64 \<Rightarrow> bool) \<Rightarrow> handler" where
  "i_BCMP tst rt s =
    continue (branch_if (tst (sext (opnd s)) (Long_val (accu s))) (adv 1 s))"

definition slt :: "u64 \<Rightarrow> u64 \<Rightarrow> bool" where "slt a b = (sint a < sint b)"
definition sle :: "u64 \<Rightarrow> u64 \<Rightarrow> bool" where "sle a b = (sint a \<le> sint b)"

definition i_OFFSETINT :: handler where
  "i_OFFSETINT rt s = continue (adv 1 (s\<lparr>accu := accu s + sext (push_bit 1 (opnd s))\<rparr>))"

definition i_OFFSETREF :: handler where
  "i_OFFSETREF rt s =
    continue (adv 1 ((store_at (accu s) (mem s (accu s) + sext (push_bit 1 (opnd s))) s)
      \<lparr>accu := Val_unit\<rparr>))"

definition i_ISINT :: handler where
  "i_ISINT rt s = continue (s\<lparr>accu := Val_long (accu s AND 1)\<rparr>)"

section \<open>Methods\<close>

definition i_GETMETHOD :: handler where
  "i_GETMETHOD rt s =
    continue (s\<lparr>accu := Field (mem s) (Field (mem s) (stk s 0) 0) (sext (Int_val (accu s)))\<rparr>)"

text \<open>
  The binary search of \<open>GETDYNMET\<close> over a method table: \<open>meths[0]\<close> is the index of the last
  tag, tags sit at odd indices from 3 on and each method just before its tag.
\<close>

partial_function (option) method_search :: "store \<Rightarrow> u64 \<Rightarrow> u64 \<Rightarrow> u32 \<Rightarrow> u32 \<Rightarrow> u32 option" where
  "method_search m meths tag li hi =
    (if sint li < sint hi
     then (let mi = signed_drop_bit 1 (li + hi) OR 1
           in if slt tag (Field m meths (sext mi)) then method_search m meths tag li (mi - 2)
              else method_search m meths tag mi hi)
     else Some li)"

definition find_method :: "store \<Rightarrow> u64 \<Rightarrow> u64 \<Rightarrow> u64 option" where
  "find_method m tag meths =
    map_option (\<lambda>li. Field m meths (sext (li - 1)))
      (method_search m meths tag 3 (ucast (Field m meths 0)))"

definition i_GETDYNMET :: handler where
  "i_GETDYNMET rt s =
    (case find_method (mem s) (accu s) (Field (mem s) (stk s 0) 0) of
       None \<Rightarrow> Diverge
     | Some f \<Rightarrow> continue (s\<lparr>accu := f\<rparr>))"

definition i_GETPUBMET :: handler where
  "i_GETPUBMET rt s =
    i_GETDYNMET rt (adv 2 ((push (accu s) s)\<lparr>accu := Val_int (opnd s)\<rparr>))"

section \<open>Machine control\<close>

definition i_STOP :: handler where
  "i_STOP rt s = Ret Stop_instr s"

definition i_EVENT :: handler where
  "i_EVENT rt s0 =
    (let s = s0\<lparr>caml_event_count := caml_event_count s0 - 1\<rparr>;
         s1 = (if caml_event_count s = 0
               then Restore_after_debugger
                      (upd_cs (rt_debugger rt EVENT_COUNT) (Setup_for_debugger s))
               else s)
     in Ret (Dispatch_instr (rt_saved_instruction rt (pc s1 - 4))) s1)"

definition i_BREAK :: handler where
  "i_BREAK rt s =
    (let s1 = Restore_after_debugger
                (upd_cs (rt_debugger rt BREAKPOINT) (Setup_for_debugger s))
     in Ret (Dispatch_instr (rt_saved_instruction rt (pc s1 - 4))) s1)"

section \<open>Dispatch\<close>

text \<open>
  The instructions in the order of \<open>enum instructions\<close>, each with its handler; an opcode is
  a position in this list.
\<close>

definition instr_table :: "(string \<times> handler) list" where
  "instr_table = [
    (''ACC0'', i_ACC 0), (''ACC1'', i_ACC 1), (''ACC2'', i_ACC 2), (''ACC3'', i_ACC 3),
    (''ACC4'', i_ACC 4), (''ACC5'', i_ACC 5), (''ACC6'', i_ACC 6), (''ACC7'', i_ACC 7),
    (''ACC'', i_ACC_op), (''PUSH'', i_PUSH), (''PUSHACC0'', i_PUSH),
    (''PUSHACC1'', i_PUSHACC 1), (''PUSHACC2'', i_PUSHACC 2), (''PUSHACC3'', i_PUSHACC 3),
    (''PUSHACC4'', i_PUSHACC 4), (''PUSHACC5'', i_PUSHACC 5), (''PUSHACC6'', i_PUSHACC 6),
    (''PUSHACC7'', i_PUSHACC 7), (''PUSHACC'', i_PUSHACC_op), (''POP'', i_POP),
    (''ASSIGN'', i_ASSIGN), (''ENVACC1'', i_ENVACC 1), (''ENVACC2'', i_ENVACC 2),
    (''ENVACC3'', i_ENVACC 3), (''ENVACC4'', i_ENVACC 4), (''ENVACC'', i_ENVACC_op),
    (''PUSHENVACC1'', i_PUSHENVACC 1), (''PUSHENVACC2'', i_PUSHENVACC 2),
    (''PUSHENVACC3'', i_PUSHENVACC 3), (''PUSHENVACC4'', i_PUSHENVACC 4),
    (''PUSHENVACC'', i_PUSHENVACC_op), (''PUSH_RETADDR'', i_PUSH_RETADDR), (''APPLY'', i_APPLY),
    (''APPLY1'', i_APPLYn 1), (''APPLY2'', i_APPLYn 2), (''APPLY3'', i_APPLYn 3),
    (''APPTERM'', i_APPTERM), (''APPTERM1'', i_APPTERMn 1), (''APPTERM2'', i_APPTERMn 2),
    (''APPTERM3'', i_APPTERMn 3), (''RETURN'', i_RETURN), (''RESTART'', i_RESTART),
    (''GRAB'', i_GRAB), (''CLOSURE'', i_CLOSURE), (''CLOSUREREC'', i_CLOSUREREC),
    (''OFFSETCLOSUREM2'', i_OFFSETCLOSURE (- 2)), (''OFFSETCLOSURE0'', i_OFFSETCLOSURE 0),
    (''OFFSETCLOSURE2'', i_OFFSETCLOSURE 2), (''OFFSETCLOSURE'', i_OFFSETCLOSURE_op),
    (''PUSHOFFSETCLOSUREM2'', i_PUSHOFFSETCLOSURE (- 2)),
    (''PUSHOFFSETCLOSURE0'', i_PUSHOFFSETCLOSURE 0),
    (''PUSHOFFSETCLOSURE2'', i_PUSHOFFSETCLOSURE 2),
    (''PUSHOFFSETCLOSURE'', i_PUSHOFFSETCLOSURE_op), (''GETGLOBAL'', i_GETGLOBAL),
    (''PUSHGETGLOBAL'', i_PUSHGETGLOBAL), (''GETGLOBALFIELD'', i_GETGLOBALFIELD),
    (''PUSHGETGLOBALFIELD'', i_PUSHGETGLOBALFIELD), (''SETGLOBAL'', i_SETGLOBAL),
    (''ATOM0'', i_ATOM 0), (''ATOM'', i_ATOM_op), (''PUSHATOM0'', i_PUSHATOM 0),
    (''PUSHATOM'', i_PUSHATOM_op), (''MAKEBLOCK'', i_MAKEBLOCK), (''MAKEBLOCK1'', i_MAKEBLOCK1),
    (''MAKEBLOCK2'', i_MAKEBLOCK2), (''MAKEBLOCK3'', i_MAKEBLOCK3),
    (''MAKEFLOATBLOCK'', i_MAKEFLOATBLOCK), (''GETFIELD0'', i_GETFIELD 0),
    (''GETFIELD1'', i_GETFIELD 1), (''GETFIELD2'', i_GETFIELD 2), (''GETFIELD3'', i_GETFIELD 3),
    (''GETFIELD'', i_GETFIELD_op), (''GETFLOATFIELD'', i_GETFLOATFIELD),
    (''SETFIELD0'', i_SETFIELD 0), (''SETFIELD1'', i_SETFIELD 1), (''SETFIELD2'', i_SETFIELD 2),
    (''SETFIELD3'', i_SETFIELD 3), (''SETFIELD'', i_SETFIELD_op),
    (''SETFLOATFIELD'', i_SETFLOATFIELD), (''VECTLENGTH'', i_VECTLENGTH),
    (''GETVECTITEM'', i_GETVECTITEM), (''SETVECTITEM'', i_SETVECTITEM),
    (''GETBYTESCHAR'', i_GETBYTESCHAR), (''SETBYTESCHAR'', i_SETBYTESCHAR),
    (''BRANCH'', i_BRANCH), (''BRANCHIF'', i_BRANCHIF), (''BRANCHIFNOT'', i_BRANCHIFNOT),
    (''SWITCH'', i_SWITCH), (''BOOLNOT'', i_BOOLNOT), (''PUSHTRAP'', i_PUSHTRAP),
    (''POPTRAP'', i_POPTRAP), (''RAISE'', i_RAISE False), (''CHECK_SIGNALS'', i_CHECK_SIGNALS),
    (''C_CALL1'', i_C_CALL 1), (''C_CALL2'', i_C_CALL 2), (''C_CALL3'', i_C_CALL 3),
    (''C_CALL4'', i_C_CALL 4), (''C_CALL5'', i_C_CALL 5), (''C_CALLN'', i_C_CALLN),
    (''CONST0'', i_CONST 0), (''CONST1'', i_CONST 1), (''CONST2'', i_CONST 2),
    (''CONST3'', i_CONST 3), (''CONSTINT'', i_CONSTINT), (''PUSHCONST0'', i_PUSHCONST 0),
    (''PUSHCONST1'', i_PUSHCONST 1), (''PUSHCONST2'', i_PUSHCONST 2),
    (''PUSHCONST3'', i_PUSHCONST 3), (''PUSHCONSTINT'', i_PUSHCONSTINT), (''NEGINT'', i_NEGINT),
    (''ADDINT'', binop add_op), (''SUBINT'', binop sub_op), (''MULINT'', binop mul_op),
    (''DIVINT'', i_DIV c_div), (''MODINT'', i_DIV c_mod), (''ANDINT'', binop and_op),
    (''ORINT'', binop or_op), (''XORINT'', binop xor_op), (''LSLINT'', binop lsl_op),
    (''LSRINT'', binop lsr_op), (''ASRINT'', binop asr_op), (''EQ'', i_CMP (=)),
    (''NEQ'', i_CMP (\<noteq>)), (''LTINT'', i_CMP slt), (''LEINT'', i_CMP sle),
    (''GTINT'', i_CMP (\<lambda>a b. slt b a)), (''GEINT'', i_CMP (\<lambda>a b. sle b a)),
    (''OFFSETINT'', i_OFFSETINT), (''OFFSETREF'', i_OFFSETREF), (''ISINT'', i_ISINT),
    (''GETMETHOD'', i_GETMETHOD), (''BEQ'', i_BCMP (=)), (''BNEQ'', i_BCMP (\<noteq>)),
    (''BLTINT'', i_BCMP slt), (''BLEINT'', i_BCMP sle),
    (''BGTINT'', i_BCMP (\<lambda>a b. slt b a)), (''BGEINT'', i_BCMP (\<lambda>a b. sle b a)),
    (''ULTINT'', i_CMP (<)), (''UGEINT'', i_CMP (\<lambda>a b. b \<le> a)),
    (''BULTINT'', i_BCMP (<)), (''BUGEINT'', i_BCMP (\<lambda>a b. b \<le> a)),
    (''GETPUBMET'', i_GETPUBMET), (''GETDYNMET'', i_GETDYNMET), (''STOP'', i_STOP),
    (''EVENT'', i_EVENT), (''BREAK'', i_BREAK), (''RERAISE'', i_RAISE True),
    (''RAISE_NOTRACE'', i_RAISE_NOTRACE), (''GETSTRINGCHAR'', i_GETBYTESCHAR)]"

definition opcode_names :: "string list" where
  "opcode_names = map fst instr_table"

definition FIRST_UNIMPLEMENTED_OP :: nat where
  "FIRST_UNIMPLEMENTED_OP = length opcode_names"

definition opcode :: "string \<Rightarrow> u32" where
  "opcode name = of_nat (length (takeWhile (\<lambda>x. x \<noteq> name) opcode_names))"

text \<open>The \<open>switch\<close>: an opcode outside the enumeration is a fatal error.\<close>

definition exec_instr :: "u32 \<Rightarrow> handler" where
  "exec_instr op rt s =
    (if unat op < length instr_table then snd (instr_table ! unat op) rt s
     else Fatal ''bad opcode'')"

text \<open>Locals of one activation of the interpreter.\<close>

record activation =
  initial_local_roots :: u64
  initial_sp_offset :: u64
  initial_external_raise :: u64

text \<open>
  What one trip round the loop comes to: a machine that is to fetch, or that already has
  the instruction to dispatch (after a debugger event); a result; or the end of the process.
\<close>

datatype outcome = Running "u32 option" machine | Finished u64 machine
  | Died string | Hangs

definition raise_notrace :: "activation \<Rightarrow> machine \<Rightarrow> outcome" where
  "raise_notrace act s =
    (if stack_high s - initial_sp_offset act \<le> trapsp s
     then Finished (Make_exception_result (accu s))
            (s\<lparr>external_raise := initial_external_raise act,
               extern_sp := stack_high s - initial_sp_offset act,
               caml_callback_depth := caml_callback_depth s - 1\<rparr>)
     else
       (let sp' = trapsp s
        in Running None (s\<lparr>pc := Trap_pc (mem s) sp', trapsp := Trap_link (mem s) sp',
             env := mem s (sp' + 8 * 2), extra_args := Long_val (mem s (sp' + 8 * 3)),
             sp := sp' + 8 * 4\<rparr>)))"

text \<open>The second return of \<open>sigsetjmp\<close>: an exception raised from a C function.\<close>

definition caught_longjmp :: "activation \<Rightarrow> rt \<Rightarrow> machine \<Rightarrow> outcome" where
  "caught_longjmp act rt s0 =
    (let s1 = s0\<lparr>local_roots := initial_local_roots act, sp := extern_sp s0,
                 accu := exn_bucket s0\<rparr>;
         s2 = Check_trap_barrier rt s1;
         s3 = (if backtrace_active s2
               then upd_cs (rt_stash_backtrace rt (accu s2) (sp s2) False) s2 else s2)
     in raise_notrace act s3)"

definition process_actions :: "rt \<Rightarrow> machine \<Rightarrow> (goto_label, machine) cres" where
  "process_actions rt s =
    cbind (on_cs (rt_process_pending_actions rt) (Setup_for_event s)) (\<lambda>_ s.
      continue (Restore_after_event s))"

definition check_stacks :: "rt \<Rightarrow> machine \<Rightarrow> (goto_label, machine) cres" where
  "check_stacks rt s =
    cbind (if sp s < stack_threshold s
           then cthen (caml_realloc_stack rt (Stack_threshold div 8) (s\<lparr>extern_sp := sp s\<rparr>))
                  (\<lambda>s. s\<lparr>sp := extern_sp s\<rparr>)
           else Ret () s)
      (\<lambda>_ s. i_CHECK_SIGNALS rt s)"

fun goto :: "rt \<Rightarrow> goto_label \<Rightarrow> machine \<Rightarrow> (goto_label, machine) cres" where
  "goto rt Check_stacks s =
     cbind (check_stacks rt s) (\<lambda>l s. if l = Process_actions then process_actions rt s
                                      else Ret l s)"
| "goto rt Process_actions s = process_actions rt s"
| "goto rt l s = Ret l s"

fun settle :: "activation \<Rightarrow> rt \<Rightarrow> (goto_label, machine) cres \<Rightarrow> outcome" where
  "settle act rt (Ret Raise_notrace s) = raise_notrace act s"
| "settle act rt (Ret Stop_instr s) =
     Finished (accu s) (s\<lparr>external_raise := initial_external_raise act, extern_sp := sp s,
       caml_callback_depth := caml_callback_depth s - 1\<rparr>)"
| "settle act rt (Ret (Dispatch_instr op) s) = Running (Some op) s"
| "settle act rt (Ret l s) = Running None s"
| "settle act rt (Longjmp s) = caught_longjmp act rt s"
| "settle act rt (Fatal e) = Died e"
| "settle act rt Diverge = Hangs"

definition step :: "activation \<Rightarrow> rt \<Rightarrow> u32 option \<Rightarrow> machine \<Rightarrow> outcome" where
  "step act rt pending s =
    (let (op, s') = (case pending of None \<Rightarrow> (opnd s, adv 1 s) | Some op \<Rightarrow> (op, s))
     in settle act rt (cbind (exec_instr op rt s') (goto rt)))"

text \<open>Entry of the interpreter: the activation's locals and the initial registers.\<close>

definition interp_enter :: "u64 \<Rightarrow> u64 \<Rightarrow> machine \<Rightarrow> activation \<times> machine" where
  "interp_enter prog raise_buf s =
    (\<lparr>initial_local_roots = local_roots s,
      initial_sp_offset = stack_high s - extern_sp s,
      initial_external_raise = external_raise s\<rparr>,
     s\<lparr>caml_callback_depth := caml_callback_depth s + 1, external_raise := raise_buf,
       sp := extern_sp s, pc := prog, extra_args := 0, env := Atom s 0, accu := Val_int 0\<rparr>)"

text \<open>The \<open>while(1)\<close> loop, for a number of trips.\<close>

fun run :: "activation \<Rightarrow> rt \<Rightarrow> nat \<Rightarrow> outcome \<Rightarrow> outcome" where
  "run act rt 0 o1 = o1"
| "run act rt (Suc n) (Running p s) = run act rt n (step act rt p s)"
| "run act rt (Suc n) o1 = o1"

section \<open>Looking instructions up by name\<close>

lemma map_of_index:
  "map_of xs k = Some v \<Longrightarrow>
    length (takeWhile (\<lambda>x. x \<noteq> k) (map fst xs)) < length xs \<and>
    snd (xs ! length (takeWhile (\<lambda>x. x \<noteq> k) (map fst xs))) = v"
  by (induction xs) (auto split: if_splits)

lemmas instr_lookup = instr_table_def map_of.simps fst_conv snd_conv list.inject list.distinct
  char.inject if_True if_False simp_thms fun_upd_apply

lemma length_instr_table: "length instr_table = 149"
  by (simp add: instr_table_def)

lemma exec_opcode: "map_of instr_table name = Some h \<Longrightarrow> exec_instr (opcode name) = h"
proof -
  assume a: "map_of instr_table name = Some h"
  let ?i = "length (takeWhile (\<lambda>x. x \<noteq> name) (map fst instr_table))"
  have i: "?i < 149" "snd (instr_table ! ?i) = h"
    using map_of_index [OF a] by (simp_all add: length_instr_table)
  then have "unat (opcode name) = ?i"
    unfolding opcode_def opcode_names_def by (intro of_nat_inverse [OF refl]) simp
  with i show ?thesis
    by (simp add: exec_instr_def length_instr_table fun_eq_iff)
qed

section \<open>Registers and operands: rewriting\<close>

lemma sext_alt: "sext x = word_of_int (sint x)"
  by (simp only: sext_def scast_eq)

lemma sint32_eqI:
  "sint (x :: u32) = signed_take_bit 31 k \<Longrightarrow> - (2 ^ 31) \<le> k \<Longrightarrow> k < 2 ^ 31 \<Longrightarrow> sint x = k"
  by (erule trans) (rule signed_take_bit_int_eq_self)

lemma sext_word_of_int:
  assumes "- (2 ^ 31) \<le> k" and "k < 2 ^ 31"
  shows "sext (word_of_int k) = word_of_int k"
proof -
  have "sint (word_of_int k :: u32) = signed_take_bit 31 k"
    by (simp only: signed_of_int) simp
  then have "sint (word_of_int k :: u32) = k"
    using assms by (rule sint32_eqI)
  then show ?thesis by (simp only: sext_alt)
qed

lemma sint_sext [simp]: "sint (sext x) = sint x"
  unfolding sext_def by (rule sint_up_scast) (simp add: is_up)

lemma ucast_word_of_int: "(ucast (word_of_int k :: u64) :: u32) = word_of_int k"
  by transfer (simp add: take_bit_take_bit)

lemma ucast_of_nat32 [simp]: "(ucast (of_nat n :: u64) :: u32) = of_nat n"
  using ucast_word_of_int [of "int n"] by simp

lemma machine_simps [simp]:
  fixes s :: machine
  shows "pc (adv k s) = pc s + 4 * k" "code (adv k s) = code s" "accu (adv k s) = accu s"
    "sp (adv k s) = sp s" "mem (adv k s) = mem s" "env (adv k s) = env s"
    "extra_args (adv k s) = extra_args s" "young_ptr (adv k s) = young_ptr s"
    "young_limit (adv k s) = young_limit s"
  by (simp_all add: adv_def)

lemma push_simps [simp]:
  "accu (push v s) = accu s" "sp (push v s) = sp s - 8" "env (push v s) = env s"
  "mem (push v s) = (mem s)(sp s - 8 := v)" "extra_args (push v s) = extra_args s"
  "young_ptr (push v s) = young_ptr s" "young_limit (push v s) = young_limit s"
  by (simp_all add: push_def)

lemma push_machine_simps [simp]:
  "pc (push v s) = pc s" "code (push v s) = code s"
  by (simp_all add: push_def)

end
