(* ===== verification/Sample_State.thy ===== *)
theory Sample_State
  imports Interp
begin

text \<open>
  A concrete runtime environment and a concrete machine on which the theorems about the
  interpreter and the JIT helpers are exercised: an empty stack of 512 words below
  \<open>0x2000\<close> with \<open>sp\<close> some way down, a minor heap from \<open>0x8000\<close> to \<open>0x10000\<close> that is still
  empty, and bytecode at \<open>0x400\<close>.
\<close>

definition sample_rt :: rt where
  "sample_rt = \<lparr>
    rt_alloc_small_dispatch = (\<lambda>wosize s. Ret () (s\<lparr>young_ptr := young_end s - 8 * (wosize + 1)\<rparr>)),
    rt_alloc_shr = (\<lambda>wosize tag s. Ret 0x20008
      (s\<lparr>mem := (mem s)(0x20000 := Make_header wosize tag Caml_black)\<rparr>)),
    rt_process_pending_actions = (\<lambda>s. Ret () (s\<lparr>caml_something_to_do := False\<rparr>)),
    rt_primitive = (\<lambda>p args s. Ret (last args) s),
    rt_primitive_n = (\<lambda>p argv n s. Ret (mem s argv) s),
    rt_raise_zero_divide = (\<lambda>s. Longjmp (s\<lparr>exn_bucket := 0x3008\<rparr>)),
    rt_raise_stack_overflow = (\<lambda>s. Longjmp (s\<lparr>exn_bucket := 0x3018\<rparr>)),
    rt_stash_backtrace = (\<lambda>exn p reraise s. s),
    rt_debugger = (\<lambda>e s. s),
    rt_saved_instruction = (\<lambda>a. 0),
    rt_stat_alloc = (\<lambda>n s. Ret 0x40000 s),
    rt_table_alloc_ok = (\<lambda>n. True),
    rt_empty_minor_heap = (\<lambda>s. Ret () (s\<lparr>young_ptr := young_alloc_end s\<rparr>)),
    rt_major_collection_slice = (\<lambda>s. Ret () s),
    rt_process_signals_exn = (\<lambda>s. Ret 1 s),
    rt_memprof_postponed_exn = (\<lambda>s. Ret 1 s),
    rt_final_do_calls_exn = (\<lambda>s. Ret 1 s),
    rt_memprof_track_young = (\<lambda>wosize from_caml s. Ret () s),
    rt_memprof_renew_minor_sample = (\<lambda>s. s),
    rt_failwith = (\<lambda>msg s. Longjmp (s\<lparr>exn_bucket := 0x3028\<rparr>)),
    rt_invalid_argument = (\<lambda>msg s. Longjmp (s\<lparr>exn_bucket := 0x3038\<rparr>)),
    rt_array_bound_error = (\<lambda>s. Longjmp (s\<lparr>exn_bucket := 0x3048\<rparr>)),
    rt_raise_out_of_memory = (\<lambda>s. Longjmp (s\<lparr>exn_bucket := 0x3058\<rparr>)),
    rt_in_static_data = (\<lambda>a. False),
    rt_int32_ops = 0x6000, rt_int64_ops = 0x6100, rt_nativeint_ops = 0x6200,
    rt_f_of_u64 = (\<lambda>x. x), rt_f_add = (+), rt_f_div = (div), rt_f_gt = (\<lambda>x y. y < x)\<rparr>"

definition sample_machine :: machine where
  "sample_machine = \<lparr>
    mem = (\<lambda>a. 1), young_ptr = 0x10000, young_limit = 0x8000, young_start = 0x7FF8,
    young_end = 0x10000, young_alloc_start = 0x8000, young_alloc_mid = 0xC000,
    young_alloc_end = 0x10000, young_trigger = 0x8000, caml_memprof_young_trigger = 0x8000,
    minor_heap_wsz = 0x1000, requested_major_slice = False, requested_minor_gc = False,
    ref_table = \<lparr>tbl_allocated = True, tbl_entries = [], tbl_threshold = 512, tbl_limit = 512,
      tbl_end = 768, tbl_size = 512, tbl_reserve = 256\<rparr>,
    custom_table = \<lparr>tbl_allocated = True, tbl_entries = [], tbl_threshold = 512, tbl_limit = 512,
      tbl_end = 768, tbl_size = 512, tbl_reserve = 256\<rparr>,
    extra_heap_resources_minor = 0, caml_extra_heap_resources = 0, c_roots = [],
    stack_low = 0x1000, stack_high = 0x2000, stack_threshold = 0x1800, extern_sp = 0x2000,
    trapsp = 0x2000, trap_barrier = 0x2008, caml_max_stack_size = 0x100000, exn_bucket = 1,
    backtrace_active = False, local_roots = 0, external_raise = 0, caml_gc_phase = Phase_idle,
    gray_vals = [], gray_vals_size = 2048, heap_is_pure = True, stat_heap_wsz = 0x40000,
    ephe_list_pure = True, in_heap = (\<lambda>a. 0x20000 \<le> a \<and> a < 0x30000),
    caml_something_to_do = False, caml_callback_depth = 0, caml_event_count = 0,
    caml_global_data = 0x20008, caml_atom_table = 0x5000,
    accu = 7, env = 0x21008, sp = 0x1F00, extra_args = 0, pc = 0x400, code = (\<lambda>a. 1)\<rparr>"

text \<open>The sample machine as the activation \<open>sample_act\<close> of the interpreter finds it.\<close>

definition sample_act :: activation where
  "sample_act = \<lparr>initial_local_roots = 0, initial_sp_offset = 0, initial_external_raise = 0\<rparr>"

lemma sample_fields [simp]:
  "mem sample_machine = (\<lambda>a. 1)" "accu sample_machine = 7" "env sample_machine = 0x21008"
  "sp sample_machine = 0x1F00" "extra_args sample_machine = 0" "pc sample_machine = 0x400"
  "code sample_machine = (\<lambda>a. 1)" "young_ptr sample_machine = 0x10000"
  "young_limit sample_machine = 0x8000" "stack_high sample_machine = 0x2000"
  "stack_low sample_machine = 0x1000" "stack_threshold sample_machine = 0x1800"
  "extern_sp sample_machine = 0x2000" "trapsp sample_machine = 0x2000"
  "trap_barrier sample_machine = 0x2008" "backtrace_active sample_machine = False"
  "caml_something_to_do sample_machine = False" "external_raise sample_machine = 0"
  "caml_callback_depth sample_machine = 0" "local_roots sample_machine = 0"
  "young_start sample_machine = 0x7FF8" "young_end sample_machine = 0x10000"
  "caml_gc_phase sample_machine = Phase_idle" "caml_max_stack_size sample_machine = 0x100000"
  "in_heap sample_machine = (\<lambda>a. 0x20000 \<le> a \<and> a < 0x30000)"
  by (simp_all add: sample_machine_def)

lemma sample_act_fields [simp]:
  "initial_local_roots sample_act = 0" "initial_sp_offset sample_act = 0"
  "initial_external_raise sample_act = 0"
  by (simp_all add: sample_act_def)

lemma opnd_sample [simp]:
  fixes s :: machine
  shows "code s = (\<lambda>a. 1) \<Longrightarrow> opnd s = 1"
  by (simp add: opnd_def)

end
