(* ===== verification/Interp_Arith.thy ===== *)
theory Interp_Arith
  imports Sample_State
begin

text \<open>
  The integer instructions compute the arithmetic of OCaml's 63-bit integers on tagged
  words, without ever untagging more than they need.
\<close>

section \<open>Each operation on tagged words\<close>

lemma Is_long_add_op: "Is_long a \<Longrightarrow> Is_long b \<Longrightarrow> add_op a b = word_of_int (2 * (ocaml_int a + ocaml_int b) + 1)"
proof -
  assume "Is_long a" "Is_long b"
  then have "add_op a b = word_of_int (2 * ocaml_int a + 1) + word_of_int (2 * ocaml_int b + 1) - 1"
    by (simp only: add_op_def Is_long_repr [symmetric])
  also have "\<dots> = word_of_int ((2 * ocaml_int a + 1) + (2 * ocaml_int b + 1) - 1)"
    by (simp only: of_int_add of_int_diff of_int_1)
  finally show ?thesis by (simp add: algebra_simps)
qed

lemma Is_long_sub_op: "Is_long a \<Longrightarrow> Is_long b \<Longrightarrow> sub_op a b = word_of_int (2 * (ocaml_int a - ocaml_int b) + 1)"
proof -
  assume "Is_long a" "Is_long b"
  then have "sub_op a b = word_of_int (2 * ocaml_int a + 1) - word_of_int (2 * ocaml_int b + 1) + 1"
    by (simp only: sub_op_def Is_long_repr [symmetric])
  also have "\<dots> = word_of_int ((2 * ocaml_int a + 1) - (2 * ocaml_int b + 1) + 1)"
    by (simp only: of_int_add of_int_diff of_int_1)
  finally show ?thesis by (simp add: algebra_simps)
qed

lemma mul_op_repr: "mul_op a b = word_of_int (2 * (ocaml_int a * ocaml_int b) + 1)"
proof -
  have "mul_op a b = 2 * (word_of_int (ocaml_int a) * word_of_int (ocaml_int b)) + 1"
    by (simp only: mul_op_def Val_long_alt ocaml_int_def of_int_sint scast_id)
  then show ?thesis by simp
qed

lemma neg_repr: "Is_long a \<Longrightarrow> 2 - a = word_of_int (2 * (- ocaml_int a) + 1)"
proof -
  assume "Is_long a"
  then have "2 - a = 2 - word_of_int (2 * ocaml_int a + 1)"
    by (simp only: Is_long_repr [symmetric])
  also have "\<dots> = word_of_int (2 - (2 * ocaml_int a + 1))"
    by (simp only: of_int_diff of_int_numeral)
  finally show ?thesis by (simp add: algebra_simps)
qed

lemma div_range:
  assumes "b \<noteq> 0" "- (2 ^ 62) \<le> a" "a < 2 ^ 62"
  shows "- (2 ^ 63) \<le> a sdiv b \<and> a sdiv b < (2 ^ 63 :: int)"
proof -
  have "\<bar>a\<bar> div \<bar>b\<bar> \<le> \<bar>a\<bar>" "0 \<le> \<bar>a\<bar> div \<bar>b\<bar>"
    using assms(1) zdiv_mono2 [of "\<bar>a\<bar>" 1 "\<bar>b\<bar>"] by (simp_all add: pos_imp_zdiv_nonneg_iff)
  moreover have "\<bar>a sdiv b\<bar> \<le> \<bar>a\<bar> div \<bar>b\<bar>"
    using pos_imp_zdiv_nonneg_iff [of "\<bar>b\<bar>" "\<bar>a\<bar>"] assms(1)
    by (simp add: signed_divide_int_def abs_mult abs_sgn_eq)
  ultimately have "\<bar>a sdiv b\<bar> \<le> \<bar>a\<bar>" by linarith
  then show ?thesis using assms(2,3) by (auto simp: abs_if split: if_splits)
qed

lemma mod_range:
  assumes "b \<noteq> 0" "- (2 ^ 62) \<le> b" "b < 2 ^ 62"
  shows "- (2 ^ 63) \<le> a smod b \<and> a smod b < (2 ^ 63 :: int)"
proof -
  have "\<bar>a smod b\<bar> \<le> \<bar>a\<bar> mod \<bar>b\<bar>"
    using assms(1) by (simp add: signed_modulo_int_def abs_mult sgn_if)
  moreover have "\<bar>a\<bar> mod \<bar>b\<bar> < \<bar>b\<bar>"
    using assms(1) by simp
  ultimately have "\<bar>a smod b\<bar> < \<bar>b\<bar>" by linarith
  then show ?thesis using assms(2,3) by (auto simp: abs_if split: if_splits)
qed

lemma ocaml_int_drop: "ocaml_int v = drop_bit 1 (sint v)"
  by (simp add: ocaml_int_alt drop_bit_eq_div)

lemma ocaml_int_uint: "ocaml_int w = signed_take_bit 62 (drop_bit 1 (uint w))"
proof -
  have "sint w = signed_take_bit 63 (uint w)"
    by (simp add: sint_uint)
  then show ?thesis
    using drop_bit_signed_take_bit [of 1 62 "uint w"] by (simp add: ocaml_int_drop)
qed

lemma drop_bit_1_or_1: "drop_bit (Suc 0) (k OR 1 :: int) = drop_bit (Suc 0) k"
  by (rule bit_eqI) (auto simp: bit_simps)

lemma Is_long_or_1: "Is_long (x OR 1)"
  by (simp add: Is_long_iff_bit bit_or_iff)

lemma Is_long_and: "Is_long a \<Longrightarrow> Is_long b \<Longrightarrow> Is_long (a AND b)"
  by (simp add: Is_long_iff_bit bit_and_iff)

lemma Is_long_or: "Is_long a \<Longrightarrow> Is_long (a OR b)"
  by (simp add: Is_long_iff_bit bit_or_iff)

lemma ocaml_int_and: "ocaml_int (a AND b) = ocaml_int a AND ocaml_int b"
  by (simp add: ocaml_int_drop signed_and_eq)

lemma ocaml_int_or: "ocaml_int (a OR b) = ocaml_int a OR ocaml_int b"
  by (simp add: ocaml_int_drop signed_or_eq)

lemma ocaml_int_or_1: "ocaml_int (a OR 1) = ocaml_int a"
  by (simp add: ocaml_int_drop signed_or_eq drop_bit_1_or_1)

lemma ocaml_int_xor_op: "ocaml_int (xor_op a b) = ocaml_int a XOR ocaml_int b"
  by (simp add: xor_op_def ocaml_int_or_1) (simp add: ocaml_int_drop signed_xor_eq)

lemma ocaml_int_asr_op: "ocaml_int (asr_op a b) = drop_bit (shift_count b) (ocaml_int a)"
  by (simp add: asr_op_def ocaml_int_or_1)
     (simp add: ocaml_int_drop sint_signed_drop_bit_eq drop_bit_drop_bit add.commute)

lemma uint_drop_1: "drop_bit 1 (uint w) = take_bit 63 (ocaml_int w)"
proof (rule bit_eqI)
  fix n
  have "bit w (Suc n) \<Longrightarrow> n < 63"
    using bit_imp_le_length [of w "Suc n"] by simp
  moreover have "n < 62 \<or> n = 62 \<or> 63 \<le> n" by linarith
  ultimately show "bit (drop_bit 1 (uint w)) n = bit (take_bit 63 (ocaml_int w)) n"
    by (auto simp: ocaml_int_uint bit_simps min_def)
qed

lemma ocaml_int_lsr_op:
  "ocaml_int (lsr_op a b) = wrap63 (drop_bit (shift_count b) (take_bit 63 (ocaml_int a)))"
proof -
  have "ocaml_int (lsr_op a b) = ocaml_int (drop_bit (shift_count b) a)"
    by (simp add: lsr_op_def ocaml_int_or_1)
  also have "\<dots> = signed_take_bit 62 (drop_bit 1 (drop_bit (shift_count b) (uint a)))"
    using uint_lt2p [of a] take_bit_int_eq_self [of "uint a" 64]
    by (simp add: ocaml_int_uint unsigned_drop_bit_eq)
  also have "drop_bit 1 (drop_bit (shift_count b) (uint a)) =
      drop_bit (shift_count b) (drop_bit 1 (uint a))"
    by (simp add: drop_bit_drop_bit add.commute)
  finally show ?thesis
    by (simp only: uint_drop_1 wrap63_def)
qed

lemma lsl_op_repr:
  "Is_long a \<Longrightarrow> lsl_op a b = word_of_int (2 * (ocaml_int a * 2 ^ shift_count b) + 1)"
proof -
  assume "Is_long a"
  then have "a - 1 = word_of_int (2 * ocaml_int a + 1) - 1"
    by (simp only: Is_long_repr [symmetric])
  then have e: "a - 1 = 2 * word_of_int (ocaml_int a)" by simp
  show ?thesis
    unfolding lsl_op_def e by (simp add: push_bit_eq_mult)
qed

lemma slt_ocaml_int: "Is_long a \<Longrightarrow> Is_long b \<Longrightarrow> slt a b \<longleftrightarrow> ocaml_int a < ocaml_int b"
  by (auto simp: slt_def ocaml_int_alt Is_long_odd) presburger

lemma sle_ocaml_int: "Is_long a \<Longrightarrow> Is_long b \<Longrightarrow> sle a b \<longleftrightarrow> ocaml_int a \<le> ocaml_int b"
  by (auto simp: sle_def ocaml_int_alt Is_long_odd) presburger

lemma uint_Is_long: "Is_long a \<Longrightarrow> uint a = 2 * take_bit 63 (ocaml_int a) + 1"
proof -
  assume "Is_long a"
  then have "bit (uint a) 0"
    by (simp only: Is_long_iff_bit bit_uint_iff) simp
  then have "odd (uint a)" by (metis bit_0)
  then show ?thesis
    unfolding uint_drop_1 [symmetric] by (simp add: drop_bit_eq_div)
qed

lemma less_take_bit: "Is_long a \<Longrightarrow> Is_long b \<Longrightarrow>
    a < b \<longleftrightarrow> take_bit 63 (ocaml_int a) < take_bit 63 (ocaml_int b)"
  by (auto simp: word_less_def uint_Is_long)

lemma le_take_bit: "Is_long a \<Longrightarrow> Is_long b \<Longrightarrow>
    a \<le> b \<longleftrightarrow> take_bit 63 (ocaml_int a) \<le> take_bit 63 (ocaml_int b)"
  by (simp add: word_le_def uint_Is_long)

lemma ocaml_int_Val_int_bit: "ocaml_int (Val_int (if P then 1 else 0)) = (if P then 1 else 0)"
  by (simp add: Val_int_def ocaml_int_Val_long wrap63_def)

lemma shift_count_small: "0 \<le> ocaml_int b \<Longrightarrow> ocaml_int b < 64 \<Longrightarrow> shift_count b = nat (ocaml_int b)"
proof -
  assume a: "0 \<le> ocaml_int b" "ocaml_int b < 64"
  have "(63 :: u64) = mask 6" by (simp add: mask_eq_exp_minus_1)
  then have "Long_val b AND 63 = take_bit 6 (Long_val b)"
    by (simp only: take_bit_eq_mask)
  then have "shift_count b = take_bit 6 (unat (Long_val b))"
    by (simp only: shift_count_def unsigned_take_bit_eq)
  moreover have "uint (Long_val b) = ocaml_int b"
    using a by (simp add: ocaml_int_def uint_sint take_bit_int_eq_self)
  ultimately show ?thesis
    using a by (simp add: nat_uint_eq [symmetric] take_bit_nat_eq_self_iff)
qed

section \<open>The instructions\<close>

text \<open>What each two-operand integer instruction is to compute on OCaml integers.\<close>

definition of_bool_int :: "bool \<Rightarrow> int" where
  "of_bool_int b = (if b then 1 else 0)"

definition int63_spec :: "(string \<times> (int \<Rightarrow> int \<Rightarrow> int)) list" where
  "int63_spec = [
    (''ADDINT'', \<lambda>a b. wrap63 (a + b)), (''SUBINT'', \<lambda>a b. wrap63 (a - b)),
    (''MULINT'', \<lambda>a b. wrap63 (a * b)),
    (''ANDINT'', (AND)), (''ORINT'', (OR)), (''XORINT'', (XOR)),
    (''LSLINT'', \<lambda>a b. wrap63 (a * 2 ^ nat b)),
    (''LSRINT'', \<lambda>a b. wrap63 (a mod 2 ^ 63 div 2 ^ nat b)),
    (''ASRINT'', \<lambda>a b. a div 2 ^ nat b),
    (''EQ'', \<lambda>a b. of_bool_int (a = b)), (''NEQ'', \<lambda>a b. of_bool_int (a \<noteq> b)),
    (''LTINT'', \<lambda>a b. of_bool_int (a < b)), (''LEINT'', \<lambda>a b. of_bool_int (a \<le> b)),
    (''GTINT'', \<lambda>a b. of_bool_int (a > b)), (''GEINT'', \<lambda>a b. of_bool_int (a \<ge> b)),
    (''ULTINT'', \<lambda>a b. of_bool_int (a mod 2 ^ 63 < b mod 2 ^ 63)),
    (''UGEINT'', \<lambda>a b. of_bool_int (a mod 2 ^ 63 \<ge> b mod 2 ^ 63))]"

text \<open>A word operation that computes \<open>f\<close> on the operands it is meant for.\<close>

definition computes :: "(u64 \<Rightarrow> u64 \<Rightarrow> u64) \<Rightarrow> (int \<Rightarrow> int \<Rightarrow> int) \<Rightarrow> u64 \<Rightarrow> u64 \<Rightarrow> bool" where
  "computes w f a b \<longleftrightarrow> Is_long (w a b) \<and> ocaml_int (w a b) = f (ocaml_int a) (ocaml_int b)"

lemma computes_odd:
  "w a b = word_of_int (2 * f (ocaml_int a) (ocaml_int b) + 1) \<Longrightarrow>
    computes w (\<lambda>a b. wrap63 (f a b)) a b"
  by (simp only: computes_def Is_long_of_odd ocaml_int_of_odd)

lemma computes_cmp:
  "P a b \<longleftrightarrow> Q (ocaml_int a) (ocaml_int b) \<Longrightarrow>
    computes (\<lambda>a b. Val_int (if P a b then 1 else 0)) (\<lambda>a b. of_bool_int (Q a b)) a b"
  by (simp only: computes_def ocaml_int_Val_int_bit of_bool_int_def) (simp add: Val_int_def)

lemma take_bit63: "take_bit 63 (k :: int) = k mod 2 ^ 63"
  by (simp add: take_bit_eq_mod)

lemma computes_arith:
  assumes "Is_long a" "Is_long b"
  shows "computes add_op (\<lambda>a b. wrap63 (a + b)) a b" "computes sub_op (\<lambda>a b. wrap63 (a - b)) a b"
    "computes mul_op (\<lambda>a b. wrap63 (a * b)) a b" "computes and_op (AND) a b"
    "computes or_op (OR) a b" "computes xor_op (XOR) a b"
  using assms computes_odd [of add_op a b "(+)"] computes_odd [of sub_op a b "(-)"]
    computes_odd [of mul_op a b "(*)"]
  by (simp_all only: Is_long_add_op Is_long_sub_op mul_op_repr computes_def and_op_def or_op_def
      Is_long_and Is_long_or ocaml_int_and ocaml_int_or ocaml_int_xor_op)
     (simp_all add: xor_op_def Is_long_or_1)

lemma computes_shift:
  assumes "Is_long a" "0 \<le> ocaml_int b" "ocaml_int b < 64"
  shows "computes lsl_op (\<lambda>a b. wrap63 (a * 2 ^ nat b)) a b"
    "computes lsr_op (\<lambda>a b. wrap63 (a mod 2 ^ 63 div 2 ^ nat b)) a b"
    "computes asr_op (\<lambda>a b. a div 2 ^ nat b) a b"
proof -
  show "computes lsl_op (\<lambda>a b. wrap63 (a * 2 ^ nat b)) a b"
    using assms by (intro computes_odd) (simp only: lsl_op_repr shift_count_small)
  show "computes lsr_op (\<lambda>a b. wrap63 (a mod 2 ^ 63 div 2 ^ nat b)) a b"
    by (simp only: computes_def ocaml_int_lsr_op shift_count_small [OF assms(2,3)] take_bit63
        drop_bit_eq_div) (simp only: lsr_op_def Is_long_or_1)
  show "computes asr_op (\<lambda>a b. a div 2 ^ nat b) a b"
    by (simp only: computes_def ocaml_int_asr_op shift_count_small [OF assms(2,3)]
        drop_bit_eq_div) (simp only: asr_op_def Is_long_or_1)
qed

lemma computes_cmps:
  assumes "Is_long a" "Is_long b"
  shows "computes (\<lambda>a b. Val_int (if a = b then 1 else 0)) (\<lambda>a b. of_bool_int (a = b)) a b"
    "computes (\<lambda>a b. Val_int (if a \<noteq> b then 1 else 0)) (\<lambda>a b. of_bool_int (a \<noteq> b)) a b"
    "computes (\<lambda>a b. Val_int (if slt a b then 1 else 0)) (\<lambda>a b. of_bool_int (a < b)) a b"
    "computes (\<lambda>a b. Val_int (if sle a b then 1 else 0)) (\<lambda>a b. of_bool_int (a \<le> b)) a b"
    "computes (\<lambda>a b. Val_int (if slt b a then 1 else 0)) (\<lambda>a b. of_bool_int (a > b)) a b"
    "computes (\<lambda>a b. Val_int (if sle b a then 1 else 0)) (\<lambda>a b. of_bool_int (a \<ge> b)) a b"
    "computes (\<lambda>a b. Val_int (if a < b then 1 else 0))
       (\<lambda>a b. of_bool_int (a mod 2 ^ 63 < b mod 2 ^ 63)) a b"
    "computes (\<lambda>a b. Val_int (if b \<le> a then 1 else 0))
       (\<lambda>a b. of_bool_int (a mod 2 ^ 63 \<ge> b mod 2 ^ 63)) a b"
  using assms
  by (intro computes_cmp;
      simp only: ocaml_int_inject slt_ocaml_int sle_ocaml_int less_take_bit le_take_bit take_bit63)+

text \<open>The handler the table holds for a name.\<close>

lemma binop_computes:
  "computes w f (accu s) (stk s 0) \<Longrightarrow>
    \<exists>t. binop w rt s = Ret Next t \<and> sp t = sp s + 8 \<and> mem t = mem s \<and> pc t = pc s \<and>
      Is_long (accu t) \<and> ocaml_int (accu t) = f (ocaml_int (accu s)) (ocaml_int (stk s 0))"
  by (auto simp: binop_def computes_def continue_def popn_def)

lemma int_instr_handlers:
  "exec_instr (opcode ''ADDINT'') = binop add_op" "exec_instr (opcode ''SUBINT'') = binop sub_op"
  "exec_instr (opcode ''MULINT'') = binop mul_op" "exec_instr (opcode ''ANDINT'') = binop and_op"
  "exec_instr (opcode ''ORINT'') = binop or_op" "exec_instr (opcode ''XORINT'') = binop xor_op"
  "exec_instr (opcode ''LSLINT'') = binop lsl_op" "exec_instr (opcode ''LSRINT'') = binop lsr_op"
  "exec_instr (opcode ''ASRINT'') = binop asr_op" "exec_instr (opcode ''EQ'') = i_CMP (=)"
  "exec_instr (opcode ''NEQ'') = i_CMP (\<noteq>)" "exec_instr (opcode ''LTINT'') = i_CMP slt"
  "exec_instr (opcode ''LEINT'') = i_CMP sle"
  "exec_instr (opcode ''GTINT'') = i_CMP (\<lambda>a b. slt b a)"
  "exec_instr (opcode ''GEINT'') = i_CMP (\<lambda>a b. sle b a)"
  "exec_instr (opcode ''ULTINT'') = i_CMP (<)"
  "exec_instr (opcode ''UGEINT'') = i_CMP (\<lambda>a b. b \<le> a)"
  "exec_instr (opcode ''DIVINT'') = i_DIV c_div" "exec_instr (opcode ''MODINT'') = i_DIV c_mod"
  by (rule exec_opcode, simp only: instr_lookup)+


text \<open>
  C9: DIVINT and MODINT truncate towards zero and wrap to 63 bits when the divisor is not
  zero.
\<close>

theorem div_instructions_correct:
  assumes longs: "Is_long (accu s)" "Is_long (stk s 0)" and nz: "ocaml_int (stk s 0) \<noteq> 0"
    and op: "(name, f) \<in> {(''DIVINT'', (sdiv)), (''MODINT'', (smod))}"
  shows "\<exists>t. exec_instr (opcode name) rt s = Ret Next t \<and> sp t = sp s + 8 \<and> mem t = mem s \<and>
    pc t = pc s \<and> Is_long (accu t) \<and>
    ocaml_int (accu t) = wrap63 (f (ocaml_int (accu s)) (ocaml_int (stk s 0)))"
proof -
  let ?a = "ocaml_int (accu s)" and ?b = "ocaml_int (stk s 0)"
  have "Long_val (stk s 0) \<noteq> 0"
    using nz by (auto simp: ocaml_int_def)
  then have run: "i_DIV g rt s = Ret Next ((popn 1 s)\<lparr>accu :=
      Val_long (g (Long_val (accu s)) (Long_val (stk s 0)))\<rparr>)" for g
    by (simp add: i_DIV_def continue_def popn_def Let_def)
  have d: "sint (c_div (Long_val (accu s)) (Long_val (stk s 0))) = ?a sdiv ?b"
    and m: "sint (c_mod (Long_val (accu s)) (Long_val (stk s 0))) = ?a smod ?b"
    using div_range [OF nz] mod_range [OF nz] ocaml_int_range [of "accu s"]
      ocaml_int_range [of "stk s 0"]
    by (simp_all only: c_div_def c_mod_def ocaml_int_def [symmetric] sint_of_small)
  show ?thesis
    using op d m by (auto simp: int_instr_handlers run ocaml_int_Val_long popn_def)
qed

theorem zero_divide_raises:
  assumes "Long_val (stk s 0) = 0" and "name \<in> {''DIVINT'', ''MODINT''}"
    and "on_cs (rt_raise_zero_divide rt) (Setup_for_c_call (popn 1 s)) = Longjmp t"
  shows "exec_instr (opcode name) rt s = Longjmp t"
  using assms by (auto simp: int_instr_handlers i_DIV_def Let_def)


theorem div_instructions_correct_witness:
  "\<exists>t. exec_instr (opcode ''DIVINT'') sample_rt (sample_machine\<lparr>mem := \<lambda>a. 5\<rparr>) = Ret Next t \<and>
     ocaml_int (accu t) = 1 \<and> sp t = 0x1F08"
  using div_instructions_correct [of "sample_machine\<lparr>mem := \<lambda>a. 5\<rparr>" "''DIVINT''" "(sdiv)" sample_rt]
  by (auto simp: stk_def Is_long_def ocaml_int_def Long_val_def wrap63_def
      signed_divide_int_def)

end
