(* ===== verification/Interp_Calls.thy ===== *)
theory Interp_Calls
  imports Sample_State
begin

text \<open>
  Calls, partial application, recursive closures, exceptions, blocks and method lookup:
  what a sequence of instructions does to the stack, the heap and the registers.
\<close>

section \<open>The copying loops\<close>

lemma slide_down_outside: "x \<notin> cells newsp n \<Longrightarrow> slide_down n newsp old m x = m x"
  by (induction n arbitrary: m) (auto simp: cells_Suc_last)

lemma slide_down_nth:
  assumes "n + d < 2 ^ 61" and "i < n"
  shows "slide_down n (waddr a d) a m (waddr a (d + i)) = m (waddr a i)"
  using assms
proof (induction n arbitrary: m i)
  case (Suc n)
  let ?m = "m(waddr a (d + n) := m (waddr a n))"
  show ?case
  proof (cases "i < n")
    case True
    then have "slide_down n (waddr a d) a ?m (waddr a (d + i)) = ?m (waddr a i)"
      using Suc by simp
    also have "\<dots> = m (waddr a i)"
      using True Suc.prems by (simp add: waddr_inj)
    finally show ?thesis by (simp add: waddr_add)
  next
    case False
    then have i: "i = n" using Suc.prems by simp
    have "waddr a (d + n) \<notin> cells (waddr a d) n"
      using Suc.prems by (auto simp: mem_cells_iff waddr_add waddr_inj)
    then show ?thesis
      by (simp add: i waddr_add slide_down_outside)
  qed
qed simp

lemma copy_up_outside: "x \<notin> cells dst n \<Longrightarrow> copy_up n dst src m x = m x"
  by (induction n arbitrary: dst src m) (auto simp: cells_Suc)

lemma copy_up_write_words:
  "cells dst n \<inter> cells src n = {} \<Longrightarrow> copy_up n dst src m = write_words dst (read_words m src n) m"
proof (induction n arbitrary: dst src m)
  case (Suc n)
  let ?m = "m(dst := m src)"
  have r: "read_words ?m (src + 8) n = read_words m (src + 8) n"
    using Suc.prems by (intro read_words_cong) (auto simp: cells_Suc mem_cells_iff)
  have "cells (dst + 8) n \<inter> cells (src + 8) n = {}"
    using Suc.prems by (auto simp: cells_Suc)
  from Suc.IH [OF this, of ?m] show ?case
    by (simp only: copy_up.simps read_words_Suc write_words.simps r)
qed (simp add: read_words_def)

lemma copy_up_read:
  assumes "cells dst n \<inter> cells src n = {}" and "n < 2 ^ 61"
  shows "read_words (copy_up n dst src m) dst n = read_words m src n"
  using assms read_write_words [of "read_words m src n" dst m]
  by (simp add: copy_up_write_words)

section \<open>Calls and returns\<close>

lemma Long_val_Val_long_range:
  "- (2 ^ 62) \<le> sint x \<Longrightarrow> sint x < 2 ^ 62 \<Longrightarrow> Long_val (Val_long x) = x"
  by (rule Long_val_Val_long)

lemma APPLYn_frame:
  fixes s :: machine
  assumes n: "n < 2 ^ 32" and r: "i_APPLYn n rt s = Ret l t"
  shows "l = Check_stacks" "sp t = sp s - 24" "env t = accu s" "pc t = Code_val (mem t) (accu s)"
    "read_words (mem t) (sp t) (n + 3) =
      read_words (mem s) (sp s) n @ [pc s, env s, Val_long (extra_args s)]"
proof -
  let ?xs = "read_words (mem s) (sp s) n @ [pc s, env s, Val_long (extra_args s)]"
  have m: "mem t = write_words (sp s - 24) ?xs (mem s)" and sp: "sp t = sp s - 24"
    using r by (auto simp: i_APPLYn_def enter_closure_def Let_def)
  show "l = Check_stacks" "sp t = sp s - 24" "env t = accu s" "pc t = Code_val (mem t) (accu s)"
    using r by (auto simp: i_APPLYn_def enter_closure_def Let_def)
  show "read_words (mem t) (sp t) (n + 3) = ?xs"
  proof -
    have "length ?xs = n + 3" by simp
    moreover from n have "length ?xs < 2 ^ 61" by simp
    ultimately show ?thesis
      using read_write_words [of ?xs "sp s - 24" "mem s"] by (simp only: m sp)
  qed
qed

text \<open>
  C10: The frame an APPLYn builds brings RETURN back to the caller with its registers.
\<close>

theorem apply_then_return:
  fixes s t u :: machine
  assumes "n < 2 ^ 31" and call: "i_APPLYn n rt s = Ret Check_stacks t"
    and frame: "sp u = sp t" "read_words (mem u) (sp t) (n + 3) = read_words (mem t) (sp t) (n + 3)"
    and ret: "opnd u = of_nat n" "sint (extra_args u) \<le> 0"
    and ea: "- (2 ^ 62) \<le> sint (extra_args s)" "sint (extra_args s) < 2 ^ 62"
  shows "\<exists>v. i_RETURN rt u = Ret Next v \<and> pc v = pc s \<and> env v = env s \<and>
    extra_args v = extra_args s \<and> sp v = sp s + 8 * of_nat n \<and> accu v = accu u \<and> mem v = mem u"
proof -
  have n32: "n < 2 ^ 32" using assms(1) by simp
  note F = APPLYn_frame [OF n32 call]
  have ws: "map (\<lambda>i. mem u (waddr (sp t) i)) [0..<n + 3] =
      read_words (mem s) (sp s) n @ [pc s, env s, Val_long (extra_args s)]"
    using trans [OF frame(2) F(5)] by (simp only: read_words_def [of "mem u"])
  have nth: "mem u (waddr (sp t) (n + k)) = [pc s, env s, Val_long (extra_args s)] ! k" if "k < 3" for k
    using arg_cong [OF ws, of "\<lambda>xs. xs ! (n + k)"] that by (simp add: nth_append)
  have sx: "sext (of_nat n) = (of_nat n :: u64)"
  proof -
    have "sint (of_nat n :: u32) = int n"
      using assms(1) by (simp add: signed_of_nat signed_take_bit_int_eq_self)
    then show ?thesis by (simp add: sext_def scast_eq)
  qed
  show ?thesis
    using nth [of 0] nth [of 1] nth [of 2] ret ea
    by (simp add: i_RETURN_def continue_def pop_return_frame_def adv_def popn_def stk_def
        Let_def sx frame(1) F(2) waddr_def algebra_simps Long_val_Val_long)
qed

section \<open>Exceptions\<close>

text \<open>
  A trap frame is four words: handler, link, environment, extra arguments. What a later
  raise needs of the stack is that these words are still there.
\<close>

definition trap_frame :: "store \<Rightarrow> u64 \<Rightarrow> u64 list \<Rightarrow> bool" where
  "trap_frame m tp ws = (read_words m tp 4 = ws \<and> length ws = 4)"

lemma read_words_4: "read_words m a 4 = [m a, m (a + 8), m (a + 16), m (a + 24)]"
  by (simp add: read_words_def waddr_def upt_rec)

lemma PUSHTRAP_frame:
  fixes s :: machine
  assumes "i_PUSHTRAP rt s = Ret Next t"
  shows "sp t = sp s - 32" "trapsp t = sp t"
    "trap_frame (mem t) (sp t) [pc_plus s (opnd s), trapsp s, env s, Val_long (extra_args s)]"
proof -
  let ?ws = "[pc_plus s (opnd s), trapsp s, env s, Val_long (extra_args s)]"
  have m: "mem t = write_words (sp s - 32) ?ws (mem s)" and p: "sp t = sp s - 32"
    using assms by (auto simp: i_PUSHTRAP_def continue_def adv_def Let_def)
  show "sp t = sp s - 32" "trapsp t = sp t"
    using assms by (auto simp: i_PUSHTRAP_def continue_def adv_def Let_def)
  have "length ?ws = 4" "length ?ws < 2 ^ 61" by simp_all
  then show "trap_frame (mem t) (sp t) ?ws"
    using read_write_words [of ?ws "sp s - 32" "mem s"] by (simp only: trap_frame_def m p)
qed

lemma raise_notrace_frame:
  assumes "trap_frame (mem u) (trapsp u) [h, lnk, e, x]"
    and "trapsp u < stack_high u - initial_sp_offset act"
  shows "raise_notrace act u = Running None (u\<lparr>pc := h, trapsp := lnk, env := e,
      extra_args := Long_val x, sp := trapsp u + 32\<rparr>)"
  using assms by (simp add: raise_notrace_def trap_frame_def read_words_4 Trap_pc_def
      Trap_link_def Let_def not_le)

lemma raise_instructions_enter:
  fixes u :: machine
  assumes "name \<in> {''RAISE'', ''RERAISE'', ''RAISE_NOTRACE''}"
    and "\<not> backtrace_active u" and "trapsp u < trap_barrier u"
  shows "exec_instr (opcode name) rt u = Ret Raise_notrace u"
proof -
  have ct: "Check_trap_barrier rt u = u"
    using assms(3) by (simp add: Check_trap_barrier_def not_le [symmetric])
  have "exec_instr (opcode ''RAISE'') = i_RAISE False"
    by (rule exec_opcode, simp only: instr_lookup)
  moreover have "exec_instr (opcode ''RERAISE'') = i_RAISE True"
    by (rule exec_opcode, simp only: instr_lookup)
  moreover have "exec_instr (opcode ''RAISE_NOTRACE'') = i_RAISE_NOTRACE"
    by (rule exec_opcode, simp only: instr_lookup)
  ultimately show ?thesis
    using assms by (auto simp: i_RAISE_def i_RAISE_NOTRACE_def ct Let_def simp del: char.inject)
qed

text \<open>
  C13: A raise transfers control to the handler installed by PUSHTRAP with its environment,
  arguments and stack.
\<close>

theorem raise_reaches_handler:
  fixes s t u :: machine
  assumes push: "i_PUSHTRAP rt s = Ret Next t"
    and frame: "trapsp u = trapsp t" "read_words (mem u) (trapsp t) 4 = read_words (mem t) (trapsp t) 4"
    and inside: "trapsp u < stack_high u - initial_sp_offset act"
    and ea: "- (2 ^ 62) \<le> sint (extra_args s)" "sint (extra_args s) < 2 ^ 62"
    and r: "settle act rt (cbind (exec_instr (opcode name) rt u) (goto rt)) = out"
    and raise: "name \<in> {''RAISE'', ''RERAISE'', ''RAISE_NOTRACE''}"
      "\<not> backtrace_active u" "trapsp u < trap_barrier u"
  shows "out = Running None (u\<lparr>pc := pc_plus s (opnd s), trapsp := trapsp s, env := env s,
      extra_args := extra_args s, sp := sp s\<rparr>)"
proof -
  note F = PUSHTRAP_frame [OF push]
  have tf: "trap_frame (mem u) (trapsp u)
      [pc_plus s (opnd s), trapsp s, env s, Val_long (extra_args s)]"
    using F frame by (simp add: trap_frame_def)
  have "raise_notrace act u = out"
    using r by (simp add: raise_instructions_enter [OF raise])
  then show ?thesis
    using raise_notrace_frame [OF tf inside] Long_val_Val_long [OF ea] F(1,2) frame(1) by simp
qed

text \<open>
  C14: An exception raised by a C primitive reaches the handler installed by PUSHTRAP, with
  local roots reset.
\<close>

theorem longjmp_reaches_handler:
  fixes s t u :: machine
  assumes push: "i_PUSHTRAP rt s = Ret Next t"
    and frame: "trapsp u = trapsp t" "read_words (mem u) (trapsp t) 4 = read_words (mem t) (trapsp t) 4"
    and inside: "trapsp u < stack_high u - initial_sp_offset act"
    and ea: "- (2 ^ 62) \<le> sint (extra_args s)" "sint (extra_args s) < 2 ^ 62"
    and "\<not> backtrace_active u" "trapsp u < trap_barrier u"
  shows "settle act rt (Longjmp u) = Running None (u\<lparr>local_roots := initial_local_roots act,
      accu := exn_bucket u, pc := pc_plus s (opnd s), trapsp := trapsp s, env := env s,
      extra_args := extra_args s, sp := sp s\<rparr>)"
proof -
  note F = PUSHTRAP_frame [OF push]
  let ?u = "u\<lparr>local_roots := initial_local_roots act, sp := extern_sp u, accu := exn_bucket u\<rparr>"
  have tf: "trap_frame (mem ?u) (trapsp ?u)
      [pc_plus s (opnd s), trapsp s, env s, Val_long (extra_args s)]"
    using F frame by (simp add: trap_frame_def)
  have "settle act rt (Longjmp u) = raise_notrace act ?u"
    using assms by (simp add: caught_longjmp_def Check_trap_barrier_def not_le [symmetric] Let_def)
  also have "\<dots> = Running None (?u\<lparr>pc := pc_plus s (opnd s), trapsp := trapsp s, env := env s,
      extra_args := Long_val (Val_long (extra_args s)), sp := trapsp ?u + 32\<rparr>)"
    by (rule raise_notrace_frame [OF tf]) (use inside in simp)
  finally show ?thesis
    using Long_val_Val_long [OF ea] F(1,2) frame(1) by simp
qed

text \<open>
  C15: An exception with no handler in the activation ends it with an exception result and
  restores the caller.
\<close>

theorem uncaught_leaves_interpreter:
  fixes s u :: machine
  assumes "interp_enter prog buf s = (act, s1)"
    and "stack_high u - initial_sp_offset act \<le> trapsp u"
    and "name \<in> {''RAISE'', ''RERAISE'', ''RAISE_NOTRACE''}"
      "\<not> backtrace_active u" "trapsp u < trap_barrier u"
    and "caml_callback_depth u = caml_callback_depth s1"
  shows "\<exists>v. settle act rt (cbind (exec_instr (opcode name) rt u) (goto rt)) =
        Finished (Make_exception_result (accu u)) v \<and>
      external_raise v = external_raise s \<and>
      stack_high v - extern_sp v = stack_high s - extern_sp s \<and>
      caml_callback_depth v = caml_callback_depth s \<and> mem v = mem u"
  using assms(1,2,6)
  by (auto simp: raise_instructions_enter [OF assms(3-5)] raise_notrace_def interp_enter_def)

theorem pushtrap_poptrap:
  fixes s t u :: machine
  assumes "i_PUSHTRAP rt s = Ret Next t"
    and "sp u = sp t" "read_words (mem u) (sp t) 4 = read_words (mem t) (sp t) 4"
  shows "i_POPTRAP rt u =
    (if caml_something_to_do u then Ret Process_actions (u\<lparr>pc := pc u - 4\<rparr>)
     else Ret Next (u\<lparr>trapsp := trapsp s, sp := sp s\<rparr>))"
  using PUSHTRAP_frame [OF assms(1)] assms(2,3)
  by (simp add: i_POPTRAP_def continue_def popn_def trap_frame_def read_words_4 Trap_link_def)

section \<open>Partial application\<close>

lemma Suc3: "N + 3 = Suc (Suc (Suc N))"
  by simp

lemma read_words_3: "read_words m a (N + 3) = m a # m (a + 8) # m (a + 16) # read_words m (a + 24) N"
  by (simp add: Suc3 read_words_Suc add.assoc)

lemma GRAB_eq:
  fixes s :: machine
  assumes few: "sint (extra_args s) < sint (opnd s)" and room: "young_room (extra_args s + 3) s"
    and hp: "hp = young_ptr s - 8 * (extra_args s + 4)"
  shows "i_GRAB rt s = Ret Next (pop_return_frame (popn (1 + extra_args s) (s\<lparr>pc := pc s + 4,
    young_ptr := hp, accu := hp + 8,
    mem := (copy_up (unat (1 + extra_args s)) (hp + 24) (sp s)
      ((mem s)(hp := Make_header (extra_args s + 3) Closure_tag Caml_white, hp + 16 := env s)))
      (hp + 8 := pc s - 8)\<rparr>)))"
proof -
  have n: "1 + extra_args s + 2 = extra_args s + 3" by simp
  have room': "young_room (extra_args s + 3) (adv 1 s)"
    using room by (simp add: young_room_def)
  have hp': "young_ptr s - 8 * Whsize_wosize (extra_args s + 3) = hp"
    by (simp add: hp Whsize_wosize_def algebra_simps)
  have c: "\<not> sint (opnd s) \<le> sint (extra_args (adv 1 s))"
    using few by simp
  have u: "adv 1 s\<lparr>young_ptr := hp\<rparr> = s\<lparr>pc := pc s + 4, young_ptr := hp\<rparr>"
    by (simp add: adv_def)
  show ?thesis
    using few unfolding i_GRAB_def Let_def if_not_P [OF c] machine_simps n Alloc_small_room [OF room'] hp' cbind.simps u
    by (simp add: store_at_def new_block_def Val_hp_def set_Field_def continue_def add.assoc)
qed

lemma GRAB_block:
  fixes s t :: machine
  assumes few: "sint (extra_args s) < sint (opnd s)" and room: "young_room (extra_args s + 3) s"
    and N: "N = unat (1 + extra_args s)" "N < 2 ^ 31"
    and hp: "hp = young_ptr s - 8 * (extra_args s + 4)"
    and apart: "cells hp (N + 3) \<inter> cells (sp s) (N + 3) = {}"
    and r: "i_GRAB rt s = Ret l t"
  shows "l = Next" "accu t = hp + 8"
    "read_words (mem t) hp (N + 3) =
       Make_header (extra_args s + 3) Closure_tag Caml_white # (pc s - 8) # env s #
       read_words (mem s) (sp s) N"
    "pc t = mem s (waddr (sp s) N)" "env t = mem s (waddr (sp s) (N + 1))"
    "extra_args t = Long_val (mem s (waddr (sp s) (N + 2)))" "sp t = waddr (sp s) (N + 3)"
proof -
  define m0 where "m0 = (mem s)(hp := Make_header (extra_args s + 3) Closure_tag Caml_white, hp + 16 := env s)"
  define m1 where "m1 = copy_up N (hp + 24) (sp s) m0"
  have of_N: "1 + extra_args s = of_nat N"
    by (simp add: N(1))
  have t: "l = Next" "mem t = m1(hp + 8 := pc s - 8)" "accu t = hp + 8"
    "sp t = sp s + 8 * (1 + extra_args s) + 24"
    "pc t = (m1(hp + 8 := pc s - 8)) (sp s + 8 * (1 + extra_args s))"
    "env t = (m1(hp + 8 := pc s - 8)) (sp s + 8 * (1 + extra_args s) + 8)"
    "extra_args t = Long_val ((m1(hp + 8 := pc s - 8)) (sp s + 8 * (1 + extra_args s) + 16))"
    using r unfolding GRAB_eq [OF few room hp] N(1) [symmetric] m1_def m0_def
    by (auto simp: pop_return_frame_def popn_def stk_def)
  have c: "cells hp (N + 3) = {hp, hp + 8, hp + 16} \<union> cells (hp + 24) N"
    by (auto simp: Suc3 cells_Suc add.assoc)
  have dst: "{hp, hp + 8, hp + 16} \<inter> cells (hp + 24) N = {}"
  proof -
    have "waddr hp k \<noteq> waddr hp (3 + i)" if "k < 3" "i < N" for k i
      using that N(2) by (simp add: waddr_inj)
    from this [of 0] this [of 1] this [of 2] show ?thesis
      by (auto simp: mem_cells_iff waddr_def algebra_simps)
  qed
  have src: "cells (sp s) N \<subseteq> cells (sp s) (N + 3)"
    by (auto simp: cells_def)
  have old: "(m1(hp + 8 := pc s - 8)) x = mem s x" if "x \<notin> cells hp (N + 3)" for x
    using that by (simp add: c m1_def copy_up_outside m0_def)
  have "read_words m1 (hp + 24) N = read_words m0 (sp s) N"
    unfolding m1_def using apart src N(2) by (intro copy_up_read) (auto simp: c)
  also have "\<dots> = read_words (mem s) (sp s) N"
  proof (rule read_words_cong)
    fix i assume "i < N"
    then have "waddr (sp s) i \<in> cells (sp s) (N + 3)" by simp
    then show "m0 (waddr (sp s) i) = mem s (waddr (sp s) i)"
      using apart by (auto simp: m0_def c)
  qed
  finally have args: "read_words m1 (hp + 24) N = read_words (mem s) (sp s) N" .
  have "read_words (m1(hp + 8 := pc s - 8)) (hp + 24) N = read_words m1 (hp + 24) N"
    by (rule read_words_cong) (use dst in \<open>auto simp: mem_cells_iff\<close>)
  moreover have "m1 hp = m0 hp" "m1 (hp + 16) = m0 (hp + 16)"
    using dst by (simp_all add: m1_def copy_up_outside)
  ultimately show "read_words (mem t) hp (N + 3) =
       Make_header (extra_args s + 3) Closure_tag Caml_white # (pc s - 8) # env s #
       read_words (mem s) (sp s) N"
    by (simp add: t(2) read_words_3 args m0_def)
  have frame: "(m1(hp + 8 := pc s - 8)) (waddr (sp s) k) = mem s (waddr (sp s) k)" if "k < N + 3" for k
  proof (rule old)
    have "waddr (sp s) k \<in> cells (sp s) (N + 3)"
      using that by simp
    then show "waddr (sp s) k \<notin> cells hp (N + 3)" using apart by blast
  qed
  have w: "sp s + 8 * (1 + extra_args s) = waddr (sp s) N"
    "waddr (sp s) N + 8 = waddr (sp s) (N + 1)"
    "waddr (sp s) N + 16 = waddr (sp s) (N + 2)"
    "waddr (sp s) N + 24 = waddr (sp s) (N + 3)"
    unfolding of_N by (simp_all add: waddr_def algebra_simps)
  show "l = Next" "accu t = hp + 8" by fact+
  show "pc t = mem s (waddr (sp s) N)" "env t = mem s (waddr (sp s) (N + 1))"
    "extra_args t = Long_val (mem s (waddr (sp s) (N + 2)))" "sp t = waddr (sp s) (N + 3)"
    using frame [of N] frame [of "N + 1"] frame [of "N + 2"] by (simp_all only: t w)
qed

lemma sext_of_nat: "n < 2 ^ 31 \<Longrightarrow> sext (of_nat n) = of_nat n"
  using sext_word_of_int [of "int n"] by simp

lemma sint_of_nat32: "n < 2 ^ 31 \<Longrightarrow> sint (of_nat n :: u32) = int n"
  by (simp add: signed_of_nat signed_take_bit_int_eq_self)

lemma RESTART_eq:
  fixes u :: machine
  assumes N: "N < 2 ^ 31" and size_ok: "Wosize_val (mem u) (env u) = of_nat N + 2"
    and apart: "cells (env u - 8) (N + 3) \<inter> cells (sp u - 8 * of_nat N) N = {}"
  shows "\<exists>v. i_RESTART rt u = Ret Next v \<and> sp v = sp u - 8 * of_nat N \<and> pc v = pc u \<and>
    read_words (mem v) (sp v) N = read_words (mem u) (env u + 16) N \<and>
    env v = Field (mem u) (env u) 1 \<and> extra_args v = extra_args u + of_nat N \<and>
    (\<forall>x. x \<notin> cells (sp v) N \<longrightarrow> mem v x = mem u x)"
proof -
  let ?sp = "sp u - 8 * of_nat N"
  have na: "(ucast (Wosize_val (mem u) (env u) - 2) :: u32) = of_nat N"
    by (simp add: size_ok)
  have c: "cells (env u - 8) (N + 3) = {env u - 8, env u, env u + 8} \<union> cells (env u + 16) N"
    by (auto simp: Suc3 cells_Suc add.assoc)
  have "read_words (copy_up N ?sp (env u + 16) (mem u)) ?sp N = read_words (mem u) (env u + 16) N"
    using apart N by (intro copy_up_read) (auto simp: c)
  moreover have "copy_up N ?sp (env u + 16) (mem u) (env u + 8) = mem u (env u + 8)"
    using apart by (intro copy_up_outside) (auto simp: c)
  ultimately show ?thesis
    unfolding i_RESTART_def Let_def na sint_of_nat32 [OF N] sext_of_nat [OF N]
    by (auto simp: continue_def Field_def copy_up_outside)
qed

text \<open>
  C11: A partial application built by GRAB, when restarted, puts its arguments and environment
  back.
\<close>

theorem grab_restart:
  fixes s t u :: machine
  assumes few: "sint (extra_args s) < sint (opnd s)" and room: "young_room (extra_args s + 3) s"
    and N: "N = unat (1 + extra_args s)" "N < 2 ^ 31"
    and hp: "hp = young_ptr s - 8 * (extra_args s + 4)"
    and apart: "cells hp (N + 3) \<inter> cells (sp s) (N + 3) = {}"
    and grab: "i_GRAB rt s = Ret Next t"
    and later: "env u = accu t" "read_words (mem u) hp (N + 3) = read_words (mem t) hp (N + 3)"
      "cells hp (N + 3) \<inter> cells (sp u - 8 * of_nat N) N = {}"
  shows "Code_val (mem t) (accu t) = pc s - 8 \<and>
    (\<exists>v. i_RESTART rt u = Ret Next v \<and> sp v = sp u - 8 * of_nat N \<and> pc v = pc u \<and>
      read_words (mem v) (sp v) N = read_words (mem s) (sp s) N \<and>
      env v = env s \<and> extra_args v = extra_args u + 1 + extra_args s)"
proof -
  note B = GRAB_block [OF few room N hp apart grab]
  have ea: "extra_args s + 3 = of_nat N + 2" and of_N: "of_nat N = 1 + extra_args s"
    by (simp_all add: N(1))
  have hd: "mem t (hp + 8) = pc s - 8"
    and u: "mem u hp = Make_header (of_nat N + 2) Closure_tag Caml_white"
      "mem u (hp + 16) = env s" "read_words (mem u) (hp + 24) N = read_words (mem s) (sp s) N"
    using B(3) later(2) by (simp_all only: read_words_3 ea list.inject)
  have e: "env u = hp + 8" using later(1) B(2) by simp
  have N2: "unat (of_nat N + 2 :: u64) = N + 2"
  proof -
    have "(of_nat N + 2 :: u64) = of_nat (N + 2)" by simp
    moreover have "N + 2 < 2 ^ LENGTH(64)" using N(2) by simp
    ultimately show ?thesis by (simp only:) (rule of_nat_inverse [OF refl])
  qed
  have "Wosize_val (mem u) (env u) = of_nat N + 2"
    unfolding Wosize_val_def Hd_val_def e using u(1)
    by (simp add: Wosize_Make_header N2 less_trans [OF N(2)] Closure_tag_def Caml_white_def)
  moreover have "cells (env u - 8) (N + 3) \<inter> cells (sp u - 8 * of_nat N) N = {}"
    using later(3) by (simp add: e)
  ultimately obtain v where v: "i_RESTART rt u = Ret Next v" "sp v = sp u - 8 * of_nat N" "pc v = pc u"
    "read_words (mem v) (sp v) N = read_words (mem u) (env u + 16) N"
    "env v = Field (mem u) (env u) 1" "extra_args v = extra_args u + of_nat N"
    using RESTART_eq [OF N(2)] by blast
  then show ?thesis
    using hd u by (auto simp: e Field_def Code_val_def B(2) add.assoc of_N)
qed

section \<open>Method lookup\<close>

text \<open>
  The method table as the compiler lays it out: \<open>n\<close> methods, method \<open>r\<close> (from 1) at index
  \<open>2 r\<close>, its tag at index \<open>2 r + 1\<close>, and \<open>2 n + 1\<close> at index 0.
\<close>

definition method_tag :: "store \<Rightarrow> u64 \<Rightarrow> nat \<Rightarrow> int" where
  "method_tag m meths r = sint (Field m meths (of_nat (2 * r + 1)))"

definition method_table :: "store \<Rightarrow> u64 \<Rightarrow> nat \<Rightarrow> bool" where
  "method_table m meths n = (0 < n \<and> n < 2 ^ 29 \<and> Field m meths 0 = of_nat (2 * n + 1) \<and>
     (\<forall>r. 1 \<le> r \<and> r < n \<longrightarrow> method_tag m meths r < method_tag m meths (r + 1)))"

lemma midpoint:
  assumes "a < 2 ^ 29" and "b < 2 ^ 29"
  shows "signed_drop_bit 1 (of_nat (2 * a + 1) + of_nat (2 * b + 1) :: u32) OR 1 =
    of_nat (2 * ((a + b + 1) div 2) + 1)"
proof -
  let ?k = "2 * a + 1 + (2 * b + 1)"
  have k: "?k < 2 ^ 31" and h: "?k div 2 < 2 ^ 31" using assms by simp_all
  have "sint (signed_drop_bit 1 (of_nat ?k :: u32)) = sint (of_nat (?k div 2) :: u32)"
    unfolding sint_signed_drop_bit_eq sint_of_nat32 [OF k] sint_of_nat32 [OF h]
    by (simp add: drop_bit_eq_div)
  then have s: "signed_drop_bit 1 (of_nat ?k :: u32) = of_nat (?k div 2)"
    by (rule sint_eqD)
  have "(of_nat (?k div 2) :: u32) OR 1 = of_nat (?k div 2 OR 1)"
    by (simp only: of_nat_or_eq of_nat_1)
  moreover have "?k div 2 OR 1 = 2 * ((a + b + 1) div 2) + 1"
    unfolding or_one_eq by (cases "even (a + b)") auto
  ultimately show ?thesis
    using s by (simp only: of_nat_add [symmetric])
qed

lemma method_search_bounds:
  assumes "1 \<le> a" "a \<le> b" "b < 2 ^ 29"
  shows "\<exists>r. method_search m meths tag (of_nat (2 * a + 1)) (of_nat (2 * b + 1)) =
        Some (of_nat (2 * r + 1)) \<and> a \<le> r \<and> r \<le> b \<and>
      (r = a \<or> method_tag m meths r \<le> sint tag) \<and>
      (r = b \<or> sint tag < method_tag m meths (r + 1))"
  using assms
proof (induction "b - a" arbitrary: a b rule: less_induct)
  case less
  have ab: "2 * a + 1 < 2 ^ 31" "2 * b + 1 < 2 ^ 31"
    using less.prems by simp_all
  note cond = sint_of_nat32 [OF ab(1)] sint_of_nat32 [OF ab(2)]
  show ?case
  proof (cases "a < b")
    case False
    then have "a = b" using less.prems by simp
    then show ?thesis
      by (subst method_search.simps) (auto intro!: exI [of _ b])
  next
    case True
    define c where "c = (a + b + 1) div 2"
    have c: "a < c" "c \<le> b" "2 * c + 1 < 2 ^ 31"
      using True less.prems by (auto simp: c_def)
    have mid: "signed_drop_bit 1 (of_nat (2 * a + 1) + of_nat (2 * b + 1) :: u32) OR 1 =
        of_nat (2 * c + 1)"
      unfolding c_def using less.prems by (intro midpoint) simp_all
    have below: "(of_nat (2 * c + 1) - 2 :: u32) = of_nat (2 * (c - 1) + 1)"
    proof -
      have "2 * c + 1 = 2 * (c - 1) + 1 + 2" using c by simp
      then show ?thesis by (simp only: of_nat_add) simp
    qed
    have test: "slt tag (Field m meths (sext (of_nat (2 * c + 1)))) \<longleftrightarrow>
        sint tag < method_tag m meths c"
      by (simp only: slt_def method_tag_def sext_of_nat [OF c(3)])
    have st: "method_search m meths tag (of_nat (2 * a + 1)) (of_nat (2 * b + 1)) =
        (if sint tag < method_tag m meths c
         then method_search m meths tag (of_nat (2 * a + 1)) (of_nat (2 * (c - 1) + 1))
         else method_search m meths tag (of_nat (2 * c + 1)) (of_nat (2 * b + 1)))"
      using True by (subst method_search.simps) (simp only: cond mid below test Let_def, simp)
    show ?thesis
    proof (cases "sint tag < method_tag m meths c")
      case True
      have c1: "c - 1 + 1 = c" "c - 1 \<le> b" using c by simp_all
      have "c - 1 - a < b - a" "a \<le> c - 1" "c - 1 < 2 ^ 29"
        using c less.prems by auto
      from less.hyps [OF this(1) less.prems(1) this(2,3)]
      obtain r where "method_search m meths tag (of_nat (2 * a + 1)) (of_nat (2 * (c - 1) + 1)) =
          Some (of_nat (2 * r + 1))" "a \<le> r" "r \<le> c - 1"
        "r = a \<or> method_tag m meths r \<le> sint tag"
        "r = c - 1 \<or> sint tag < method_tag m meths (r + 1)"
        by blast
      then show ?thesis
        using True c less.prems by (intro exI [of _ r]) (auto simp only: st if_True c1)
    next
      case False
      have "b - c < b - a" "1 \<le> c"
        using c less.prems by auto
      from less.hyps [OF this c(2) less.prems(3)]
      obtain r where "method_search m meths tag (of_nat (2 * c + 1)) (of_nat (2 * b + 1)) =
          Some (of_nat (2 * r + 1))" "c \<le> r" "r \<le> b"
        "r = c \<or> method_tag m meths r \<le> sint tag" "r = b \<or> sint tag < method_tag m meths (r + 1)"
        by blast
      then show ?thesis
        using False c by (intro exI [of _ r]) (auto simp only: st if_False)
    qed
  qed
qed

lemma method_tags_mono:
  assumes "method_table m meths n" "1 \<le> r" "r < k" "k \<le> n"
  shows "method_tag m meths r < method_tag m meths k"
  using assms(3,4)
proof (induction k)
  case (Suc k)
  have "method_tag m meths k < method_tag m meths (Suc k)" if "1 \<le> k"
    using assms(1) Suc.prems that by (auto simp: method_table_def)
  with Suc assms(2) show ?case by (cases "r = k") auto
qed simp

lemma find_method_correct:
  assumes tbl: "method_table m meths n"
    and k: "1 \<le> k" "k \<le> n" "method_tag m meths k = sint tag"
  shows "find_method m tag meths = Some (Field m meths (of_nat (2 * k)))"
proof -
  have n: "1 \<le> n" "n < 2 ^ 29" "Field m meths 0 = of_nat (2 * n + 1)"
    using tbl by (simp_all add: method_table_def)
  obtain r where r: "method_search m meths tag (of_nat (2 * 1 + 1)) (of_nat (2 * n + 1)) =
      Some (of_nat (2 * r + 1))" "1 \<le> r" "r \<le> n"
    "r = 1 \<or> method_tag m meths r \<le> sint tag" "r = n \<or> sint tag < method_tag m meths (r + 1)"
    using method_search_bounds [of 1 n m meths tag] n by auto
  have "\<not> k < r"
    using method_tags_mono [OF tbl k(1), of r] r k by auto
  moreover have "\<not> r < k"
  proof
    assume "r < k"
    with k have "r \<noteq> n" by simp
    with r have "sint tag < method_tag m meths (r + 1)" by simp
    with k(3) \<open>r < k\<close> method_tags_mono [OF tbl, of "r + 1" k] k(2) show False
      by (cases "r + 1 = k") auto
  qed
  ultimately have rk: "r = k" by simp
  have "(of_nat (2 * k + 1) - 1 :: u32) = of_nat (2 * k)" by simp
  moreover have "2 * k < 2 ^ 31" using k n by simp
  ultimately have "sext (of_nat (2 * k + 1) - 1) = of_nat (2 * k)"
    by (simp only: sext_of_nat)
  moreover have "(ucast (Field m meths 0) :: u32) = of_nat (2 * n + 1)"
    by (simp only: n ucast_of_nat32)
  moreover have "(3 :: u32) = of_nat (2 * 1 + 1)" by simp
  ultimately show ?thesis
    using r(1) unfolding find_method_def rk by (simp only: option.map)
qed

text \<open>
  C16: The binary search of GETDYNMET finds the method of a tag present in a sorted table.
\<close>

theorem getdynmet_correct:
  fixes s :: machine
  assumes "method_table (mem s) (Field (mem s) (stk s 0) 0) n"
    and "1 \<le> k" "k \<le> n" "method_tag (mem s) (Field (mem s) (stk s 0) 0) k = sint (accu s)"
  shows "i_GETDYNMET rt s =
    Ret Next (s\<lparr>accu := Field (mem s) (Field (mem s) (stk s 0) 0) (of_nat (2 * k))\<rparr>)"
  using find_method_correct [OF assms] by (simp add: i_GETDYNMET_def continue_def)

theorem method_search_returns:
  assumes "method_table m meths n"
  shows "\<exists>f. find_method m tag meths = Some f"
proof -
  have n: "1 \<le> n" "n < 2 ^ 29" "Field m meths 0 = of_nat (2 * n + 1)"
    using assms by (simp_all add: method_table_def)
  have "(ucast (Field m meths 0) :: u32) = of_nat (2 * n + 1)" "(3 :: u32) = of_nat (2 * 1 + 1)"
    by (simp_all only: n ucast_of_nat32) simp
  then show ?thesis
    using method_search_bounds [OF order_refl n(1,2), of m meths tag]
    unfolding find_method_def by auto
qed

section \<open>Tail calls\<close>

lemma sext_pred: "n < 2 ^ 31 \<Longrightarrow> sext (of_nat n - 1) = of_nat n - 1"
proof -
  assume "n < 2 ^ 31"
  then have "sext (word_of_int (int n - 1)) = word_of_int (int n - 1)"
    by (intro sext_word_of_int) simp_all
  then show ?thesis by simp
qed

lemma slide_down_read:
  assumes "n + d < 2 ^ 61"
  shows "read_words (slide_down n (waddr a d) a m) (waddr a d) n = read_words m a n"
  by (rule read_words_cong) (simp only: slide_down_nth [OF assms] waddr_add)

text \<open>
  C12: APPTERM slides overlapping arguments over the dead frame intact and touches nothing
  else.
\<close>

theorem appterm_slides:
  fixes s :: machine
  assumes "opnd s = of_nat n" "opnd_at s 1 = of_nat (n + d)" "n + d < 2 ^ 31"
  shows "\<exists>t. i_APPTERM rt s = Ret Check_stacks t \<and> sp t = waddr (sp s) d \<and>
    read_words (mem t) (sp t) n = read_words (mem s) (sp s) n \<and>
    (\<forall>x. x \<notin> cells (sp t) n \<longrightarrow> mem t x = mem s x) \<and>
    env t = accu s \<and> pc t = Code_val (mem t) (accu s) \<and>
    extra_args t = extra_args s + of_nat n - 1"
proof -
  have n: "n < 2 ^ 31" and nd: "n + d < 2 ^ 61" using assms(3) by simp_all
  have sp: "sp s + 8 * of_nat (n + d) - 8 * of_nat n = waddr (sp s) d"
    by (simp add: waddr_def algebra_simps)
  show ?thesis
    unfolding i_APPTERM_def Let_def assms(1,2) sext_of_nat [OF assms(3)] sext_of_nat [OF n]
      sint_of_nat32 [OF n] sext_pred [OF n] sp
    by (simp add: enter_closure_def slide_down_read [OF nd] slide_down_outside)
qed

lemma appterm_words:
  assumes "n + d < 2 ^ 61"
  shows "slide_down n (waddr a d) a m = write_words (waddr a d) (read_words m a n) m"
proof
  fix x
  show "slide_down n (waddr a d) a m x = write_words (waddr a d) (read_words m a n) m x"
  proof (cases "x \<in> cells (waddr a d) n")
    case True
    then obtain i where "i < n" "x = waddr (waddr a d) i" by (auto simp: mem_cells_iff)
    moreover from this assms have "write_words (waddr a d) (read_words m a n) m (waddr (waddr a d) i) =
        read_words m a n ! i"
      by (intro write_words_nth) simp_all
    ultimately show ?thesis
      using slide_down_nth [OF assms] by (simp add: waddr_add)
  next
    case False
    then show ?thesis by (simp add: slide_down_outside write_words_outside)
  qed
qed

text \<open>The specialised instructions do what the general one does on their operands.\<close>

theorem appterm_specialised:
  fixes s g :: machine
  assumes general: "opnd g = of_nat n" "opnd_at g 1 = of_nat (n + d)"
    and special: "opnd s = of_nat (n + d)"
    and same: "accu g = accu s" "sp g = sp s" "mem g = mem s" "extra_args g = extra_args s"
    and "0 < n" "n + d < 2 ^ 31"
    and "i_APPTERM rt g = Ret Check_stacks u" "i_APPTERMn n rt s = Ret Check_stacks t"
  shows "accu t = accu u \<and> env t = env u \<and> pc t = pc u \<and> sp t = sp u \<and> mem t = mem u \<and>
    extra_args t = extra_args u"
proof -
  have n: "n < 2 ^ 31" and nd: "n + d < 2 ^ 61" using assms(9) by simp_all
  have sp: "sp s + 8 * of_nat (n + d) - 8 * of_nat n = waddr (sp s) d"
    by (simp add: waddr_def algebra_simps)
  have "u = enter_closure (g\<lparr>mem := write_words (waddr (sp s) d) (read_words (mem s) (sp s) n) (mem s),
      sp := waddr (sp s) d, extra_args := extra_args s + (of_nat n - 1)\<rparr>)"
    using assms(10) unfolding i_APPTERM_def Let_def general sext_of_nat [OF assms(9)]
      sext_of_nat [OF n] sint_of_nat32 [OF n] sext_pred [OF n] same sp
    by (simp add: appterm_words [OF nd])
  moreover have "t = enter_closure (s\<lparr>sp := waddr (sp s) d,
      mem := write_words (waddr (sp s) d) (read_words (mem s) (sp s) n) (mem s),
      extra_args := extra_args s + of_nat (n - 1)\<rparr>)"
    using assms(11) unfolding i_APPTERMn_def Let_def special sext_of_nat [OF assms(9)] sp
    by simp
  moreover have "of_nat (n - 1) = (of_nat n - 1 :: u64)"
    using assms(8) by (simp add: of_nat_diff)
  ultimately show ?thesis
    using same by (simp add: enter_closure_def)
qed

section \<open>The theorems at concrete machines\<close>

definition sample_apply :: machine where
  "sample_apply = (case i_APPLYn 1 sample_rt sample_machine of Ret l t \<Rightarrow> t | _ \<Rightarrow> sample_machine)"

lemma sample_apply: "i_APPLYn 1 sample_rt sample_machine = Ret Check_stacks sample_apply"
  by (simp add: sample_apply_def i_APPLYn_def Let_def)

theorem apply_then_return_witness:
  "\<exists>v. i_RETURN sample_rt (sample_apply\<lparr>accu := 11\<rparr>) = Ret Next v \<and> pc v = 0x400 \<and>
     env v = 0x21008 \<and> extra_args v = 0 \<and> sp v = 0x1F08 \<and> accu v = 11"
proof -
  have ap: "sp sample_apply = 0x1EE8" "code sample_apply = (\<lambda>a. 1)" "extra_args sample_apply = 0"
    by (simp_all add: sample_apply_def i_APPLYn_def Let_def enter_closure_def)
  show ?thesis
    using apply_then_return [OF _ sample_apply, of "sample_apply\<lparr>accu := 11\<rparr>"]
    by (auto simp: ap opnd_def)
qed

definition sample_trap :: machine where
  "sample_trap = (case i_PUSHTRAP sample_rt sample_machine of Ret l t \<Rightarrow> t | _ \<Rightarrow> sample_machine)"

lemma sample_trap: "i_PUSHTRAP sample_rt sample_machine = Ret Next sample_trap"
  by (simp add: sample_trap_def i_PUSHTRAP_def Let_def continue_def)

lemma sample_trap_fields [simp]:
  "sp sample_trap = 0x1EE0" "trapsp sample_trap = 0x1EE0" "stack_high sample_trap = 0x2000"
  "trap_barrier sample_trap = 0x2008" "backtrace_active sample_trap = False"
  by (simp_all add: sample_trap_def i_PUSHTRAP_def Let_def continue_def adv_def)

theorem raise_reaches_handler_witness:
  "settle sample_act sample_rt (cbind (exec_instr (opcode ''RAISE'') sample_rt (push 9 sample_trap))
      (goto sample_rt)) =
    Running None ((push 9 sample_trap)\<lparr>pc := 0x404, trapsp := 0x2000, env := 0x21008,
      extra_args := 0, sp := 0x1F00\<rparr>)"
  using raise_reaches_handler [OF sample_trap, of "push 9 sample_trap" sample_act "''RAISE''"]
  by (simp add: push_def pc_plus_def sext_def read_words_4)

theorem longjmp_reaches_handler_witness:
  "settle sample_act sample_rt (Longjmp (sample_trap\<lparr>exn_bucket := 0x3008\<rparr>)) =
    Running None (sample_trap\<lparr>local_roots := 0, exn_bucket := 0x3008, accu := 0x3008, pc := 0x404,
      trapsp := 0x2000, env := 0x21008, extra_args := 0, sp := 0x1F00\<rparr>)"
  using longjmp_reaches_handler [OF sample_trap, of "sample_trap\<lparr>exn_bucket := 0x3008\<rparr>" sample_act]
  by (cases sample_trap) (simp add: pc_plus_def sext_def)

theorem uncaught_leaves_interpreter_witness:
  "\<exists>v. settle sample_act sample_rt (cbind (exec_instr (opcode ''RAISE'') sample_rt
        (snd (interp_enter 0x400 0 sample_machine))) (goto sample_rt)) =
      Finished (Make_exception_result (Val_int 0)) v \<and> caml_callback_depth v = 0"
  using uncaught_leaves_interpreter [where prog = "0x400" and buf = 0 and s = sample_machine
      and act = sample_act and ?s1.0 = "snd (interp_enter 0x400 0 sample_machine)"
      and u = "snd (interp_enter 0x400 0 sample_machine)" and name = "''RAISE''" and rt = sample_rt]
  by (auto simp: interp_enter_def sample_act_def)

theorem pushtrap_poptrap_witness:
  "i_POPTRAP sample_rt sample_trap = Ret Next (sample_trap\<lparr>trapsp := 0x2000, sp := 0x1F00\<rparr>)"
proof -
  have "\<not> caml_something_to_do sample_trap"
    by (simp add: sample_trap_def i_PUSHTRAP_def Let_def continue_def adv_def)
  then show ?thesis
    using pushtrap_poptrap [OF sample_trap, of sample_trap] by simp
qed

text \<open>A partial application: one argument is there, the function wants two more.\<close>

definition sample_grab :: machine where
  "sample_grab = (case i_GRAB sample_rt sample_machine of Ret l t \<Rightarrow> t | _ \<Rightarrow> sample_machine)"

lemma sample_room: "young_room 3 sample_machine"
  by (simp add: young_room_def Whsize_wosize_def)

lemma sample_grab: "i_GRAB sample_rt sample_machine = Ret Next sample_grab"
  using GRAB_eq [of sample_machine "0xFFE0" sample_rt] sample_room
  by (simp add: sample_grab_def)

lemma cells_4: "cells a (1 + 3) = {a, a + 8, a + 16, a + 24}"
  using cells_Suc [of a 3] cells_Suc [of "a + 8" 2] cells_Suc [of "a + 16" 1] cells_Suc [of "a + 24" 0]
  by (simp add: cells_def [of _ 0] add.assoc del: One_nat_def) (simp add: eval_nat_numeral)

lemma cells_1: "cells a 1 = {a}"
  using cells_Suc [of a 0] by (simp add: cells_def [of _ 0])

theorem grab_restart_witness:
  "\<exists>v. i_RESTART sample_rt (sample_grab\<lparr>env := accu sample_grab\<rparr>) = Ret Next v \<and>
     read_words (mem v) (sp v) 1 = [1] \<and> env v = 0x21008"
proof -
  have f: "sp sample_grab = 0x1F20"
    using sample_room by (simp add: sample_grab_def GRAB_eq [OF _ _ refl] pop_return_frame_def popn_def stk_def)
  have 1: "read_words (\<lambda>a. 1) a (Suc 0) = [1]" for a
    by (simp add: read_words_def)
  have "cells 0xFFE0 (1 + 3) \<inter> cells (sp sample_machine) (1 + 3) = {}"
    "cells 0xFFE0 (1 + 3) \<inter> cells (sp (sample_grab\<lparr>env := accu sample_grab\<rparr>) - 8 * of_nat 1) 1 = {}"
    unfolding cells_4 cells_1 by (simp_all add: f)
  from grab_restart [OF _ _ _ _ _ this(1) sample_grab _ _ this(2)] sample_room
  show ?thesis by (auto simp: 1)
qed

text \<open>A table of two methods with tags 5 and 9, of which the second is looked up.\<close>

definition sample_methods :: machine where
  "sample_methods = sample_machine\<lparr>accu := 9,
     mem := (\<lambda>a. 0)(0x1F00 := 0x22008, 0x22008 := 0x23008, 0x23008 := 5,
       0x23018 := 0xA10, 0x23020 := 5, 0x23028 := 0xB20, 0x23030 := 9)\<rparr>"

lemma sample_method_table: "method_table (mem sample_methods) 0x23008 2"
proof -
  have "1 \<le> r \<and> r < 2 \<longleftrightarrow> r = 1" for r :: nat by auto
  then show ?thesis
    unfolding method_table_def by (simp add: method_tag_def sample_methods_def Field_def)
qed

theorem getdynmet_correct_witness:
  "\<exists>t. i_GETDYNMET sample_rt sample_methods = Ret Next t \<and> accu t = 0xB20"
  using getdynmet_correct [of sample_methods 2 2 sample_rt] sample_method_table
  by (auto simp: sample_methods_def Field_def stk_def method_tag_def)

theorem method_search_returns_witness:
  "\<exists>f. find_method (mem sample_methods) 7 0x23008 = Some f"
  by (rule method_search_returns [OF sample_method_table])

theorem appterm_slides_witness:
  "\<exists>t. i_APPTERM sample_rt (sample_machine\<lparr>code := \<lambda>a. if a = 0x400 then 2 else 5\<rparr>) =
      Ret Check_stacks t \<and> sp t = 0x1F18 \<and> extra_args t = 1"
  using appterm_slides [of "sample_machine\<lparr>code := \<lambda>a. if a = 0x400 then 2 else 5\<rparr>" 2 3 sample_rt]
  by (auto simp: opnd_def opnd_at_def waddr_def)

theorem appterm_specialised_witness:
  "\<exists>t u. i_APPTERM sample_rt (sample_machine\<lparr>code := \<lambda>a. if a = 0x400 then 2 else 5\<rparr>) =
      Ret Check_stacks u \<and>
    i_APPTERMn 2 sample_rt (sample_machine\<lparr>code := \<lambda>a. 5\<rparr>) = Ret Check_stacks t \<and> mem t = mem u"
proof -
  obtain t u where "i_APPTERM sample_rt (sample_machine\<lparr>code := \<lambda>a. if a = 0x400 then 2 else 5\<rparr>) =
      Ret Check_stacks u"
    "i_APPTERMn 2 sample_rt (sample_machine\<lparr>code := \<lambda>a. 5\<rparr>) = Ret Check_stacks t"
    by (auto simp: i_APPTERM_def i_APPTERMn_def Let_def)
  with appterm_specialised [of "sample_machine\<lparr>code := \<lambda>a. if a = 0x400 then 2 else 5\<rparr>" 2 3
      "sample_machine\<lparr>code := \<lambda>a. 5\<rparr>" sample_rt u t]
  show ?thesis by (auto simp: opnd_def opnd_at_def)
qed

end
