(* ===== verification/Jit_Support.thy ===== *)
theory Jit_Support
  imports Sample_State
begin

text \<open>
  The C helpers the JIT-compiled code calls (\<^verbatim>\<open>runtime/jit_support.c\<close>). They work on a
  \<open>struct jit_state\<close>, which is the register part of the interpreter's machine without the
  program counter; they are polymorphic over what extends it, so a helper can be run on an
  interpreter machine and compared with the instruction it stands for.
\<close>

section \<open>Definitions\<close>

text \<open>\<open>Alloc_small\<close> with this file's \<open>Setup_for_gc\<close>, which saves \<open>Val_unit\<close> for the \<open>pc\<close>.\<close>

definition jit_Alloc_small :: "rt \<Rightarrow> u64 \<Rightarrow> u32 \<Rightarrow> 'a jit_state_scheme \<Rightarrow>
    (unit, 'a jit_state_scheme) cres" where
  "jit_Alloc_small rt = Alloc_small rt Val_unit"

definition jit_support_get_float_field :: "rt \<Rightarrow> u64 \<Rightarrow> 'a jit_state_scheme \<Rightarrow>
    (u64, 'a jit_state_scheme) cres" where
  "jit_support_get_float_field rt fieldno s =
    (let d = mem s (accu s + 8 * fieldno)
     in cbind (jit_Alloc_small rt Double_wosize Double_tag s) (\<lambda>_ s.
          (let x = new_block s in Ret x (store_at x d s))))"

definition jit_support_set_float_field :: "u64 \<Rightarrow> u64 \<Rightarrow> u64 \<Rightarrow> 'a jit_state_scheme \<Rightarrow>
    'a jit_state_scheme" where
  "jit_support_set_float_field ptr fieldno to s =
    store_at (ptr + 8 * fieldno) (mem s to) s"

definition jit_support_vect_length :: "store \<Rightarrow> u64 \<Rightarrow> u64" where
  "jit_support_vect_length m ptr =
    (let sz = Wosize_val m ptr;
         sz' = (if Tag_val m ptr = Double_array_tag then sz div Double_wosize else sz)
     in Val_long sz')"

definition jit_support_check_stacks :: "rt \<Rightarrow> u64 \<Rightarrow> 'a caml_state_scheme \<Rightarrow>
    (u64, 'a caml_state_scheme) cres" where
  "jit_support_check_stacks rt p s =
    (if p < stack_threshold s
     then cbind (caml_realloc_stack rt (Stack_threshold div 8) (s\<lparr>extern_sp := p\<rparr>))
            (\<lambda>_ s. Ret (extern_sp s) s)
     else Ret p s)"

definition jit_support_appterm_stacks :: "u64 \<Rightarrow> u64 \<Rightarrow> u64 \<Rightarrow> store \<Rightarrow> u64 \<times> store" where
  "jit_support_appterm_stacks nargs slotsize p m =
    (let newsp = p + 8 * slotsize - 8 * nargs;
         i = (ucast (nargs - 1) :: u32)
     in (newsp, slide_down (nat (sint i + 1)) newsp p m))"

definition jit_support_closure :: "rt \<Rightarrow> u64 \<Rightarrow> u64 \<Rightarrow> 'a jit_state_scheme \<Rightarrow>
    (unit, 'a jit_state_scheme) cres" where
  "jit_support_closure rt nvars codeval s0 =
    (let s = (if 0 < sint nvars then push (accu s0) s0 else s0)
     in cthen
          (if sint nvars < sint Max_young_wosize then
             cbind (jit_Alloc_small rt (1 + nvars) Closure_tag s) (\<lambda>_ s.
               (let blk = new_block s
                in Ret () (s\<lparr>accu := blk,
                     mem := copy_up (nat (sint nvars)) (blk + 8) (sp s) (mem s)\<rparr>)))
           else
             cbind (caml_alloc_shr rt (1 + nvars) Closure_tag s) (\<lambda>blk s.
               initialize_up rt (nat (sint nvars)) (blk + 8) (sp s) (s\<lparr>accu := blk\<rparr>)))
          (\<lambda>s. popn nvars (store_at (accu s) codeval s)))"

definition jit_support_closure_rec :: "rt \<Rightarrow> u64 \<Rightarrow> (u64 \<Rightarrow> u64) \<Rightarrow> u64 \<Rightarrow> 'a jit_state_scheme \<Rightarrow>
    (unit, 'a jit_state_scheme) cres" where
  "jit_support_closure_rec rt nvars codevals nfuncs s0 =
    (let blksize = nfuncs * 2 - 1 + nvars;
         varofs = 8 * (nfuncs * 2 - 1);
         s = (if 0 < sint nvars then push (accu s0) s0 else s0)
     in cthen
          (if blksize \<le> Max_young_wosize then
             cbind (jit_Alloc_small rt blksize Closure_tag s) (\<lambda>_ s.
               (let blk = new_block s
                in Ret () (s\<lparr>accu := blk,
                     mem := copy_up (nat (sint nvars)) (blk + varofs) (sp s) (mem s)\<rparr>)))
           else
             cbind (caml_alloc_shr rt blksize Closure_tag s) (\<lambda>blk s.
               initialize_up rt (nat (sint nvars)) (blk + varofs) (sp s) (s\<lparr>accu := blk\<rparr>)))
          (\<lambda>s2.
             (let s3 = popn nvars s2;
                  s4 = push (accu s3) (store_at (accu s3) (codevals 0) s3)
              in infix_loop (nat (sint nfuncs - 1)) 1 codevals (accu s4 + 8) s4)))"

definition jit_support_make_block :: "rt \<Rightarrow> u64 \<Rightarrow> u64 \<Rightarrow> 'a jit_state_scheme \<Rightarrow>
    (unit, 'a jit_state_scheme) cres" where
  "jit_support_make_block rt wosize tag64 s =
    (let tag = (ucast tag64 :: u32)
     in if wosize \<le> Max_young_wosize then
          cbind (jit_Alloc_small rt wosize tag s) (\<lambda>_ s.
            (let blk = new_block s;
                 s1 = fill_from_stack (unat wosize - 1) (blk + 8) (store_at blk (accu s) s)
             in Ret () (s1\<lparr>accu := blk\<rparr>)))
        else
          cbind (caml_alloc_shr rt wosize tag s) (\<lambda>blk s.
            cbind (caml_initialize rt blk (accu s) s) (\<lambda>_ s.
              cbind (initialize_from_stack rt (unat wosize - 1) (blk + 8) s) (\<lambda>_ s.
                Ret () (s\<lparr>accu := blk\<rparr>)))))"

definition jit_support_make_float_block :: "rt \<Rightarrow> u64 \<Rightarrow> 'a jit_state_scheme \<Rightarrow>
    (unit, 'a jit_state_scheme) cres" where
  "jit_support_make_float_block rt sz s =
    cbind
      (if sz \<le> Max_young_wosize div Double_wosize then
         cbind (jit_Alloc_small rt (sz * Double_wosize) Double_array_tag s)
           (\<lambda>_ s. Ret (new_block s) s)
       else caml_alloc_shr rt (sz * Double_wosize) Double_array_tag s)
      (\<lambda>blk s.
         (let s1 = fill_doubles (unat sz - 1) (blk + 8) (store_at blk (mem s (accu s)) s)
          in Ret () (s1\<lparr>accu := blk\<rparr>)))"

text \<open>
  \<open>jit_support_restart\<close> leaves the original closure in \<open>accu\<close> rather than in \<open>env\<close>: the
  compiled code goes on to apply \<open>accu\<close>.
\<close>

definition jit_support_restart :: "'a jit_state_scheme \<Rightarrow> 'a jit_state_scheme" where
  "jit_support_restart s =
    (let num_args = (ucast (Wosize_val (mem s) (env s) - 2) :: u32);
         sp' = sp s - 8 * sext num_args;
         m = copy_up (nat (sint num_args)) sp' (env s + 8 * 2) (mem s)
     in s\<lparr>sp := sp', mem := m, accu := Field m (env s) 1,
          extra_args := extra_args s + sext num_args\<rparr>)"

text \<open>\<open>jit_support_grab_closure\<close> returns the address to continue at.\<close>

definition jit_support_grab_closure :: "rt \<Rightarrow> u64 \<Rightarrow> 'a jit_state_scheme \<Rightarrow>
    (u64, 'a jit_state_scheme) cres" where
  "jit_support_grab_closure rt restart_code s0 =
    (let num_args = 1 + extra_args s0
     in cbind (jit_Alloc_small rt (num_args + 2) Closure_tag s0) (\<lambda>_ s.
          (let blk = new_block s;
               m1 = set_Field blk 1 (env s) (mem s);
               m2 = copy_up (unat num_args) (blk + 8 * 2) (sp s) m1;
               m3 = set_Field blk 0 restart_code m2;
               s1 = popn num_args (s\<lparr>accu := blk, mem := m3\<rparr>)
           in Ret (stk s1 0) (s1\<lparr>env := stk s1 1, extra_args := Long_val (stk s1 2),
                                 sp := sp s1 + 8 * 3\<rparr>))))"

definition jit_support_get_dyn_met :: "store \<Rightarrow> u64 \<Rightarrow> u64 \<Rightarrow> u64 option" where
  "jit_support_get_dyn_met m tag obj = find_method m tag (Field m obj 0)"

section \<open>Lemmas\<close>

text \<open>Runtime calls keep the program counter and the code.\<close>

definition same_code :: "machine \<Rightarrow> machine \<Rightarrow> bool" where
  "same_code s t = (pc t = pc s \<and> code t = code s)"

lemma same_code_refl [simp]: "same_code s s"
  by (simp add: same_code_def)

lemma same_code_trans: "same_code s t \<Longrightarrow> same_code t u \<Longrightarrow> same_code s u"
  by (simp add: same_code_def)

lemma machine_more_extend:
  fixes s :: machine
  shows "pc (caml_state.extend c (caml_state.more s)) = pc s"
    "code (caml_state.extend c (caml_state.more s)) = code s"
    "accu (caml_state.extend c (caml_state.more s)) = accu s"
    "env (caml_state.extend c (caml_state.more s)) = env s"
    "sp (caml_state.extend c (caml_state.more s)) = sp s"
    "extra_args (caml_state.extend c (caml_state.more s)) = extra_args s"
  by (cases s; simp add: caml_state.defs)+

lemma on_cs_same_code: "on_cs f s = Ret r t \<Longrightarrow> same_code s t"
  by (cases "f (caml_state.truncate s)") (auto simp: on_cs_def same_code_def machine_more_extend)

lemma same_code_store_at [simp]: "same_code s (store_at a x s)"
  by (simp add: same_code_def store_at_def)

lemma same_code_caml_initialize: "caml_initialize rt fp v s = Ret r t \<Longrightarrow> same_code s t"
  by (auto simp: caml_initialize_def add_to_ref_table_def Let_def same_code_def store_at_def
      caml_request_minor_gc_def caml_set_action_pending_def
      split: if_splits sum.splits)

lemma same_code_initialize_up: "initialize_up rt n dst src s = Ret r t \<Longrightarrow> same_code s t"
  by (induction rt n dst src s rule: initialize_up.induct)
     (auto simp: cbind_eq_Ret dest: same_code_caml_initialize intro: same_code_trans)

lemma same_code_initialize_from_stack:
  "initialize_from_stack rt n dst s = Ret r t \<Longrightarrow> same_code s t"
proof (induction rt n dst s rule: initialize_from_stack.induct)
  case (2 rt n dst s)
  then obtain u where "caml_initialize rt dst (stk s 0) (popn 1 s) = Ret () u" "same_code u t"
    by (auto simp: cbind_eq_Ret)
  then show ?case
    by (auto dest!: same_code_caml_initialize simp: same_code_def popn_def)
qed auto

lemma sext_Suc: "sint (n :: u32) < 2 ^ 31 - 1 \<Longrightarrow> sext (1 + n) = 1 + sext n"
proof -
  assume a: "sint n < 2 ^ 31 - 1"
  have "- (2 ^ 31) \<le> sint n"
    using sint_greater_eq [of n] by simp
  then have "- (2 ^ 31) \<le> 1 + sint n" and "1 + sint n < 2 ^ 31"
    using a by linarith+
  moreover have "sint (1 + n) = signed_take_bit 31 (1 + sint n)"
    by (simp only: sint_word_add) simp
  ultimately have "sint (1 + n) = 1 + sint n"
    by (rule sint32_eqI [rotated 1])
  then show ?thesis by (simp only: sext_alt of_int_add of_int_1)
qed

lemma same_code_push: "same_code s (push v s)"
  by (simp add: same_code_def)

lemma young_room_push [simp]: "young_room w (push v s) = young_room w s"
  "young_room w (adv k u) = young_room w u"
  by (simp_all add: young_room_def)

lemma Alloc_small_frame:
  "young_room wosize s \<Longrightarrow> Alloc_small rt w wosize tag s = jit_Alloc_small rt wosize tag s"
  by (simp add: Alloc_small_room jit_Alloc_small_def)

text \<open>
  Shape of every comparison below: both sides build a block in the same way, then finish;
  the two finishing moves need to agree on the states the building can end in.
\<close>

lemma cbind_cthen_eq:
  "m = m' \<Longrightarrow> (\<And>t. m' = Ret () t \<Longrightarrow> F () t = H () (G t)) \<Longrightarrow> cbind m F = cbind (cthen m' G) H"
  by (cases m') simp_all

lemma same_code_upd [simp]:
  "same_code s (t\<lparr>accu := a\<rparr>) = same_code s t" "same_code s (t\<lparr>mem := m\<rparr>) = same_code s t"
  "same_code s (t\<lparr>young_ptr := y\<rparr>) = same_code s t" "same_code s (push v t) = same_code s t"
  "same_code s (store_at a' x t) = same_code s t" "same_code (s\<lparr>accu := a\<rparr>) t = same_code s t"
  by (simp_all add: same_code_def store_at_def)

definition build_closure :: "rt \<Rightarrow> u64 \<Rightarrow> u64 \<Rightarrow> u64 \<Rightarrow> u64 \<Rightarrow> nat \<Rightarrow> bool \<Rightarrow>
    'a jit_state_scheme \<Rightarrow> (unit, 'a jit_state_scheme) cres" where
  "build_closure rt frame_word wosize ofs nvars n young s =
    (if young then
       cbind (Alloc_small rt frame_word wosize Closure_tag s) (\<lambda>_ s.
         (let blk = new_block s
          in Ret () (s\<lparr>accu := blk, mem := copy_up n (blk + ofs) (sp s) (mem s)\<rparr>)))
     else
       cbind (caml_alloc_shr rt wosize Closure_tag s) (\<lambda>blk s.
         initialize_up rt n (blk + ofs) (sp s) (s\<lparr>accu := blk\<rparr>)))"

lemma same_code_build_closure:
  "build_closure rt w wosize ofs nvars n young s = Ret r t \<Longrightarrow>
    (young \<Longrightarrow> young_room wosize s) \<Longrightarrow> same_code s t"
  by (auto simp: build_closure_def Let_def Alloc_small_room cbind_eq_Ret caml_alloc_shr_def
      dest!: on_cs_same_code same_code_initialize_up split: if_splits
      intro: same_code_trans)

lemma i_CLOSURE_alt:
  "i_CLOSURE rt s0 =
    (let n = opnd s0; s1 = adv 1 s0; s = (if 0 < sint n then push (accu s1) s1 else s1)
     in cbind (build_closure rt (pc s) (sext (1 + n)) 8 (sext n) (nat (sint n)) (sint n < 256) s)
          (\<lambda>_ s. continue (popn (sext n) (adv 1 (store_at (accu s) (pc_plus s (opnd s)) s)))))"
  by (simp add: i_CLOSURE_def build_closure_def Let_def Max_young_wosize_def)

lemma jit_closure_alt:
  "jit_support_closure rt nvars codeval s0 =
    (let s = (if 0 < sint nvars then push (accu s0) s0 else s0)
     in cthen (build_closure rt Val_unit (1 + nvars) 8 nvars (nat (sint nvars)) (sint nvars < 256) s)
          (\<lambda>s. popn nvars (store_at (accu s) codeval s)))"
  by (simp add: jit_support_closure_def build_closure_def jit_Alloc_small_def Let_def
      Max_young_wosize_def)

lemma build_closure_frame:
  "(young \<Longrightarrow> young_room wosize s) \<Longrightarrow>
    build_closure rt w wosize ofs nvars n young s = build_closure rt w' wosize ofs nvars n young s"
  by (simp add: build_closure_def Alloc_small_room)

lemma closure_finish:
  assumes "same_code (adv 1 s) t"
  shows "popn n (adv 1 (store_at (accu t) (pc_plus t (opnd t)) t)) =
    adv 1 (popn n (store_at (accu t) (pc s + 4 + 4 * sext (opnd_at s 1)) t))"
  using assms by (simp add: same_code_def opnd_def opnd_at_def pc_plus_def adv_def popn_def
      store_at_def)

theorem jit_closure_interp:
  fixes s :: machine
  assumes nv: "sint (opnd s) < 2 ^ 31 - 1"
    and room: "sint (opnd s) < 256 \<Longrightarrow> young_room (1 + sext (opnd s)) s"
  shows "i_CLOSURE rt s =
    cbind (jit_support_closure rt (sext (opnd s)) (pc s + 4 + 4 * sext (opnd_at s 1)) (adv 1 s))
      (\<lambda>_ s. continue (adv 1 s))"
proof -
  define t where "t = (if 0 < sint (opnd s) then push (accu s) (adv 1 s) else adv 1 s)"
  have sc: "same_code (adv 1 s) t" and room': "sint (opnd s) < 256 \<Longrightarrow> young_room (1 + sext (opnd s)) t"
    using room by (simp_all add: t_def)
  show ?thesis
    unfolding i_CLOSURE_alt jit_closure_alt Let_def sext_Suc [OF nv] sint_sext
      machine_simps t_def [symmetric]
    by (intro cbind_cthen_eq build_closure_frame)
       (auto simp: closure_finish [OF same_code_trans [OF sc]] room'
          dest!: same_code_build_closure)
qed

lemma sext_blksize:
  assumes "0 \<le> sint f" "sint f < 2 ^ 29" "0 \<le> sint v" "sint v < 2 ^ 29"
  shows "sext (f * 2 - 1 + v) = sext f * 2 - 1 + sext v" (is ?A)
    and "sext (f * 2 - 1) = sext f * 2 - 1" (is ?B)
proof -
  have "f * 2 - 1 + v = word_of_int (sint f * 2 - 1 + sint v)"
    and b: "f * 2 - 1 = word_of_int (sint f * 2 - 1)"
    by (simp_all only: of_int_add of_int_diff of_int_mult of_int_numeral of_int_1 of_int_sint
        scast_id)
  moreover have "sext (word_of_int (sint f * 2 - 1 + sint v)) = word_of_int (sint f * 2 - 1 + sint v)"
    by (rule sext_word_of_int) (use assms in simp_all)
  moreover have "sext (word_of_int (sint f * 2 - 1)) = word_of_int (sint f * 2 - 1)"
    by (rule sext_word_of_int) (use assms in simp_all)
  ultimately show ?A ?B
    by (simp_all only: sext_alt of_int_1 of_int_add of_int_diff of_int_mult of_int_numeral)
qed

lemma i_CLOSUREREC_alt:
  "i_CLOSUREREC rt s0 =
    (let f = opnd s0; v = opnd_at s0 1; s1 = adv 2 s0;
         blksize = sext (f * 2 - 1 + v);
         s = (if 0 < sint v then push (accu s1) s1 else s1)
     in cbind (build_closure rt (pc s) blksize (8 * sext (f * 2 - 1)) (sext v) (nat (sint v))
                (blksize \<le> 256) s)
          (\<lambda>_ s2.
             (let s3 = popn (sext v) s2;
                  s4 = push (accu s3) (store_at (accu s3) (pc_plus s3 (opnd s3)) s3);
                  s5 = infix_loop (nat (sint f - 1)) 1 (\<lambda>i. pc_plus s3 (opnd_at s3 i))
                         (accu s4 + 8) s4
              in continue (adv (sext f) s5))))"
  by (simp add: i_CLOSUREREC_def build_closure_def Let_def Max_young_wosize_def)

lemma jit_closure_rec_alt:
  "jit_support_closure_rec rt v codevals f s0 =
    (let s = (if 0 < sint v then push (accu s0) s0 else s0)
     in cthen (build_closure rt Val_unit (f * 2 - 1 + v) (8 * (f * 2 - 1)) v (nat (sint v))
                (f * 2 - 1 + v \<le> 256) s)
          (\<lambda>s2.
             (let s3 = popn v s2;
                  s4 = push (accu s3) (store_at (accu s3) (codevals 0) s3)
              in infix_loop (nat (sint f - 1)) 1 codevals (accu s4 + 8) s4)))"
  by (simp add: jit_support_closure_rec_def build_closure_def jit_Alloc_small_def Let_def
      Max_young_wosize_def)

lemma opnd_at_0: "opnd_at s 0 = opnd s"
  by (simp add: opnd_at_def opnd_def)

theorem jit_closure_rec_interp:
  fixes s :: machine
  assumes f: "0 \<le> sint (opnd s)" "sint (opnd s) < 2 ^ 29"
    and v: "0 \<le> sint (opnd_at s 1)" "sint (opnd_at s 1) < 2 ^ 29"
    and blk: "blksize = sext (opnd s) * 2 - 1 + sext (opnd_at s 1)"
    and room: "blksize \<le> 256 \<Longrightarrow> young_room blksize s"
  shows "i_CLOSUREREC rt s =
    cbind (jit_support_closure_rec rt (sext (opnd_at s 1))
             (\<lambda>i. pc_plus (adv 2 s) (opnd_at (adv 2 s) i)) (sext (opnd s)) (adv 2 s))
      (\<lambda>_ t. continue (adv (sext (opnd s)) t))"
proof -
  define t where "t = (if 0 < sint (opnd_at s 1) then push (accu s) (adv 2 s) else adv 2 s)"
  have sc: "same_code (adv 2 s) t" and room': "blksize \<le> 256 \<Longrightarrow> young_room blksize t"
    using room by (simp_all add: t_def)
  have cv: "pc_plus (popn n u) (opnd_at (popn n u) i) = pc_plus (adv 2 s) (opnd_at (adv 2 s) i)"
    if "same_code t u" for u n i
    using same_code_trans [OF sc that]
    by (simp add: same_code_def opnd_at_def pc_plus_def popn_def)
  show ?thesis
    unfolding i_CLOSUREREC_alt jit_closure_rec_alt Let_def sext_blksize [OF f v] sint_sext
      machine_simps t_def [symmetric] blk [symmetric]
    by (intro cbind_cthen_eq build_closure_frame)
       (auto simp: cv room' opnd_at_0 [symmetric] dest!: same_code_build_closure)
qed

lemma ucast_ucast_u32 [simp]: "ucast (ucast (x :: u32) :: u64) = x"
  by (rule bit_word_eqI) (simp add: bit_ucast_iff)

text \<open>\<open>MAKEBLOCK\<close> and \<open>MAKEFLOATBLOCK\<close>.\<close>

theorem jit_make_block_interp:
  fixes s :: machine
  assumes "sext (opnd s) \<le> 256 \<Longrightarrow> young_room (sext (opnd s)) s"
  shows "i_MAKEBLOCK rt s =
    cbind (jit_support_make_block rt (sext (opnd s)) (ucast (opnd_at s 1)) (adv 2 s))
      (\<lambda>_ t. continue t)"
  using assms
  by (simp add: i_MAKEBLOCK_def jit_support_make_block_def Let_def Max_young_wosize_def
      Alloc_small_frame cbind_assoc)

theorem jit_make_float_block_interp:
  fixes s :: machine
  assumes "sext (opnd s) \<le> 256 \<Longrightarrow> young_room (sext (opnd s)) s"
  shows "i_MAKEFLOATBLOCK rt s =
    cbind (jit_support_make_float_block rt (sext (opnd s)) (adv 1 s)) (\<lambda>_ t. continue t)"
  using assms
  by (simp add: i_MAKEFLOATBLOCK_def jit_support_make_float_block_def Let_def
      Max_young_wosize_def Double_wosize_def Alloc_small_frame cbind_assoc)

text \<open>\<open>GRAB\<close> with too few arguments, and \<open>RESTART\<close>.\<close>

theorem jit_grab_interp:
  fixes s :: machine
  assumes "sint (extra_args s) < sint (opnd s)" and "young_room (extra_args s + 3) s"
  shows "i_GRAB rt s =
    cbind (jit_support_grab_closure rt (pc s + 4 - 4 * 3) (adv 1 s))
      (\<lambda>next_pc t. continue (t\<lparr>pc := next_pc\<rparr>))"
proof -
  let ?w = "1 + extra_args s + 2"
  have r: "young_room ?w (adv 1 s)"
    using assms(2) by (simp add: add.commute add.left_commute)
  obtain t where t: "jit_Alloc_small rt ?w Closure_tag (adv 1 s) = Ret () t" "same_code (adv 1 s) t"
    using Alloc_small_room [OF r, of rt Val_unit Closure_tag] by (simp add: jit_Alloc_small_def)
  show ?thesis
    using assms(1) t(2)
    unfolding i_GRAB_def jit_support_grab_closure_def Let_def machine_simps
      Alloc_small_frame [OF r] t(1) cbind.simps
    by (cases t) (simp add: same_code_def continue_def pop_return_frame_def popn_def stk_def
        new_block_def)
qed

theorem jit_restart_interp:
  fixes s :: machine
  shows "i_RESTART rt s =
    continue ((jit_support_restart s)\<lparr>env := accu (jit_support_restart s), accu := accu s\<rparr>)"
  by (cases s) (simp add: i_RESTART_def jit_support_restart_def Let_def)

theorem jit_check_stacks_interp:
  "check_stacks rt s =
    cbind (jit_support_check_stacks rt (sp s) s) (\<lambda>p s. i_CHECK_SIGNALS rt (s\<lparr>sp := p\<rparr>))"
  by (simp add: check_stacks_def jit_support_check_stacks_def cthen_def cbind_assoc)

lemma ucast_sext: "(ucast (sext x - 1) :: u32) = x - 1"
proof -
  have "sext x - 1 = word_of_int (sint x - 1)"
    by (simp only: sext_alt of_int_diff of_int_1)
  then show ?thesis
    by (simp only: ucast_word_of_int) (simp only: of_int_diff of_int_1 of_int_sint scast_id)
qed

lemma sint_pred32:
  assumes "- (2 ^ 31) < sint (x :: u32)"
  shows "sint (x - 1) = sint x - 1"
proof -
  have "sint (x - 1) = signed_take_bit 31 (sint x - 1)"
    by (simp only: sint_word_diff) simp
  moreover have "- (2 ^ 31) \<le> sint x - 1" "sint x - 1 < 2 ^ 31"
    using assms sint_less [of x] by simp_all
  ultimately show ?thesis by (rule sint32_eqI)
qed

text \<open>
  C17: The JIT helper jit_support_appterm_stacks does what the interpreter does for APPTERM.
\<close>

theorem jit_appterm_interp:
  fixes s :: machine
  assumes "- (2 ^ 31) < sint (opnd s)"
    and "jit_support_appterm_stacks (sext (opnd s)) (sext (opnd_at s 1)) (sp s) (mem s) = (newsp, m)"
  shows "i_APPTERM rt s =
    Ret Check_stacks (enter_closure (s\<lparr>mem := m, sp := newsp,
      extra_args := extra_args s + sext (opnd s - 1)\<rparr>))"
  using assms(2)
  by (auto simp: i_APPTERM_def jit_support_appterm_stacks_def Let_def ucast_sext
      sint_pred32 [OF assms(1)])

section \<open>The theorems at concrete machines\<close>

lemma sample_rooms:
  "unat w < 0x1000 \<Longrightarrow> young_room w sample_machine"
proof -
  assume w: "unat w < 0x1000"
  have "unat (8 * (w + 1)) = 8 * (unat w + 1)"
  proof -
    have "8 * (w + 1) = of_nat (8 * (unat w + 1))" by simp
    moreover have "8 * (unat w + 1) < 2 ^ LENGTH(64)" using w by simp
    ultimately show ?thesis by (metis of_nat_inverse)
  qed
  then have "unat (8 * (w + 1)) \<le> 0x8000" using w by simp
  then have "8 * (w + 1) \<le> 0x8000" by (simp add: word_le_nat_alt)
  moreover have "0x8000 \<le> 0x10000 - x" if "x \<le> 0x8000" for x :: u64
  proof -
    have "x \<le> 0x10000" by (rule order_trans [OF that]) simp
    with that show ?thesis by (simp add: word_le_nat_alt unat_sub)
  qed
  ultimately show ?thesis
    unfolding young_room_def Whsize_wosize_def sample_fields by blast
qed

lemma sext_1 [simp]: "sext 1 = 1"
  by (simp add: sext_def)

lemma opnd_at_sample [simp]: "opnd_at sample_machine k = 1"
  by (simp add: opnd_at_def)

theorem jit_closure_interp_witness:
  "i_CLOSURE sample_rt sample_machine =
    cbind (jit_support_closure sample_rt 1 0x408 (adv 1 sample_machine)) (\<lambda>_ s. continue (adv 1 s))"
  using jit_closure_interp [of sample_machine sample_rt] by (simp add: sample_rooms)

theorem jit_closure_rec_interp_witness:
  "i_CLOSUREREC sample_rt sample_machine =
    cbind (jit_support_closure_rec sample_rt 1 (\<lambda>i. 0x40C) 1 (adv 2 sample_machine))
      (\<lambda>_ t. continue (adv 1 t))"
  using jit_closure_rec_interp [of sample_machine 2 sample_rt]
  by (simp add: sample_rooms pc_plus_def opnd_at_def)

theorem jit_make_block_interp_witness:
  "i_MAKEBLOCK sample_rt sample_machine =
    cbind (jit_support_make_block sample_rt 1 1 (adv 2 sample_machine)) (\<lambda>_ t. continue t)"
  using jit_make_block_interp [of sample_machine sample_rt] by (simp add: sample_rooms)

theorem jit_make_float_block_interp_witness:
  "i_MAKEFLOATBLOCK sample_rt sample_machine =
    cbind (jit_support_make_float_block sample_rt 1 (adv 1 sample_machine)) (\<lambda>_ t. continue t)"
  using jit_make_float_block_interp [of sample_machine sample_rt] by (simp add: sample_rooms)

theorem jit_grab_interp_witness:
  "i_GRAB sample_rt sample_machine =
    cbind (jit_support_grab_closure sample_rt 0x3F8 (adv 1 sample_machine))
      (\<lambda>next_pc t. continue (t\<lparr>pc := next_pc\<rparr>))"
  using jit_grab_interp [of sample_machine sample_rt] by (simp add: sample_rooms)

theorem jit_appterm_interp_witness:
  "\<exists>newsp m. jit_support_appterm_stacks 1 1 0x1F00 (\<lambda>a. 1) = (newsp, m) \<and>
    i_APPTERM sample_rt sample_machine =
      Ret Check_stacks (enter_closure (sample_machine\<lparr>mem := m, sp := newsp, extra_args := 0\<rparr>))"
proof -
  obtain newsp m where "jit_support_appterm_stacks 1 1 0x1F00 (\<lambda>a. 1) = (newsp, m)"
    by fastforce
  with jit_appterm_interp [of sample_machine newsp m sample_rt] show ?thesis
    by (auto simp: sext_def)
qed

end
