(* ===== verification/Barrier.thy ===== *)
theory Barrier
  imports Sample_State
begin

text \<open>
  The tables of the minor collector and the write barrier: the three kinds of table share
  one interface (entries are added at the end and survive every reallocation; nothing is
  written past the allocated array); the barrier keeps the reference table complete, and
  during marking it keeps every overwritten major block from being missed.
\<close>

section \<open>The three tables\<close>

definition caml_alloc_table :: "(nat \<Rightarrow> bool) \<Rightarrow> nat \<Rightarrow> nat \<Rightarrow> string + u64 generic_table" where
  "caml_alloc_table ok sz rsv = alloc_generic_table ok sz rsv 8"

definition caml_alloc_ephe_table ::
    "(nat \<Rightarrow> bool) \<Rightarrow> nat \<Rightarrow> nat \<Rightarrow> string + ephe_ref_elt generic_table" where
  "caml_alloc_ephe_table ok sz rsv = alloc_generic_table ok sz rsv 16"

definition caml_alloc_custom_table ::
    "(nat \<Rightarrow> bool) \<Rightarrow> nat \<Rightarrow> nat \<Rightarrow> string + custom_elt generic_table" where
  "caml_alloc_custom_table ok sz rsv = alloc_generic_table ok sz rsv 24"

definition caml_realloc_ref_table :: "(nat \<Rightarrow> bool) \<Rightarrow> nat \<Rightarrow> u64 generic_table \<Rightarrow>
    string + (u64 generic_table \<times> bool)" where
  "caml_realloc_ref_table ok wsz = realloc_generic_table ok wsz 8 ''ref_table overflow''"

definition caml_realloc_ephe_ref_table :: "(nat \<Rightarrow> bool) \<Rightarrow> nat \<Rightarrow> ephe_ref_elt generic_table \<Rightarrow>
    string + (ephe_ref_elt generic_table \<times> bool)" where
  "caml_realloc_ephe_ref_table ok wsz = realloc_generic_table ok wsz 16 ''ephe_ref_table overflow''"

definition caml_realloc_custom_table :: "(nat \<Rightarrow> bool) \<Rightarrow> nat \<Rightarrow> custom_elt generic_table \<Rightarrow>
    string + (custom_elt generic_table \<times> bool)" where
  "caml_realloc_custom_table ok wsz = realloc_generic_table ok wsz 24 ''custom_table overflow''"

definition add_to_ephe_ref_table :: "(nat \<Rightarrow> bool) \<Rightarrow> nat \<Rightarrow> u64 \<Rightarrow> u64 \<Rightarrow>
    ephe_ref_elt generic_table \<Rightarrow> string + (ephe_ref_elt generic_table \<times> bool)" where
  "add_to_ephe_ref_table ok wsz ar ofs =
    add_to_table ok wsz 16 ''ephe_ref_table overflow'' \<lparr>ephe = ar, offset = ofs\<rparr>"

definition add_to_custom_table :: "(nat \<Rightarrow> bool) \<Rightarrow> nat \<Rightarrow> u64 \<Rightarrow> u64 \<Rightarrow> u64 \<Rightarrow>
    custom_elt generic_table \<Rightarrow> string + (custom_elt generic_table \<times> bool)" where
  "add_to_custom_table ok wsz v mm mx =
    add_to_table ok wsz 24 ''custom_table overflow''
      \<lparr>custom_block = v, custom_mem = mm, custom_max = mx\<rparr>"

section \<open>What a table promises\<close>

text \<open>
  A log: entries are appended until it is cleared. \<open>put\<close> may fail only with an error; \<open>cap\<close>
  is the number of entries its array can hold.
\<close>

locale entry_log =
  fixes ok :: "'t \<Rightarrow> bool"
    and entries :: "'t \<Rightarrow> 'e list"
    and cap :: "'t \<Rightarrow> nat"
    and put :: "'e \<Rightarrow> 't \<Rightarrow> string + ('t \<times> bool)"
    and wipe :: "'t \<Rightarrow> 't"
  assumes put_ok: "ok t \<Longrightarrow> put e t = Inr (t', req) \<Longrightarrow> ok t'"
    and put_entries: "ok t \<Longrightarrow> put e t = Inr (t', req) \<Longrightarrow> entries t' = entries t @ [e]"
    and put_cap: "ok t \<Longrightarrow> put e t = Inr (t', req) \<Longrightarrow> length (entries t') \<le> cap t'"
    and wipe_ok: "ok t \<Longrightarrow> ok (wipe t)"
    and wipe_entries: "ok t \<Longrightarrow> entries (wipe t) = []"
begin

fun put_all :: "'e list \<Rightarrow> 't \<Rightarrow> string + 't" where
  "put_all [] t = Inr t"
| "put_all (e # es) t = (case put e t of Inl msg \<Rightarrow> Inl msg | Inr (t', req) \<Rightarrow> put_all es t')"

lemma put_all_entries:
  "ok t \<Longrightarrow> put_all es t = Inr t' \<Longrightarrow> ok t' \<and> entries t' = entries t @ es"
proof (induction es arbitrary: t)
  case (Cons e es)
  then obtain t1 req where p: "put e t = Inr (t1, req)" "put_all es t1 = Inr t'"
    by (auto split: sum.splits)
  with Cons.IH [OF put_ok [OF Cons.prems(1) p(1)] p(2)] put_entries [OF Cons.prems(1) p(1)]
  show ?case by simp
qed simp

lemma put_all_cap:
  "ok t \<Longrightarrow> put_all es t = Inr t' \<Longrightarrow> es \<noteq> [] \<Longrightarrow> length (entries t') \<le> cap t'"
proof (induction es arbitrary: t)
  case (Cons e es)
  then obtain t1 req where p: "put e t = Inr (t1, req)" "put_all es t1 = Inr t'"
    by (auto split: sum.splits)
  show ?case
  proof (cases "es = []")
    case True
    with p put_cap [OF Cons.prems(1) p(1)] show ?thesis by simp
  next
    case False
    with Cons.IH [OF put_ok [OF Cons.prems(1) p(1)] p(2)] show ?thesis by simp
  qed
qed simp

lemma cycle_entries:
  "ok t \<Longrightarrow> put_all es (wipe t) = Inr t' \<Longrightarrow> entries t' = es"
  using put_all_entries [OF wipe_ok, of t es t'] wipe_entries [of t] by simp

end

section \<open>The generic table keeps the promise\<close>

text \<open>Well-formed: not yet allocated, or with its pointers in the order the code asserts.\<close>

definition table_ok :: "'e generic_table \<Rightarrow> bool" where
  "table_ok t =
    (if tbl_allocated t then
       0 < tbl_size t \<and> 0 < tbl_reserve t \<and> tbl_threshold t = tbl_size t \<and>
       tbl_end t = tbl_size t + tbl_reserve t \<and>
       (tbl_limit t = tbl_threshold t \<or> tbl_limit t = tbl_end t) \<and>
       length (tbl_entries t) \<le> tbl_limit t
     else tbl_entries t = [] \<and> tbl_limit t = 0 \<and> tbl_threshold t = 0 \<and> tbl_end t = 0)"

lemma realloc_generic_table_room:
  assumes "table_ok t" "8 \<le> wsz" "tbl_limit t \<le> length (tbl_entries t)"
    and "realloc_generic_table ok wsz es msg t = Inr (t', req)"
  shows "table_ok t' \<and> tbl_allocated t' \<and> tbl_entries t' = tbl_entries t \<and>
    length (tbl_entries t') < tbl_limit t'"
  using assms
  by (auto simp: table_ok_def realloc_generic_table_def alloc_generic_table_def Let_def
      split: if_splits)

lemma add_to_table_ok:
  assumes "table_ok t" "8 \<le> wsz" "add_to_table ok wsz es msg e t = Inr (t', req)"
  shows "table_ok t' \<and> tbl_entries t' = tbl_entries t @ [e] \<and> length (tbl_entries t') \<le> tbl_end t'"
proof -
  obtain u where u: "table_ok u" "tbl_allocated u" "tbl_entries u = tbl_entries t"
    "length (tbl_entries u) < tbl_limit u" "t' = u\<lparr>tbl_entries := tbl_entries u @ [e]\<rparr>"
  proof (cases "tbl_limit t \<le> length (tbl_entries t)")
    case True
    with assms(3) obtain u where "realloc_generic_table ok wsz es msg t = Inr (u, req)"
      "t' = u\<lparr>tbl_entries := tbl_entries u @ [e]\<rparr>"
      by (cases "realloc_generic_table ok wsz es msg t") (auto simp: add_to_table_def)
    with realloc_generic_table_room [OF assms(1,2) True] that show ?thesis by blast
  next
    case False
    with assms that show ?thesis
      by (auto simp: add_to_table_def table_ok_def split: if_splits)
  qed
  then show ?thesis by (auto simp: table_ok_def)
qed

lemma clear_table_ok: "table_ok t \<Longrightarrow> table_ok (clear_table t) \<and> tbl_entries (clear_table t) = []"
  by (auto simp: table_ok_def clear_table_def)

lemma reset_table_ok: "table_ok (reset_table t)"
  by (simp add: table_ok_def reset_table_def)

text \<open>
  The minor heap has at least eight words (\<open>Minor_heap_min\<close> is 4096), so that the first
  allocation has room for an entry.
\<close>

interpretation tables: entry_log "\<lambda>t. table_ok t \<and> 8 \<le> wsz" tbl_entries tbl_end
  "add_to_table ok wsz es msg" clear_table
  by unfold_locales (auto dest: add_to_table_ok clear_table_ok)

section \<open>The write barrier\<close>

text \<open>
  \<open>F\<close> is the set of addresses of fields of blocks. The reference table is complete when
  every major field that holds a young block is in it.
\<close>

definition remembered :: "u64 set \<Rightarrow> 'a caml_state_scheme \<Rightarrow> bool" where
  "remembered F s =
    (\<forall>fp \<in> F. \<not> Is_young s fp \<and> Is_block (mem s fp) \<and> Is_young s (mem s fp) \<longrightarrow>
       fp \<in> set (tbl_entries (ref_table s)))"

text \<open>The block \<open>caml_darken\<close> works on: the enclosing closure of an infix pointer.\<close>

definition darken_target :: "store \<Rightarrow> u64 \<Rightarrow> u64" where
  "darken_target m v = (if Tag_hd (Hd_val m v) = Infix_tag then v - Infix_offset_val m v else v)"

definition barrier_state :: "'a caml_state_scheme \<Rightarrow> bool" where
  "barrier_state s = (table_ok (ref_table s) \<and> 8 \<le> unat (minor_heap_wsz s))"

lemma Is_young_upd [simp]:
  "Is_young (s\<lparr>mem := m\<rparr>) v = Is_young s v" "Is_young (store_at a x s) v = Is_young s v"
  "Is_young (s\<lparr>ref_table := r\<rparr>) v = Is_young s v"
  "Is_young (caml_request_minor_gc s) v = Is_young s v"
  by (simp_all add: Is_young_def store_at_def caml_request_minor_gc_def caml_set_action_pending_def)

lemma mem_store_at [simp]: "mem (store_at a x s) = (mem s)(a := x)"
  "ref_table (store_at a x s) = ref_table s" "minor_heap_wsz (store_at a x s) = minor_heap_wsz s"
  "caml_gc_phase (store_at a x s) = caml_gc_phase s"
  by (simp_all add: store_at_def)

lemma caml_darken_alt:
  "caml_darken rt v s =
    (let v' = darken_target (mem s) v; h = Hd_val (mem s) v'
     in if Is_block v \<and> Is_in_heap s v \<and> Is_white_hd h
        then (let s1 = s\<lparr>ephe_list_pure := False\<rparr>
              in if Tag_hd h < No_scan_tag
                 then (let s2 = (store_at (v' - 8) (Grayhd_hd h) s1)\<lparr>gray_vals := gray_vals s1 @ [v']\<rparr>
                       in if gray_vals_size s2 \<le> length (gray_vals s2)
                          then realloc_gray_vals rt s2 else s2)
                 else store_at (v' - 8) (Blackhd_hd h) s1)
        else s)"
  by (auto simp: caml_darken_def darken_target_def Let_def)

lemma realloc_gray_vals_keeps [simp]:
  "mem (realloc_gray_vals rt s) = mem s" "ref_table (realloc_gray_vals rt s) = ref_table s"
  "Is_young (realloc_gray_vals rt s) = Is_young s"
  "minor_heap_wsz (realloc_gray_vals rt s) = minor_heap_wsz s"
  by (auto simp: realloc_gray_vals_def Is_young_def fun_eq_iff)

lemma Is_young_gray [simp]:
  "Is_young (s\<lparr>gray_vals := g\<rparr>) = Is_young s" "Is_young (s\<lparr>ephe_list_pure := b\<rparr>) = Is_young s"
  by (auto simp: Is_young_def fun_eq_iff)

lemma caml_darken_keeps:
  "ref_table (caml_darken rt v s) = ref_table s" "Is_young (caml_darken rt v s) = Is_young s"
  "minor_heap_wsz (caml_darken rt v s) = minor_heap_wsz s"
  "x \<noteq> darken_target (mem s) v - 8 \<Longrightarrow> mem (caml_darken rt v s) x = mem s x"
  by (auto simp: caml_darken_alt Let_def fun_eq_iff)

lemma add_to_ref_table_ok:
  assumes "barrier_state s" "add_to_ref_table rt p s = Ret u t"
  shows "barrier_state t \<and> mem t = mem s \<and> Is_young t = Is_young s \<and>
    tbl_entries (ref_table t) = tbl_entries (ref_table s) @ [p]"
proof -
  obtain tb req where a: "add_to_table (rt_table_alloc_ok rt) (unat (minor_heap_wsz s)) 8
      ''ref_table overflow'' p (ref_table s) = Inr (tb, req)"
    and t: "t = (if req then caml_request_minor_gc s else s)\<lparr>ref_table := tb\<rparr>"
    using assms(2) by (auto simp: add_to_ref_table_def split: sum.splits)
  have ok: "table_ok (ref_table s)" and wsz: "8 \<le> unat (minor_heap_wsz s)"
    using assms(1) by (simp_all add: barrier_state_def)
  show ?thesis
    using add_to_table_ok [OF ok wsz a] wsz
    by (auto simp: t barrier_state_def fun_eq_iff caml_request_minor_gc_def
        caml_set_action_pending_def Is_young_def)
qed

lemma remembered_store:
  assumes "remembered F s" and "mem t = (mem s)(fp := val)" "Is_young t = Is_young s"
    and "set (tbl_entries (ref_table s)) \<subseteq> set (tbl_entries (ref_table t))"
    and "\<not> Is_young s fp \<Longrightarrow> Is_block val \<Longrightarrow> Is_young s val \<Longrightarrow>
      fp \<in> set (tbl_entries (ref_table t))"
  shows "remembered F t"
  using assms by (auto simp: remembered_def)

text \<open>
  C19: After caml_modify every field of the major heap that points to the minor heap is in the
  reference table, if that held before.
\<close>

theorem caml_modify_remembers:
  assumes "remembered F s" "barrier_state s" "fp \<in> F"
    and "darken_target ((mem s)(fp := val)) (mem s fp) - 8 \<notin> F"
    and "caml_modify rt fp val s = Ret u t"
  shows "remembered F t \<and> barrier_state t \<and> mem t fp = val"
proof -
  define s1 where "s1 = store_at fp val s"
  define s2 where "s2 = (if Is_block (mem s fp) \<and> caml_gc_phase s1 = Phase_mark
      then caml_darken rt (mem s fp) s1 else s1)"
  have m1: "mem s1 = (mem s)(fp := val)" "Is_young s1 = Is_young s" "ref_table s1 = ref_table s"
    "barrier_state s1"
    using assms(2) by (simp_all add: s1_def fun_eq_iff barrier_state_def)
  have s2: "Is_young s2 = Is_young s" "ref_table s2 = ref_table s" "barrier_state s2"
    using m1 by (auto simp: s2_def caml_darken_keeps barrier_state_def)
  have s2F: "mem s2 x = mem s1 x" if "x \<in> F" for x
  proof -
    have "x \<noteq> darken_target (mem s1) (mem s fp) - 8"
      using assms(4) that by (auto simp: m1)
    then show ?thesis by (simp add: s2_def caml_darken_keeps(4))
  qed
  have young_old: "fp \<in> set (tbl_entries (ref_table s))"
    if "\<not> Is_young s fp" "Is_block (mem s fp)" "Is_young s (mem s fp)"
    using assms(1,3) that by (auto simp: remembered_def)
  have cm: "caml_modify rt fp val s =
    (if Is_young s fp then Ret () s1
     else if Is_block (mem s fp) \<and> Is_young s (mem s fp) then Ret () s1
     else if Is_block val \<and> Is_young s val then add_to_ref_table rt fp s2 else Ret () s2)"
    unfolding caml_modify_def Let_def s2_def s1_def by (auto simp: caml_darken_keeps)
  note run = assms(5) [unfolded cm]
  show ?thesis
  proof (cases "Is_young s fp \<or> Is_block (mem s fp) \<and> Is_young s (mem s fp)")
    case True
    then have "t = s1" using run by (cases "Is_young s fp") simp_all
    with True show ?thesis
      using assms(1,2) m1 young_old by (auto simp: remembered_def)
  next
    case False
    note old = this
    show ?thesis
    proof (cases "Is_block val \<and> Is_young s val")
      case True
      then have "add_to_ref_table rt fp s2 = Ret u t" using run old by (auto split: if_splits)
      with add_to_ref_table_ok [OF s2(3) this] show ?thesis
        using assms(1,3) m1 s2 by (auto simp: remembered_def s2F)
    next
      case False
      then have "t = s2" using run old by (auto split: if_splits)
      with False show ?thesis
        using assms(1,3) m1 s2 by (auto simp: remembered_def s2F)
    qed
  qed
qed

theorem caml_initialize_remembers:
  assumes "remembered F s" "barrier_state s" "caml_initialize rt fp val s = Ret u t"
  shows "remembered F t \<and> barrier_state t \<and> mem t fp = val"
proof -
  define s1 where "s1 = store_at fp val s"
  have s1: "mem s1 = (mem s)(fp := val)" "Is_young s1 = Is_young s" "ref_table s1 = ref_table s"
    "barrier_state s1"
    using assms(2) by (simp_all add: s1_def fun_eq_iff barrier_state_def)
  have ci: "caml_initialize rt fp val s =
      (if \<not> Is_young s fp \<and> Is_block val \<and> Is_young s val then add_to_ref_table rt fp s1
       else Ret () s1)"
    by (simp add: caml_initialize_def Let_def s1_def)
  show ?thesis
  proof (cases "\<not> Is_young s fp \<and> Is_block val \<and> Is_young s val")
    case True
    then have "add_to_ref_table rt fp s1 = Ret u t" using assms(3) ci by simp
    from add_to_ref_table_ok [OF s1(4) this] assms(1) s1 show ?thesis
      by (auto simp: remembered_def)
  next
    case False
    then have "t = s1" using assms(3) unfolding ci by (simp split: if_splits)
    with False assms(1) s1 show ?thesis by (auto simp: remembered_def)
  qed
qed

text \<open>What darkening does to the block that is overwritten.\<close>

definition shaded :: "'a caml_state_scheme \<Rightarrow> u64 \<Rightarrow> bool" where
  "shaded s v = (\<not> Is_white_hd (Hd_val (mem s) v))"

lemma recolour_not_white:
  "\<not> Is_white_hd (Grayhd_hd h)" "\<not> Is_white_hd (Blackhd_hd h)"
  "Wosize_hd (Grayhd_hd h) = Wosize_hd h" "Tag_hd (Grayhd_hd h) = Tag_hd h"
  "Wosize_hd (Blackhd_hd h) = Wosize_hd h" "Tag_hd (Blackhd_hd h) = Tag_hd h"
proof -
  have c: "(256 :: u64) AND 768 = 256" "(768 :: u64) AND 768 = 768" by simp_all
  note r = recolour_eqs recolour_fields [OF c(1)] recolour_fields [OF c(2)]
  show "\<not> Is_white_hd (Grayhd_hd h)" "\<not> Is_white_hd (Blackhd_hd h)"
    "Wosize_hd (Grayhd_hd h) = Wosize_hd h" "Tag_hd (Grayhd_hd h) = Tag_hd h"
    "Wosize_hd (Blackhd_hd h) = Wosize_hd h" "Tag_hd (Blackhd_hd h) = Tag_hd h"
    by (simp_all add: r Is_white_hd_def Caml_color_vals)
qed

lemma caml_darken_shades:
  assumes "Is_block v" "Is_in_heap s v" and v': "v' = darken_target (mem s) v"
    and t: "t = caml_darken rt v s"
  shows "shaded t v'" "Wosize_val (mem t) v' = Wosize_val (mem s) v'"
    "Tag_hd (Hd_val (mem t) v') = Tag_hd (Hd_val (mem s) v')"
    "\<not> shaded s v' \<Longrightarrow> Tag_hd (Hd_val (mem s) v') < No_scan_tag \<Longrightarrow>
       v' \<in> set (gray_vals t) \<or> \<not> heap_is_pure t"
proof -
  show "shaded t v'" "Wosize_val (mem t) v' = Wosize_val (mem s) v'"
    "Tag_hd (Hd_val (mem t) v') = Tag_hd (Hd_val (mem s) v')"
    using assms(1,2) unfolding t caml_darken_alt v' [symmetric] Let_def
    by (simp_all add: shaded_def Hd_val_def Wosize_val_def recolour_not_white)
  show "v' \<in> set (gray_vals t) \<or> \<not> heap_is_pure t"
    if "\<not> shaded s v'" "Tag_hd (Hd_val (mem s) v') < No_scan_tag"
    using assms(1,2) that unfolding t caml_darken_alt v' [symmetric] Let_def
    by (simp add: shaded_def realloc_gray_vals_def)
qed

lemma add_to_ref_table_keeps:
  "add_to_ref_table rt p s = Ret u t \<Longrightarrow>
    mem t = mem s \<and> gray_vals t = gray_vals s \<and> heap_is_pure t = heap_is_pure s"
  by (auto simp: add_to_ref_table_def caml_request_minor_gc_def caml_set_action_pending_def
      split: sum.splits if_splits)

text \<open>
  C20: While the major collector marks, caml_modify leaves the overwritten block not white, so
  the snapshot is not lost.
\<close>

theorem caml_modify_shades:
  assumes "caml_gc_phase s = Phase_mark" and "\<not> Is_young s fp"
    and old: "Is_block (mem s fp)" "\<not> Is_young s (mem s fp)" "Is_in_heap s (mem s fp)"
    and s1: "s1 = store_at fp val s" and v': "v' = darken_target (mem s1) (mem s fp)"
    and r: "caml_modify rt fp val s = Ret u t"
  shows "shaded t v' \<and> Wosize_val (mem t) v' = Wosize_val (mem s1) v' \<and>
    (shaded s1 v' \<or> No_scan_tag \<le> Tag_hd (Hd_val (mem s1) v') \<or>
     v' \<in> set (gray_vals t) \<or> \<not> heap_is_pure t)"
proof -
  let ?d = "caml_darken rt (mem s fp) s1"
  have "Is_in_heap s1 (mem s fp)"
    using old by (simp add: s1 Is_in_heap_def store_at_def)
  note D = caml_darken_shades [OF old(1) this v' refl, of rt]
  have cm: "caml_modify rt fp val s =
      (if Is_block val \<and> Is_young s val then add_to_ref_table rt fp ?d else Ret () ?d)"
    using assms(1-4) unfolding caml_modify_def Let_def s1 by (auto simp: caml_darken_keeps)
  have "mem t = mem ?d \<and> gray_vals t = gray_vals ?d \<and> heap_is_pure t = heap_is_pure ?d"
    using r add_to_ref_table_keeps [of rt fp ?d u t] unfolding cm by (auto split: if_splits)
  then show ?thesis
    using D by (auto simp: shaded_def not_le)
qed

section \<open>A collection cycle of a table\<close>

text \<open>
  C18: However many entries are added to a remembered-set table, growing it on the way, it
  stays well formed and holds exactly the entries added, in order.
\<close>

theorem table_log:
  assumes "table_ok t" "8 \<le> wsz"
    and "entry_log.put_all (add_to_table ok wsz elt_size msg) es (clear_table t) = Inr t'"
  shows "tbl_entries t' = es \<and> table_ok t' \<and> (es \<noteq> [] \<longrightarrow> length es \<le> tbl_end t')"
proof -
  have "table_ok (clear_table t)" using clear_table_ok [OF assms(1)] by simp
  with assms tables.cycle_entries [of t wsz ok elt_size msg es t']
    tables.put_all_entries [of "clear_table t" wsz ok elt_size msg es t']
    tables.put_all_cap [of "clear_table t" wsz ok elt_size msg es t']
  show ?thesis by auto
qed

section \<open>The theorems at concrete states\<close>

definition sample_table :: "u64 generic_table" where
  "sample_table = \<lparr>tbl_allocated = True, tbl_entries = [9], tbl_threshold = 1, tbl_limit = 1,
     tbl_end = 2, tbl_size = 1, tbl_reserve = 1\<rparr>"

theorem table_log_witness:
  "\<exists>t'. entry_log.put_all (add_to_table (\<lambda>n. True) 4096 8 ''ref_table overflow'') [3, 5, 7]
       (clear_table sample_table) = Inr t' \<and> tbl_entries t' = [3, 5, 7] \<and> 3 \<le> tbl_end t'"
proof -
  have ok: "table_ok sample_table" by (simp add: table_ok_def sample_table_def)
  obtain t' where t': "entry_log.put_all (add_to_table (\<lambda>n. True) 4096 8 ''ref_table overflow'') [3, 5, 7]
       (clear_table sample_table) = Inr t'"
    by (simp add: tables.put_all.simps sample_table_def clear_table_def add_to_table_def
        realloc_generic_table_def)
  from table_log [OF ok _ t'] t' show ?thesis by simp
qed

theorem caml_modify_remembers_witness:
  "\<exists>t. caml_modify sample_rt 0x20010 0x9000 sample_machine = Ret () t \<and>
     remembered {0x20008, 0x20010} t \<and> barrier_state t \<and> mem t 0x20010 = 0x9000"
proof -
  have st: "remembered {0x20008, 0x20010} sample_machine" "barrier_state sample_machine"
    by (simp_all add: remembered_def barrier_state_def Is_block_def table_ok_def sample_machine_def)
  obtain t where t: "caml_modify sample_rt 0x20010 0x9000 sample_machine = Ret () t"
    by (simp add: caml_modify_def Let_def Is_young_def Is_block_def store_at_def add_to_ref_table_def
        add_to_table_def sample_machine_def)
  have "darken_target ((mem sample_machine)(0x20010 := 0x9000)) (mem sample_machine 0x20010) - 8
      \<notin> {0x20008, 0x20010}"
    by (simp add: darken_target_def Hd_val_def Tag_hd_def Infix_tag_def)
  from caml_modify_remembers [OF st _ this t] t show ?thesis by auto
qed

theorem caml_initialize_remembers_witness:
  "\<exists>t. caml_initialize sample_rt 0x20010 0x9000 sample_machine = Ret () t \<and>
     remembered {0x20008, 0x20010} t \<and> mem t 0x20010 = 0x9000"
proof -
  have st: "remembered {0x20008, 0x20010} sample_machine" "barrier_state sample_machine"
    by (simp_all add: remembered_def barrier_state_def Is_block_def table_ok_def sample_machine_def)
  obtain t where t: "caml_initialize sample_rt 0x20010 0x9000 sample_machine = Ret () t"
    by (simp add: caml_initialize_def Let_def Is_young_def Is_block_def store_at_def
        add_to_ref_table_def add_to_table_def sample_machine_def)
  from caml_initialize_remembers [OF st t] t show ?thesis by auto
qed

definition sample_marking :: machine where
  "sample_marking = sample_machine\<lparr>caml_gc_phase := Phase_mark,
     mem := (\<lambda>a. 0)(0x20010 := 0x24008, 0x24000 := Make_header 2 0 Caml_white)\<rparr>"

theorem caml_modify_shades_witness:
  "\<exists>t. caml_modify sample_rt 0x20010 1 sample_marking = Ret () t \<and> shaded t 0x24008 \<and>
     \<not> shaded (store_at 0x20010 1 sample_marking) 0x24008"
proof -
  let ?s1 = "store_at 0x20010 1 sample_marking"
  have f: "mem sample_marking 0x24000 = 2048" "mem sample_marking 0x20010 = 0x24008" "caml_gc_phase sample_marking = Phase_mark"
    "Is_in_heap sample_marking 0x24008" "\<not> Is_young sample_marking 0x20010"
    "\<not> Is_young sample_marking 0x24008"
    by (simp_all add: sample_marking_def store_at_def Make_header_def Caml_white_def fun_eq_iff
        Is_in_heap_def Is_young_def)
  have d: "darken_target ((mem sample_marking)(0x20010 := 1)) 0x24008 = 0x24008"
    by (simp add: darken_target_def f Hd_val_def Tag_hd_def Infix_tag_def)
  obtain t where t: "caml_modify sample_rt 0x20010 1 sample_marking = Ret () t"
    by (simp add: caml_modify_def Let_def f Is_block_def)
  have "\<not> shaded ?s1 0x24008"
    by (simp add: shaded_def f Hd_val_def Is_white_hd_def Color_hd_def Caml_color_vals)
  with caml_modify_shades [OF f(3,5) _ _ _ refl refl t] t show ?thesis
    by (auto simp: f d Is_block_def)
qed

end
