(* ===== verification/Stack_Growth.thy ===== *)
theory Stack_Growth
  imports Sample_State
begin

text \<open>
  Growing the bytecode stack: the search for a size ends, with a size that is enough or
  because the limit forbids it; the live words and the chain of trap frames move to the
  new area intact.
\<close>

section \<open>The size loop\<close>

lemma unat_double: "unat (sz :: u64) < 2 ^ 63 \<Longrightarrow> unat (sz * 2) = 2 * unat sz"
proof -
  assume "unat sz < 2 ^ 63"
  then have "2 * unat sz < 2 ^ LENGTH(64)" by simp
  moreover have "sz * 2 = of_nat (2 * unat sz)" by simp
  ultimately show ?thesis by (metis of_nat_inverse)
qed

text \<open>
  C21: The size loop of caml_realloc_stack ends and gives a size that holds the stack in use
  and the required space, without overflow.
\<close>

theorem grow_size_correct:
  assumes "0 < unat sz" "unat max_size \<le> 2 ^ 63"
  shows "\<exists>r. grow_size max_size need sz = Some r \<and>
    (case r of
       None \<Rightarrow> \<exists>k. unat max_size \<le> unat sz * 2 ^ k \<and> (0 < k \<longrightarrow> unat sz * 2 ^ k < unat need)
     | Some sz' \<Rightarrow> unat need \<le> unat sz' \<and> (\<exists>k. 0 < k \<and> unat sz' = unat sz * 2 ^ k) \<and>
         unat sz' < 2 * unat max_size)"
  using assms(1)
proof (induction "unat max_size - unat sz" arbitrary: sz rule: less_induct)
  case less
  show ?case
  proof (cases "max_size \<le> sz")
    case True
    then show ?thesis
      by (subst grow_size.simps) (auto simp: word_le_nat_alt intro: exI [of _ 0])
  next
    case False
    then have lt: "unat sz < unat max_size" by (simp add: word_le_nat_alt)
    then have d: "unat (sz * 2) = 2 * unat sz" using assms(2) by (intro unat_double) simp
    show ?thesis
    proof (cases "sz * 2 < need")
      case True
      have st: "grow_size max_size need sz = grow_size max_size need (sz * 2)"
        using False True by (subst grow_size.simps) (simp add: Let_def)
      have "unat max_size - unat (sz * 2) < unat max_size - unat sz" "0 < unat (sz * 2)"
        using lt less.prems d by auto
      from less.hyps [OF this] obtain r where r: "grow_size max_size need (sz * 2) = Some r"
        "case r of
           None \<Rightarrow> \<exists>k. unat max_size \<le> unat (sz * 2) * 2 ^ k \<and>
             (0 < k \<longrightarrow> unat (sz * 2) * 2 ^ k < unat need)
         | Some sz' \<Rightarrow> unat need \<le> unat sz' \<and> (\<exists>k. 0 < k \<and> unat sz' = unat (sz * 2) * 2 ^ k) \<and>
             unat sz' < 2 * unat max_size" by blast
      show ?thesis
      proof (cases r)
        case None
        with r obtain k where "unat max_size \<le> unat (sz * 2) * 2 ^ k"
          "0 < k \<longrightarrow> unat (sz * 2) * 2 ^ k < unat need" by auto
        then have "unat max_size \<le> unat sz * 2 ^ Suc k \<and> unat sz * 2 ^ Suc k < unat need"
          using True by (cases k) (auto simp: d word_less_nat_alt ac_simps)
        then show ?thesis using None r st by (auto intro: exI [of _ "Suc k"])
      next
        case (Some sz')
        with r obtain k where "unat need \<le> unat sz'" "unat sz' = unat (sz * 2) * 2 ^ k"
          "unat sz' < 2 * unat max_size" by auto
        then show ?thesis using Some r st d by (auto intro!: exI [of _ "Suc k"])
      qed
    next
      case False
      then have "grow_size max_size need sz = Some (Some (sz * 2))"
        using \<open>\<not> max_size \<le> sz\<close> by (subst grow_size.simps) (simp add: Let_def)
      with False d lt show ?thesis
        by (auto simp: word_less_nat_alt intro!: exI [of _ 1])
    qed
  qed
qed

theorem grow_size_correct_witness:
  "\<exists>r. grow_size 100000 9000 4096 = Some r \<and> (case r of
       None \<Rightarrow> \<exists>k. (100000 :: nat) \<le> 4096 * 2 ^ k \<and> (0 < k \<longrightarrow> (4096 :: nat) * 2 ^ k < 9000)
     | Some sz' \<Rightarrow> 9000 \<le> unat sz' \<and> (\<exists>k. 0 < k \<and> unat sz' = 4096 * 2 ^ k) \<and>
         unat sz' < 200000)"
  using grow_size_correct [of 4096 100000 9000] by (simp cong: option.case_cong)

section \<open>The chain of trap frames\<close>

text \<open>\<open>ps\<close> are the trap frames from \<open>p\<close> on, and the last one links to the end of the stack.\<close>

fun trap_chain :: "store \<Rightarrow> u64 \<Rightarrow> u64 \<Rightarrow> u64 list \<Rightarrow> bool" where
  "trap_chain m high p [] = (p = high)"
| "trap_chain m high p (q # ps) = (q = p \<and> p < high \<and> trap_chain m high (Trap_link m p) ps)"

text \<open>The chain in the middle of a move: the frames are in the new area, their links are old.\<close>

fun moved_chain :: "store \<Rightarrow> u64 \<Rightarrow> u64 \<Rightarrow> u64 \<Rightarrow> u64 list \<Rightarrow> bool" where
  "moved_chain m delta high p [] = (p = high)"
| "moved_chain m delta high p (q # ps) =
     (q = p \<and> p < high \<and> moved_chain m delta high (Trap_link m p + delta) ps)"

lemma moved_chain_cong:
  "moved_chain m delta high p ps \<Longrightarrow> (\<And>q. q \<in> set ps \<Longrightarrow> m' (q + 8) = m (q + 8)) \<Longrightarrow>
    moved_chain m' delta high p ps"
  by (induction ps arbitrary: p) (auto simp: Trap_link_def)

lemma trap_chain_cong:
  "trap_chain m high p ps \<Longrightarrow> (\<And>q. q \<in> set ps \<Longrightarrow> m' (q + 8) = m (q + 8)) \<Longrightarrow>
    trap_chain m' high p ps"
  by (induction ps arbitrary: p) (auto simp: Trap_link_def)

lemma shift_traps_chain:
  assumes "moved_chain m delta high p ps" "distinct ps"
  shows "\<exists>m'. shift_traps delta high p m = Some m' \<and> trap_chain m' high p ps \<and>
    (\<forall>x. x \<notin> (\<lambda>q. q + 8) ` set ps \<longrightarrow> m' x = m x)"
  using assms
proof (induction ps arbitrary: p m)
  case Nil
  then show ?case by (subst shift_traps.simps) simp
next
  case (Cons q ps)
  let ?l = "Trap_link m p + delta"
  let ?m = "m(p + 8 := ?l)"
  have q: "q = p" "p < high" and rest: "moved_chain m delta high ?l ps"
    and d: "distinct ps" "p \<notin> set ps"
    using Cons.prems by auto
  have "moved_chain ?m delta high ?l ps"
    by (rule moved_chain_cong [OF rest]) (use d in auto)
  from Cons.IH [OF this d(1)] obtain m' where m': "shift_traps delta high ?l ?m = Some m'"
    "trap_chain m' high ?l ps" "\<forall>x. x \<notin> (\<lambda>q. q + 8) ` set ps \<longrightarrow> m' x = ?m x"
    by blast
  have "p + 8 \<notin> (\<lambda>q. q + 8) ` set ps" using d(2) by auto
  with m'(3) have keep: "m' (p + 8) = ?l" by simp
  have "shift_traps delta high p m = Some m'"
    using q m'(1) by (subst shift_traps.simps) (simp add: Let_def Trap_link_def)
  moreover have "trap_chain m' high p (q # ps)"
    using q m'(2) keep by (simp add: Trap_link_def)
  ultimately show ?case
    using m'(3) q by (intro exI [of _ m']) auto
qed

section \<open>Growing the stack\<close>

lemma signed_drop_bit_8:
  assumes "n < 2 ^ 60"
  shows "signed_drop_bit 3 (8 * of_nat n :: u64) = of_nat n"
proof (rule sint_eqD)
  have "sint (word_of_int (8 * int n) :: u64) = 8 * int n" "sint (word_of_int (int n) :: u64) = int n"
    by (rule sint_of_small; use assms in simp)+
  then have s: "sint (8 * of_nat n :: u64) = 8 * int n" "sint (of_nat n :: u64) = int n"
    by simp_all
  show "sint (signed_drop_bit 3 (8 * of_nat n :: u64)) = sint (of_nat n :: u64)"
    unfolding sint_signed_drop_bit_eq s by (simp add: drop_bit_eq_div)
qed

lemma ptr_diff_waddr: "n < 2 ^ 60 \<Longrightarrow> unat (ptr_diff (waddr a n) a) = n"
proof -
  assume n: "n < 2 ^ 60"
  then have "n < 2 ^ LENGTH(64)" by simp
  then have "unat (of_nat n :: u64) = n" by (rule of_nat_inverse [OF refl])
  then show ?thesis
    using signed_drop_bit_8 [OF n] by (simp add: ptr_diff_def waddr_def)
qed

lemma waddr_less_end:
  assumes "unat a + 8 * n < 2 ^ 64" "i < n"
  shows "waddr a i < waddr a n"
proof -
  have "unat (waddr a k) = unat a + 8 * k" if "k \<le> n" for k
  proof -
    have "waddr a k = of_nat (unat a + 8 * k)" by (simp add: waddr_def)
    moreover have "unat a + 8 * k < 2 ^ LENGTH(64)" using assms(1) that by simp
    ultimately show ?thesis by (simp only:) (rule of_nat_inverse [OF refl])
  qed
  with assms(2) show ?thesis by (simp add: word_less_nat_alt)
qed

text \<open>The live part of the stack has \<open>n\<close> words, and every trap frame lies in it.\<close>

definition live_stack :: "'a caml_state_scheme \<Rightarrow> nat \<Rightarrow> u64 list \<Rightarrow> bool" where
  "live_stack s n ps =
    (stack_high s = waddr (extern_sp s) n \<and> n < 2 ^ 60 \<and>
     trap_chain (mem s) (stack_high s) (trapsp s) ps \<and> distinct ps \<and>
     (\<forall>p \<in> set ps. \<exists>i. Suc i < n \<and> p = waddr (extern_sp s) i))"

lemma copied_chain:
  assumes "trap_chain m (waddr a n) p ps" "\<forall>q \<in> set ps. \<exists>i. Suc i < n \<and> q = waddr a i"
    and copy: "\<And>i. i < n \<Longrightarrow> m' (waddr b i) = m (waddr a i)"
    and fits: "unat b + 8 * n < 2 ^ 64"
  shows "moved_chain m' (b - a) (waddr b n) (p + (b - a)) (map (\<lambda>q. q + (b - a)) ps)"
  using assms(1,2)
proof (induction ps arbitrary: p)
  case Nil
  then show ?case by (simp add: waddr_def)
next
  case (Cons q ps)
  then obtain i where i: "Suc i < n" "p = waddr a i" and ch: "trap_chain m (waddr a n) (Trap_link m p) ps"
    by auto
  have mv: "waddr a k + (b - a) = waddr b k" for k by (simp add: waddr_def)
  have "Trap_link m' (waddr b i) = Trap_link m p"
    using copy [OF i(1)] by (simp add: Trap_link_def i waddr_def algebra_simps)
  moreover have "waddr b i < waddr b n"
    using i by (intro waddr_less_end [OF fits]) simp
  ultimately show ?case
    using Cons.IH [OF ch] Cons.prems by (simp add: i mv)
qed

text \<open>
  C22: Growing the stack moves its words, stack pointer and the whole chain of trap frames to
  the new area.
\<close>

theorem realloc_stack_moves:
  assumes live: "live_stack s n ps"
    and grow: "grow_size (caml_max_stack_size s) (ptr_diff (stack_high s) (extern_sp s) + req)
        (ptr_diff (stack_high s) (stack_low s)) = Some (Some sz)"
    and alloc: "on_cs (rt_stat_alloc rt (sz * 8)) s = Ret new_low s"
    and fits: "n \<le> unat sz" "unat new_low + 8 * unat sz < 2 ^ 64"
    and delta: "delta = new_low + 8 * sz - stack_high s"
  shows "\<exists>t. caml_realloc_stack rt req s = Ret () t \<and> stack_low t = new_low \<and>
    stack_high t = new_low + 8 * sz \<and> extern_sp t = extern_sp s + delta \<and>
    live_stack t n (map (\<lambda>p. p + delta) ps) \<and>
    (\<forall>i < n. (\<forall>p \<in> set ps. waddr (extern_sp s) i \<noteq> p + 8) \<longrightarrow>
       mem t (waddr (extern_sp t) i) = mem s (waddr (extern_sp s) i))"
proof -
  let ?esp = "extern_sp s" and ?new = "extern_sp s + delta"
  let ?m1 = "write_words ?new (read_words (mem s) ?esp n) (mem s)"
  have high: "stack_high s = waddr ?esp n" and n60: "n < 2 ^ 60"
    and chain: "trap_chain (mem s) (waddr ?esp n) (trapsp s) ps" "distinct ps"
      "\<forall>q \<in> set ps. \<exists>i. Suc i < n \<and> q = waddr ?esp i"
    using live by (auto simp: live_stack_def)
  have new: "?new = new_low + 8 * (sz - of_nat n)" "?new - ?esp = delta"
    by (simp_all add: delta high waddr_def algebra_simps)
  have new_high: "new_low + 8 * sz = waddr ?new n"
    by (simp add: delta high waddr_def)
  have dh: "waddr ?new n - stack_high s = delta"
    by (simp add: delta high waddr_def)
  have nofs: "?new = of_nat (unat new_low + 8 * (unat sz - n))"
    using fits(1) by (simp add: new of_nat_diff)
  have b: "unat new_low + 8 * (unat sz - n) < 2 ^ LENGTH(64)" using fits by simp
  have "unat ?new = unat new_low + 8 * (unat sz - n)"
    unfolding nofs by (rule of_nat_inverse [OF refl b])
  then have fit: "unat ?new + 8 * n < 2 ^ 64"
    using fits by simp
  have copy: "?m1 (waddr ?new i) = mem s (waddr ?esp i)" if "i < n" for i
    using that n60 write_words_nth [of "read_words (mem s) ?esp n" i ?new "mem s"] by simp
  have mc: "moved_chain ?m1 delta (waddr ?new n) (trapsp s + delta) (map (\<lambda>q. q + delta) ps)"
    using copied_chain [OF chain(1,3) copy fit] by (simp only: new(2))
  have dist: "distinct (map (\<lambda>q. q + delta) ps)"
    using chain(2) by (simp add: distinct_map inj_on_def)
  from shift_traps_chain [OF mc dist] obtain m2 where
    m2: "shift_traps delta (waddr ?new n) (trapsp s + delta) ?m1 = Some m2"
      "trap_chain m2 (waddr ?new n) (trapsp s + delta) (map (\<lambda>q. q + delta) ps)"
      "\<forall>x. x \<notin> (\<lambda>q. q + 8) ` set (map (\<lambda>q. q + delta) ps) \<longrightarrow> m2 x = ?m1 x"
    by blast
  have pd: "unat (ptr_diff (stack_high s) ?esp) = n"
    unfolding high by (rule ptr_diff_waddr [OF n60])
  define t where "t = s\<lparr>mem := m2, trapsp := trapsp s + delta, trap_barrier := trap_barrier s + delta,
      stack_low := new_low, stack_high := new_low + 8 * sz,
      stack_threshold := new_low + 8 * (Stack_threshold div 8), extern_sp := ?new\<rparr>"
  have run: "caml_realloc_stack rt req s = Ret () t"
    unfolding caml_realloc_stack_def grow option.case alloc cbind.simps Let_def
      pd new_high dh m2(1) t_def by simp
  have frames: "\<forall>p \<in> set (map (\<lambda>p. p + delta) ps). \<exists>i. Suc i < n \<and> p = waddr ?new i"
    using chain(3) by (fastforce simp: waddr_def algebra_simps)
  have "live_stack t n (map (\<lambda>p. p + delta) ps)"
    unfolding live_stack_def t_def using m2(2) dist n60 frames by (simp add: new_high)
  moreover have "mem t (waddr ?new i) = mem s (waddr ?esp i)"
    if "i < n" "\<forall>p \<in> set ps. waddr ?esp i \<noteq> p + 8" for i
  proof -
    have "waddr ?new i \<notin> (\<lambda>q. q + 8) ` set (map (\<lambda>q. q + delta) ps)"
      using that(2) by (auto simp: waddr_def algebra_simps)
    then show ?thesis using m2(3) copy [OF that(1)] by (simp add: t_def)
  qed
  ultimately show ?thesis
    using run by (intro exI [of _ t]) (simp add: t_def)
qed

section \<open>The theorem at a concrete stack\<close>

definition sample_stack :: machine where
  "sample_stack = sample_machine\<lparr>extern_sp := 0x1FE0, trapsp := 0x1FE0,
     mem := (\<lambda>a. 3)(0x1FE8 := 0x2000)\<rparr>"

theorem realloc_stack_moves_witness:
  "\<exists>t. caml_realloc_stack sample_rt 256 sample_stack = Ret () t \<and> stack_high t = 0x42000 \<and>
     extern_sp t = 0x41FE0 \<and> live_stack t 4 [0x41FE0] \<and> mem t 0x41FE0 = 3"
proof -
  have f: "stack_high sample_stack = 0x2000" "stack_low sample_stack = 0x1000"
    "extern_sp sample_stack = 0x1FE0" "trapsp sample_stack = 0x1FE0"
    "mem sample_stack = (\<lambda>a. 3)(0x1FE8 := 0x2000)" "caml_max_stack_size sample_stack = 0x100000"
    by (simp_all add: sample_stack_def)
  have "\<exists>i. Suc i < 4 \<and> (0x1FE0 :: u64) = waddr 0x1FE0 i"
    by (rule exI [of _ 0]) simp
  then have live: "live_stack sample_stack 4 [0x1FE0]"
    by (simp add: live_stack_def f waddr_def Trap_link_def)
  have g: "grow_size (caml_max_stack_size sample_stack)
      (ptr_diff (stack_high sample_stack) (extern_sp sample_stack) + 256)
      (ptr_diff (stack_high sample_stack) (stack_low sample_stack)) = Some (Some 1024)"
    by (subst grow_size.simps) (simp add: f ptr_diff_def)
  have al: "on_cs (rt_stat_alloc sample_rt (1024 * 8)) sample_stack = Ret 0x40000 sample_stack"
    by (rule on_cs_same) (simp add: sample_rt_def)
  have w: "waddr 0x41FE0 0 = 0x41FE0" "waddr 0x1FE0 0 = 0x1FE0" by simp_all
  from realloc_stack_moves [OF live g al, of "0x40000"] obtain t where
    t: "caml_realloc_stack sample_rt 256 sample_stack = Ret () t" "stack_high t = 0x42000"
      "extern_sp t = 0x41FE0" "live_stack t 4 [0x41FE0]"
      "\<forall>i < 4. (\<forall>p \<in> {0x1FE0}. waddr 0x1FE0 i \<noteq> p + 8) \<longrightarrow>
         mem t (waddr 0x41FE0 i) = mem sample_stack (waddr 0x1FE0 i)"
    by (auto simp: f)
  then have "mem t 0x41FE0 = 3"
    using spec [OF t(5), of 0] by (simp add: f)
  with t show ?thesis by blast
qed

end
