(* ===== verification/Page_Table.thy ===== *)
theory Page_Table
  imports Rt_Prelude
begin

text \<open>
  The page table of \<^verbatim>\<open>runtime/memory.c\<close> in its 64-bit form: a hash table with linear probing
  that classifies the pages of the address space (\<open>In_heap\<close>, \<open>In_young\<close>, ...). It is shown
  to implement a map from pages to sets of classes.
\<close>

section \<open>Definitions\<close>

record page_table =
  pt_size :: u64
  pt_shift :: nat
  pt_mask :: u64
  pt_occupancy :: u64
  pt_entries :: "u64 list"

definition Page :: "u64 \<Rightarrow> u64" where "Page p = drop_bit 12 p"
definition Page_size :: u64 where "Page_size = push_bit 12 1"
definition Page_mask :: u64 where "Page_mask = push_bit 12 (- 1)"

definition Page_entry_matches :: "u64 \<Rightarrow> u64 \<Rightarrow> bool" where
  "Page_entry_matches entry addr = ((entry XOR addr) AND Page_mask = 0)"

definition HASH_FACTOR :: u64 where "HASH_FACTOR = 11400714819323198486"

definition Hash :: "page_table \<Rightarrow> u64 \<Rightarrow> u64" where
  "Hash t v = drop_bit (pt_shift t) (v * HASH_FACTOR)"

definition pt_entry :: "page_table \<Rightarrow> u64 \<Rightarrow> u64" where
  "pt_entry t h = pt_entries t ! unat h"

definition set_pt_entry :: "u64 \<Rightarrow> u64 \<Rightarrow> page_table \<Rightarrow> page_table" where
  "set_pt_entry h e t = t\<lparr>pt_entries := (pt_entries t)[unat h := e]\<rparr>"

text \<open>
  The probing loop the three users share: from \<open>h\<close> on, the first slot whose entry makes the
  loop leave.
\<close>

partial_function (option) probe :: "(u64 \<Rightarrow> bool) \<Rightarrow> page_table \<Rightarrow> u64 \<Rightarrow> u64 option" where
  "probe leave t h =
    (if leave (pt_entry t h) then Some h else probe leave t ((h + 1) AND pt_mask t))"

definition caml_page_table_lookup :: "page_table \<Rightarrow> u64 \<Rightarrow> u64 option" where
  "caml_page_table_lookup t addr =
    map_option
      (\<lambda>h. if Page_entry_matches (pt_entry t h) addr then pt_entry t h AND 0xFF else 0)
      (probe (\<lambda>e. Page_entry_matches e addr \<or> e = 0) t (Hash t (Page addr)))"

text \<open>The sizing loop of \<open>caml_page_table_initialize\<close>.\<close>

partial_function (option) pt_sizing :: "u64 \<Rightarrow> u64 \<Rightarrow> nat \<Rightarrow> (u64 \<times> nat) option" where
  "pt_sizing pagesize sz sh =
    (if sz < 2 * pagesize then pt_sizing pagesize (push_bit 1 sz) (sh - 1) else Some (sz, sh))"

definition caml_page_table_initialize :: "(u64 \<Rightarrow> bool) \<Rightarrow> u64 \<Rightarrow> page_table option option" where
  "caml_page_table_initialize calloc_ok bytesize =
    map_option (\<lambda>(sz, sh).
        if calloc_ok sz
        then Some \<lparr>pt_size = sz, pt_shift = sh, pt_mask = sz - 1, pt_occupancy = 0,
                   pt_entries = replicate (unat sz) 0\<rparr>
        else None)
      (pt_sizing (Page bytesize) 1 64)"

text \<open>One turn of the rehashing loop, and the loop over the old entries.\<close>

definition pt_reinsert :: "u64 \<Rightarrow> page_table \<Rightarrow> page_table option" where
  "pt_reinsert e t =
    (if e = 0 then Some t
     else map_option (\<lambda>h. set_pt_entry h e t) (probe (\<lambda>x. x = 0) t (Hash t (Page e))))"

fun pt_rehash :: "u64 list \<Rightarrow> page_table \<Rightarrow> page_table option" where
  "pt_rehash [] t = Some t"
| "pt_rehash (e # es) t = (case pt_reinsert e t of None \<Rightarrow> None | Some t' \<Rightarrow> pt_rehash es t')"

text \<open>
  The outer \<open>option\<close> is a loop that does not end; the inner one is the return code, \<open>None\<close>
  for -1.
\<close>

definition caml_page_table_resize :: "(u64 \<Rightarrow> bool) \<Rightarrow> page_table \<Rightarrow> page_table option option" where
  "caml_page_table_resize calloc_ok old =
    (if \<not> calloc_ok (2 * pt_size old) then Some None
     else map_option Some (pt_rehash (pt_entries old)
       (old\<lparr>pt_size := 2 * pt_size old, pt_shift := pt_shift old - 1,
            pt_mask := 2 * pt_size old - 1, pt_entries := replicate (unat (2 * pt_size old)) 0\<rparr>)))"

definition pt_store :: "u64 \<Rightarrow> u64 \<Rightarrow> u64 \<Rightarrow> u64 \<Rightarrow> page_table \<Rightarrow> page_table" where
  "pt_store h page toclear toset t =
    (if pt_entry t h = 0
     then (set_pt_entry h (page OR toset) t)\<lparr>pt_occupancy := pt_occupancy t + 1\<rparr>
     else set_pt_entry h ((pt_entry t h AND NOT toclear) OR toset) t)"

definition caml_page_table_modify :: "(u64 \<Rightarrow> bool) \<Rightarrow> u64 \<Rightarrow> u64 \<Rightarrow> u64 \<Rightarrow> page_table \<Rightarrow>
    page_table option option" where
  "caml_page_table_modify calloc_ok page toclear toset t =
    (case (if pt_size t \<le> pt_occupancy t * 2 then caml_page_table_resize calloc_ok t
           else Some (Some t)) of
       None \<Rightarrow> None
     | Some None \<Rightarrow> Some None
     | Some (Some t1) \<Rightarrow>
         map_option (\<lambda>h. Some (pt_store h page toclear toset t1))
           (probe (\<lambda>e. e = 0 \<or> Page_entry_matches e page) t1 (Hash t1 (Page page))))"

text \<open>The loop over the pages of a range, for adding and for removing a class.\<close>

partial_function (option) pt_range :: "(u64 \<Rightarrow> 's \<Rightarrow> 's option option) \<Rightarrow> u64 \<Rightarrow> u64 \<Rightarrow> 's \<Rightarrow>
    's option option" where
  "pt_range modify p pend t =
    (if p \<le> pend
     then (case modify p t of
             None \<Rightarrow> None
           | Some None \<Rightarrow> Some None
           | Some (Some t') \<Rightarrow> pt_range modify (p + Page_size) pend t')
     else Some (Some t))"

definition caml_page_table_add :: "(u64 \<Rightarrow> bool) \<Rightarrow> u64 \<Rightarrow> u64 \<Rightarrow> u64 \<Rightarrow> page_table \<Rightarrow>
    page_table option option" where
  "caml_page_table_add calloc_ok kind start endp =
    pt_range (\<lambda>p. caml_page_table_modify calloc_ok p 0 kind)
      (start AND Page_mask) ((endp - 1) AND Page_mask)"

definition caml_page_table_remove :: "(u64 \<Rightarrow> bool) \<Rightarrow> u64 \<Rightarrow> u64 \<Rightarrow> u64 \<Rightarrow> page_table \<Rightarrow>
    page_table option option" where
  "caml_page_table_remove calloc_ok kind start endp =
    pt_range (\<lambda>p. caml_page_table_modify calloc_ok p kind 0)
      (start AND Page_mask) ((endp - 1) AND Page_mask)"

section \<open>Pages and keys\<close>

lemma bit_Page_mask: "bit Page_mask n \<longleftrightarrow> 12 \<le> n \<and> n < 64"
  by (auto simp: Page_mask_def bit_simps)

lemma Page_entry_matches_iff:
  "Page_entry_matches e a \<longleftrightarrow> e AND Page_mask = a AND Page_mask"
proof
  assume "Page_entry_matches e a"
  then have "\<And>n. \<not> bit ((e XOR a) AND Page_mask) n"
    by (simp add: Page_entry_matches_def)
  then show "e AND Page_mask = a AND Page_mask"
    by (intro bit_word_eqI) (auto simp: bit_and_iff bit_xor_iff)
next
  assume "e AND Page_mask = a AND Page_mask"
  then have "\<And>n. bit (e AND Page_mask) n = bit (a AND Page_mask) n" by simp
  then have "(e XOR a) AND Page_mask = 0"
    by (intro bit_word_eqI) (auto simp: bit_and_iff bit_xor_iff)
  then show "Page_entry_matches e a" by (simp add: Page_entry_matches_def)
qed

lemma Page_of_key: "Page (e AND Page_mask) = Page e"
  by (rule bit_word_eqI) (auto simp: Page_def bit_drop_bit_eq bit_and_iff bit_Page_mask dest: bit_imp_le_length)

lemma Page_matches: "Page_entry_matches e a \<Longrightarrow> Page e = Page a"
  by (metis Page_entry_matches_iff Page_of_key)

section \<open>Shape of a table and the probing sequence\<close>

definition pt_shape :: "page_table \<Rightarrow> nat \<Rightarrow> bool" where
  "pt_shape t k = (0 < k \<and> k < 62 \<and> pt_size t = 2 ^ k \<and> pt_shift t = 64 - k \<and>
     pt_mask t = 2 ^ k - 1 \<and> length (pt_entries t) = 2 ^ k)"

lemma unat_pow2: "k < 64 \<Longrightarrow> unat (2 ^ k :: u64) = 2 ^ k"
proof -
  assume "k < 64"
  then have "(2 :: nat) ^ k < 2 ^ LENGTH(64)"
    by (intro power_strict_increasing) simp_all
  then have "unat (of_nat (2 ^ k) :: u64) = 2 ^ k" by (rule of_nat_inverse [OF refl])
  then show ?thesis by simp
qed

lemma next_slot:
  assumes "k < 62" "unat h < 2 ^ k"
  shows "unat ((h + 1) AND (2 ^ k - 1) :: u64) = (unat h + 1) mod 2 ^ k"
proof -
  have "(2 :: nat) ^ k < 2 ^ 62" by (rule power_strict_increasing) (use assms(1) in simp_all)
  then have "unat h + 1 < 2 ^ LENGTH(64)" using assms(2) by simp
  then have "unat (of_nat (unat h + 1) :: u64) = unat h + 1" by (rule of_nat_inverse [OF refl])
  then have u: "unat (h + 1) = unat h + 1" by (simp add: add.commute)
  have "(h + 1) AND (2 ^ k - 1) = take_bit k (h + 1)"
    by (simp add: take_bit_eq_mask mask_eq_exp_minus_1)
  then show ?thesis
    by (simp only: unsigned_take_bit_eq u take_bit_eq_mod [of k "unat h + 1"])
qed

lemma probe_finds:
  assumes "pt_shape t k" "unat h < 2 ^ k"
    and "leave (pt_entries t ! ((unat h + d) mod 2 ^ k))"
    and "\<And>d'. d' < d \<Longrightarrow> \<not> leave (pt_entries t ! ((unat h + d') mod 2 ^ k))"
  shows "probe leave t h = Some (of_nat ((unat h + d) mod 2 ^ k))"
  using assms(2-)
proof (induction d arbitrary: h)
  case 0
  then show ?case by (subst probe.simps) (simp add: pt_entry_def)
next
  case (Suc d)
  let ?h = "(h + 1) AND pt_mask t"
  have m: "pt_mask t = 2 ^ k - 1" "k < 62" using assms(1) by (auto simp: pt_shape_def)
  have u: "unat ?h = (unat h + 1) mod 2 ^ k"
    unfolding m(1) by (rule next_slot [OF m(2) Suc.prems(1)])
  have e: "(unat ?h + j) mod 2 ^ k = (unat h + Suc j) mod 2 ^ k" for j
    by (simp add: u mod_simps)
  have "probe leave t ?h = Some (of_nat ((unat ?h + d) mod 2 ^ k))"
  proof (rule Suc.IH)
    show "unat ?h < 2 ^ k" by (simp add: u)
    show "leave (pt_entries t ! ((unat ?h + d) mod 2 ^ k))"
      unfolding e using Suc.prems(2) .
    show "\<not> leave (pt_entries t ! ((unat ?h + d') mod 2 ^ k))" if "d' < d" for d'
      unfolding e using Suc.prems(3) [of "Suc d'"] that by simp
  qed
  moreover have "\<not> leave (pt_entry t h)"
    using Suc.prems(3) [of 0] Suc.prems(1) by (simp add: pt_entry_def)
  ultimately show ?case
    by (subst probe.simps) (simp only: e if_False)
qed

lemma unat_Hash:
  assumes "pt_shape t k"
  shows "unat (Hash t v) < 2 ^ k"
proof -
  have k: "k < 62" "pt_shift t = 64 - k" using assms by (auto simp: pt_shape_def)
  have "unat (Hash t v) = unat (v * HASH_FACTOR) div 2 ^ (64 - k)"
    unfolding Hash_def k(2) using unat_range64 [of "v * HASH_FACTOR"]
    by (simp only: unsigned_drop_bit_eq) (simp add: drop_bit_eq_div take_bit_eq_mod)
  moreover have "unat (v * HASH_FACTOR) < 2 ^ k * 2 ^ (64 - k)"
    using k(1) unat_range64 [of "v * HASH_FACTOR"] by (simp add: power_add [symmetric])
  ultimately show ?thesis by (simp add: less_mult_imp_div_less)
qed

lemma Hash_cong: "pt_shift t = pt_shift t' \<Longrightarrow> Hash t v = Hash t' v"
  by (simp add: Hash_def)

section \<open>The invariant of the table and what it stands for\<close>

abbreviation slot :: "page_table \<Rightarrow> nat \<Rightarrow> u64 \<Rightarrow> nat \<Rightarrow> nat" where
  "slot t k p d \<equiv> (unat (Hash t (Page p)) + d) mod 2 ^ k"

text \<open>
  Every entry is found from the hash of its page without meeting an empty slot, and no page
  has two entries.
\<close>

definition pt_inv :: "page_table \<Rightarrow> nat \<Rightarrow> bool" where
  "pt_inv t k = (pt_shape t k \<and>
     (\<forall>i j. i < 2 ^ k \<longrightarrow> j < 2 ^ k \<longrightarrow> pt_entries t ! i \<noteq> 0 \<longrightarrow> pt_entries t ! j \<noteq> 0 \<longrightarrow>
        Page_entry_matches (pt_entries t ! i) (pt_entries t ! j) \<longrightarrow> i = j) \<and>
     (\<forall>i. i < 2 ^ k \<longrightarrow> pt_entries t ! i \<noteq> 0 \<longrightarrow>
        (\<exists>d < 2 ^ k. i = slot t k (pt_entries t ! i) d \<and>
           (\<forall>d' < d. pt_entries t ! slot t k (pt_entries t ! i) d' \<noteq> 0))))"

text \<open>The class of an address according to the table.\<close>

definition page_class :: "page_table \<Rightarrow> u64 \<Rightarrow> u64" where
  "page_class t a =
    (case filter (\<lambda>e. e \<noteq> 0 \<and> Page_entry_matches e a) (pt_entries t) of
       [] \<Rightarrow> 0 | e # es \<Rightarrow> e AND 0xFF)"

definition pt_count :: "page_table \<Rightarrow> nat" where
  "pt_count t = length (filter (\<lambda>e. e \<noteq> 0) (pt_entries t))"

lemma matches_sym: "Page_entry_matches a b = Page_entry_matches b a"
  by (auto simp: Page_entry_matches_iff)

lemma matches_trans: "Page_entry_matches a b \<Longrightarrow> Page_entry_matches b c \<Longrightarrow> Page_entry_matches a c"
  by (simp add: Page_entry_matches_iff)

lemma pt_invD:
  assumes "pt_inv t k"
  shows "pt_shape t k" "length (pt_entries t) = 2 ^ k"
    "i < 2 ^ k \<Longrightarrow> j < 2 ^ k \<Longrightarrow> pt_entries t ! i \<noteq> 0 \<Longrightarrow> pt_entries t ! j \<noteq> 0 \<Longrightarrow>
      Page_entry_matches (pt_entries t ! i) (pt_entries t ! j) \<Longrightarrow> i = j"
    "i < 2 ^ k \<Longrightarrow> pt_entries t ! i \<noteq> 0 \<Longrightarrow>
      \<exists>d < 2 ^ k. i = slot t k (pt_entries t ! i) d \<and>
        (\<forall>d' < d. pt_entries t ! slot t k (pt_entries t ! i) d' \<noteq> 0)"
  using assms by (simp_all add: pt_inv_def pt_shape_def)

lemma page_class_entry:
  assumes "pt_inv t k" "i < 2 ^ k" "pt_entries t ! i \<noteq> 0" "Page_entry_matches (pt_entries t ! i) a"
  shows "page_class t a = pt_entries t ! i AND 0xFF"
proof -
  let ?f = "filter (\<lambda>e. e \<noteq> 0 \<and> Page_entry_matches e a) (pt_entries t)"
  have len: "length (pt_entries t) = 2 ^ k" by (rule pt_invD(2) [OF assms(1)])
  have "pt_entries t ! i \<in> set ?f" using assms len by auto
  then obtain e es where f: "?f = e # es" by (cases ?f) auto
  then have "e \<in> set ?f" by simp
  then obtain j where j: "j < 2 ^ k" "e = pt_entries t ! j" "e \<noteq> 0" "Page_entry_matches e a"
    using len by (auto simp: in_set_conv_nth)
  then have "Page_entry_matches (pt_entries t ! i) (pt_entries t ! j)"
    using assms(4) matches_sym matches_trans by blast
  with pt_invD(3) [OF assms(1,2) j(1) assms(3)] j have "j = i" by simp
  with j show ?thesis by (simp add: page_class_def f)
qed

lemma page_class_absent:
  assumes "length (pt_entries t) = 2 ^ k"
    "\<And>i. i < 2 ^ k \<Longrightarrow> pt_entries t ! i \<noteq> 0 \<Longrightarrow> \<not> Page_entry_matches (pt_entries t ! i) a"
  shows "page_class t a = 0"
proof -
  have "filter (\<lambda>e. e \<noteq> 0 \<and> Page_entry_matches e a) (pt_entries t) = []"
    using assms by (auto simp: filter_empty_conv in_set_conv_nth)
  then show ?thesis by (simp add: page_class_def)
qed

lemma slot_inj:
  assumes "d < 2 ^ k" "d' < 2 ^ k" "slot t k p d = slot t k p d'"
  shows "d = d'"
proof -
  let ?n = "2 ^ k :: nat" and ?h = "unat (Hash t (Page p))"
  have "(int ?h + int d) mod int ?n = (int ?h + int d') mod int ?n"
    using assms(3) by (metis of_nat_add of_nat_mod)
  then have "int ?n dvd (int d - int d')"
    by (simp add: mod_eq_dvd_iff)
  moreover have "\<bar>int d - int d'\<bar> < int ?n" using assms(1,2) by linarith
  ultimately have "int d - int d' = 0" by (metis dvd_imp_le_int linorder_not_le abs_of_nat)
  then show ?thesis by simp
qed

lemma free_slot: "length (pt_entries t) = 2 ^ k \<Longrightarrow> pt_count t < 2 ^ k \<Longrightarrow> \<exists>j < 2 ^ k. pt_entries t ! j = 0"
proof (rule ccontr)
  assume len: "length (pt_entries t) = 2 ^ k" and "pt_count t < 2 ^ k"
    and "\<not> (\<exists>j < 2 ^ k. pt_entries t ! j = 0)"
  then have "filter (\<lambda>e. e \<noteq> 0) (pt_entries t) = pt_entries t"
    by (auto simp: filter_id_conv in_set_conv_nth)
  then have "pt_count t = 2 ^ k" using len by (simp add: pt_count_def)
  with \<open>pt_count t < 2 ^ k\<close> show False by simp
qed

text \<open>With a free slot every probe that leaves at empty slots ends, at the first place it can.\<close>

lemma probe_total:
  assumes "pt_shape t k" "pt_count t < 2 ^ k" "leave 0"
  obtains d where "d < 2 ^ k" "leave (pt_entries t ! slot t k p d)"
    "\<And>d'. d' < d \<Longrightarrow> \<not> leave (pt_entries t ! slot t k p d')"
    "probe leave t (Hash t (Page p)) = Some (of_nat (slot t k p d))"
proof -
  let ?h = "unat (Hash t (Page p))" and ?n = "2 ^ k :: nat"
  have h: "?h < ?n" by (rule unat_Hash [OF assms(1)])
  obtain j where j: "j < ?n" "pt_entries t ! j = 0"
    using free_slot [OF _ assms(2)] assms(1) by (auto simp: pt_shape_def)
  define d0 where "d0 = (j + ?n - ?h) mod ?n"
  have "(?h + d0) mod ?n = j"
  proof -
    have "(?h + d0) mod ?n = (?h + (j + ?n - ?h)) mod ?n" by (simp add: d0_def mod_simps)
    also have "\<dots> = (j + ?n) mod ?n" using h by simp
    finally show ?thesis using j by simp
  qed
  then have ex: "leave (pt_entries t ! slot t k p d0)" using j assms(3) by simp
  define d where "d = (LEAST d. leave (pt_entries t ! slot t k p d))"
  have L: "leave (pt_entries t ! slot t k p d)" "d \<le> d0"
    unfolding d_def using ex by (auto intro: LeastI Least_le)
  have M: "\<And>d'. d' < d \<Longrightarrow> \<not> leave (pt_entries t ! slot t k p d')"
    unfolding d_def by (rule not_less_Least)
  have "d0 < ?n" by (simp add: d0_def)
  with L(2) have "d < ?n" by simp
  from that [OF this L(1) M probe_finds [where leave = leave, OF assms(1) h L(1) M]] show ?thesis .
qed

lemma unat_slot: "k < 62 \<Longrightarrow> unat (of_nat (slot t k p d) :: u64) = slot t k p d"
proof -
  assume "k < 62"
  then have "(2 :: nat) ^ k < 2 ^ LENGTH(64)" by (intro power_strict_increasing) simp_all
  moreover have "slot t k p d < 2 ^ k" by simp
  ultimately have "slot t k p d < 2 ^ LENGTH(64)" by (rule less_trans [rotated])
  then show ?thesis by (rule of_nat_inverse [OF refl])
qed

text \<open>A page that has an entry is met before the first empty slot.\<close>

lemma first_leave_is_entry:
  assumes inv: "pt_inv t k" and i: "i < 2 ^ k" "pt_entries t ! i \<noteq> 0" "Page_entry_matches (pt_entries t ! i) p"
    and d: "d < 2 ^ k"
    and stop: "pt_entries t ! slot t k p d = 0 \<or> Page_entry_matches (pt_entries t ! slot t k p d) p"
    and first: "\<And>d'. d' < d \<Longrightarrow>
      \<not> (pt_entries t ! slot t k p d' = 0 \<or> Page_entry_matches (pt_entries t ! slot t k p d') p)"
  shows "slot t k p d = i"
proof -
  have hp: "Hash t (Page (pt_entries t ! i)) = Hash t (Page p)"
    using Page_matches [OF i(3)] by simp
  obtain di where di: "di < 2 ^ k" "i = slot t k p di" "\<forall>d' < di. pt_entries t ! slot t k p d' \<noteq> 0"
    using pt_invD(4) [OF inv i(1,2)] unfolding hp by blast
  have "d \<le> di"
    using first [of di] di i(3) by (meson not_le)
  moreover have "\<not> d < di"
  proof
    assume "d < di"
    with di(3) have nz: "pt_entries t ! slot t k p d \<noteq> 0" by simp
    with stop have "Page_entry_matches (pt_entries t ! slot t k p d) p" by simp
    with i(3) have "Page_entry_matches (pt_entries t ! i) (pt_entries t ! slot t k p d)"
      using matches_sym matches_trans by blast
    with pt_invD(3) [OF inv i(1) _ i(2) nz] have "i = slot t k p d" by simp
    with di(2) slot_inj [OF d di(1), of t p] \<open>d < di\<close> show False by simp
  qed
  ultimately show ?thesis using di(2) by simp
qed

lemma lookup_page_class:
  assumes inv: "pt_inv t k" and room: "pt_count t < 2 ^ k"
  shows "caml_page_table_lookup t a = Some (page_class t a)"
proof -
  have shape: "pt_shape t k" and k: "k < 62" and len: "length (pt_entries t) = 2 ^ k"
    using pt_invD(1,2) [OF inv] by (auto simp: pt_shape_def)
  let ?leave = "\<lambda>e. Page_entry_matches e a \<or> e = 0"
  obtain d where d: "d < 2 ^ k" "?leave (pt_entries t ! slot t k a d)"
    "\<And>d'. d' < d \<Longrightarrow> \<not> ?leave (pt_entries t ! slot t k a d')"
    "probe ?leave t (Hash t (Page a)) = Some (of_nat (slot t k a d))"
    by (rule probe_total [OF shape room, of ?leave a]) auto
  let ?e = "pt_entries t ! slot t k a d"
  have e: "pt_entry t (of_nat (slot t k a d)) = ?e"
    by (simp only: pt_entry_def unat_slot [OF k])
  have s: "slot t k a d < 2 ^ k" by simp
  have "page_class t a = (if Page_entry_matches ?e a then ?e AND 0xFF else 0)"
  proof (cases "\<exists>i < 2 ^ k. pt_entries t ! i \<noteq> 0 \<and> Page_entry_matches (pt_entries t ! i) a")
    case True
    then obtain i where i: "i < 2 ^ k" "pt_entries t ! i \<noteq> 0" "Page_entry_matches (pt_entries t ! i) a"
      by blast
    have "slot t k a d = i"
      using first_leave_is_entry [OF inv i d(1)] d(2,3) by blast
    with i page_class_entry [OF inv i] show ?thesis by simp
  next
    case False
    then have "?e = 0 \<or> \<not> Page_entry_matches ?e a" using s by blast
    moreover have "page_class t a = 0"
      using False by (intro page_class_absent [OF len]) blast
    ultimately show ?thesis by auto
  qed
  then show ?thesis
    unfolding caml_page_table_lookup_def d(4) by (simp only: option.map e)
qed

lemma filter_update_length:
  assumes "i < length xs"
  shows "length (filter P (xs[i := y])) + of_bool (P (xs ! i)) = length (filter P xs) + of_bool (P y)"
proof -
  have "filter P (xs[i := y]) = filter P (take i xs) @ filter P [y] @ filter P (drop (Suc i) xs)"
    by (subst upd_conv_take_nth_drop [OF assms]) simp
  moreover have "filter P xs = filter P (take i xs) @ filter P [xs ! i] @ filter P (drop (Suc i) xs)"
    by (subst id_take_nth_drop [OF assms]) simp
  ultimately show ?thesis by (simp only: length_append) simp
qed

text \<open>Putting an entry for page \<open>p\<close> where the probe for it leaves.\<close>

lemma pt_put:
  assumes inv: "pt_inv t k" and d: "d < 2 ^ k" "i = slot t k p d"
    and before: "\<And>d'. d' < d \<Longrightarrow> pt_entries t ! slot t k p d' \<noteq> 0"
    and e: "Page_entry_matches e p" "e \<noteq> 0"
    and only: "\<And>j. j < 2 ^ k \<Longrightarrow> j \<noteq> i \<Longrightarrow> pt_entries t ! j \<noteq> 0 \<Longrightarrow>
      \<not> Page_entry_matches (pt_entries t ! j) p"
    and old: "pt_entries t ! i \<noteq> 0 \<Longrightarrow> Page_entry_matches (pt_entries t ! i) p"
    and t': "pt_entries t' = (pt_entries t)[i := e]" "pt_size t' = pt_size t"
      "pt_shift t' = pt_shift t" "pt_mask t' = pt_mask t"
  shows "pt_inv t' k"
    "page_class t' a = (if Page_entry_matches p a then e AND 0xFF else page_class t a)"
    "pt_count t' = pt_count t + of_bool (pt_entries t ! i = 0)"
proof -
  have len: "length (pt_entries t) = 2 ^ k" by (rule pt_invD(2) [OF inv])
  have i: "i < 2 ^ k" by (simp add: d(2))
  have nth: "pt_entries t' ! j = (if j = i then e else pt_entries t ! j)" if "j < 2 ^ k" for j
    using that len i by (simp add: t'(1) nth_list_update)
  have hash: "Hash t' v = Hash t v" for v using t'(3) by (rule Hash_cong)
  have He: "Hash t (Page e) = Hash t (Page p)" using Page_matches [OF e(1)] by simp
  have nz: "pt_entries t' ! j \<noteq> 0" if "j < 2 ^ k" "pt_entries t ! j \<noteq> 0" for j
    using that e(2) by (simp add: nth)
  have "pt_shape t' k"
    using pt_invD(1) [OF inv] t' by (simp add: pt_shape_def)
  moreover have "j = l" if jl: "j < 2 ^ k" "l < 2 ^ k" "pt_entries t' ! j \<noteq> 0" "pt_entries t' ! l \<noteq> 0"
    "Page_entry_matches (pt_entries t' ! j) (pt_entries t' ! l)" for j l
  proof (cases "j = i \<or> l = i")
    case True
    have clash: False if "m < 2 ^ k" "m \<noteq> i" "pt_entries t' ! m \<noteq> 0"
      "Page_entry_matches e (pt_entries t' ! m)" for m
    proof -
      have em: "pt_entries t' ! m = pt_entries t ! m" using that by (simp add: nth)
      have "Page_entry_matches (pt_entries t ! m) p"
        using that(4) e(1) matches_sym matches_trans unfolding em by blast
      with only [OF that(1,2)] that(3) em show False by simp
    qed
    have ei: "pt_entries t' ! i = e" by (simp add: nth [OF i])
    show ?thesis
    proof (rule ccontr)
      assume "j \<noteq> l"
      with True consider "j = i" "l \<noteq> i" | "l = i" "j \<noteq> i" by blast
      then show False
      proof cases
        case 1
        with jl(5) have "Page_entry_matches e (pt_entries t' ! l)" by (simp add: ei)
        with clash [OF jl(2) 1(2) jl(4)] show False .
      next
        case 2
        with jl(5) have "Page_entry_matches e (pt_entries t' ! j)"
          by (subst matches_sym) (simp add: ei)
        with clash [OF jl(1) 2(2) jl(3)] show False .
      qed
    qed
  next
    case False
    with jl pt_invD(3) [OF inv jl(1,2)] show ?thesis by (simp add: nth)
  qed
  moreover have "\<exists>d < 2 ^ k. j = slot t' k (pt_entries t' ! j) d \<and>
      (\<forall>d' < d. pt_entries t' ! slot t' k (pt_entries t' ! j) d' \<noteq> 0)"
    if j: "j < 2 ^ k" "pt_entries t' ! j \<noteq> 0" for j
  proof (cases "j = i")
    case True
    then have ej: "pt_entries t' ! j = e" by (simp add: nth [OF i])
    have "pt_entries t' ! slot t k p d' \<noteq> 0" if "d' < d" for d'
      using before [OF that] by (intro nz) simp_all
    with d True show ?thesis unfolding ej hash He by blast
  next
    case False
    then have ej: "pt_entries t' ! j = pt_entries t ! j" by (simp add: nth [OF j(1)])
    with j(2) obtain dj where dj: "dj < 2 ^ k" "j = slot t k (pt_entries t ! j) dj"
      "\<forall>d' < dj. pt_entries t ! slot t k (pt_entries t ! j) d' \<noteq> 0"
      using pt_invD(4) [OF inv j(1)] by auto
    have "pt_entries t' ! slot t k (pt_entries t ! j) d' \<noteq> 0" if "d' < dj" for d'
      using dj(3) that by (intro nz) simp_all
    with dj(1,2) show ?thesis unfolding ej hash by blast
  qed
  ultimately show inv': "pt_inv t' k" unfolding pt_inv_def by blast
  show "page_class t' a = (if Page_entry_matches p a then e AND 0xFF else page_class t a)"
  proof (cases "Page_entry_matches p a")
    case True
    with e have "Page_entry_matches (pt_entries t' ! i) a"
      using matches_trans by (simp add: nth [OF i])
    with page_class_entry [OF inv' i] e True show ?thesis by (simp add: nth [OF i])
  next
    case False
    show ?thesis
    proof (cases "\<exists>j < 2 ^ k. pt_entries t ! j \<noteq> 0 \<and> Page_entry_matches (pt_entries t ! j) a")
      case True
      then obtain j where j: "j < 2 ^ k" "pt_entries t ! j \<noteq> 0" "Page_entry_matches (pt_entries t ! j) a"
        by blast
      with old False have "j \<noteq> i" using matches_sym matches_trans by blast
      with j page_class_entry [OF inv j] page_class_entry [OF inv', of j a] False show ?thesis
        by (simp add: nth)
    next
      case no: False
      have "page_class t a = 0" using no by (intro page_class_absent [OF len]) blast
      moreover have "page_class t' a = 0"
      proof (rule page_class_absent)
        show "length (pt_entries t') = 2 ^ k" using len t'(1) by simp
        show "\<not> Page_entry_matches (pt_entries t' ! j) a" if "j < 2 ^ k" "pt_entries t' ! j \<noteq> 0" for j
        proof (cases "j = i")
          case True
          then have "pt_entries t' ! j = e" by (simp add: nth [OF i])
          with e(1) False matches_sym matches_trans show ?thesis by metis
        next
          case ne: False
          then have "pt_entries t' ! j = pt_entries t ! j" using that by (simp add: nth)
          with no that show ?thesis by auto
        qed
      qed
      ultimately show ?thesis using False by simp
    qed
  qed
  show "pt_count t' = pt_count t + of_bool (pt_entries t ! i = 0)"
    using filter_update_length [of i "pt_entries t" "\<lambda>x. x \<noteq> 0" e] i len e(2)
    by (cases "pt_entries t ! i = 0") (simp_all add: pt_count_def t'(1))
qed

section \<open>Rehashing\<close>

definition pt_absent :: "page_table \<Rightarrow> u64 \<Rightarrow> bool" where
  "pt_absent t p = (\<forall>x \<in> set (pt_entries t). x \<noteq> 0 \<longrightarrow> \<not> Page_entry_matches x p)"

definition pt_same_size :: "page_table \<Rightarrow> page_table \<Rightarrow> bool" where
  "pt_same_size t t' = (pt_size t' = pt_size t \<and> pt_shift t' = pt_shift t \<and> pt_mask t' = pt_mask t \<and>
     pt_occupancy t' = pt_occupancy t)"

lemma pt_reinsert_correct:
  assumes inv: "pt_inv t k" and room: "pt_count t < 2 ^ k" and "e \<noteq> 0" and abs: "pt_absent t e"
  obtains t' where "pt_reinsert e t = Some t'" "pt_inv t' k" "pt_same_size t t'"
    "pt_count t' = pt_count t + 1" "set (pt_entries t') \<subseteq> insert e (set (pt_entries t))"
    "\<And>a. page_class t' a = (if Page_entry_matches e a then e AND 0xFF else page_class t a)"
proof -
  have shape: "pt_shape t k" and k: "k < 62" and len: "length (pt_entries t) = 2 ^ k"
    using pt_invD(1,2) [OF inv] by (auto simp: pt_shape_def)
  obtain d where d: "d < 2 ^ k" "pt_entries t ! slot t k e d = 0"
    "\<And>d'. d' < d \<Longrightarrow> pt_entries t ! slot t k e d' \<noteq> 0"
    "probe (\<lambda>x. x = 0) t (Hash t (Page e)) = Some (of_nat (slot t k e d))"
    by (rule probe_total [OF shape room, of "\<lambda>x. x = 0" e]) auto
  let ?i = "slot t k e d"
  let ?t = "set_pt_entry (of_nat ?i) e t"
  have en: "pt_entries ?t = (pt_entries t)[?i := e]"
    by (simp only: set_pt_entry_def unat_slot [OF k]) simp
  have only: "\<not> Page_entry_matches (pt_entries t ! j) e" if "j < 2 ^ k" "j \<noteq> ?i" "pt_entries t ! j \<noteq> 0" for j
    using abs that len by (auto simp: pt_absent_def)
  note P = pt_put [OF inv d(1) refl d(3) _ \<open>e \<noteq> 0\<close> only _ en]
  show ?thesis
  proof (rule that [of ?t])
    show "pt_reinsert e t = Some ?t" using \<open>e \<noteq> 0\<close> by (simp add: pt_reinsert_def d(4))
    show "pt_inv ?t k" "pt_count ?t = pt_count t + 1"
      using P(1,3) d(2) by (simp_all add: set_pt_entry_def Page_entry_matches_def)
    show "page_class ?t a = (if Page_entry_matches e a then e AND 0xFF else page_class t a)" for a
      using P(2) [of a] d(2) by (simp add: set_pt_entry_def Page_entry_matches_def)
    show "pt_same_size t ?t" by (simp add: pt_same_size_def set_pt_entry_def)
    show "set (pt_entries ?t) \<subseteq> insert e (set (pt_entries t))"
      unfolding en by (rule set_update_subset_insert)
  qed
qed

lemma pt_rehash_correct:
  assumes "pt_inv t k" "pt_count t + length (filter (\<lambda>e. e \<noteq> 0) es) < 2 ^ k"
    and "sorted_wrt (\<lambda>x y. x \<noteq> 0 \<longrightarrow> y \<noteq> 0 \<longrightarrow> \<not> Page_entry_matches x y) es"
    and "\<And>e. e \<in> set es \<Longrightarrow> e \<noteq> 0 \<Longrightarrow> pt_absent t e"
  shows "\<exists>t'. pt_rehash es t = Some t' \<and> pt_inv t' k \<and> pt_same_size t t' \<and>
    pt_count t' = pt_count t + length (filter (\<lambda>e. e \<noteq> 0) es) \<and>
    (\<forall>a. page_class t' a = (case filter (\<lambda>e. e \<noteq> 0 \<and> Page_entry_matches e a) es of
        [] \<Rightarrow> page_class t a | e # _ \<Rightarrow> e AND 0xFF))"
  using assms
proof (induction es arbitrary: t)
  case Nil
  then show ?case by (simp add: pt_same_size_def)
next
  case (Cons e es)
  show ?case
  proof (cases "e = 0")
    case True
    have "\<exists>t'. pt_rehash es t = Some t' \<and> pt_inv t' k \<and> pt_same_size t t' \<and>
      pt_count t' = pt_count t + length (filter (\<lambda>e. e \<noteq> 0) es) \<and>
      (\<forall>a. page_class t' a = (case filter (\<lambda>e. e \<noteq> 0 \<and> Page_entry_matches e a) es of
          [] \<Rightarrow> page_class t a | e # _ \<Rightarrow> e AND 0xFF))"
      using Cons.prems True by (intro Cons.IH) simp_all
    with True show ?thesis by (simp add: pt_reinsert_def)
  next
    case False
    obtain t1 where t1: "pt_reinsert e t = Some t1" "pt_inv t1 k" "pt_same_size t t1"
      "pt_count t1 = pt_count t + 1" "set (pt_entries t1) \<subseteq> insert e (set (pt_entries t))"
      "\<And>a. page_class t1 a = (if Page_entry_matches e a then e AND 0xFF else page_class t a)"
      using pt_reinsert_correct [OF Cons.prems(1) _ False] Cons.prems(2,4) False by auto
    have apart: "\<not> Page_entry_matches e x" if "x \<in> set es" "x \<noteq> 0" for x
      using Cons.prems(3) that False by auto
    have "\<exists>t'. pt_rehash es t1 = Some t' \<and> pt_inv t' k \<and> pt_same_size t1 t' \<and>
      pt_count t' = pt_count t1 + length (filter (\<lambda>e. e \<noteq> 0) es) \<and>
      (\<forall>a. page_class t' a = (case filter (\<lambda>e. e \<noteq> 0 \<and> Page_entry_matches e a) es of
          [] \<Rightarrow> page_class t1 a | e # _ \<Rightarrow> e AND 0xFF))"
    proof (rule Cons.IH [OF t1(2)])
      show "pt_count t1 + length (filter (\<lambda>e. e \<noteq> 0) es) < 2 ^ k"
        using Cons.prems(2) False t1(4) by simp
      show "pt_absent t1 x" if "x \<in> set es" "x \<noteq> 0" for x
        using Cons.prems(4) [of x] that apart [OF that] t1(5) by (auto simp: pt_absent_def)
    qed (use Cons.prems(3) in simp)
    then obtain t' where t': "pt_rehash es t1 = Some t'" "pt_inv t' k" "pt_same_size t1 t'"
      "pt_count t' = pt_count t1 + length (filter (\<lambda>e. e \<noteq> 0) es)"
      "\<And>a. page_class t' a = (case filter (\<lambda>e. e \<noteq> 0 \<and> Page_entry_matches e a) es of
          [] \<Rightarrow> page_class t1 a | e # _ \<Rightarrow> e AND 0xFF)" by blast
    have "page_class t' a = (case filter (\<lambda>e. e \<noteq> 0 \<and> Page_entry_matches e a) (e # es) of
        [] \<Rightarrow> page_class t a | e # _ \<Rightarrow> e AND 0xFF)" for a
    proof (cases "Page_entry_matches e a")
      case True
      have "filter (\<lambda>x. x \<noteq> 0 \<and> Page_entry_matches x a) es = []"
        using True apart matches_sym matches_trans by (fastforce simp: filter_empty_conv)
      with True False t' t1(6) show ?thesis by simp
    next
      case no: False
      then show ?thesis using t'(5) [of a] t1(6) [of a] by (simp split: list.split)
    qed
    with t' t1 False show ?thesis by (simp add: pt_same_size_def)
  qed
qed

lemma pt_empty:
  assumes "pt_shape t k" "pt_entries t = replicate (2 ^ k) 0"
  shows "pt_inv t k" "pt_count t = 0" "page_class t a = 0" "pt_absent t p"
  using assms by (simp_all add: pt_inv_def pt_count_def page_class_def pt_absent_def)

lemma double_size:
  assumes "pt_shape t k" "k < 61"
  shows "pt_shape (t\<lparr>pt_size := 2 * pt_size t, pt_shift := pt_shift t - 1,
      pt_mask := 2 * pt_size t - 1, pt_entries := replicate (unat (2 * pt_size t)) 0\<rparr>) (k + 1)"
    "unat (2 * pt_size t) = 2 ^ (k + 1)"
proof -
  have d: "2 * pt_size t = 2 ^ (k + 1)" using assms(1) by (simp add: pt_shape_def)
  show u: "unat (2 * pt_size t) = 2 ^ (k + 1)"
    unfolding d using assms(2) by (intro unat_pow2) simp
  show "pt_shape (t\<lparr>pt_size := 2 * pt_size t, pt_shift := pt_shift t - 1,
      pt_mask := 2 * pt_size t - 1, pt_entries := replicate (unat (2 * pt_size t)) 0\<rparr>) (k + 1)"
  proof -
    have "unat (2 * 2 ^ k :: u64) = 2 * 2 ^ k" using u unfolding d by simp
    then show ?thesis using assms unfolding u d by (simp add: pt_shape_def)
  qed
qed

lemma resize_correct:
  assumes inv: "pt_inv t k" and "k < 61" "calloc_ok (2 * pt_size t)"
  obtains t' where "caml_page_table_resize calloc_ok t = Some (Some t')" "pt_inv t' (k + 1)"
    "pt_occupancy t' = pt_occupancy t" "pt_count t' = pt_count t"
    "\<And>a. page_class t' a = page_class t a"
proof -
  let ?t0 = "t\<lparr>pt_size := 2 * pt_size t, pt_shift := pt_shift t - 1,
      pt_mask := 2 * pt_size t - 1, pt_entries := replicate (unat (2 * pt_size t)) 0\<rparr>"
  note shape = double_size [OF pt_invD(1) [OF inv] assms(2)]
  have "pt_entries ?t0 = replicate (2 ^ (k + 1)) 0" using shape(2) by simp
  note E = pt_empty [OF shape(1) this]
  have len: "length (pt_entries t) = 2 ^ k" by (rule pt_invD(2) [OF inv])
  have "sorted_wrt (\<lambda>x y. x \<noteq> 0 \<longrightarrow> y \<noteq> 0 \<longrightarrow> \<not> Page_entry_matches x y) (pt_entries t)"
    unfolding sorted_wrt_iff_nth_less
  proof (intro allI impI notI)
    fix i j
    assume "i < j" "j < length (pt_entries t)" "pt_entries t ! i \<noteq> 0" "pt_entries t ! j \<noteq> 0"
      "Page_entry_matches (pt_entries t ! i) (pt_entries t ! j)"
    with pt_invD(3) [OF inv, of i j] len show False by simp
  qed
  moreover have "pt_count t \<le> 2 ^ k"
    using length_filter_le [of "\<lambda>e. e \<noteq> 0" "pt_entries t"] len by (simp add: pt_count_def)
  then have "pt_count ?t0 + length (filter (\<lambda>e. e \<noteq> 0) (pt_entries t)) < 2 ^ (k + 1)"
    unfolding E(2) pt_count_def using le_less_trans [of _ "2 ^ k" "2 ^ (k + 1) :: nat"] by simp
  ultimately obtain t' where t': "pt_rehash (pt_entries t) ?t0 = Some t'" "pt_inv t' (k + 1)"
    "pt_same_size ?t0 t'" "pt_count t' = pt_count ?t0 + length (filter (\<lambda>e. e \<noteq> 0) (pt_entries t))"
    "\<And>a. page_class t' a = (case filter (\<lambda>e. e \<noteq> 0 \<and> Page_entry_matches e a) (pt_entries t) of
        [] \<Rightarrow> page_class ?t0 a | e # _ \<Rightarrow> e AND 0xFF)"
    using pt_rehash_correct [OF E(1), of "pt_entries t"] E(4) by blast
  show ?thesis
  proof (rule that [of t'])
    show "caml_page_table_resize calloc_ok t = Some (Some t')"
      using assms(3) t'(1) by (simp add: caml_page_table_resize_def)
    show "page_class t' a = page_class t a" for a
      unfolding t'(5) E(3) by (simp add: page_class_def)
  qed (use t' E(2) in \<open>simp_all add: pt_same_size_def pt_count_def\<close>)
qed

section \<open>Modification\<close>

text \<open>
  Between operations the load factor is at most one half and \<open>occupancy\<close> counts the entries.
  \<open>calloc\<close> cannot hand out an array of more than \<open>2 ^ 60\<close> words: its size in bytes would not
  fit the address space.
\<close>

definition pt_ok :: "page_table \<Rightarrow> bool" where
  "pt_ok t = (\<exists>k \<le> 60. pt_inv t k \<and> unat (pt_occupancy t) = pt_count t \<and> 2 * pt_count t \<le> 2 ^ k)"

definition calloc_sane :: "(u64 \<Rightarrow> bool) \<Rightarrow> bool" where
  "calloc_sane calloc_ok = (\<forall>n. calloc_ok n \<longrightarrow> unat n \<le> 2 ^ 60)"

lemma page_or_key:
  assumes "page AND Page_mask = page" "x AND 0xFF = x"
  shows "(page OR x) AND Page_mask = page" "(page OR x) AND 0xFF = x"
proof -
  have p: "bit page n \<Longrightarrow> 12 \<le> n" for n
    using arg_cong [OF assms(1), of "\<lambda>w. bit w n"] by (auto simp: bit_and_iff bit_Page_mask)
  have x: "bit x n \<Longrightarrow> n < 8" for n
    using arg_cong [OF assms(2), of "\<lambda>w. bit w n"] by (auto simp: bit_and_iff bit_simps)
  show "(page OR x) AND Page_mask = page"
    by (rule bit_word_eqI) (use p x in \<open>fastforce simp: bit_and_iff bit_or_iff bit_Page_mask\<close>)
  show "(page OR x) AND 0xFF = x"
    by (rule bit_word_eqI) (use p x in \<open>fastforce simp: bit_and_iff bit_or_iff bit_simps\<close>)
qed

lemma entry_update_key:
  assumes "clr AND 0xFF = clr" "x AND 0xFF = x"
  shows "((e AND NOT clr) OR x) AND Page_mask = e AND Page_mask"
    "((e AND NOT clr) OR x) AND 0xFF = ((e AND 0xFF) AND NOT clr) OR x"
proof -
  have small: "n < 8" if "c AND 0xFF = c" "bit c n" for c :: u64 and n
    using arg_cong [OF that(1), of "\<lambda>w. bit w n"] that(2) by (simp add: bit_and_iff bit_simps)
  note s = small [OF assms(1)] small [OF assms(2)]
  show "((e AND NOT clr) OR x) AND Page_mask = e AND Page_mask"
    by (rule bit_word_eqI)
       (use s in \<open>fastforce simp: bit_and_iff bit_or_iff bit_not_iff bit_Page_mask\<close>)
  show "((e AND NOT clr) OR x) AND 0xFF = ((e AND 0xFF) AND NOT clr) OR x"
    by (rule bit_word_eqI)
       (use s in \<open>fastforce simp: bit_and_iff bit_or_iff bit_not_iff bit_simps\<close>)
qed

text \<open>Storing at the slot the probe of \<open>caml_page_table_modify\<close> leaves at.\<close>

lemma modify_step:
  assumes inv: "pt_inv t k" and occ: "unat (pt_occupancy t) = pt_count t" and room: "2 * pt_count t < 2 ^ k"
    and page: "page AND Page_mask = page" "page \<noteq> 0" and data: "clr AND 0xFF = clr" "st AND 0xFF = st"
  shows "\<exists>h. probe (\<lambda>e. e = 0 \<or> Page_entry_matches e page) t (Hash t (Page page)) = Some h \<and>
    pt_inv (pt_store h page clr st t) k \<and>
    unat (pt_occupancy (pt_store h page clr st t)) = pt_count (pt_store h page clr st t) \<and>
    2 * pt_count (pt_store h page clr st t) \<le> 2 ^ k \<and>
    (\<forall>a. page_class (pt_store h page clr st t) a =
      (if Page_entry_matches page a then (page_class t a AND NOT clr) OR st else page_class t a))"
proof -
  have shape: "pt_shape t k" and k: "k < 62" and len: "length (pt_entries t) = 2 ^ k"
    using pt_invD(1,2) [OF inv] by (auto simp: pt_shape_def)
  let ?leave = "\<lambda>e. e = 0 \<or> Page_entry_matches e page"
  have "pt_count t < 2 ^ k" using room by simp
  then obtain d where d: "d < 2 ^ k" "?leave (pt_entries t ! slot t k page d)"
    "\<And>d'. d' < d \<Longrightarrow> \<not> ?leave (pt_entries t ! slot t k page d')"
    "probe ?leave t (Hash t (Page page)) = Some (of_nat (slot t k page d))"
    by (rule probe_total [OF shape, of ?leave page]) auto
  define i where "i = slot t k page d"
  let ?h = "of_nat i :: u64"
  let ?old = "pt_entries t ! i"
  define e where "e = (if ?old = 0 then page OR st else (?old AND NOT clr) OR st)"
  let ?t = "pt_store ?h page clr st t"
  have i: "i < 2 ^ k" by (simp add: i_def)
  have ui: "unat ?h = i" unfolding i_def by (rule unat_slot [OF k])
  have st: "pt_entries ?t = (pt_entries t)[i := e]" "pt_size ?t = pt_size t" "pt_shift ?t = pt_shift t"
    "pt_mask ?t = pt_mask t" "pt_occupancy ?t = pt_occupancy t + of_bool (?old = 0)"
    by (simp_all add: pt_store_def set_pt_entry_def pt_entry_def ui e_def)
  have zero: "page_class t a = 0" if "?old = 0" "Page_entry_matches page a" for a
  proof (rule page_class_absent [OF len])
    fix j assume j: "j < 2 ^ k" "pt_entries t ! j \<noteq> 0"
    show "\<not> Page_entry_matches (pt_entries t ! j) a"
    proof
      assume "Page_entry_matches (pt_entries t ! j) a"
      then have "Page_entry_matches (pt_entries t ! j) page"
        using that(2) matches_sym matches_trans by blast
      then have "slot t k page d = j"
        using first_leave_is_entry [OF inv j _ d(1)] d(2,3) by blast
      with j that(1) show False by (simp add: i_def)
    qed
  qed
  have old: "Page_entry_matches ?old page" if "?old \<noteq> 0" using d(2) that by (simp add: i_def)
  have ekey: "e AND Page_mask = page"
    using page_or_key(1) [OF page(1) data(2)] entry_update_key(1) [OF data, of ?old] old page(1)
    by (auto simp: e_def Page_entry_matches_iff)
  then have em: "Page_entry_matches e page" and enz: "e \<noteq> 0"
    using page by (auto simp: Page_entry_matches_iff)
  have only: "\<not> Page_entry_matches (pt_entries t ! j) page"
    if "j < 2 ^ k" "j \<noteq> i" "pt_entries t ! j \<noteq> 0" for j
    using first_leave_is_entry [OF inv that(1,3) _ d(1)] d(2,3) that(2) unfolding i_def by blast
  have before: "pt_entries t ! slot t k page d' \<noteq> 0" if "d' < d" for d' using d(3) [OF that] by simp
  note P = pt_put [OF inv d(1) i_def before em enz only old st(1-4)]
  have "page_class ?t a =
      (if Page_entry_matches page a then (page_class t a AND NOT clr) OR st else page_class t a)" for a
  proof (cases "Page_entry_matches page a")
    case True
    show ?thesis
    proof (cases "?old = 0")
      case z: True
      then have "e AND 0xFF = st" using page_or_key(2) [OF page(1) data(2)] by (simp add: e_def)
      with P(2) [of a] True zero [OF z True] show ?thesis by simp
    next
      case nz: False
      then have "page_class t a = ?old AND 0xFF"
        using page_class_entry [OF inv i nz] old True matches_trans by blast
      moreover have "e AND 0xFF = ((?old AND 0xFF) AND NOT clr) OR st"
        using nz entry_update_key(2) [OF data, of ?old] by (simp add: e_def)
      ultimately show ?thesis using P(2) [of a] True by simp
    qed
  qed (use P(2) in simp)
  moreover have "unat (pt_occupancy ?t) = pt_count ?t"
  proof (cases "?old = 0")
    case True
    have "(2 :: nat) ^ k < 2 ^ LENGTH(64)" using k by (intro power_strict_increasing) simp_all
    then have "pt_count t + 1 < 2 ^ LENGTH(64)" using room by linarith
    then have "unat (of_nat (pt_count t + 1) :: u64) = pt_count t + 1" by (rule of_nat_inverse [OF refl])
    moreover have "pt_occupancy t + 1 = of_nat (pt_count t + 1)"
      by (simp add: occ [symmetric] add.commute)
    ultimately show ?thesis using P(3) st(5) True by (simp add: add.commute)
  qed (use P(3) st(5) occ in simp)
  moreover have "2 * pt_count ?t \<le> 2 ^ k"
  proof -
    have "even ((2 :: nat) ^ k)" using shape by (simp add: pt_shape_def)
    with room have "2 * (pt_count t + 1) \<le> 2 ^ k" by presburger
    then show ?thesis using P(3) by (simp split: if_splits)
  qed
  ultimately show ?thesis
    using d(4) P(1) unfolding i_def by blast
qed

lemma modify_correct:
  assumes ok: "pt_ok t" and sane: "calloc_sane calloc_ok"
    and page: "page AND Page_mask = page" "page \<noteq> 0" and data: "clr AND 0xFF = clr" "st AND 0xFF = st"
  shows "caml_page_table_modify calloc_ok page clr st t = Some None \<or>
    (\<exists>t'. caml_page_table_modify calloc_ok page clr st t = Some (Some t') \<and> pt_ok t' \<and>
      (\<forall>a. page_class t' a =
        (if Page_entry_matches page a then (page_class t a AND NOT clr) OR st else page_class t a)))"
proof -
  obtain k where k: "k \<le> 60" "pt_inv t k" "unat (pt_occupancy t) = pt_count t" "2 * pt_count t \<le> 2 ^ k"
    using ok by (auto simp: pt_ok_def)
  have size_k: "unat (pt_size t) = 2 ^ k"
    using pt_invD(1) [OF k(2)] k(1) unat_pow2 [of k] by (simp add: pt_shape_def)
  have "(2 :: nat) ^ k \<le> 2 ^ 60" using k(1) by (intro power_increasing) simp_all
  then have "2 * pt_count t < 2 ^ LENGTH(64)" using k(4) by simp
  then have "unat (of_nat (2 * pt_count t) :: u64) = 2 * pt_count t" by (rule of_nat_inverse [OF refl])
  then have occ2: "unat (pt_occupancy t * 2) = 2 * pt_count t"
    by (simp add: k(3) [symmetric] mult.commute)
  have full: "pt_size t \<le> pt_occupancy t * 2 \<longleftrightarrow> 2 ^ k \<le> 2 * pt_count t"
    by (simp add: word_le_nat_alt size_k occ2)
  have finish: ?thesis
    if H: "(if pt_size t \<le> pt_occupancy t * 2 then caml_page_table_resize calloc_ok t else Some (Some t)) =
        Some (Some t1)" "pt_inv t1 l" "l \<le> 60" "unat (pt_occupancy t1) = pt_count t1"
      "2 * pt_count t1 < 2 ^ l" "\<And>a. page_class t1 a = page_class t a" for t1 l
  proof -
    obtain h where "probe (\<lambda>e. e = 0 \<or> Page_entry_matches e page) t1 (Hash t1 (Page page)) = Some h"
      "pt_inv (pt_store h page clr st t1) l"
      "unat (pt_occupancy (pt_store h page clr st t1)) = pt_count (pt_store h page clr st t1)"
      "2 * pt_count (pt_store h page clr st t1) \<le> 2 ^ l"
      "\<forall>a. page_class (pt_store h page clr st t1) a =
        (if Page_entry_matches page a then (page_class t1 a AND NOT clr) OR st else page_class t1 a)"
      using modify_step [OF H(2,4,5) page data] by blast
    then show ?thesis
      using H(1,3,6) by (auto simp: caml_page_table_modify_def pt_ok_def)
  qed
  show ?thesis
  proof (cases "pt_size t \<le> pt_occupancy t * 2")
    case False
    with finish [of t k] k full show ?thesis by simp
  next
    case True
    show ?thesis
    proof (cases "calloc_ok (2 * pt_size t)")
      case False
      with True show ?thesis by (simp add: caml_page_table_modify_def caml_page_table_resize_def)
    next
      case alloc: True
      then have "unat (2 * pt_size t) \<le> 2 ^ 60" using sane by (simp add: calloc_sane_def)
      moreover have "unat (2 * pt_size t) = 2 ^ (k + 1)"
        using k(1) by (intro double_size(2) [OF pt_invD(1) [OF k(2)]]) simp
      ultimately have k1: "k + 1 \<le> 60" by (metis power_le_imp_le_exp one_less_numeral_iff semiring_norm(76))
      then have "k < 61" by simp
      then obtain t1 where t1: "caml_page_table_resize calloc_ok t = Some (Some t1)" "pt_inv t1 (k + 1)"
        "pt_occupancy t1 = pt_occupancy t" "pt_count t1 = pt_count t" "\<And>a. page_class t1 a = page_class t a"
        using resize_correct [where calloc_ok = calloc_ok, OF k(2) _ alloc] by blast
      have "(0 :: nat) < 2 ^ k" "(2 :: nat) ^ (k + 1) = 2 * 2 ^ k" by simp_all
      then have "2 * pt_count t1 < 2 ^ (k + 1)" using k(4) t1(4) by linarith
      with finish [of t1 "k + 1"] t1 k(3) k1 True show ?thesis by simp
    qed
  qed
qed

section \<open>Ranges of pages\<close>

text \<open>
  What the rest of the runtime relies on: a classification of pages whose data can be
  changed one page at a time, or not at all when memory runs out.
\<close>

locale page_map =
  fixes ok :: "'s \<Rightarrow> bool"
    and cls :: "'s \<Rightarrow> u64 \<Rightarrow> u64"
    and modify :: "u64 \<Rightarrow> u64 \<Rightarrow> u64 \<Rightarrow> 's \<Rightarrow> 's option option"
  assumes modify_law: "ok s \<Longrightarrow> page AND Page_mask = page \<Longrightarrow> page \<noteq> 0 \<Longrightarrow>
    clr AND 0xFF = clr \<Longrightarrow> st AND 0xFF = st \<Longrightarrow>
    modify page clr st s = Some None \<or>
    (\<exists>s'. modify page clr st s = Some (Some s') \<and> ok s' \<and>
      (\<forall>a. cls s' a = (if Page_entry_matches page a then (cls s a AND NOT clr) OR st else cls s a)))"

lemma bit_page_iff: "p AND Page_mask = p \<longleftrightarrow> 4096 dvd unat p"
proof -
  have "p AND Page_mask = p \<longleftrightarrow> take_bit 12 p = 0"
  proof
    assume "p AND Page_mask = p"
    then have "bit p n \<Longrightarrow> 12 \<le> n" for n
      by (metis bit_and_iff bit_Page_mask)
    then show "take_bit 12 p = 0"
      by (intro bit_word_eqI) (fastforce simp: bit_take_bit_iff)
  next
    assume "take_bit 12 p = 0"
    then have "bit p n \<Longrightarrow> 12 \<le> n" for n
      by (metis bit_take_bit_iff bit_0_eq bot_apply bot_bool_def not_le)
    then show "p AND Page_mask = p"
      by (intro bit_word_eqI) (fastforce simp: bit_and_iff bit_Page_mask)
  qed
  also have "\<dots> \<longleftrightarrow> take_bit 12 (unat p) = 0"
    by (metis unsigned_take_bit_eq unsigned_0 unsigned_word_eqI)
  finally show ?thesis by (simp add: take_bit_eq_mod dvd_eq_mod_eq_0)
qed

lemma page_idem: "(a AND Page_mask) AND Page_mask = a AND Page_mask"
  by (simp add: and.assoc)

lemma page_step:
  assumes "p AND Page_mask = p" "unat p + 4096 < 2 ^ 64"
  shows "unat (p + Page_size) = unat p + 4096" "(p + Page_size) AND Page_mask = p + Page_size"
proof -
  have "unat (of_nat (unat p + 4096) :: u64) = unat p + 4096"
    by (rule of_nat_inverse [OF refl]) (use assms(2) in simp)
  then show u: "unat (p + Page_size) = unat p + 4096"
    by (simp add: Page_size_def)
  show "(p + Page_size) AND Page_mask = p + Page_size"
    using assms(1) unfolding bit_page_iff u by simp
qed

lemma next_page_le:
  assumes "4096 dvd m" "4096 dvd n"
  shows "m + 4096 \<le> n \<longleftrightarrow> m \<le> n \<and> n \<noteq> (m :: nat)"
proof -
  obtain a b where "m = 4096 * a" "n = 4096 * b" using assms by (auto simp: dvd_def)
  then show ?thesis by auto
qed

context page_map
begin

lemma range_correct:
  assumes "ok s" "p AND Page_mask = p" "pend AND Page_mask = pend" "p \<noteq> 0"
    and "unat pend + 8192 < 2 ^ 64" and data: "clr AND 0xFF = clr" "st AND 0xFF = st"
  shows "pt_range (\<lambda>p. modify p clr st) p pend s = Some None \<or>
    (\<exists>s'. pt_range (\<lambda>p. modify p clr st) p pend s = Some (Some s') \<and> ok s' \<and>
      (\<forall>a. cls s' a = (if p \<le> a AND Page_mask \<and> a AND Page_mask \<le> pend
                       then (cls s a AND NOT clr) OR st else cls s a)))"
  using assms(1-4)
proof (induction "unat pend + 4096 - unat p" arbitrary: p s rule: less_induct)
  case less
  show ?case
  proof (cases "p \<le> pend")
    case False
    then have "\<not> (p \<le> x \<and> x \<le> pend)" for x by auto
    with False less.prems(1) show ?thesis
      by (subst (1 2) pt_range.simps) (auto intro!: exI [of _ s])
  next
    case True
    then have le: "unat p \<le> unat pend" by (simp add: word_le_nat_alt)
    then have fit: "unat p + 4096 < 2 ^ 64" using assms(5) by simp
    note nxt = page_step [OF less.prems(2) fit]
    have nz: "p + Page_size \<noteq> 0" using nxt(1) by (metis add_is_0 unsigned_0 zero_neq_numeral)
    from modify_law [OF less.prems(1,2,4) data] show ?thesis
    proof (elim disjE exE conjE)
      assume "modify p clr st s = Some None"
      then show ?thesis using True by (subst (1 2) pt_range.simps) simp
    next
      fix s1
      assume s1: "modify p clr st s = Some (Some s1)" "ok s1"
        and c1: "\<forall>a. cls s1 a = (if Page_entry_matches p a then (cls s a AND NOT clr) OR st else cls s a)"
      have run: "pt_range (\<lambda>p. modify p clr st) p pend s =
          pt_range (\<lambda>p. modify p clr st) (p + Page_size) pend s1"
        using True s1(1) by (subst pt_range.simps) simp
      have split: "p \<le> a AND Page_mask \<and> a AND Page_mask \<le> pend \<longleftrightarrow>
          Page_entry_matches p a \<or> (p + Page_size \<le> a AND Page_mask \<and> a AND Page_mask \<le> pend)"
        "Page_entry_matches p a \<Longrightarrow> \<not> p + Page_size \<le> a AND Page_mask" for a
      proof -
        have m: "Page_entry_matches p a \<longleftrightarrow> unat (a AND Page_mask) = unat p"
          using less.prems(2) unsigned_word_eqI [of "a AND Page_mask" p]
          by (auto simp: Page_entry_matches_iff)
        have "4096 dvd unat p" "4096 dvd unat (a AND Page_mask)"
          using less.prems(2) page_idem [of a] by (simp_all only: bit_page_iff [symmetric])
        from next_page_le [OF this]
        show "p \<le> a AND Page_mask \<and> a AND Page_mask \<le> pend \<longleftrightarrow>
            Page_entry_matches p a \<or> (p + Page_size \<le> a AND Page_mask \<and> a AND Page_mask \<le> pend)"
          "Page_entry_matches p a \<Longrightarrow> \<not> p + Page_size \<le> a AND Page_mask"
          unfolding m word_le_nat_alt nxt(1) using le by auto
      qed
      have "unat pend + 4096 - unat (p + Page_size) < unat pend + 4096 - unat p"
        unfolding nxt(1) using le by simp
      from less.hyps [OF this s1(2) nxt(2) less.prems(3) nz] show ?thesis
      proof (elim disjE exE conjE)
        fix s'
        assume s': "pt_range (\<lambda>p. modify p clr st) (p + Page_size) pend s1 = Some (Some s')" "ok s'"
          and c': "\<forall>a. cls s' a = (if p + Page_size \<le> a AND Page_mask \<and> a AND Page_mask \<le> pend
                       then (cls s1 a AND NOT clr) OR st else cls s1 a)"
        have "cls s' a = (if p \<le> a AND Page_mask \<and> a AND Page_mask \<le> pend
                       then (cls s a AND NOT clr) OR st else cls s a)" for a
          using c1 c' split [of a] by (cases "Page_entry_matches p a") simp_all
        with s' run show ?thesis by simp
      qed (simp add: run)
    qed
  qed
qed

end

interpretation pt: page_map "\<lambda>t. pt_ok t \<and> calloc_sane calloc_ok" page_class
  "caml_page_table_modify calloc_ok"
  by unfold_locales (use modify_correct in blast)

section \<open>The page table as a whole\<close>

lemma pt_ok_lookup: "pt_ok t \<Longrightarrow> caml_page_table_lookup t a = Some (page_class t a)"
proof -
  assume "pt_ok t"
  then obtain k where k: "pt_inv t k" "2 * pt_count t \<le> 2 ^ k" by (auto simp: pt_ok_def)
  moreover have "(0 :: nat) < 2 ^ k" by simp
  ultimately have "pt_count t < 2 ^ k" by linarith
  with k(1) show ?thesis by (rule lookup_page_class)
qed

lemma page_class_byte: "page_class t a AND 0xFF = page_class t a"
  by (simp add: page_class_def and.assoc split: list.split)

text \<open>
  C23: caml_page_table_add sets the kind on exactly the pages of the range and keeps the table
  well formed; when memory is short it reports so.
\<close>

theorem page_table_add_correct:
  assumes "pt_ok t" "calloc_sane calloc_ok" "kind AND 0xFF = kind"
    and "start AND Page_mask \<noteq> 0" "unat ((endp - 1) AND Page_mask) + 8192 < 2 ^ 64"
  shows "caml_page_table_add calloc_ok kind start endp t = Some None \<or>
    (\<exists>t'. caml_page_table_add calloc_ok kind start endp t = Some (Some t') \<and> pt_ok t' \<and>
      (\<forall>a v. caml_page_table_lookup t a = Some v \<longrightarrow>
        caml_page_table_lookup t' a =
          Some (if start AND Page_mask \<le> a AND Page_mask \<and> a AND Page_mask \<le> (endp - 1) AND Page_mask
                then v OR kind else v)))"
  using pt.range_correct [of t calloc_ok "start AND Page_mask" "(endp - 1) AND Page_mask" 0 kind]
    assms page_idem
  unfolding caml_page_table_add_def by (fastforce simp: pt_ok_lookup)

theorem page_table_remove_correct:
  assumes "pt_ok t" "calloc_sane calloc_ok" "kind AND 0xFF = kind"
    and "start AND Page_mask \<noteq> 0" "unat ((endp - 1) AND Page_mask) + 8192 < 2 ^ 64"
  shows "caml_page_table_remove calloc_ok kind start endp t = Some None \<or>
    (\<exists>t'. caml_page_table_remove calloc_ok kind start endp t = Some (Some t') \<and> pt_ok t' \<and>
      (\<forall>a v. caml_page_table_lookup t a = Some v \<longrightarrow>
        caml_page_table_lookup t' a =
          Some (if start AND Page_mask \<le> a AND Page_mask \<and> a AND Page_mask \<le> (endp - 1) AND Page_mask
                then v AND NOT kind else v)))"
  using pt.range_correct [of t calloc_ok "start AND Page_mask" "(endp - 1) AND Page_mask" kind 0]
    assms page_idem
  unfolding caml_page_table_remove_def by (fastforce simp: pt_ok_lookup)

lemma pt_sizing_correct:
  assumes "0 < j" "j \<le> 60" "unat pagesize \<le> 2 ^ 58" "2 ^ (j - 1) < 2 * unat pagesize \<or> j = 1"
  shows "\<exists>k. pt_sizing pagesize (2 ^ j) (64 - j) = Some (2 ^ k, 64 - k) \<and> j \<le> k \<and> k \<le> 60 \<and>
    2 * unat pagesize \<le> 2 ^ k \<and> (2 ^ (k - 1) < 2 * unat pagesize \<or> k = 1)"
  using assms
proof (induction "60 - j" arbitrary: j)
  case 0
  then have j: "j = 60" by simp
  have "2 * unat pagesize < 2 ^ LENGTH(64)" using 0 by simp
  then have "unat (of_nat (2 * unat pagesize) :: u64) = 2 * unat pagesize" by (rule of_nat_inverse [OF refl])
  then have u: "unat (2 * pagesize) = 2 * unat pagesize" by simp
  have "\<not> (2 ^ 60 :: u64) < 2 * pagesize"
    using 0(4) by (simp add: word_less_nat_alt u)
  then show ?case
    using 0 unfolding j by (subst pt_sizing.simps) (auto intro!: exI [of _ 60])
next
  case (Suc n)
  have "2 * unat pagesize < 2 ^ LENGTH(64)" using Suc by simp
  then have "unat (of_nat (2 * unat pagesize) :: u64) = 2 * unat pagesize" by (rule of_nat_inverse [OF refl])
  then have u: "unat (2 * pagesize) = 2 * unat pagesize" by simp
  have uj: "unat (2 ^ j :: u64) = 2 ^ j" using Suc.prems by (intro unat_pow2) simp
  show ?case
  proof (cases "2 ^ j < 2 * unat pagesize")
    case True
    then have c: "(2 ^ j :: u64) < 2 * pagesize" by (simp add: word_less_nat_alt u uj)
    have "push_bit 1 (2 ^ j :: u64) = 2 ^ (j + 1)" by (simp add: push_bit_eq_mult)
    then have "pt_sizing pagesize (2 ^ j) (64 - j) = pt_sizing pagesize (2 ^ (j + 1)) (64 - (j + 1))"
      using c by (subst pt_sizing.simps) (simp add: mult.commute [of _ 2])
    moreover have "n = 60 - (j + 1)" "j + 1 \<le> 60" using Suc.hyps(2) by simp_all
    ultimately show ?thesis
      using Suc.hyps(1) [of "j + 1"] Suc.prems True by auto
  next
    case False
    then have "pt_sizing pagesize (2 ^ j) (64 - j) = Some (2 ^ j, 64 - j)"
      by (subst pt_sizing.simps) (simp add: word_less_nat_alt u uj)
    with False Suc.prems show ?thesis by (intro exI [of _ j]) auto
  qed
qed

text \<open>
  C24: caml_page_table_initialize makes a well-formed table in which every page is unknown.
\<close>

theorem page_table_initialize_correct:
  assumes "0 < unat (Page bytesize)" "unat (Page bytesize) \<le> 2 ^ 58"
  shows "\<exists>k \<le> 60. 2 * unat (Page bytesize) \<le> 2 ^ k \<and>
    caml_page_table_initialize calloc_ok bytesize =
      Some (if calloc_ok (2 ^ k)
            then Some \<lparr>pt_size = 2 ^ k, pt_shift = 64 - k, pt_mask = 2 ^ k - 1, pt_occupancy = 0,
                       pt_entries = replicate (2 ^ k) 0\<rparr>
            else None) \<and>
    pt_ok \<lparr>pt_size = 2 ^ k, pt_shift = 64 - k, pt_mask = 2 ^ k - 1, pt_occupancy = 0,
           pt_entries = replicate (2 ^ k) 0\<rparr>"
proof -
  have "2 * unat (Page bytesize) < 2 ^ LENGTH(64)" using assms by simp
  then have "unat (of_nat (2 * unat (Page bytesize)) :: u64) = 2 * unat (Page bytesize)"
    by (rule of_nat_inverse [OF refl])
  then have u: "unat (2 * Page bytesize) = 2 * unat (Page bytesize)" by simp
  have "pt_sizing (Page bytesize) 1 64 = pt_sizing (Page bytesize) (2 ^ 1) (64 - 1)"
    using assms by (subst pt_sizing.simps) (simp add: word_less_nat_alt u)
  then obtain k where k: "pt_sizing (Page bytesize) 1 64 = Some (2 ^ k, 64 - k)" "1 \<le> k" "k \<le> 60"
    "2 * unat (Page bytesize) \<le> 2 ^ k"
    using pt_sizing_correct [of 1 "Page bytesize"] assms by auto
  let ?t = "\<lparr>pt_size = 2 ^ k, pt_shift = 64 - k, pt_mask = 2 ^ k - 1, pt_occupancy = 0,
           pt_entries = replicate (2 ^ k) 0\<rparr>"
  have "pt_shape ?t k" using k by (simp add: pt_shape_def)
  from pt_empty [OF this] k have "pt_ok ?t" by (auto simp: pt_ok_def)
  moreover have "unat (2 ^ k :: u64) = 2 ^ k" using k by (intro unat_pow2) simp
  ultimately show ?thesis
    using k by (intro exI [of _ k]) (simp add: caml_page_table_initialize_def)
qed

theorem page_table_lookup_total:
  assumes "pt_ok t"
  shows "\<exists>v. caml_page_table_lookup t a = Some v \<and> unat v < 256 \<and>
    (v \<noteq> 0 \<longrightarrow> (\<exists>e \<in> set (pt_entries t). Page_entry_matches e a \<and> v = e AND 0xFF))"
proof -
  have "unat (page_class t a) < 256"
  proof -
    have "page_class t a = take_bit 8 (page_class t a)"
      using page_class_byte [of t a] by (simp add: take_bit_eq_mask mask_eq_exp_minus_1)
    then have "unat (page_class t a) = take_bit 8 (unat (page_class t a))"
      by (metis unsigned_take_bit_eq)
    moreover have "take_bit 8 (unat (page_class t a)) < 2 ^ 8" by (rule take_bit_nat_less_exp)
    ultimately show ?thesis by simp
  qed
  moreover have "\<exists>e \<in> set (pt_entries t). Page_entry_matches e a \<and> page_class t a = e AND 0xFF"
    if nz: "page_class t a \<noteq> 0"
  proof -
    obtain e es where f: "filter (\<lambda>e. e \<noteq> 0 \<and> Page_entry_matches e a) (pt_entries t) = e # es"
      using nz by (auto simp: page_class_def split: list.splits)
    have "e \<in> set (filter (\<lambda>e. e \<noteq> 0 \<and> Page_entry_matches e a) (pt_entries t))"
      unfolding f by simp
    then have "e \<in> set (pt_entries t)" "Page_entry_matches e a" by auto
    with f show ?thesis by (intro bexI [of _ e]) (simp_all add: page_class_def)
  qed
  ultimately show ?thesis using pt_ok_lookup [OF assms] by blast
qed

section \<open>The theorems at a concrete table\<close>

definition sample_pt :: page_table where
  "sample_pt = \<lparr>pt_size = 2, pt_shift = 63, pt_mask = 1, pt_occupancy = 0, pt_entries = [0, 0]\<rparr>"

definition sample_calloc :: "u64 \<Rightarrow> bool" where "sample_calloc n = (n \<le> 0x10000)"

lemma sample_calloc_sane: "calloc_sane sample_calloc"
proof -
  have "unat n \<le> 2 ^ 60" if "n \<le> 0x10000" for n :: u64
    using that by (simp add: word_le_nat_alt)
  then show ?thesis by (simp add: calloc_sane_def sample_calloc_def)
qed

lemma sample_pt_ok: "pt_ok sample_pt"
proof -
  have "pt_shape sample_pt 1" by (simp add: pt_shape_def sample_pt_def)
  from pt_empty [OF this] show ?thesis
    by (auto simp: pt_ok_def sample_pt_def numeral_2_eq_2 intro!: exI [of _ 1])
qed

theorem page_table_initialize_correct_witness:
  "\<exists>k \<le> 60. 2 * unat (Page 0x3000) \<le> 2 ^ k \<and>
    caml_page_table_initialize sample_calloc 0x3000 \<noteq> None"
proof -
  have "unat (Page 0x3000) = 3" by (simp add: Page_def)
  then show ?thesis
    using page_table_initialize_correct [of "0x3000" sample_calloc] by auto
qed

theorem page_table_lookup_total_witness:
  "\<exists>v. caml_page_table_lookup sample_pt 0x5010 = Some v \<and> unat v < 256"
  using page_table_lookup_total [OF sample_pt_ok, of "0x5010"] by blast

lemma pt_range_one:
  assumes "p \<le> pend" "\<not> p + Page_size \<le> pend" "modify p t = Some (Some t')"
  shows "pt_range modify p pend t = Some (Some t')"
proof -
  have "pt_range modify (p + Page_size) pend t' = Some (Some t')"
    using assms(2) by (subst pt_range.simps) simp
  then show ?thesis using assms(1,3) by (subst pt_range.simps) simp
qed

lemma sample_modify:
  "caml_page_table_modify sample_calloc 0x5000 clr st sample_pt =
    Some (Some (pt_store (Hash sample_pt (Page 0x5000)) 0x5000 clr st sample_pt))"
proof -
  have p: "probe (\<lambda>e. e = 0 \<or> Page_entry_matches e 0x5000) sample_pt (Hash sample_pt (Page 0x5000)) =
      Some (Hash sample_pt (Page 0x5000))"
    by (subst probe.simps)
       (simp add: pt_entry_def Hash_def Page_def HASH_FACTOR_def sample_pt_def)
  have "\<not> pt_size sample_pt \<le> pt_occupancy sample_pt * 2" by (simp add: sample_pt_def)
  with p show ?thesis by (simp add: caml_page_table_modify_def)
qed

theorem page_table_add_correct_witness:
  "\<exists>t'. caml_page_table_add sample_calloc 1 0x5000 0x6000 sample_pt = Some (Some t') \<and> pt_ok t' \<and>
     caml_page_table_lookup t' 0x5010 = Some 1 \<and> caml_page_table_lookup t' 0x8000 = Some 0"
proof -
  have m: "Page_mask = 0xFFFFFFFFFFFFF000" by (simp add: Page_mask_def mask_eq_exp_minus_1)
  have z: "caml_page_table_lookup sample_pt a = Some 0" for a
    using pt_ok_lookup [OF sample_pt_ok] by (simp add: page_class_def sample_pt_def)
  have "caml_page_table_add sample_calloc 1 0x5000 0x6000 sample_pt \<noteq> Some None"
    unfolding caml_page_table_add_def
    using pt_range_one [of "0x5000" "0x5000" "\<lambda>p. caml_page_table_modify sample_calloc p 0 1", OF _ _ sample_modify]
    by (simp add: m Page_size_def)
  with page_table_add_correct [OF sample_pt_ok sample_calloc_sane, of 1 "0x5000" "0x6000"] z
  show ?thesis by (auto simp: m)
qed

theorem page_table_remove_correct_witness:
  "\<exists>t'. caml_page_table_remove sample_calloc 1 0x5000 0x6000 sample_pt = Some (Some t') \<and> pt_ok t' \<and>
     caml_page_table_lookup t' 0x5010 = Some 0"
proof -
  have m: "Page_mask = 0xFFFFFFFFFFFFF000" by (simp add: Page_mask_def mask_eq_exp_minus_1)
  have z: "caml_page_table_lookup sample_pt a = Some 0" for a
    using pt_ok_lookup [OF sample_pt_ok] by (simp add: page_class_def sample_pt_def)
  have "caml_page_table_remove sample_calloc 1 0x5000 0x6000 sample_pt \<noteq> Some None"
    unfolding caml_page_table_remove_def
    using pt_range_one [of "0x5000" "0x5000" "\<lambda>p. caml_page_table_modify sample_calloc p 1 0", OF _ _ sample_modify]
    by (simp add: m Page_size_def)
  with page_table_remove_correct [OF sample_pt_ok sample_calloc_sane, of 1 "0x5000" "0x6000"] z
  show ?thesis by (auto simp: m)
qed

end
