(* ===== verification/Md5.thy ===== *)
theory Md5
  imports Rt_Prelude
begin

text \<open>
  The MD5 message digest of \<^verbatim>\<open>runtime/md5.c\<close>: the transform, the context with its 64-byte
  buffer and 64-bit count, incremental update and the final padding, and the primitives
  built on them. The incremental interface is shown to compute the digest of the whole
  message, however it was cut into pieces.
\<close>

section \<open>The transform\<close>

definition F1 :: "u32 \<Rightarrow> u32 \<Rightarrow> u32 \<Rightarrow> u32" where "F1 x y z = z XOR (x AND (y XOR z))"
definition F2 :: "u32 \<Rightarrow> u32 \<Rightarrow> u32 \<Rightarrow> u32" where "F2 x y z = F1 z x y"
definition F3 :: "u32 \<Rightarrow> u32 \<Rightarrow> u32 \<Rightarrow> u32" where "F3 x y z = x XOR y XOR z"
definition F4 :: "u32 \<Rightarrow> u32 \<Rightarrow> u32 \<Rightarrow> u32" where "F4 x y z = y XOR (x OR NOT z)"

definition MD5STEP :: "(u32 \<Rightarrow> u32 \<Rightarrow> u32 \<Rightarrow> u32) \<Rightarrow> u32 \<Rightarrow> u32 \<Rightarrow> u32 \<Rightarrow> u32 \<Rightarrow> u32 \<Rightarrow> nat \<Rightarrow> u32" where
  "MD5STEP f w x y z data s =
    (let w1 = w + (f x y z + data); w2 = push_bit s w1 OR drop_bit (32 - s) w1 in w2 + x)"

type_synonym md5_buf = "u32 \<times> u32 \<times> u32 \<times> u32"

definition caml_MD5Transform :: "md5_buf \<Rightarrow> u32 list \<Rightarrow> md5_buf" where
  "caml_MD5Transform buf inp = (case buf of (buf0, buf1, buf2, buf3) \<Rightarrow>
    let a = buf0; b = buf1; c = buf2; d = buf3;
      a = MD5STEP F1 a b c d (inp ! 0 + 0xd76aa478) 7;
      d = MD5STEP F1 d a b c (inp ! 1 + 0xe8c7b756) 12;
      c = MD5STEP F1 c d a b (inp ! 2 + 0x242070db) 17;
      b = MD5STEP F1 b c d a (inp ! 3 + 0xc1bdceee) 22;
      a = MD5STEP F1 a b c d (inp ! 4 + 0xf57c0faf) 7;
      d = MD5STEP F1 d a b c (inp ! 5 + 0x4787c62a) 12;
      c = MD5STEP F1 c d a b (inp ! 6 + 0xa8304613) 17;
      b = MD5STEP F1 b c d a (inp ! 7 + 0xfd469501) 22;
      a = MD5STEP F1 a b c d (inp ! 8 + 0x698098d8) 7;
      d = MD5STEP F1 d a b c (inp ! 9 + 0x8b44f7af) 12;
      c = MD5STEP F1 c d a b (inp ! 10 + 0xffff5bb1) 17;
      b = MD5STEP F1 b c d a (inp ! 11 + 0x895cd7be) 22;
      a = MD5STEP F1 a b c d (inp ! 12 + 0x6b901122) 7;
      d = MD5STEP F1 d a b c (inp ! 13 + 0xfd987193) 12;
      c = MD5STEP F1 c d a b (inp ! 14 + 0xa679438e) 17;
      b = MD5STEP F1 b c d a (inp ! 15 + 0x49b40821) 22;
      a = MD5STEP F2 a b c d (inp ! 1 + 0xf61e2562) 5;
      d = MD5STEP F2 d a b c (inp ! 6 + 0xc040b340) 9;
      c = MD5STEP F2 c d a b (inp ! 11 + 0x265e5a51) 14;
      b = MD5STEP F2 b c d a (inp ! 0 + 0xe9b6c7aa) 20;
      a = MD5STEP F2 a b c d (inp ! 5 + 0xd62f105d) 5;
      d = MD5STEP F2 d a b c (inp ! 10 + 0x02441453) 9;
      c = MD5STEP F2 c d a b (inp ! 15 + 0xd8a1e681) 14;
      b = MD5STEP F2 b c d a (inp ! 4 + 0xe7d3fbc8) 20;
      a = MD5STEP F2 a b c d (inp ! 9 + 0x21e1cde6) 5;
      d = MD5STEP F2 d a b c (inp ! 14 + 0xc33707d6) 9;
      c = MD5STEP F2 c d a b (inp ! 3 + 0xf4d50d87) 14;
      b = MD5STEP F2 b c d a (inp ! 8 + 0x455a14ed) 20;
      a = MD5STEP F2 a b c d (inp ! 13 + 0xa9e3e905) 5;
      d = MD5STEP F2 d a b c (inp ! 2 + 0xfcefa3f8) 9;
      c = MD5STEP F2 c d a b (inp ! 7 + 0x676f02d9) 14;
      b = MD5STEP F2 b c d a (inp ! 12 + 0x8d2a4c8a) 20;
      a = MD5STEP F3 a b c d (inp ! 5 + 0xfffa3942) 4;
      d = MD5STEP F3 d a b c (inp ! 8 + 0x8771f681) 11;
      c = MD5STEP F3 c d a b (inp ! 11 + 0x6d9d6122) 16;
      b = MD5STEP F3 b c d a (inp ! 14 + 0xfde5380c) 23;
      a = MD5STEP F3 a b c d (inp ! 1 + 0xa4beea44) 4;
      d = MD5STEP F3 d a b c (inp ! 4 + 0x4bdecfa9) 11;
      c = MD5STEP F3 c d a b (inp ! 7 + 0xf6bb4b60) 16;
      b = MD5STEP F3 b c d a (inp ! 10 + 0xbebfbc70) 23;
      a = MD5STEP F3 a b c d (inp ! 13 + 0x289b7ec6) 4;
      d = MD5STEP F3 d a b c (inp ! 0 + 0xeaa127fa) 11;
      c = MD5STEP F3 c d a b (inp ! 3 + 0xd4ef3085) 16;
      b = MD5STEP F3 b c d a (inp ! 6 + 0x04881d05) 23;
      a = MD5STEP F3 a b c d (inp ! 9 + 0xd9d4d039) 4;
      d = MD5STEP F3 d a b c (inp ! 12 + 0xe6db99e5) 11;
      c = MD5STEP F3 c d a b (inp ! 15 + 0x1fa27cf8) 16;
      b = MD5STEP F3 b c d a (inp ! 2 + 0xc4ac5665) 23;
      a = MD5STEP F4 a b c d (inp ! 0 + 0xf4292244) 6;
      d = MD5STEP F4 d a b c (inp ! 7 + 0x432aff97) 10;
      c = MD5STEP F4 c d a b (inp ! 14 + 0xab9423a7) 15;
      b = MD5STEP F4 b c d a (inp ! 5 + 0xfc93a039) 21;
      a = MD5STEP F4 a b c d (inp ! 12 + 0x655b59c3) 6;
      d = MD5STEP F4 d a b c (inp ! 3 + 0x8f0ccc92) 10;
      c = MD5STEP F4 c d a b (inp ! 10 + 0xffeff47d) 15;
      b = MD5STEP F4 b c d a (inp ! 1 + 0x85845dd1) 21;
      a = MD5STEP F4 a b c d (inp ! 8 + 0x6fa87e4f) 6;
      d = MD5STEP F4 d a b c (inp ! 15 + 0xfe2ce6e0) 10;
      c = MD5STEP F4 c d a b (inp ! 6 + 0xa3014314) 15;
      b = MD5STEP F4 b c d a (inp ! 13 + 0x4e0811a1) 21;
      a = MD5STEP F4 a b c d (inp ! 4 + 0xf7537e82) 6;
      d = MD5STEP F4 d a b c (inp ! 11 + 0xbd3af235) 10;
      c = MD5STEP F4 c d a b (inp ! 2 + 0x2ad7d2bb) 15;
      b = MD5STEP F4 b c d a (inp ! 9 + 0xeb86d391) 21
    in (buf0 + a, buf1 + b, buf2 + c, buf3 + d))"

section \<open>Bytes and longwords\<close>

text \<open>The \<open>uint32_t\<close> view of a byte array on a little-endian machine, and back.\<close>

definition word_of_bytes :: "u8 \<Rightarrow> u8 \<Rightarrow> u8 \<Rightarrow> u8 \<Rightarrow> u32" where
  "word_of_bytes b0 b1 b2 b3 =
    ucast b0 OR push_bit 8 (ucast b1) OR push_bit 16 (ucast b2) OR push_bit 24 (ucast b3)"

fun longwords :: "u8 list \<Rightarrow> u32 list" where
  "longwords (b0 # b1 # b2 # b3 # bs) = word_of_bytes b0 b1 b2 b3 # longwords bs"
| "longwords _ = []"

definition bytes_of_word :: "u32 \<Rightarrow> u8 list" where
  "bytes_of_word w = [ucast w, ucast (drop_bit 8 w), ucast (drop_bit 16 w), ucast (drop_bit 24 w)]"

section \<open>The context\<close>

record MD5Context =
  md5_state :: md5_buf
  bits0 :: u32
  bits1 :: u32
  md5_in :: "u8 list"

text \<open>\<open>memcpy\<close> into and \<open>memset\<close> of the buffer at an offset.\<close>

definition blit :: "nat \<Rightarrow> u8 list \<Rightarrow> u8 list \<Rightarrow> u8 list" where
  "blit ofs src dst = take ofs dst @ src @ drop (ofs + length src) dst"

definition md5_transform_in :: "MD5Context \<Rightarrow> MD5Context" where
  "md5_transform_in ctx = ctx\<lparr>md5_state := caml_MD5Transform (md5_state ctx) (longwords (md5_in ctx))\<rparr>"

text \<open>\<open>caml_MD5Init\<close> sets the state and the count; the buffer is the stack garbage it finds.\<close>

definition caml_MD5Init :: "u8 list \<Rightarrow> MD5Context" where
  "caml_MD5Init garbage =
    \<lparr>md5_state = (0x67452301, 0xefcdab89, 0x98badcfe, 0x10325476), bits0 = 0, bits1 = 0,
     md5_in = garbage\<rparr>"

text \<open>The chunk loop of \<open>caml_MD5Update\<close> with the copy of the remaining bytes after it.\<close>

function md5_chunks :: "MD5Context \<Rightarrow> u8 list \<Rightarrow> MD5Context" where
  "md5_chunks ctx bs =
    (if 64 \<le> length bs
     then md5_chunks (md5_transform_in (ctx\<lparr>md5_in := blit 0 (take 64 bs) (md5_in ctx)\<rparr>)) (drop 64 bs)
     else ctx\<lparr>md5_in := blit 0 bs (md5_in ctx)\<rparr>)"
  by auto
termination by (relation "measure (length \<circ> snd)") auto

declare md5_chunks.simps [simp del]

definition caml_MD5Update :: "MD5Context \<Rightarrow> u8 list \<Rightarrow> MD5Context" where
  "caml_MD5Update ctx bs =
    (let len = (of_nat (length bs) :: u64);
         t = bits0 ctx;
         low = t + push_bit 3 (ucast len);
         high = (if low < t then bits1 ctx + 1 else bits1 ctx) + ucast (drop_bit 29 len);
         ctx1 = ctx\<lparr>bits0 := low, bits1 := high\<rparr>;
         t1 = drop_bit 3 t AND 0x3f
     in if t1 \<noteq> 0 then
          (let n = unat (64 - t1)
           in if length bs < n then ctx1\<lparr>md5_in := blit (unat t1) bs (md5_in ctx1)\<rparr>
              else md5_chunks
                     (md5_transform_in (ctx1\<lparr>md5_in := blit (unat t1) (take n bs) (md5_in ctx1)\<rparr>))
                     (drop n bs))
        else md5_chunks ctx1 bs)"

definition md5_bytes :: "md5_buf \<Rightarrow> u8 list" where
  "md5_bytes buf = (case buf of (a, b, c, d) \<Rightarrow>
     bytes_of_word a @ bytes_of_word b @ bytes_of_word c @ bytes_of_word d)"

definition caml_MD5Final :: "MD5Context \<Rightarrow> u8 list" where
  "caml_MD5Final ctx =
    (let cnt = unat (drop_bit 3 (bits0 ctx) AND 0x3F);
         ctx1 = ctx\<lparr>md5_in := blit cnt [0x80] (md5_in ctx)\<rparr>;
         p = cnt + 1;
         pad = 64 - 1 - cnt;
         ctx2 = (if pad < 8
                 then (let c = md5_transform_in (ctx1\<lparr>md5_in := blit p (replicate pad 0) (md5_in ctx1)\<rparr>)
                       in c\<lparr>md5_in := blit 0 (replicate 56 0) (md5_in c)\<rparr>)
                 else ctx1\<lparr>md5_in := blit p (replicate (pad - 8) 0) (md5_in ctx1)\<rparr>);
         ctx3 = ctx2\<lparr>md5_in := blit 56 (bytes_of_word (bits0 ctx2) @ bytes_of_word (bits1 ctx2))
                       (md5_in ctx2)\<rparr>
     in md5_bytes (md5_state (md5_transform_in ctx3)))"

section \<open>The primitives\<close>

definition caml_md5_block :: "u8 list \<Rightarrow> u8 list \<Rightarrow> u8 list" where
  "caml_md5_block garbage bs = caml_MD5Final (caml_MD5Update (caml_MD5Init garbage) bs)"

text \<open>\<open>caml_md5_string\<close>: the bytes of a string from an offset, for a length.\<close>

definition caml_md5_string :: "u8 list \<Rightarrow> u8 list \<Rightarrow> nat \<Rightarrow> nat \<Rightarrow> u8 list" where
  "caml_md5_string garbage str ofs len =
    caml_MD5Final (caml_MD5Update (caml_MD5Init garbage) (take len (drop ofs str)))"

text \<open>
  \<open>caml_md5_channel\<close>, over a channel read by \<open>caml_getblock\<close>, which is a parameter: it takes
  the most bytes wanted and gives bytes and the channel after them. \<open>Inl\<close> is
  \<open>caml_raise_end_of_file\<close>.
\<close>

partial_function (option) md5_read_all :: "('c \<Rightarrow> nat \<Rightarrow> u8 list \<times> 'c) \<Rightarrow> 'c \<Rightarrow> MD5Context \<Rightarrow>
    (MD5Context \<times> 'c) option" where
  "md5_read_all getblock chan ctx =
    (case getblock chan 4096 of (bs, chan') \<Rightarrow>
       if bs = [] then Some (ctx, chan')
       else md5_read_all getblock chan' (caml_MD5Update ctx bs))"

partial_function (option) md5_read :: "('c \<Rightarrow> nat \<Rightarrow> u8 list \<times> 'c) \<Rightarrow> int \<Rightarrow> 'c \<Rightarrow> MD5Context \<Rightarrow>
    (string + MD5Context \<times> 'c) option" where
  "md5_read getblock toread chan ctx =
    (if 0 < toread then
       (case getblock chan (if 4096 < toread then 4096 else nat toread) of (bs, chan') \<Rightarrow>
          if bs = [] then Some (Inl ''End_of_file'')
          else md5_read getblock (toread - int (length bs)) chan' (caml_MD5Update ctx bs))
     else Some (Inr (ctx, chan)))"

definition caml_md5_channel :: "u8 list \<Rightarrow> ('c \<Rightarrow> nat \<Rightarrow> u8 list \<times> 'c) \<Rightarrow> 'c \<Rightarrow> int \<Rightarrow>
    (string + u8 list \<times> 'c) option" where
  "caml_md5_channel garbage getblock chan toread =
    (let ctx = caml_MD5Init garbage
     in map_option (map_sum id (map_prod caml_MD5Final id))
          (if toread < 0 then map_option Inr (md5_read_all getblock chan ctx)
           else md5_read getblock toread chan ctx))"

section \<open>The digest of a whole message\<close>

text \<open>MD5 as the standard defines it: pad, cut into blocks, fold the transform over them.\<close>

function md5_blocks :: "md5_buf \<Rightarrow> u8 list \<Rightarrow> md5_buf" where
  "md5_blocks st bs =
    (if 64 \<le> length bs
     then md5_blocks (caml_MD5Transform st (longwords (take 64 bs))) (drop 64 bs) else st)"
  by auto
termination by (relation "measure (length \<circ> snd)") auto

declare md5_blocks.simps [simp del]

definition md5_pad :: "nat \<Rightarrow> u8 list" where
  "md5_pad n =
    (let nbits = (8 * of_nat n :: u64)
     in [0x80] @ replicate ((119 - n mod 64) mod 64) 0 @
        bytes_of_word (ucast nbits) @ bytes_of_word (ucast (drop_bit 32 nbits)))"

definition md5 :: "u8 list \<Rightarrow> u8 list" where
  "md5 msg =
    md5_bytes (md5_blocks (0x67452301, 0xefcdab89, 0x98badcfe, 0x10325476)
      (msg @ md5_pad (length msg)))"

section \<open>Buffers and blocks\<close>

lemma length_blit: "ofs + length src \<le> length dst \<Longrightarrow> length (blit ofs src dst) = length dst"
  by (simp add: blit_def)

lemma take_blit:
  "ofs + length src \<le> length dst \<Longrightarrow> take (ofs + length src) (blit ofs src dst) = take ofs dst @ src"
  by (simp add: blit_def)

lemma blit_all: "ofs + length src = length dst \<Longrightarrow> blit ofs src dst = take ofs dst @ src"
  by (simp add: blit_def)

lemma md5_blocks_short [simp]: "length bs < 64 \<Longrightarrow> md5_blocks st bs = st"
  by (subst md5_blocks.simps) simp

lemma md5_blocks_long:
  "64 \<le> length bs \<Longrightarrow>
    md5_blocks st bs = md5_blocks (caml_MD5Transform st (longwords (take 64 bs))) (drop 64 bs)"
  by (subst md5_blocks.simps) simp

lemma md5_blocks_append:
  "64 dvd length xs \<Longrightarrow> md5_blocks st (xs @ ys) = md5_blocks (md5_blocks st xs) ys"
proof (induction st xs rule: md5_blocks.induct)
  case (1 st xs)
  show ?case
  proof (cases "64 \<le> length xs")
    case True
    then have "64 dvd length (drop 64 xs)"
      using 1(2) by (simp add: dvd_minus_self)
    from 1(1) [OF True this] show ?thesis
      using True md5_blocks_long [of xs st] md5_blocks_long [of "xs @ ys" st] by simp
  next
    case False
    with 1(2) have "length xs = 0" using dvd_imp_le [of 64 "length xs"] by auto
    then show ?thesis by simp
  qed
qed

lemma md5_blocks_one: "length xs = 64 \<Longrightarrow> md5_blocks st xs = caml_MD5Transform st (longwords xs)"
  by (subst md5_blocks.simps) simp

text \<open>What the chunk loop leaves: whole blocks in the state, the rest at the front of the buffer.\<close>

lemma md5_chunks_correct:
  "length (md5_in ctx) = 64 \<Longrightarrow>
    \<exists>A R. bs = A @ R \<and> 64 dvd length A \<and> length R < 64 \<and>
      md5_state (md5_chunks ctx bs) = md5_blocks (md5_state ctx) A \<and>
      length (md5_in (md5_chunks ctx bs)) = 64 \<and>
      take (length R) (md5_in (md5_chunks ctx bs)) = R \<and>
      bits0 (md5_chunks ctx bs) = bits0 ctx \<and> bits1 (md5_chunks ctx bs) = bits1 ctx"
proof (induction ctx bs rule: md5_chunks.induct)
  case (1 ctx bs)
  show ?case
  proof (cases "64 \<le> length bs")
    case True
    let ?c = "md5_transform_in (ctx\<lparr>md5_in := blit 0 (take 64 bs) (md5_in ctx)\<rparr>)"
    have b: "blit 0 (take 64 bs) (md5_in ctx) = take 64 bs"
      using True 1(2) by (subst blit_all) simp_all
    have c: "length (md5_in ?c) = 64" "md5_state ?c = md5_blocks (md5_state ctx) (take 64 bs)"
      "bits0 ?c = bits0 ctx" "bits1 ?c = bits1 ctx"
      using True by (simp_all add: md5_transform_in_def b md5_blocks_one)
    from 1(1) [OF True c(1)] obtain A R where A: "drop 64 bs = A @ R" "64 dvd length A" "length R < 64"
      "md5_state (md5_chunks ?c (drop 64 bs)) = md5_blocks (md5_state ?c) A"
      "length (md5_in (md5_chunks ?c (drop 64 bs))) = 64"
      "take (length R) (md5_in (md5_chunks ?c (drop 64 bs))) = R"
      "bits0 (md5_chunks ?c (drop 64 bs)) = bits0 ?c" "bits1 (md5_chunks ?c (drop 64 bs)) = bits1 ?c"
      by blast
    have run: "md5_chunks ctx bs = md5_chunks ?c (drop 64 bs)"
      using True by (subst md5_chunks.simps) simp
    have "bs = (take 64 bs @ A) @ R"
      using A(1) append_take_drop_id [of 64 bs] by simp
    moreover have "64 dvd length (take 64 bs @ A)" using True A(2) by simp
    moreover have "md5_blocks (md5_state ctx) (take 64 bs @ A) = md5_blocks (md5_state ?c) A"
      using True by (simp add: md5_blocks_append c(2))
    ultimately show ?thesis
      using A c(3,4) unfolding run by metis
  next
    case False
    then have run: "md5_chunks ctx bs = ctx\<lparr>md5_in := blit 0 bs (md5_in ctx)\<rparr>"
      by (subst md5_chunks.simps) simp
    show ?thesis
      using False 1(2) take_blit [of 0 bs "md5_in ctx"] length_blit [of 0 bs "md5_in ctx"]
      by (intro exI [of _ "[]"] exI [of _ bs]) (simp add: run)
  qed
qed

section \<open>The 64-bit count\<close>

lemma low_bits: "(ucast (8 * of_nat n :: u64) :: u32) = of_nat (8 * n)"
proof -
  have e: "(8 * of_nat n :: u64) = of_nat (8 * n)" by simp
  show ?thesis
    unfolding e by (rule unsigned_word_eqI)
      (simp only: unsigned_ucast_eq unsigned_of_nat take_bit_take_bit, simp)
qed

lemma high_bits: "(ucast (drop_bit 32 (8 * of_nat n :: u64)) :: u32) = of_nat (8 * n div 2 ^ 32)"
proof -
  have e: "(8 * of_nat n :: u64) = of_nat (8 * n)" by simp
  have "take_bit 32 (drop_bit 32 (take_bit 64 (8 * n))) = take_bit 32 (drop_bit 32 (8 * n))"
    by (rule bit_eqI) (auto simp: bit_simps)
  moreover have "unat (ucast (drop_bit 32 (of_nat (8 * n) :: u64)) :: u32) =
      take_bit 32 (drop_bit 32 (take_bit 64 (8 * n)))"
    by (simp only: unsigned_ucast_eq unsigned_drop_bit_eq unsigned_of_nat) simp
  moreover have "unat (of_nat (8 * n div 2 ^ 32) :: u32) = take_bit 32 (drop_bit 32 (8 * n))"
    by (simp only: unsigned_of_nat drop_bit_eq_div) simp
  ultimately show ?thesis
    unfolding e by (intro unsigned_word_eqI [where ?'a = nat]) (simp only:)
qed

lemma buffered: "unat (drop_bit 3 (of_nat (8 * n) :: u32) AND 0x3f) = n mod 64"
proof -
  have "drop_bit 3 (of_nat (8 * n) :: u32) AND 0x3f = take_bit 6 (drop_bit 3 (of_nat (8 * n)))"
    by (simp add: take_bit_eq_mask mask_eq_exp_minus_1)
  then have "unat (drop_bit 3 (of_nat (8 * n) :: u32) AND 0x3f) =
      take_bit 6 (drop_bit 3 (take_bit 32 (8 * n)))"
    by (simp only: unsigned_take_bit_eq unsigned_drop_bit_eq unsigned_of_nat) simp
  also have "\<dots> = take_bit 6 (drop_bit 3 (8 * n))"
    by (rule bit_eqI) (auto simp: bit_simps)
  finally show ?thesis by (simp add: drop_bit_eq_div take_bit_eq_mod)
qed

lemma bit_count_update:
  assumes "len < 2 ^ 64"
    and t: "t = (of_nat (8 * n) :: u32)" and low: "low = t + push_bit 3 (ucast (of_nat len :: u64))"
  shows "low = of_nat (8 * (n + len))"
    "(if low < t then of_nat (8 * n div 2 ^ 32) + 1 else of_nat (8 * n div 2 ^ 32)) +
       ucast (drop_bit 29 (of_nat len :: u64)) = (of_nat (8 * (n + len) div 2 ^ 32) :: u32)"
proof -
  have l: "(ucast (of_nat len :: u64) :: u32) = of_nat len"
    by (rule unsigned_word_eqI [where ?'a = nat])
       (simp only: unsigned_ucast_eq unsigned_of_nat take_bit_take_bit, simp)
  show lw: "low = of_nat (8 * (n + len))"
    unfolding low t l by (simp add: push_bit_eq_mult algebra_simps)
  have h: "(ucast (drop_bit 29 (of_nat len :: u64)) :: u32) = of_nat (8 * len div 2 ^ 32)"
  proof (rule unsigned_word_eqI [where ?'a = nat])
    have "unat (ucast (drop_bit 29 (of_nat len :: u64)) :: u32) =
        take_bit 32 (drop_bit 29 (take_bit 64 len))"
      by (simp only: unsigned_ucast_eq unsigned_drop_bit_eq unsigned_of_nat) simp
    also have "take_bit 64 len = len" using assms(1) by (rule take_bit_nat_eq_self)
    also have "drop_bit 29 len = 8 * len div 2 ^ 32" by (simp add: drop_bit_eq_div)
    finally show "unat (ucast (drop_bit 29 (of_nat len :: u64)) :: u32) =
        unat (of_nat (8 * len div 2 ^ 32) :: u32)"
      by (simp only: unsigned_of_nat) simp
  qed
  let ?M = "2 ^ 32 :: nat"
  have ut: "unat t = (8 * n) mod ?M" and ul: "unat low = (8 * (n + len)) mod ?M"
    unfolding t lw by (simp_all only: unsigned_of_nat take_bit_eq_mod, simp_all)
  have carry: "low < t \<longleftrightarrow> ?M \<le> (8 * n) mod ?M + (8 * len) mod ?M"
  proof -
    have s: "8 * (n + len) mod ?M = ((8 * n) mod ?M + (8 * len) mod ?M) mod ?M"
      by (simp add: distrib_left mod_add_eq)
    have b: "(8 * n) mod ?M < ?M" "(8 * len) mod ?M < ?M" by simp_all
    show ?thesis
      unfolding word_less_nat_alt ut ul s by (rule carry_iff [OF b])
  qed
  have "8 * (n + len) div ?M = 8 * n div ?M + 8 * len div ?M +
      ((8 * n) mod ?M + (8 * len) mod ?M) div ?M"
    unfolding distrib_left by (rule div_add1_eq)
  moreover have "((8 * n) mod ?M + (8 * len) mod ?M) div ?M = (if low < t then 1 else 0)"
    unfolding carry by (rule carry_div) simp_all
  ultimately have d: "8 * (n + len) div ?M = 8 * n div ?M + 8 * len div ?M + (if low < t then 1 else 0)"
    by simp
  show "(if low < t then of_nat (8 * n div 2 ^ 32) + 1 else of_nat (8 * n div 2 ^ 32)) +
       ucast (drop_bit 29 (of_nat len :: u64)) = (of_nat (8 * (n + len) div 2 ^ 32) :: u32)"
    unfolding d h by (cases "low < t") (simp_all only: if_True if_False of_nat_add of_nat_1 of_nat_0 ac_simps add_0_left add_0_right)
qed

section \<open>The incremental interface\<close>

text \<open>A digest that is fed piece by piece and agrees with a function of the whole message.\<close>

locale streaming_digest =
  fixes rel :: "'ctx \<Rightarrow> 'b list \<Rightarrow> bool"
    and ready :: "'g \<Rightarrow> bool"
    and start :: "'g \<Rightarrow> 'ctx"
    and feed :: "'ctx \<Rightarrow> 'b list \<Rightarrow> 'ctx"
    and finish :: "'ctx \<Rightarrow> 'd"
    and whole :: "'b list \<Rightarrow> 'd"
  assumes start_rel: "ready g \<Longrightarrow> rel (start g) []"
    and feed_rel: "rel c m \<Longrightarrow> length bs < 2 ^ 64 \<Longrightarrow> rel (feed c bs) (m @ bs)"
    and finish_rel: "rel c m \<Longrightarrow> finish c = whole m"
begin

lemma feed_all:
  "rel c m \<Longrightarrow> (\<forall>bs \<in> set pieces. length bs < 2 ^ 64) \<Longrightarrow> rel (foldl feed c pieces) (m @ concat pieces)"
proof (induction pieces arbitrary: c m)
  case (Cons bs pieces)
  then have "rel (feed c bs) (m @ bs)" by (intro feed_rel) simp_all
  from Cons.IH [OF this] Cons.prems(2) show ?case by simp
qed simp

lemma digest_of_pieces:
  "ready g \<Longrightarrow> (\<forall>bs \<in> set pieces. length bs < 2 ^ 64) \<Longrightarrow> finish (foldl feed (start g) pieces) = whole (concat pieces)"
  using finish_rel [OF feed_all [OF start_rel, of g pieces]] by simp

end

abbreviation md5_iv :: md5_buf where
  "md5_iv \<equiv> (0x67452301, 0xefcdab89, 0x98badcfe, 0x10325476)"

definition md5_rel :: "MD5Context \<Rightarrow> u8 list \<Rightarrow> bool" where
  "md5_rel ctx msg = (\<exists>A R. msg = A @ R \<and> 64 dvd length A \<and> length R < 64 \<and>
     md5_state ctx = md5_blocks md5_iv A \<and> length (md5_in ctx) = 64 \<and>
     take (length R) (md5_in ctx) = R \<and> bits0 ctx = of_nat (8 * length msg) \<and>
     bits1 ctx = of_nat (8 * length msg div 2 ^ 32))"

lemma md5_rel_init: "length garbage = 64 \<Longrightarrow> md5_rel (caml_MD5Init garbage) []"
  by (simp add: md5_rel_def caml_MD5Init_def)

lemma md5_rel_chunks:
  assumes "md5_state ctx = md5_blocks md5_iv A" "64 dvd length A" "length (md5_in ctx) = 64"
    and "bits0 ctx = of_nat (8 * length (A @ bs))" "bits1 ctx = of_nat (8 * length (A @ bs) div 2 ^ 32)"
  shows "md5_rel (md5_chunks ctx bs) (A @ bs)"
proof -
  from md5_chunks_correct [OF assms(3), of bs] obtain B R where
    B: "bs = B @ R" "64 dvd length B" "length R < 64"
      "md5_state (md5_chunks ctx bs) = md5_blocks (md5_state ctx) B"
      "length (md5_in (md5_chunks ctx bs)) = 64" "take (length R) (md5_in (md5_chunks ctx bs)) = R"
      "bits0 (md5_chunks ctx bs) = bits0 ctx" "bits1 (md5_chunks ctx bs) = bits1 ctx" by blast
  have "A @ bs = (A @ B) @ R" using B(1) by simp
  moreover have "64 dvd length (A @ B)" using assms(2) B(2) by simp
  moreover have "md5_state (md5_chunks ctx bs) = md5_blocks md5_iv (A @ B)"
    using B(4) assms(1,2) by (simp add: md5_blocks_append)
  ultimately show ?thesis
    unfolding md5_rel_def using B(3,5-8) assms(4,5)
    by (intro exI [of _ "A @ B"] exI [of _ R] conjI) (simp_all only: length_append)
qed

lemma md5_rel_update:
  assumes rel: "md5_rel ctx msg" and len: "length bs < 2 ^ 64"
  shows "md5_rel (caml_MD5Update ctx bs) (msg @ bs)"
proof -
  obtain A R where A: "msg = A @ R" "64 dvd length A" "length R < 64"
    "md5_state ctx = md5_blocks md5_iv A" "length (md5_in ctx) = 64" "take (length R) (md5_in ctx) = R"
    and b0: "bits0 ctx = of_nat (8 * length msg)" and b1: "bits1 ctx = of_nat (8 * length msg div 2 ^ 32)"
    using rel unfolding md5_rel_def by blast
  define low where "low = bits0 ctx + push_bit 3 (ucast (of_nat (length bs) :: u64))"
  define high where "high = (if low < bits0 ctx then bits1 ctx + 1 else bits1 ctx) +
      ucast (drop_bit 29 (of_nat (length bs) :: u64))"
  let ?c = "ctx\<lparr>bits0 := low, bits1 := high\<rparr>"
  have low: "low = of_nat (8 * length (msg @ bs))"
    using bit_count_update(1) [OF len b0 low_def] by simp
  have high: "high = of_nat (8 * length (msg @ bs) div 2 ^ 32)"
    unfolding high_def b1 using bit_count_update(2) [OF len b0 low_def] by simp
  have r: "unat (drop_bit 3 (bits0 ctx) AND 0x3f) = length R"
  proof -
    have "length msg mod 64 = length R" using A(1-3) by (simp add: mod_add_left_eq [symmetric])
    then show ?thesis unfolding b0 buffered .
  qed
  let ?t = "drop_bit 3 (bits0 ctx) AND 0x3f"
  have zero: "?t = 0 \<longleftrightarrow> R = []" using r by (metis length_0_conv unsigned_0 unsigned_word_eqI)
  show ?thesis
  proof (cases "R = []")
    case True
    then have "caml_MD5Update ctx bs = md5_chunks ?c bs"
      using zero by (simp add: caml_MD5Update_def Let_def low_def high_def)
    moreover have "md5_rel (md5_chunks ?c bs) (A @ bs)"
      using A True low high by (intro md5_rel_chunks) simp_all
    ultimately show ?thesis using A(1) True by simp
  next
    case False
    have "?t \<le> 64"
      using r A(3) by (simp add: word_le_nat_alt)
    then have n: "unat (64 - ?t) = 64 - length R"
      using r by (simp add: unat_sub)
    have upd: "caml_MD5Update ctx bs =
        (if length bs < 64 - length R then ?c\<lparr>md5_in := blit (length R) bs (md5_in ctx)\<rparr>
         else md5_chunks (md5_transform_in (?c\<lparr>md5_in := blit (length R) (take (64 - length R) bs) (md5_in ctx)\<rparr>))
                (drop (64 - length R) bs))"
      using False zero by (simp add: caml_MD5Update_def Let_def low_def high_def n r)
    show ?thesis
    proof (cases "length bs < 64 - length R")
      case True
      have "take (length (R @ bs)) (blit (length R) bs (md5_in ctx)) = R @ bs"
        using take_blit [of "length R" bs "md5_in ctx"] True A(5,6) by simp
      moreover have "length (blit (length R) bs (md5_in ctx)) = 64"
        using True A(5) by (simp add: length_blit)
      ultimately show ?thesis
        unfolding md5_rel_def upd using True A(1-4) low high
        by (intro exI [of _ A] exI [of _ "R @ bs"]) simp
    next
      case False
      let ?k = "64 - length R"
      let ?blk = "R @ take ?k bs"
      have blk: "blit (length R) (take ?k bs) (md5_in ctx) = ?blk" "length ?blk = 64"
        using False A(3,5,6) by (simp_all add: blit_all)
      let ?c2 = "md5_transform_in (?c\<lparr>md5_in := ?blk\<rparr>)"
      have st: "md5_state ?c2 = md5_blocks md5_iv (A @ ?blk)"
        using A(2,4) blk(2) by (simp add: md5_transform_in_def md5_blocks_append md5_blocks_one)
      have dv: "64 dvd length (A @ ?blk)" using A(2) blk(2) by (simp only: length_append) simp
      have "(A @ ?blk) @ drop ?k bs = msg @ bs" using A(1) by simp
      moreover have "md5_rel (md5_chunks ?c2 (drop ?k bs)) ((A @ ?blk) @ drop ?k bs)"
        using st dv blk(2) low high A(1) by (intro md5_rel_chunks) (simp_all add: md5_transform_in_def)
      ultimately show ?thesis using False by (simp only: upd blk(1) if_False)
    qed
  qed
qed

section \<open>The padding\<close>

definition holds_prefix :: "u8 list \<Rightarrow> u8 list \<Rightarrow> bool" where
  "holds_prefix P buf \<longleftrightarrow> length buf = 64 \<and> take (length P) buf = P"

lemma holds_prefix_blit:
  assumes "holds_prefix P buf" "length P + length src \<le> 64" "n = length P"
  shows "holds_prefix (P @ src) (blit n src buf)"
  using assms take_blit [of "length P" src buf] length_blit [of "length P" src buf]
  by (simp add: holds_prefix_def)

lemma holds_prefix_all: "holds_prefix P buf \<Longrightarrow> length P = 64 \<Longrightarrow> buf = P"
  by (auto simp: holds_prefix_def)

lemma holds_prefix_Nil: "holds_prefix [] buf \<longleftrightarrow> length buf = 64"
  by (simp add: holds_prefix_def)

definition count_bytes :: "nat \<Rightarrow> u8 list" where
  "count_bytes n = bytes_of_word (of_nat (8 * n)) @ bytes_of_word (of_nat (8 * n div 2 ^ 32))"

lemma length_count_bytes [simp]: "length (count_bytes n) = 8"
  by (simp add: count_bytes_def bytes_of_word_def)

lemma md5_pad_alt: "md5_pad n = [0x80] @ replicate ((119 - n mod 64) mod 64) 0 @ count_bytes n"
  unfolding md5_pad_def Let_def low_bits high_bits count_bytes_def ..

lemma md5_pad_short: "n mod 64 < 56 \<Longrightarrow> md5_pad n = [0x80] @ replicate (55 - n mod 64) 0 @ count_bytes n"
  unfolding md5_pad_alt by (simp add: mod_if [of "119 - n mod 64"])

lemma md5_pad_long:
  "56 \<le> n mod 64 \<Longrightarrow>
    md5_pad n = ([0x80] @ replicate (63 - n mod 64) 0) @ (replicate 56 0 @ count_bytes n)"
proof -
  assume r: "56 \<le> n mod 64"
  have "n mod 64 < 64" by simp
  with r have "(119 - n mod 64) mod 64 = (63 - n mod 64) + 56" by (simp add: mod_if [of "119 - n mod 64"])
  then show ?thesis unfolding md5_pad_alt by (simp only: replicate_add append_assoc)
qed

lemma MD5Final_short:
  assumes "unat (drop_bit 3 (bits0 ctx) AND 0x3F) = n" "n < 56"
  shows "caml_MD5Final ctx = md5_bytes (caml_MD5Transform (md5_state ctx)
    (longwords (blit 56 (bytes_of_word (bits0 ctx) @ bytes_of_word (bits1 ctx))
      (blit (n + 1) (replicate (63 - n - 8) 0) (blit n [0x80] (md5_in ctx))))))"
proof -
  have "\<not> 64 - 1 - n < 8" "64 - 1 - n = 63 - n" using assms(2) by simp_all
  then show ?thesis unfolding caml_MD5Final_def assms(1) Let_def md5_transform_in_def
    by (cases ctx) (simp only: if_False MD5Context.simps)
qed

lemma MD5Final_long:
  assumes "unat (drop_bit 3 (bits0 ctx) AND 0x3F) = n" "\<not> n < 56"
  shows "caml_MD5Final ctx = md5_bytes (caml_MD5Transform
    (caml_MD5Transform (md5_state ctx) (longwords (blit (n + 1) (replicate (63 - n) 0) (blit n [0x80] (md5_in ctx)))))
    (longwords (blit 56 (bytes_of_word (bits0 ctx) @ bytes_of_word (bits1 ctx))
      (blit 0 (replicate 56 0) (blit (n + 1) (replicate (63 - n) 0) (blit n [0x80] (md5_in ctx)))))))"
proof -
  have "64 - 1 - n < 8" "64 - 1 - n = 63 - n" using assms(2) by simp_all
  then show ?thesis unfolding caml_MD5Final_def assms(1) Let_def md5_transform_in_def
    by (cases ctx) (simp only: if_True MD5Context.simps)
qed

lemma md5_rel_final:
  assumes rel: "md5_rel ctx msg" shows "caml_MD5Final ctx = md5 msg"
proof -
  obtain A R where A: "msg = A @ R" "64 dvd length A" "length R < 64"
    "md5_state ctx = md5_blocks md5_iv A" "length (md5_in ctx) = 64" "take (length R) (md5_in ctx) = R"
    and b: "bits0 ctx = of_nat (8 * length msg)" "bits1 ctx = of_nat (8 * length msg div 2 ^ 32)"
    using rel unfolding md5_rel_def by blast
  have r: "length msg mod 64 = length R" using A(1-3) by (simp add: mod_add_left_eq [symmetric])
  have cnt: "unat (drop_bit 3 (bits0 ctx) AND 0x3F) = length R"
    unfolding b using buffered [of "length msg"] r by simp
  have h0: "holds_prefix R (md5_in ctx)" using A(5,6) by (simp add: holds_prefix_def)
  have h1: "holds_prefix (R @ [0x80]) (blit (length R) [0x80] (md5_in ctx))"
    using holds_prefix_blit [OF h0, of "[0x80]"] A(3) by simp
  let ?in1 = "blit (length R) [0x80] (md5_in ctx)"
  show ?thesis
  proof (cases "length R < 56")
    case True
    let ?B = "((R @ [0x80]) @ replicate (55 - length R) 0) @ count_bytes (length msg)"
    have h2: "holds_prefix ((R @ [0x80]) @ replicate (55 - length R) 0)
        (blit (length R + 1) (replicate (63 - length R - 8) 0) ?in1)"
      using holds_prefix_blit [OF h1, of "replicate (63 - length R - 8) 0"] True by simp
    have l: "length ?B = 64" using True by simp
    have "blit 56 (count_bytes (length msg))
        (blit (length R + 1) (replicate (63 - length R - 8) 0) ?in1) = ?B"
      by (rule holds_prefix_all [OF holds_prefix_blit [OF h2] l]) (use True in simp_all)
    then have "caml_MD5Final ctx = md5_bytes (caml_MD5Transform (md5_state ctx) (longwords ?B))"
      by (simp only: MD5Final_short [OF cnt True] b count_bytes_def)
    moreover have "md5_blocks md5_iv (msg @ md5_pad (length msg)) =
        caml_MD5Transform (md5_blocks md5_iv A) (longwords ?B)"
    proof -
      have "msg @ md5_pad (length msg) = A @ ?B"
        using A(1) r md5_pad_short [of "length msg"] True by simp
      then show ?thesis by (simp only: md5_blocks_append [OF A(2)] md5_blocks_one [OF l])
    qed
    ultimately show ?thesis unfolding md5_def A(4) by simp
  next
    case False
    let ?B1 = "(R @ [0x80]) @ replicate (63 - length R) 0"
    let ?B2 = "replicate 56 0 @ count_bytes (length msg)"
    have "holds_prefix ?B1 (blit (length R + 1) (replicate (63 - length R) 0) ?in1)"
      using holds_prefix_blit [OF h1, of "replicate (63 - length R) 0"] A(3) by simp
    then have B1: "blit (length R + 1) (replicate (63 - length R) 0) ?in1 = ?B1"
      using A(3) by (intro holds_prefix_all) simp_all
    have l1: "length ?B1 = 64" using A(3) by simp
    have h2: "holds_prefix (replicate 56 0) (blit 0 (replicate 56 0) ?B1)"
      using holds_prefix_blit [of "[]" ?B1 "replicate 56 0" 0] l1 by (simp add: holds_prefix_Nil)
    have B2: "blit 56 (count_bytes (length msg)) (blit 0 (replicate 56 0) ?B1) = ?B2"
      by (rule holds_prefix_all [OF holds_prefix_blit [OF h2]]) simp_all
    have "caml_MD5Final ctx =
        md5_bytes (caml_MD5Transform (caml_MD5Transform (md5_state ctx) (longwords ?B1)) (longwords ?B2))"
      by (simp only: MD5Final_long [OF cnt False] b B1 B2 [unfolded count_bytes_def] count_bytes_def)
    moreover have "md5_blocks md5_iv (msg @ md5_pad (length msg)) =
        caml_MD5Transform (caml_MD5Transform (md5_blocks md5_iv A) (longwords ?B1)) (longwords ?B2)"
    proof -
      have "msg @ md5_pad (length msg) = A @ ?B1 @ ?B2"
        using A(1) r md5_pad_long [of "length msg"] False by simp
      moreover have "64 dvd length ?B1" "length ?B2 = 64" using l1 by simp_all
      ultimately show ?thesis
        by (simp only: md5_blocks_append [OF A(2)] md5_blocks_append md5_blocks_one [OF l1] md5_blocks_one)
    qed
    ultimately show ?thesis unfolding md5_def A(4) by simp
  qed
qed

interpretation md5s: streaming_digest md5_rel "\<lambda>g. length g = 64" caml_MD5Init caml_MD5Update caml_MD5Final md5
  by unfold_locales (use md5_rel_init md5_rel_update md5_rel_final in auto)

section \<open>What the primitives compute\<close>

text \<open>
  C25: Feeding a message in any pieces to caml_MD5Update and finishing gives the MD5 of the
  whole message.
\<close>

theorem md5_incremental:
  assumes "length garbage = 64" and "\<forall>bs \<in> set pieces. length bs < 2 ^ 64"
  shows "caml_MD5Final (foldl caml_MD5Update (caml_MD5Init garbage) pieces) = md5 (concat pieces)"
  using assms by (rule md5s.digest_of_pieces)

theorem md5_incremental_witness:
  "caml_MD5Final (foldl caml_MD5Update (caml_MD5Init (replicate 64 7)) [[0x61, 0x62], [], [0x63]]) = md5 [0x61, 0x62, 0x63]"
proof -
  have c: "concat [[0x61, 0x62], [], [0x63 :: u8]] = [0x61, 0x62, 0x63]" by simp
  have "\<forall>bs \<in> set [[0x61, 0x62], [], [0x63 :: u8]]. length bs < 2 ^ 64"
    by (intro ballI le_less_trans [OF _ less_exp]) auto
  from md5_incremental [OF length_replicate this, of 7] show ?thesis by (simp only: c)
qed

text \<open>
  What \<open>caml_getblock\<close> promises, over the bytes a channel still has to give: a prefix of at
  most the length asked for, empty only at the end.
\<close>

definition getblock_ok :: "('c \<Rightarrow> u8 list) \<Rightarrow> ('c \<Rightarrow> nat \<Rightarrow> u8 list \<times> 'c) \<Rightarrow> bool" where
  "getblock_ok rest getblock \<longleftrightarrow> (\<forall>c n. 0 < n \<longrightarrow> (case getblock c n of (bs, c') \<Rightarrow>
     rest c = bs @ rest c' \<and> length bs \<le> n \<and> (bs = [] \<longrightarrow> rest c = [])))"

lemma getblock_okD:
  assumes "getblock_ok rest getblock" "getblock c n = (bs, c')" "0 < n"
  shows "rest c = bs @ rest c'" "length bs \<le> n" "bs = [] \<Longrightarrow> rest c = []"
proof -
  note d = assms(1) [unfolded getblock_ok_def, THEN spec, of c, THEN spec, of n, THEN mp, OF assms(3),
    unfolded assms(2) prod.case]
  show "rest c = bs @ rest c'" using d by (rule conjunct1)
  show "length bs \<le> n" using d [THEN conjunct2] by (rule conjunct1)
  show "rest c = []" if "bs = []" using d [THEN conjunct2, THEN conjunct2] that by (rule mp)
qed

lemma md5_read_all_correct:
  assumes gb: "getblock_ok rest getblock" and "md5_rel ctx m"
  shows "\<exists>ctx' chan'. md5_read_all getblock chan ctx = Some (ctx', chan') \<and>
    md5_rel ctx' (m @ rest chan) \<and> rest chan' = []"
  using assms(2)
proof (induction "length (rest chan)" arbitrary: chan ctx m rule: less_induct)
  case less
  obtain bs chan' where g: "getblock chan 4096 = (bs, chan')" by force
  note d = getblock_okD [OF gb g]
  show ?case
  proof (cases "bs = []")
    case True
    then show ?thesis using d less.prems by (subst md5_read_all.simps) (simp add: g)
  next
    case False
    have "md5_rel (caml_MD5Update ctx bs) (m @ bs)"
      using less.prems d(2) by (intro md5s.feed_rel) simp_all
    moreover have "length (rest chan') < length (rest chan)" using d(1) False by simp
    ultimately show ?thesis
      using less.hyps [of chan' "caml_MD5Update ctx bs" "m @ bs"] False d(1)
      by (subst md5_read_all.simps) (simp add: g)
  qed
qed

lemma md5_read_correct:
  assumes gb: "getblock_ok rest getblock" and "md5_rel ctx m"
  shows "if int (length (rest chan)) < toread then md5_read getblock toread chan ctx = Some (Inl ''End_of_file'')
    else \<exists>ctx' chan'. md5_read getblock toread chan ctx = Some (Inr (ctx', chan')) \<and>
      md5_rel ctx' (m @ take (nat toread) (rest chan)) \<and> rest chan' = drop (nat toread) (rest chan)"
  using assms(2)
proof (induction "nat toread" arbitrary: toread chan ctx m rule: less_induct)
  case less
  show ?case
  proof (cases "0 < toread")
    case False
    then show ?thesis using less.prems by (subst (1 2) md5_read.simps) simp
  next
    case True
    define n where "n = (if 4096 < toread then 4096 else nat toread)"
    obtain bs chan' where g: "getblock chan n = (bs, chan')" by force
    have n: "0 < n" "int n \<le> toread" "n \<le> 4096" using True by (auto simp: n_def)
    note d = getblock_okD [OF gb g n(1)]
    have run: "md5_read getblock toread chan ctx = (if bs = [] then Some (Inl ''End_of_file'')
        else md5_read getblock (toread - int (length bs)) chan' (caml_MD5Update ctx bs))"
      using True g by (subst md5_read.simps) (simp add: n_def)
    show ?thesis
    proof (cases "bs = []")
      case True
      then show ?thesis using d(1,3) \<open>0 < toread\<close> by (simp add: run)
    next
      case False
      have rel: "md5_rel (caml_MD5Update ctx bs) (m @ bs)"
        using less.prems d(2) n(3) by (intro md5s.feed_rel) simp_all
      have "0 < length bs" using False by simp
      then have dec: "nat (toread - int (length bs)) < nat toread" using \<open>0 < toread\<close> by linarith
      have le: "int (length bs) \<le> toread" using d(2) n(2) by simp
      then have t: "nat toread = length bs + nat (toread - int (length bs))" by simp
      have "take (nat toread) (rest chan) = bs @ take (nat (toread - int (length bs))) (rest chan')"
        "drop (nat toread) (rest chan) = drop (nat (toread - int (length bs))) (rest chan')"
        unfolding d(1) t by simp_all
      moreover have "int (length (rest chan)) < toread \<longleftrightarrow> int (length (rest chan')) < toread - int (length bs)"
        unfolding d(1) by auto
      ultimately show ?thesis using less.hyps [OF dec rel, of chan'] False
        by (cases "int (length (rest chan)) < toread") (simp_all add: run)
    qed
  qed
qed

text \<open>
  C26: caml_md5_channel returns the digest of the bytes asked for, or of the rest of the
  channel, and raises End_of_file exactly when there are too few.
\<close>

theorem md5_channel_correct:
  assumes "length garbage = 64" and "getblock_ok rest getblock"
  shows "if int (length (rest chan)) < toread
    then caml_md5_channel garbage getblock chan toread = Some (Inl ''End_of_file'')
    else \<exists>chan'. caml_md5_channel garbage getblock chan toread =
        Some (Inr (md5 (if toread < 0 then rest chan else take (nat toread) (rest chan)), chan')) \<and>
      rest chan' = (if toread < 0 then [] else drop (nat toread) (rest chan))"
proof (cases "toread < 0")
  case True
  from md5_read_all_correct [OF assms(2) md5_rel_init [OF assms(1)], of chan]
  show ?thesis using True md5s.finish_rel by (fastforce simp: caml_md5_channel_def)
next
  case False
  from md5_read_correct [OF assms(2) md5_rel_init [OF assms(1)], of chan toread]
  show ?thesis using False md5s.finish_rel by (fastforce simp: caml_md5_channel_def split: if_splits)
qed

theorem md5_channel_correct_witness:
  "getblock_ok id (\<lambda>c n. (take n c, drop n c)) \<and>
   caml_md5_channel (replicate 64 0) (\<lambda>c n. (take n c, drop n c)) [1, 2, 3] 5 = Some (Inl ''End_of_file'') \<and>
   caml_md5_channel (replicate 64 0) (\<lambda>c n. (take n c, drop n c)) [1, 2, 3] 2 = Some (Inr (md5 [1, 2], [3]))"
proof -
  have ok: "getblock_ok id (\<lambda>c n. (take n c, drop n c))" by (simp add: getblock_ok_def)
  show ?thesis
    using ok md5_channel_correct [OF _ ok, of "replicate 64 0" "[1, 2, 3]" 5]
      md5_channel_correct [OF _ ok, of "replicate 64 0" "[1, 2, 3]" 2] by auto
qed

end
