(* ===== verification/Gc_Dispatch.thy ===== *)
theory Gc_Dispatch
  imports Sample_State
begin

text \<open>
  Pending actions and the dispatch to the collectors: \<open>caml_raise\<close> (\<^verbatim>\<open>runtime/fail_byt.c\<close>),
  \<open>caml_do_pending_actions_exn\<close> and its callers (\<^verbatim>\<open>runtime/signals.c\<close>), \<open>caml_gc_dispatch\<close>,
  \<open>caml_alloc_small_dispatch\<close>, \<open>caml_minor_collection\<close> and \<open>caml_check_urgent_gc\<close>
  (\<^verbatim>\<open>runtime/minor_gc.c\<close>), and \<open>caml_alloc_small\<close> (\<^verbatim>\<open>runtime/alloc.c\<close>). The two collections,
  the signal, memprof and finaliser callbacks are parameters.

  An allocation made by C code is shown to return whatever the state of the minor heap, with
  the block inside the allocation arena.
\<close>

section \<open>Raising\<close>

definition caml_raise :: "u64 \<Rightarrow> caml_state \<Rightarrow> ('r, caml_state) cres" where
  "caml_raise v s =
    (let s1 = s\<lparr>exn_bucket := v\<rparr>
     in if external_raise s1 = 0 then Fatal ''uncaught exception'' else Longjmp s1)"

definition caml_raise_if_exception :: "u64 \<Rightarrow> caml_state \<Rightarrow> (u64, caml_state) cres" where
  "caml_raise_if_exception res s =
    (if Is_exception_result res then caml_raise (Extract_exception res) s else Ret res s)"

section \<open>Dispatching to the collectors\<close>

definition caml_gc_dispatch :: "rt \<Rightarrow> caml_state \<Rightarrow> (unit, caml_state) cres" where
  "caml_gc_dispatch rt s =
    (let trigger = young_trigger s
     in cbind
          (if trigger = young_alloc_start s \<or> requested_minor_gc s then
             cbind (rt_empty_minor_heap rt (caml_update_young_limit
                      (s\<lparr>requested_minor_gc := False, young_trigger := young_alloc_mid s\<rparr>)))
               (\<lambda>_ s. if caml_gc_phase s = Phase_idle then rt_major_collection_slice rt s else Ret () s)
           else Ret () s)
          (\<lambda>_ s. if trigger \<noteq> young_alloc_start s \<or> requested_major_slice s then
                   rt_major_collection_slice rt (caml_update_young_limit
                     (s\<lparr>requested_major_slice := False, young_trigger := young_alloc_start s\<rparr>))
                 else Ret () s))"

definition caml_minor_collection :: "rt \<Rightarrow> caml_state \<Rightarrow> (unit, caml_state) cres" where
  "caml_minor_collection rt s = caml_gc_dispatch rt (s\<lparr>requested_minor_gc := True\<rparr>)"

text \<open>\<open>CAMLparam1\<close> and \<open>CAMLdrop\<close> around a call: the value as the collector leaves it.\<close>

definition with_root :: "u64 \<Rightarrow> (caml_state \<Rightarrow> ('r, caml_state) cres) \<Rightarrow> caml_state \<Rightarrow>
    ('r \<times> u64, caml_state) cres" where
  "with_root v f s =
    cbind (f (s\<lparr>c_roots := v # c_roots s\<rparr>))
      (\<lambda>r s. Ret (r, hd (c_roots s)) (s\<lparr>c_roots := tl (c_roots s)\<rparr>))"

definition caml_check_urgent_gc :: "rt \<Rightarrow> u64 \<Rightarrow> caml_state \<Rightarrow> (u64, caml_state) cres" where
  "caml_check_urgent_gc rt extra_root s =
    (if requested_major_slice s \<or> requested_minor_gc s
     then cbind (with_root extra_root (caml_gc_dispatch rt) s) (\<lambda>(_, v) s. Ret v s)
     else Ret extra_root s)"

section \<open>Pending actions\<close>

definition caml_do_pending_actions_exn :: "rt \<Rightarrow> caml_state \<Rightarrow> (u64, caml_state) cres" where
  "caml_do_pending_actions_exn rt s =
    cbind (caml_check_urgent_gc rt Val_unit (s\<lparr>caml_something_to_do := False\<rparr>)) (\<lambda>_ s.
    cbind (rt_process_signals_exn rt (caml_update_young_limit s)) (\<lambda>exn s.
    if Is_exception_result exn then Ret exn (caml_set_action_pending s) else
    cbind (rt_memprof_postponed_exn rt s) (\<lambda>exn s.
    if Is_exception_result exn then Ret exn (caml_set_action_pending s) else
    cbind (rt_final_do_calls_exn rt s) (\<lambda>exn s.
    if Is_exception_result exn then Ret exn (caml_set_action_pending s) else Ret Val_unit s))))"

definition process_pending_actions_with_root_exn :: "rt \<Rightarrow> u64 \<Rightarrow> caml_state \<Rightarrow>
    (u64, caml_state) cres" where
  "process_pending_actions_with_root_exn rt extra_root s =
    (if caml_something_to_do s then
       cbind (with_root extra_root (caml_do_pending_actions_exn rt) s) (\<lambda>(exn, v) s.
         if Is_exception_result exn then Ret exn s else Ret v s)
     else Ret extra_root s)"

definition caml_process_pending_actions_with_root :: "rt \<Rightarrow> u64 \<Rightarrow> caml_state \<Rightarrow>
    (u64, caml_state) cres" where
  "caml_process_pending_actions_with_root rt extra_root s =
    cbind (process_pending_actions_with_root_exn rt extra_root s) caml_raise_if_exception"

definition caml_process_pending_actions :: "rt \<Rightarrow> caml_state \<Rightarrow> (unit, caml_state) cres" where
  "caml_process_pending_actions rt s =
    cbind (cbind (process_pending_actions_with_root_exn rt Val_unit s) caml_raise_if_exception)
      (\<lambda>_ s. Ret () s)"

section \<open>Small allocations\<close>

text \<open>
  The loop of \<open>caml_alloc_small_dispatch\<close>. \<open>None\<close> is a loop that does not end. \<open>whsize\<close> is in
  bytes.
\<close>

definition dispatch_actions :: "rt \<Rightarrow> bool \<Rightarrow> caml_state \<Rightarrow> (unit, caml_state) cres" where
  "dispatch_actions rt from_caml s =
    (if from_caml
     then cbind (cbind (caml_do_pending_actions_exn rt s) caml_raise_if_exception) (\<lambda>_ s. Ret () s)
     else cbind (caml_check_urgent_gc rt Val_unit s) (\<lambda>_ s. Ret () (s\<lparr>caml_something_to_do := True\<rparr>)))"

partial_function (option) dispatch_loop :: "rt \<Rightarrow> bool \<Rightarrow> u64 \<Rightarrow> caml_state \<Rightarrow>
    (unit, caml_state) cres option" where
  "dispatch_loop rt from_caml whsize s =
    (case dispatch_actions rt from_caml s of
       Ret _ s1 \<Rightarrow>
         if young_trigger s1 \<le> young_ptr s1 - whsize then Some (Ret () s1)
         else (case caml_gc_dispatch rt s1 of
                 Ret _ s2 \<Rightarrow> dispatch_loop rt from_caml whsize s2
               | Longjmp s2 \<Rightarrow> Some (Longjmp s2) | Fatal e \<Rightarrow> Some (Fatal e) | Diverge \<Rightarrow> Some Diverge)
     | Longjmp s1 \<Rightarrow> Some (Longjmp s1) | Fatal e \<Rightarrow> Some (Fatal e) | Diverge \<Rightarrow> Some Diverge)"

definition caml_alloc_small_dispatch :: "rt \<Rightarrow> u64 \<Rightarrow> bool \<Rightarrow> bool \<Rightarrow> caml_state \<Rightarrow>
    (unit, caml_state) cres" where
  "caml_alloc_small_dispatch rt wosize from_caml track s =
    (let whsize = 8 * Whsize_wosize wosize
     in case dispatch_loop rt from_caml whsize (s\<lparr>young_ptr := young_ptr s + whsize\<rparr>) of
          None \<Rightarrow> Diverge
        | Some r \<Rightarrow> cbind r (\<lambda>_ s.
            (let s1 = s\<lparr>young_ptr := young_ptr s - whsize\<rparr>
             in if young_ptr s1 < caml_memprof_young_trigger s1
                then (if track then rt_memprof_track_young rt wosize from_caml s1
                      else Ret () (rt_memprof_renew_minor_sample rt s1))
                else Ret () s1)))"

definition caml_alloc_small :: "rt \<Rightarrow> u64 \<Rightarrow> u32 \<Rightarrow> caml_state \<Rightarrow> (u64, caml_state) cres" where
  "caml_alloc_small rt wosize tag s =
    (let s1 = s\<lparr>young_ptr := young_ptr s - 8 * Whsize_wosize wosize\<rparr>
     in cbind (if young_ptr s1 < young_limit s1
               then caml_alloc_small_dispatch rt wosize False True s1 else Ret () s1)
          (\<lambda>_ s. Ret (Val_hp (young_ptr s))
                   (store_at (young_ptr s) (Make_header wosize tag Caml_white) s)))"

text \<open>The environment in which the interpreter's allocations and polls use this machinery.\<close>

definition dispatching_rt :: "rt \<Rightarrow> rt" where
  "dispatching_rt rt = rt\<lparr>
    rt_alloc_small_dispatch := (\<lambda>wosize. caml_alloc_small_dispatch rt wosize True True),
    rt_process_pending_actions := caml_process_pending_actions rt\<rparr>"

section \<open>The allocation arena\<close>

text \<open>
  The arena has room for the largest small block in each half, the trigger is its start or
  its middle, and the limit is not below the trigger.
\<close>

definition arena :: "caml_state \<Rightarrow> u64 \<times> u64 \<times> u64" where
  "arena s = (young_alloc_start s, young_alloc_mid s, young_alloc_end s)"

definition young_wf :: "caml_state \<Rightarrow> bool" where
  "young_wf s \<longleftrightarrow>
     2056 \<le> unat (young_alloc_start s) \<and>
     unat (young_alloc_start s) + 2056 \<le> unat (young_alloc_mid s) \<and>
     unat (young_alloc_mid s) + 2056 \<le> unat (young_alloc_end s) \<and>
     (young_trigger s = young_alloc_start s \<or> young_trigger s = young_alloc_mid s) \<and>
     young_trigger s \<le> young_limit s \<and>
     young_alloc_start s \<le> young_ptr s \<and> young_ptr s \<le> young_alloc_end s \<and>
     aligned (young_ptr s) \<and> aligned (young_alloc_end s)"

text \<open>
  What the collectors promise: a minor collection leaves the minor heap empty, a slice of the
  major collection does not allocate in it, and neither moves the arena or the trigger.
\<close>

definition collector_ok :: "rt \<Rightarrow> bool" where
  "collector_ok rt \<longleftrightarrow>
    (\<forall>s. young_wf s \<longrightarrow> (\<exists>t. rt_empty_minor_heap rt s = Ret () t \<and> young_wf t \<and> arena t = arena s \<and>
       young_trigger t = young_trigger s \<and> young_ptr t = young_alloc_end t)) \<and>
    (\<forall>s. young_wf s \<longrightarrow> (\<exists>t. rt_major_collection_slice rt s = Ret () t \<and> young_wf t \<and> arena t = arena s \<and>
       young_trigger t = young_trigger s \<and> young_ptr t = young_ptr s)) \<and>
    (\<forall>s wosize. young_wf s \<longrightarrow> (\<exists>t. rt_memprof_track_young rt wosize False s = Ret () t \<and> young_wf t \<and>
       arena t = arena s \<and> young_ptr t = young_ptr s))"

lemma collector_okD:
  assumes "collector_ok rt" "young_wf s"
  shows "\<exists>t. rt_empty_minor_heap rt s = Ret () t \<and> young_wf t \<and> arena t = arena s \<and>
       young_trigger t = young_trigger s \<and> young_ptr t = young_alloc_end t"
    and "\<exists>t. rt_major_collection_slice rt s = Ret () t \<and> young_wf t \<and> arena t = arena s \<and>
       young_trigger t = young_trigger s \<and> young_ptr t = young_ptr s"
    and "\<exists>t. rt_memprof_track_young rt wosize False s = Ret () t \<and> young_wf t \<and>
       arena t = arena s \<and> young_ptr t = young_ptr s"
  using assms by (simp_all add: collector_ok_def)

lemma young_wf_roots [simp]: "young_wf (s\<lparr>c_roots := r\<rparr>) = young_wf s" "arena (s\<lparr>c_roots := r\<rparr>) = arena s"
  by (simp_all add: young_wf_def arena_def)

lemma young_wf_todo [simp]:
  "young_wf (s\<lparr>caml_something_to_do := b\<rparr>) = young_wf s" "arena (s\<lparr>caml_something_to_do := b\<rparr>) = arena s"
  by (simp_all add: young_wf_def arena_def)

lemma arena_order:
  assumes "young_wf s"
  shows "young_alloc_start s < young_alloc_mid s" "young_alloc_mid s < young_alloc_end s"
    "young_trigger s \<le> young_alloc_mid s" "young_alloc_start s \<le> young_trigger s"
  using assms by (auto simp: young_wf_def word_less_nat_alt word_le_nat_alt)

text \<open>Moving the trigger and recomputing the limit keeps the arena well formed.\<close>

lemma young_wf_retrigger:
  assumes "young_wf s" "young_trigger t = young_alloc_start s \<or> young_trigger t = young_alloc_mid s"
    and "arena t = arena s" "young_ptr t = young_ptr s"
  shows "young_wf (caml_update_young_limit t)"
proof -
  have "young_trigger t \<le> young_limit (caml_update_young_limit t)"
    using assms arena_order [OF assms(1)] by (auto simp: caml_update_young_limit_def arena_def)
  then show ?thesis
    using assms by (auto simp: young_wf_def arena_def caml_update_young_limit_def)
qed

lemma update_young_limit_fields [simp]:
  "arena (caml_update_young_limit t) = arena t" "young_ptr (caml_update_young_limit t) = young_ptr t"
  "young_trigger (caml_update_young_limit t) = young_trigger t"
  "young_alloc_start (caml_update_young_limit t) = young_alloc_start t"
  "young_alloc_mid (caml_update_young_limit t) = young_alloc_mid t"
  "young_alloc_end (caml_update_young_limit t) = young_alloc_end t"
  by (simp_all add: caml_update_young_limit_def arena_def)

text \<open>How far a state is from an empty minor heap.\<close>

definition gc_rank :: "caml_state \<Rightarrow> nat" where
  "gc_rank s = (if young_ptr s = young_alloc_end s then 0
                else if young_trigger s = young_alloc_start s then 1 else 2)"

lemma gc_rank_roots [simp]: "gc_rank (s\<lparr>c_roots := r\<rparr>) = gc_rank s"
  "gc_rank (s\<lparr>caml_something_to_do := b\<rparr>) = gc_rank s"
  by (simp_all add: gc_rank_def)

lemma slice_start:
  assumes "collector_ok rt" "young_wf s"
  shows "\<exists>t. rt_major_collection_slice rt (caml_update_young_limit
      (s\<lparr>requested_major_slice := False, young_trigger := young_alloc_start s\<rparr>)) = Ret () t \<and>
    young_wf t \<and> arena t = arena s \<and> young_trigger t = young_alloc_start s \<and> young_ptr t = young_ptr s"
proof -
  let ?s = "caml_update_young_limit (s\<lparr>requested_major_slice := False, young_trigger := young_alloc_start s\<rparr>)"
  have "young_wf ?s" by (rule young_wf_retrigger [OF assms(2)]) (simp_all add: arena_def)
  from collector_okD(2) [OF assms(1) this] show ?thesis by (simp add: arena_def)
qed

lemma minor_then_idle_slice:
  assumes "collector_ok rt" "young_wf s"
  shows "\<exists>t. cbind (rt_empty_minor_heap rt (caml_update_young_limit
        (s\<lparr>requested_minor_gc := False, young_trigger := young_alloc_mid s\<rparr>)))
      (\<lambda>_ s. if caml_gc_phase s = Phase_idle then rt_major_collection_slice rt s else Ret () s) = Ret () t \<and>
    young_wf t \<and> arena t = arena s \<and> young_trigger t = young_alloc_mid s \<and> young_ptr t = young_alloc_end t"
proof -
  let ?s = "caml_update_young_limit (s\<lparr>requested_minor_gc := False, young_trigger := young_alloc_mid s\<rparr>)"
  have "young_wf ?s" by (rule young_wf_retrigger [OF assms(2)]) (simp_all add: arena_def)
  from collector_okD(1) [OF assms(1) this] obtain t where
    t: "rt_empty_minor_heap rt ?s = Ret () t" "young_wf t" "arena t = arena s"
      "young_trigger t = young_alloc_mid s" "young_ptr t = young_alloc_end t"
    by (auto simp: arena_def)
  from collector_okD(2) [OF assms(1) t(2)] t show ?thesis by (auto simp: arena_def)
qed

lemma gc_dispatch_progress:
  assumes "collector_ok rt" "young_wf s"
  shows "\<exists>t. caml_gc_dispatch rt s = Ret () t \<and> young_wf t \<and> arena t = arena s \<and>
    (gc_rank t < gc_rank s \<or> gc_rank t = 0)"
proof (cases "young_trigger s = young_alloc_start s \<or> requested_minor_gc s")
  case True
  from minor_then_idle_slice [OF assms] obtain t where t:
    "cbind (rt_empty_minor_heap rt (caml_update_young_limit
        (s\<lparr>requested_minor_gc := False, young_trigger := young_alloc_mid s\<rparr>)))
      (\<lambda>_ s. if caml_gc_phase s = Phase_idle then rt_major_collection_slice rt s else Ret () s) = Ret () t"
    "young_wf t" "arena t = arena s" "young_ptr t = young_alloc_end t" by blast
  from slice_start [OF assms(1) t(2)] obtain u where u:
    "rt_major_collection_slice rt (caml_update_young_limit
      (t\<lparr>requested_major_slice := False, young_trigger := young_alloc_start t\<rparr>)) = Ret () u"
    "young_wf u" "arena u = arena t" "young_ptr u = young_ptr t" by blast
  have "gc_rank t = 0" "gc_rank u = 0" using t u by (simp_all add: gc_rank_def arena_def)
  then show ?thesis
    unfolding caml_gc_dispatch_def Let_def using True t u by (simp only: if_True) simp
next
  case False
  then have "young_trigger s = young_alloc_mid s" using assms(2) by (simp add: young_wf_def)
  moreover from slice_start [OF assms] obtain u where u:
    "rt_major_collection_slice rt (caml_update_young_limit
      (s\<lparr>requested_major_slice := False, young_trigger := young_alloc_start s\<rparr>)) = Ret () u"
    "young_wf u" "arena u = arena s" "young_trigger u = young_alloc_start s" "young_ptr u = young_ptr s" by blast
  moreover have "gc_rank u < gc_rank s \<or> gc_rank u = 0"
    using u False by (auto simp: gc_rank_def arena_def)
  ultimately show ?thesis using False by (auto simp: caml_gc_dispatch_def Let_def)
qed

lemma dispatch_actions_c:
  assumes "collector_ok rt" "young_wf s"
  shows "\<exists>t. dispatch_actions rt False s = Ret () t \<and> young_wf t \<and> arena t = arena s \<and>
    gc_rank t \<le> gc_rank s"
proof (cases "requested_major_slice s \<or> requested_minor_gc s")
  case True
  have "young_wf (s\<lparr>c_roots := Val_unit # c_roots s\<rparr>)" using assms(2) by simp
  from gc_dispatch_progress [OF assms(1) this] True show ?thesis
    by (auto simp: dispatch_actions_def caml_check_urgent_gc_def with_root_def)
next
  case False
  then show ?thesis using assms(2)
    by (simp add: dispatch_actions_def caml_check_urgent_gc_def)
qed

lemma empty_has_room:
  assumes "young_wf s" "gc_rank s = 0" "unat w \<le> 2056"
  shows "young_trigger s \<le> young_ptr s - w"
proof -
  have p: "young_ptr s = young_alloc_end s" using assms(2) by (simp add: gc_rank_def split: if_splits)
  have "unat (young_alloc_end s - w) = unat (young_alloc_end s) - unat w"
    using assms(1,3) by (intro unat_sub) (simp add: young_wf_def word_le_nat_alt)
  then show ?thesis
    using assms(1,3) arena_order(3) [OF assms(1)] unfolding p young_wf_def word_le_nat_alt by linarith
qed

lemma dispatch_loop_c:
  assumes "collector_ok rt" "young_wf s" "unat w \<le> 2056"
  shows "\<exists>t. dispatch_loop rt False w s = Some (Ret () t) \<and> young_wf t \<and> arena t = arena s \<and>
    young_trigger t \<le> young_ptr t - w"
  using assms(2)
proof (induction "gc_rank s" arbitrary: s rule: less_induct)
  case less
  from dispatch_actions_c [OF assms(1) less.prems] obtain s1 where
    s1: "dispatch_actions rt False s = Ret () s1" "young_wf s1" "arena s1 = arena s" "gc_rank s1 \<le> gc_rank s"
    by blast
  show ?case
  proof (cases "young_trigger s1 \<le> young_ptr s1 - w")
    case True
    then show ?thesis using s1 by (subst dispatch_loop.simps) simp
  next
    case False
    with empty_has_room [OF s1(2) _ assms(3)] have r: "gc_rank s1 \<noteq> 0" by blast
    from gc_dispatch_progress [OF assms(1) s1(2)] obtain s2 where
      s2: "caml_gc_dispatch rt s1 = Ret () s2" "young_wf s2" "arena s2 = arena s1"
        "gc_rank s2 < gc_rank s1 \<or> gc_rank s2 = 0" by blast
    then have "gc_rank s2 < gc_rank s" using r s1(4) by auto
    from less.hyps [OF this s2(2)] show ?thesis
      using False s1 s2 by (subst dispatch_loop.simps) simp
  qed
qed

lemma whsize_small:
  assumes "wosize \<le> Max_young_wosize"
  shows "unat (8 * Whsize_wosize wosize) = 8 * (unat wosize + 1)" "unat wosize \<le> 256"
proof -
  show "unat wosize \<le> 256" using assms by (simp add: Max_young_wosize_def word_le_nat_alt)
  then show "unat (8 * Whsize_wosize wosize) = 8 * (unat wosize + 1)"
    by (simp add: Whsize_wosize_def unat_word_ariths)
qed

lemma aligned_minus_words: "aligned a \<Longrightarrow> aligned (a - 8 * x)"
  using aligned_add [of a "8 * (- x)"] aligned_mult8 [of "- x"] by simp

lemma alloc_small_ok:
  assumes "young_wf s" and "collector_ok rt" and "wosize \<le> Max_young_wosize"
  shows "\<exists>v t. caml_alloc_small rt wosize tag s = Ret v t \<and> young_wf t \<and> arena t = arena s \<and>
    Hd_val (mem t) v = Make_header wosize tag Caml_white \<and> v = Val_hp (young_ptr t) \<and>
    young_alloc_start t \<le> Hp_val v \<and> unat v + 8 * unat wosize \<le> unat (young_alloc_end t)"
proof -
  define w where "w = 8 * Whsize_wosize wosize"
  note ws = whsize_small [OF assms(3)]
  have w: "unat w = 8 * (unat wosize + 1)" "unat w \<le> 2056" using ws by (simp_all add: w_def)
  have placed: "?thesis" if run: "caml_alloc_small rt wosize tag s =
      Ret (Val_hp (young_ptr u)) (store_at (young_ptr u) (Make_header wosize tag Caml_white) u)"
    and u: "young_wf u" "arena u = arena s" "unat (young_ptr u) + unat w \<le> unat (young_alloc_end u)" for u
  proof -
    let ?t = "store_at (young_ptr u) (Make_header wosize tag Caml_white) u"
    have "young_wf ?t" "arena ?t = arena s"
      using u by (simp_all add: young_wf_def arena_def store_at_def)
    moreover have "unat (young_ptr u + 8) = unat (young_ptr u) + 8"
      using u(3) w(1) unat_range64 [of "young_alloc_end u"] by (simp add: unat_word_ariths)
    ultimately show ?thesis
      unfolding run using u w(1)
      by (intro exI [of _ "Val_hp (young_ptr u)"] exI [of _ ?t])
         (simp add: Hd_val_def Val_hp_def Hp_val_def store_at_def young_wf_def)
  qed
  have sub: "unat (p - w) = unat p - unat w" if "2056 \<le> unat p" for p
    using that w(2) by (intro unat_sub) (simp add: word_le_nat_alt)
  have big: "2056 \<le> unat (young_ptr x)" if "young_wf x" for x
    using that by (simp add: young_wf_def word_le_nat_alt)
  show ?thesis
  proof (cases "young_ptr s - w < young_limit s")
    case False
    let ?u = "s\<lparr>young_ptr := young_ptr s - w\<rparr>"
    have "young_alloc_start s \<le> young_ptr s - w"
      using False assms(1) arena_order(4) [OF assms(1)] unfolding young_wf_def word_le_nat_alt word_less_nat_alt
      by linarith
    moreover have "young_ptr s - w \<le> young_alloc_end s"
      using assms(1) sub [OF big [OF assms(1)]] unfolding young_wf_def word_le_nat_alt by linarith
    ultimately have "young_wf ?u" using assms(1) by (simp add: young_wf_def w_def aligned_minus_words)
    moreover have "unat (young_ptr s - w) + unat w \<le> unat (young_alloc_end s)"
      using sub [OF big [OF assms(1)]] big [OF assms(1)] w(2) assms(1)
      unfolding young_wf_def word_le_nat_alt by linarith
    moreover have "caml_alloc_small rt wosize tag s =
        Ret (Val_hp (young_ptr ?u)) (store_at (young_ptr ?u) (Make_header wosize tag Caml_white) ?u)"
      using False by (simp add: caml_alloc_small_def w_def)
    ultimately show ?thesis by (intro placed [of ?u]) (simp_all add: arena_def)
  next
    case True
    from dispatch_loop_c [OF assms(2,1) w(2)] obtain t where
      t: "dispatch_loop rt False w s = Some (Ret () t)" "young_wf t" "arena t = arena s"
        "young_trigger t \<le> young_ptr t - w" by blast
    define t1 where "t1 = t\<lparr>young_ptr := young_ptr t - w\<rparr>"
    have al: "aligned (young_ptr t - w)" using t(2) by (simp add: young_wf_def w_def aligned_minus_words)
    have le: "unat (young_ptr t - w) = unat (young_ptr t) - unat w" by (rule sub [OF big [OF t(2)]])
    have t1: "young_wf t1" "unat (young_ptr t1) + unat w \<le> unat (young_alloc_end t1)"
      using t(2,4) arena_order(4) [OF t(2)] le big [OF t(2)] w(2)
      by (auto simp: t1_def young_wf_def word_le_nat_alt w_def [symmetric] al)
    from collector_okD(3) [OF assms(2) t1(1), of wosize] obtain t2 where
      t2: "rt_memprof_track_young rt wosize False t1 = Ret () t2" "young_wf t2" "arena t2 = arena t1"
        "young_ptr t2 = young_ptr t1" by blast
    have fld: "young_ptr t - w = young_ptr t1" "caml_memprof_young_trigger t = caml_memprof_young_trigger t1"
      "t\<lparr>young_ptr := young_ptr t1\<rparr> = t1"
      by (simp_all add: t1_def)
    define u where "u = (if young_ptr t1 < caml_memprof_young_trigger t1 then t2 else t1)"
    have "caml_alloc_small rt wosize tag s =
        Ret (Val_hp (young_ptr u)) (store_at (young_ptr u) (Make_header wosize tag Caml_white) u)"
      using True t(1) t2(1) fld
      by (simp add: caml_alloc_small_def caml_alloc_small_dispatch_def Let_def w_def [symmetric] u_def)
    moreover have "young_wf u" "arena u = arena s" "unat (young_ptr u) + unat w \<le> unat (young_alloc_end u)"
      using t1 t2 t(3) by (auto simp: u_def t1_def arena_def)
    ultimately show ?thesis by (rule placed)
  qed
qed



end
