(* ===== verification/Alloc.thy ===== *)
theory Alloc
  imports Gc_Dispatch Barrier
begin

text \<open>
  Allocation by the C primitives: \<^verbatim>\<open>runtime/alloc.c\<close> (blocks, strings, float arrays, the dummy
  blocks of recursive definitions), \<^verbatim>\<open>runtime/custom.c\<close> (custom blocks) and
  \<open>caml_adjust_gc_speed\<close> (\<^verbatim>\<open>runtime/memory.c\<close>), with the raw memory functions they use.
\<close>

section \<open>Memory blocks\<close>

definition load_bytes :: "store \<Rightarrow> u64 \<Rightarrow> nat \<Rightarrow> u8 list" where
  "load_bytes m a n = map (\<lambda>i. load_byte m (a + of_nat i)) [0..<n]"

fun store_bytes :: "u64 \<Rightarrow> u8 list \<Rightarrow> store \<Rightarrow> store" where
  "store_bytes a [] m = m"
| "store_bytes a (b # bs) m = store_bytes (a + 1) bs (store_byte a b m)"

text \<open>\<open>memmove\<close> of words and of bytes, and \<open>memset\<close>.\<close>

definition move_words :: "u64 \<Rightarrow> u64 \<Rightarrow> nat \<Rightarrow> store \<Rightarrow> store" where
  "move_words dst src n m = write_words dst (read_words m src n) m"

definition move_bytes :: "u64 \<Rightarrow> u64 \<Rightarrow> nat \<Rightarrow> store \<Rightarrow> store" where
  "move_bytes dst src n m = store_bytes dst (load_bytes m src n) m"

definition set_bytes :: "u64 \<Rightarrow> u8 \<Rightarrow> nat \<Rightarrow> store \<Rightarrow> store" where
  "set_bytes dst b n m = store_bytes dst (replicate n b) m"

definition on_mem :: "(store \<Rightarrow> store) \<Rightarrow> caml_state \<Rightarrow> caml_state" where
  "on_mem f s = s\<lparr>mem := f (mem s)\<rparr>"

text \<open>A C test that raises; the call does not return.\<close>

definition raise_if :: "bool \<Rightarrow> (caml_state \<Rightarrow> (unit, caml_state) cres) \<Rightarrow> caml_state \<Rightarrow>
    (unit, caml_state) cres" where
  "raise_if b f s = (if b then f s else Ret () s)"

section \<open>Blocks\<close>

definition Max_wosize :: u64 where "Max_wosize = push_bit 54 1 - 1"

definition fill_unit :: "u64 \<Rightarrow> u64 \<Rightarrow> u32 \<Rightarrow> caml_state \<Rightarrow> caml_state" where
  "fill_unit v wosize tag s =
    (if tag < No_scan_tag then on_mem (write_words v (replicate (unat wosize) Val_unit)) s else s)"

definition caml_alloc :: "rt \<Rightarrow> u64 \<Rightarrow> u32 \<Rightarrow> caml_state \<Rightarrow> (u64, caml_state) cres" where
  "caml_alloc rt wosize tag s =
    (if wosize \<le> Max_young_wosize then
       (if wosize = 0 then Ret (Atom s (ucast tag)) s
        else cbind (caml_alloc_small rt wosize tag s) (\<lambda>v s. Ret v (fill_unit v wosize tag s)))
     else cbind (caml_alloc_shr rt wosize tag s) (\<lambda>v s.
            caml_check_urgent_gc rt v (fill_unit v wosize tag s)))"

definition caml_alloc_tuple :: "rt \<Rightarrow> u64 \<Rightarrow> caml_state \<Rightarrow> (u64, caml_state) cres" where
  "caml_alloc_tuple rt n = caml_alloc rt n 0"

definition caml_alloc_string :: "rt \<Rightarrow> u64 \<Rightarrow> caml_state \<Rightarrow> (u64, caml_state) cres" where
  "caml_alloc_string rt len s =
    (let wosize = (len + 8) div 8
     in cbind (if wosize \<le> Max_young_wosize then caml_alloc_small rt wosize String_tag s
               else cbind (caml_alloc_shr rt wosize String_tag s) (caml_check_urgent_gc rt))
          (\<lambda>v s. let offset_index = Bsize_wsize wosize - 1
                 in Ret v (on_mem (\<lambda>m. set_Byte v offset_index (ucast (offset_index - len))
                                         (set_Field v (wosize - 1) 0 m)) s)))"

text \<open>
  The length of a string from its header and the padding byte at its end
  (\<^verbatim>\<open>runtime/str.c\<close>), and its bytes.
\<close>

definition Bosize_val :: "store \<Rightarrow> u64 \<Rightarrow> u64" where
  "Bosize_val m v = Bsize_wsize (Wosize_val m v)"

definition caml_string_length :: "store \<Rightarrow> u64 \<Rightarrow> u64" where
  "caml_string_length m v = (let temp = Bosize_val m v - 1 in temp - ucast (Byte_u m v temp))"

definition string_bytes :: "store \<Rightarrow> u64 \<Rightarrow> u8 list" where
  "string_bytes m v = load_bytes m v (unat (caml_string_length m v))"

definition caml_alloc_initialized_string :: "rt \<Rightarrow> u8 list \<Rightarrow> caml_state \<Rightarrow> (u64, caml_state) cres" where
  "caml_alloc_initialized_string rt p s =
    cbind (caml_alloc_string rt (of_nat (length p)) s) (\<lambda>v s. Ret v (on_mem (store_bytes v p) s))"

definition caml_alloc_float_array :: "rt \<Rightarrow> u64 \<Rightarrow> caml_state \<Rightarrow> (u64, caml_state) cres" where
  "caml_alloc_float_array rt len s =
    (let wosize = len * Double_wosize
     in if wosize \<le> Max_young_wosize then
          (if wosize = 0 then Ret (Atom s 0) s else caml_alloc_small rt wosize Double_array_tag s)
        else cbind (caml_alloc_shr rt wosize Double_array_tag s) (caml_check_urgent_gc rt))"

section \<open>Dummy blocks of recursive value definitions\<close>

definition caml_alloc_dummy :: "rt \<Rightarrow> u64 \<Rightarrow> caml_state \<Rightarrow> (u64, caml_state) cres" where
  "caml_alloc_dummy rt v_size = caml_alloc rt (Long_val v_size) 0"

definition caml_alloc_dummy_function :: "rt \<Rightarrow> u64 \<Rightarrow> u64 \<Rightarrow> caml_state \<Rightarrow> (u64, caml_state) cres" where
  "caml_alloc_dummy_function rt v_size arity = caml_alloc_dummy rt v_size"

definition caml_alloc_dummy_float :: "rt \<Rightarrow> u64 \<Rightarrow> caml_state \<Rightarrow> (u64, caml_state) cres" where
  "caml_alloc_dummy_float rt v_size = caml_alloc rt (Long_val v_size * Double_wosize) 0"

definition caml_alloc_dummy_infix :: "rt \<Rightarrow> u64 \<Rightarrow> u64 \<Rightarrow> caml_state \<Rightarrow> (u64, caml_state) cres" where
  "caml_alloc_dummy_infix rt vsize voffset s =
    (let wosize = Long_val vsize; ofs = Long_val voffset
     in cbind (caml_alloc rt wosize Closure_tag s) (\<lambda>v s.
          if 0 < ofs then
            (let v1 = v + Bsize_wsize ofs
             in Ret v1 (store_at (v1 - 8) (Make_header ofs Infix_tag Caml_white) s))
          else Ret v s))"

text \<open>\<open>caml_modify\<close> of \<open>n\<close> consecutive fields from the words at another address, in ascending order.\<close>

fun modify_up :: "rt \<Rightarrow> nat \<Rightarrow> u64 \<Rightarrow> u64 \<Rightarrow> caml_state \<Rightarrow> (unit, caml_state) cres" where
  "modify_up rt 0 dst src s = Ret () s"
| "modify_up rt (Suc n) dst src s =
    cbind (caml_modify rt dst (mem s src) s) (\<lambda>_ s. modify_up rt n (dst + 8) (src + 8) s)"

definition set_Tag :: "u64 \<Rightarrow> u32 \<Rightarrow> store \<Rightarrow> store" where
  "set_Tag v tag m = store_byte (v - 8) (ucast tag) m"

definition caml_update_dummy :: "rt \<Rightarrow> u64 \<Rightarrow> u64 \<Rightarrow> caml_state \<Rightarrow> (u64, caml_state) cres" where
  "caml_update_dummy rt dummy newval s =
    (let tag = Tag_val (mem s) newval
     in cbind
          (if tag = Double_array_tag then
             (let s1 = on_mem (set_Tag dummy Double_array_tag) s;
                  n = unat (Wosize_val (mem s1) newval div Double_wosize)
              in Ret () (on_mem (move_words dummy newval n) s1))
           else if tag = Infix_tag then
             (let clos = newval - Infix_offset_hd (Hd_val (mem s) newval);
                  d = dummy - Infix_offset_val (mem s) dummy
              in modify_up rt (unat (Wosize_val (mem s) clos)) d clos s)
           else
             (let s1 = on_mem (set_Tag dummy tag) s
              in modify_up rt (unat (Wosize_val (mem s1) newval)) dummy newval s1))
          (\<lambda>_ s. Ret Val_unit s))"

section \<open>Custom blocks\<close>

text \<open>
  Doubles are kept as their bit patterns; \<open>1.0\<close> is \<open>0x3FF0000000000000\<close>. Of a
  \<open>struct custom_operations\<close> allocation reads the second word, \<open>finalize\<close>.
\<close>

definition double_one :: u64 where "double_one = 0x3FF0000000000000"

definition custom_finalize :: "store \<Rightarrow> u64 \<Rightarrow> u64" where
  "custom_finalize m ops = m (ops + 8)"

definition caml_adjust_gc_speed :: "rt \<Rightarrow> u64 \<Rightarrow> u64 \<Rightarrow> caml_state \<Rightarrow> caml_state" where
  "caml_adjust_gc_speed rt res mx s =
    (let mx1 = (if mx = 0 then 1 else mx);
         res1 = (if mx1 < res then mx1 else res);
         x = rt_f_add rt (caml_extra_heap_resources s) (rt_f_div rt (rt_f_of_u64 rt res1) (rt_f_of_u64 rt mx1))
     in if rt_f_gt rt x double_one
        then caml_request_major_slice (s\<lparr>caml_extra_heap_resources := double_one\<rparr>)
        else s\<lparr>caml_extra_heap_resources := x\<rparr>)"

definition record_custom :: "rt \<Rightarrow> u64 \<Rightarrow> u64 \<Rightarrow> u64 \<Rightarrow> caml_state \<Rightarrow> (unit, caml_state) cres" where
  "record_custom rt v mm mx s =
    (case add_to_custom_table (rt_table_alloc_ok rt) (unat (minor_heap_wsz s)) v mm mx (custom_table s) of
       Inl e \<Rightarrow> Fatal e
     | Inr (t, req) \<Rightarrow> Ret () ((if req then caml_request_minor_gc s else s)\<lparr>custom_table := t\<rparr>))"

definition alloc_custom_gen :: "rt \<Rightarrow> u64 \<Rightarrow> u64 \<Rightarrow> u64 \<Rightarrow> u64 \<Rightarrow> u64 \<Rightarrow> u64 \<Rightarrow> caml_state \<Rightarrow>
    (u64, caml_state) cres" where
  "alloc_custom_gen rt ops bsz mm max_major mem_minor max_minor s =
    (let wosize = 1 + (bsz + 8 - 1) div 8
     in if wosize \<le> Max_young_wosize then
          cbind (caml_alloc_small rt wosize Custom_tag s) (\<lambda>v s.
          let s1 = store_at v ops s
          in if custom_finalize (mem s1) ops \<noteq> 0 \<or> mm \<noteq> 0 then
               cbind (record_custom rt v mem_minor max_major
                        (if mem_minor < mm then caml_adjust_gc_speed rt (mm - mem_minor) max_major s1 else s1))
                 (\<lambda>_ s.
                 if mem_minor \<noteq> 0 then
                   (let mx = (if max_minor = 0 then 1 else max_minor);
                        x = rt_f_add rt (extra_heap_resources_minor s)
                              (rt_f_div rt (rt_f_of_u64 rt mem_minor) (rt_f_of_u64 rt mx));
                        s2 = s\<lparr>extra_heap_resources_minor := x\<rparr>
                    in if rt_f_gt rt x double_one
                       then cbind (with_root v (caml_minor_collection rt) s2) (\<lambda>(_, v) s. Ret v s)
                       else Ret v s2)
                 else Ret v s)
             else Ret v s1)
        else
          cbind (caml_alloc_shr rt wosize Custom_tag s) (\<lambda>v s.
          cbind (with_root v (caml_check_urgent_gc rt Val_unit)
                   (caml_adjust_gc_speed rt mm max_major (store_at v ops s)))
            (\<lambda>(_, v) s. Ret v s)))"

definition caml_alloc_custom :: "rt \<Rightarrow> u64 \<Rightarrow> u64 \<Rightarrow> u64 \<Rightarrow> u64 \<Rightarrow> caml_state \<Rightarrow> (u64, caml_state) cres" where
  "caml_alloc_custom rt ops bsz mm mx = alloc_custom_gen rt ops bsz mm mx mm mx"

definition caml_alloc_custom_mem :: "rt \<Rightarrow> u64 \<Rightarrow> u64 \<Rightarrow> u64 \<Rightarrow> u64 \<Rightarrow> u64 \<Rightarrow> u64 \<Rightarrow> caml_state \<Rightarrow>
    (u64, caml_state) cres" where
  "caml_alloc_custom_mem rt minor_max_bsz major_ratio minor_ratio ops bsz mm s =
    (let mem_minor = (if mm < minor_max_bsz then mm else minor_max_bsz);
         max_major = Bsize_wsize (of_nat (stat_heap_wsz s)) div 150 * major_ratio;
         max_minor = Bsize_wsize (minor_heap_wsz s) div 100 * minor_ratio
     in alloc_custom_gen rt ops bsz mm max_major mem_minor max_minor s)"

end
