(* ===== verification/Ints.thy ===== *)
theory Ints
  imports Alloc
begin

text \<open>
  Reading integers from strings (\<^verbatim>\<open>runtime/ints.c\<close>): sign, base prefix, digits with overflow
  detection, and the range tests of \<open>parse_intnat\<close> and \<open>caml_int64_of_string\<close>. An OCaml string
  is given by its bytes; the runtime keeps a null byte after the last one, which is what the
  C code reads there.
\<close>

section \<open>The parser\<close>

definition char_at :: "u8 list \<Rightarrow> nat \<Rightarrow> u8" where
  "char_at str p = (if p < length str then str ! p else 0)"

text \<open>Result: the position after sign and prefix, the base, whether the number is signed, the sign.\<close>

definition parse_base :: "u8 list \<Rightarrow> nat \<Rightarrow> nat \<times> u64 \<times> bool" where
  "parse_base str p =
    (if char_at str p = 0x30 then
       (let c = char_at str (p + 1)
        in if c = 0x78 \<or> c = 0x58 then (p + 2, 16, False)
           else if c = 0x6F \<or> c = 0x4F then (p + 2, 8, False)
           else if c = 0x62 \<or> c = 0x42 then (p + 2, 2, False)
           else if c = 0x75 \<or> c = 0x55 then (p + 2, 10, False)
           else (p, 10, True))
     else (p, 10, True))"

definition parse_sign_and_base :: "u8 list \<Rightarrow> nat \<Rightarrow> nat \<times> u64 \<times> bool \<times> int" where
  "parse_sign_and_base str p0 =
    (let sign = (if char_at str p0 = 0x2D then -1 else 1);
         p = (if char_at str p0 = 0x2D \<or> char_at str p0 = 0x2B then p0 + 1 else p0)
     in case parse_base str p of (q, base, signedness) \<Rightarrow> (q, base, signedness, sign))"

definition parse_digit :: "u8 \<Rightarrow> int" where
  "parse_digit c =
    (if 0x30 \<le> c \<and> c \<le> 0x39 then uint c - 0x30
     else if 0x41 \<le> c \<and> c \<le> 0x46 then uint c - 0x41 + 10
     else if 0x61 \<le> c \<and> c \<le> 0x66 then uint c - 0x61 + 10
     else -1)"

lemma parse_digit_0 [simp]: "parse_digit 0 = -1"
  by (simp add: parse_digit_def)

text \<open>The digit loop; \<open>None\<close> is \<open>caml_failwith\<close> on overflow.\<close>

function parse_digits :: "u8 list \<Rightarrow> u64 \<Rightarrow> u64 \<Rightarrow> nat \<Rightarrow> u64 \<Rightarrow> (nat \<times> u64) option" where
  "parse_digits str base threshold p res =
    (let c = char_at str p
     in if c = 0x5F then parse_digits str base threshold (p + 1) res
        else
          (let d = parse_digit c
           in if d < 0 \<or> sint base \<le> d then Some (p, res)
              else if threshold < res then None
              else
                (let res1 = base * res + word_of_int d
                 in if res1 < word_of_int d then None
                    else parse_digits str base threshold (p + 1) res1)))"
  by pat_completeness auto
termination
  by (relation "measure (\<lambda>(str, base, threshold, p, res). length str - p)")
     (auto simp: char_at_def split: if_splits)

declare parse_digits.simps [simp del]

definition parse_intnat :: "u8 list \<Rightarrow> nat \<Rightarrow> string \<Rightarrow> string + u64" where
  "parse_intnat str nbits errmsg =
    (case parse_sign_and_base str 0 of (p, base, signedness, sign) \<Rightarrow>
      let threshold = - 1 div base;
          d = parse_digit (char_at str p)
      in if d < 0 \<or> sint base \<le> d then Inl errmsg
         else (case parse_digits str base threshold (p + 1) (word_of_int d) of
             None \<Rightarrow> Inl errmsg
           | Some (q, res) \<Rightarrow>
               if q \<noteq> length str then Inl errmsg
               else if signedness \<and> 0 \<le> sign \<and> push_bit (nbits - 1) 1 \<le> res then Inl errmsg
               else if signedness \<and> sign < 0 \<and> push_bit (nbits - 1) 1 < res then Inl errmsg
               else if \<not> signedness \<and> nbits < 64 \<and> push_bit nbits 1 \<le> res then Inl errmsg
               else Inr (if sign < 0 then - res else res)))"

definition int64_of_string :: "u8 list \<Rightarrow> string + u64" where
  "int64_of_string str =
    (case parse_sign_and_base str 0 of (p, base, signedness, sign) \<Rightarrow>
      let threshold = - 1 div base;
          d = parse_digit (char_at str p)
      in if d < 0 \<or> sint base \<le> d then Inl ''Int64.of_string''
         else (case parse_digits str base threshold (p + 1) (word_of_int d) of
             None \<Rightarrow> Inl ''Int64.of_string''
           | Some (q, res) \<Rightarrow>
               if q \<noteq> length str then Inl ''Int64.of_string''
               else if signedness \<and> 0 \<le> sign \<and> push_bit 63 1 \<le> res then Inl ''Int64.of_string''
               else if signedness \<and> sign < 0 \<and> push_bit 63 1 < res then Inl ''Int64.of_string''
               else Inr (if sign < 0 then - res else res)))"

section \<open>The literals and their values\<close>

definition is_digit :: "nat \<Rightarrow> u8 \<Rightarrow> bool" where
  "is_digit base c \<longleftrightarrow> 0 \<le> parse_digit c \<and> parse_digit c < int base"

definition digits_value :: "nat \<Rightarrow> nat \<Rightarrow> u8 list \<Rightarrow> nat" where
  "digits_value base acc cs =
    foldl (\<lambda>a c. base * a + nat (parse_digit c)) acc (filter (\<lambda>c. c \<noteq> 0x5F) cs)"

text \<open>
  A literal: an optional sign, an optional base prefix, a digit, then digits and underscores.
  Its value is a sign, whether it is signed, and a magnitude.
\<close>

definition split_sign :: "u8 list \<Rightarrow> bool \<times> u8 list" where
  "split_sign str = (case str of c # cs \<Rightarrow> if c = 0x2D then (True, cs) else if c = 0x2B then (False, cs)
                       else (False, str) | [] \<Rightarrow> (False, str))"

definition split_base :: "u8 list \<Rightarrow> nat \<times> bool \<times> u8 list" where
  "split_base str = (case str of
      c0 # c # cs \<Rightarrow>
        if c0 = 0x30 \<and> c \<in> {0x78, 0x58} then (16, False, cs)
        else if c0 = 0x30 \<and> c \<in> {0x6F, 0x4F} then (8, False, cs)
        else if c0 = 0x30 \<and> c \<in> {0x62, 0x42} then (2, False, cs)
        else if c0 = 0x30 \<and> c \<in> {0x75, 0x55} then (10, False, cs)
        else (10, True, str)
    | _ \<Rightarrow> (10, True, str))"

definition literal_body :: "nat \<Rightarrow> u8 list \<Rightarrow> nat option" where
  "literal_body base cs = (case cs of [] \<Rightarrow> None
     | c # cs \<Rightarrow> if is_digit base c \<and> (\<forall>x \<in> set cs. x = 0x5F \<or> is_digit base x)
                 then Some (digits_value base (nat (parse_digit c)) cs) else None)"

definition int_literal :: "u8 list \<Rightarrow> (bool \<times> bool \<times> nat) option" where
  "int_literal str =
    (case split_sign str of (neg, cs) \<Rightarrow> case split_base cs of (base, sgd, body) \<Rightarrow>
       map_option (\<lambda>v. (neg, sgd, v)) (literal_body base body))"

definition literal_in_range :: "nat \<Rightarrow> bool \<times> bool \<times> nat \<Rightarrow> bool" where
  "literal_in_range nbits = (\<lambda>(neg, sgd, v).
     if sgd then (if neg then v \<le> 2 ^ (nbits - 1) else v < 2 ^ (nbits - 1)) else v < 2 ^ nbits)"

section \<open>The parser reads exactly the literals\<close>

abbreviation number_base :: "nat \<Rightarrow> bool" where
  "number_base b \<equiv> b \<in> {2, 8, 10, 16}"

lemma sint_base: "number_base b \<Longrightarrow> sint (of_nat b :: u64) = int b"
  by auto

lemma unat_base: "number_base b \<Longrightarrow> unat (of_nat b :: u64) = b"
  by auto

lemma digit_range: "parse_digit c < 16"
  by (auto simp: parse_digit_def word_le_def)

lemma digits_value_Cons:
  "digits_value b r (c # cs) =
    (if c = 0x5F then digits_value b r cs else digits_value b (b * r + nat (parse_digit c)) cs)"
  by (simp add: digits_value_def)

lemma digits_value_Nil [simp]: "digits_value b r [] = r"
  by (simp add: digits_value_def)

lemma digits_value_ge: "0 < b \<Longrightarrow> r \<le> digits_value b r cs"
proof (induction cs arbitrary: r)
  case (Cons c cs)
  have "r \<le> b * r + nat (parse_digit c)" using Cons.prems by (cases b) simp_all
  also have "\<dots> \<le> digits_value b (b * r + nat (parse_digit c)) cs" by (rule Cons.IH [OF Cons.prems])
  finally show ?case using Cons.IH [OF Cons.prems, of r] by (simp add: digits_value_Cons)
qed simp

text \<open>The two overflow tests of the loop.\<close>

lemma mult_overflow_test:
  assumes "number_base b" "r < 2 ^ 64"
  shows "(- 1 div of_nat b :: u64) < of_nat r \<longleftrightarrow> 2 ^ 64 \<le> b * r"
proof -
  have u: "unat (of_nat r :: u64) = r" using assms(2) by (simp add: of_nat_inverse [OF refl])
  have "unat (- 1 div of_nat b :: u64) = (2 ^ 64 - 1) div b"
    unfolding unat_div unat_base [OF assms(1)] by (simp add: unsigned_minus_1_eq_mask mask_eq_exp_minus_1)
  then have "(- 1 div of_nat b :: u64) < of_nat r \<longleftrightarrow> \<not> r \<le> (2 ^ 64 - 1) div b"
    unfolding word_less_nat_alt u by auto
  also have "\<dots> \<longleftrightarrow> \<not> r * b \<le> 2 ^ 64 - 1"
    using assms(1) by (subst less_eq_div_iff_mult_less_eq) auto
  also have "\<dots> \<longleftrightarrow> 2 ^ 64 \<le> b * r" by (auto simp: mult.commute)
  finally show ?thesis .
qed

lemma add_overflow_test:
  assumes "b * r < 2 ^ 64" "d < 16"
  shows "(of_nat b * of_nat r + of_nat d :: u64) < of_nat d \<longleftrightarrow> 2 ^ 64 \<le> b * r + d"
proof -
  have e: "(of_nat b * of_nat r + of_nat d :: u64) = of_nat (b * r + d)" by simp
  have "unat (of_nat d :: u64) = d" using assms(2) by (simp add: of_nat_inverse [OF refl])
  moreover have "unat (of_nat (b * r + d) :: u64) = (b * r + d) mod 2 ^ 64"
    by (simp only: unsigned_of_nat take_bit_eq_mod) simp
  ultimately show ?thesis
    unfolding e word_less_nat_alt using assms carry_iff [of d "2 ^ 64" "b * r"] by (simp add: add.commute)
qed

definition reads_digits :: "nat \<Rightarrow> nat \<Rightarrow> u8 list \<Rightarrow> nat \<Rightarrow> (nat \<times> u64) option \<Rightarrow> bool" where
  "reads_digits b r cs n res \<longleftrightarrow>
    (if \<forall>x \<in> set cs. x = 0x5F \<or> is_digit b x
     then res = (if digits_value b r cs < 2 ^ 64 then Some (n, of_nat (digits_value b r cs)) else None)
     else res = None \<or> (\<exists>q r'. res = Some (q, r') \<and> q \<noteq> n))"

lemma reads_digits_step:
  "c = 0x5F \<or> is_digit b c \<Longrightarrow> digits_value b r (c # cs) = digits_value b r' cs \<Longrightarrow>
    reads_digits b r (c # cs) n res = reads_digits b r' cs n res"
  unfolding reads_digits_def by (simp only: list.set ball_simps) auto

lemma reads_digits_overflow:
  assumes "number_base b" "2 ^ 64 \<le> r'" "digits_value b r (c # cs) = digits_value b r' cs"
  shows "reads_digits b r (c # cs) n None"
proof -
  have "2 ^ 64 \<le> digits_value b r' cs" using assms(1,2) digits_value_ge [of b r' cs] by auto
  then show ?thesis using assms(3) by (auto simp: reads_digits_def)
qed

lemma parse_digits_correct:
  assumes b: "number_base b" and "r < 2 ^ 64" "p \<le> length str"
  shows "reads_digits b r (drop p str) (length str)
    (parse_digits str (of_nat b) (- 1 div of_nat b) p (of_nat r))"
  using assms(2,3)
proof (induction "drop p str" arbitrary: p r)
  case Nil
  then have "p = length str" by simp
  moreover from this have "char_at str p = 0" by (simp add: char_at_def)
  ultimately show ?case using Nil(2) by (subst parse_digits.simps) (simp add: reads_digits_def)
next
  case (Cons c cs)
  then have p: "p < length str" by (metis drop_eq_Nil2 list.distinct(1) not_le)
  have c: "char_at str p = c" and cs: "drop (p + 1) str = cs"
    using Cons.hyps(2) p by (simp_all add: char_at_def Cons_nth_drop_Suc [symmetric])
  have IH: "reads_digits b r' cs (length str)
      (parse_digits str (of_nat b) (- 1 div of_nat b) (p + 1) (of_nat r'))" if "r' < 2 ^ 64" for r'
    using Cons.hyps(1) [of "p + 1" r'] that p unfolding cs by simp
  let ?run = "parse_digits str (of_nat b) (- 1 div of_nat b) p (of_nat r)"
  let ?d = "nat (parse_digit c)"
  consider "c = 0x5F" | "c \<noteq> 0x5F" "\<not> is_digit b c" | "c \<noteq> 0x5F" "is_digit b c" by blast
  then show ?case
  proof cases
    case 1
    then have "?run = parse_digits str (of_nat b) (- 1 div of_nat b) (p + 1) (of_nat r)"
      by (subst parse_digits.simps) (simp add: c)
    then show ?thesis
      using IH [OF Cons.prems(1)] 1 reads_digits_step [of c b r cs r] unfolding Cons.hyps(2) [symmetric]
      by (simp add: digits_value_Cons)
  next
    case 2
    then have "?run = Some (p, of_nat r)"
      using sint_base [OF b] by (subst parse_digits.simps) (auto simp: c is_digit_def Let_def)
    then show ?thesis using 2 p unfolding Cons.hyps(2) [symmetric] by (simp add: reads_digits_def)
  next
    case 3
    have dw: "word_of_int (parse_digit c) = (of_nat ?d :: u64)" "?d < 16"
      using 3(2) digit_range [of c] by (simp_all add: is_digit_def)
    have dv: "digits_value b r (c # cs) = digits_value b (b * r + ?d) cs"
      using 3(1) by (simp add: digits_value_Cons)
    have run: "?run = (if 2 ^ 64 \<le> b * r then None
        else if (of_nat b * of_nat r + of_nat ?d :: u64) < of_nat ?d then None
        else parse_digits str (of_nat b) (- 1 div of_nat b) (p + 1) (of_nat b * of_nat r + of_nat ?d))"
      using 3 sint_base [OF b] mult_overflow_test [OF b Cons.prems(1)]
      by (subst parse_digits.simps) (simp add: c is_digit_def Let_def dw(1) del: of_nat_nat)
    show ?thesis
    proof (cases "2 ^ 64 \<le> b * r + ?d")
      case True
      then have "?run = None"
        unfolding run using add_overflow_test [OF _ dw(2), of b r] by auto
      then show ?thesis
        using reads_digits_overflow [OF b True dv] unfolding Cons.hyps(2) [symmetric] by simp
    next
      case False
      then have "?run = parse_digits str (of_nat b) (- 1 div of_nat b) (p + 1) (of_nat (b * r + ?d))"
        unfolding run using add_overflow_test [OF _ dw(2), of b r] by (auto simp del: of_nat_nat)
      then show ?thesis
        using IH [of "b * r + ?d"] False 3 reads_digits_step [OF _ dv] unfolding Cons.hyps(2) [symmetric]
        by (simp del: of_nat_add of_nat_mult)
    qed
  qed
qed

lemma char_at_drop: "drop p str = c # cs \<Longrightarrow> char_at str p = c"
  by (metis char_at_def drop_eq_Nil2 list.distinct(1) not_le nth_via_drop)

lemma char_at_end: "drop p str = [] \<Longrightarrow> char_at str p = 0"
  by (simp add: char_at_def)

lemma drop_Suc_Cons: "drop p str = c # cs \<Longrightarrow> drop (Suc p) str = cs"
  by (metis drop_Suc list.sel(3) tl_drop)

lemma base_of_prefix:
  assumes "drop p str = cs" "p \<le> length str" "split_base cs = (base, sgd, body)"
  shows "parse_base str p = (length str - length body, of_nat base, sgd) \<and> number_base base \<and>
    drop (length str - length body) str = body \<and> length body \<le> length str"
proof -
  have len: "length str = p + length cs" using assms(1,2) by auto
  consider (short) "length cs \<le> 1" | (long) c0 c1 rest where "cs = c0 # c1 # rest"
    by (cases cs rule: remdups_adj.cases) auto
  then show ?thesis
  proof cases
    case short
    then have "split_base cs = (10, True, cs)" "char_at str (p + 1) = 0"
      using len by (auto simp: split_base_def char_at_def split: list.split)
    then show ?thesis using assms len by (auto simp: parse_base_def)
  next
    case long
    have c: "char_at str p = c0" "char_at str (Suc p) = c1" "drop (Suc (Suc p)) str = rest"
      using assms(1) unfolding long by (auto dest: char_at_drop drop_Suc_Cons)
    have l: "length str - length rest = p + 2" "length str - length cs = p" using len long by simp_all
    have prefixed: ?thesis if "split_base cs = (b, False, rest)" "parse_base str p = (p + 2, of_nat b, False)"
      "number_base b" for b
      using that assms(3) l(1) c(3) len long by (simp del: insert_iff)
    consider "c0 = 0x30" "c1 \<in> {0x78, 0x58}" | "c0 = 0x30" "c1 \<in> {0x6F, 0x4F}" | "c0 = 0x30" "c1 \<in> {0x62, 0x42}"
      | "c0 = 0x30" "c1 \<in> {0x75, 0x55}"
      | "c0 \<noteq> 0x30 \<or> c1 \<notin> {0x78, 0x58, 0x6F, 0x4F, 0x62, 0x42, 0x75, 0x55}" by blast
    then show ?thesis
    proof cases
      case 5
      then have "split_base cs = (10, True, cs)" "parse_base str p = (p, 10, True)"
        by (auto simp: split_base_def parse_base_def Let_def c long)
      then show ?thesis using assms l len by auto
    next
      case 1
      then show ?thesis
        by (intro prefixed [of 16]) (auto simp: split_base_def parse_base_def Let_def c long)
    next
      case 2
      then show ?thesis
        by (intro prefixed [of 8]) (auto simp: split_base_def parse_base_def Let_def c long)
    next
      case 3
      then show ?thesis
        by (intro prefixed [of 2]) (auto simp: split_base_def parse_base_def Let_def c long)
    next
      case 4
      then show ?thesis
        by (intro prefixed [of 10]) (auto simp: split_base_def parse_base_def Let_def c long)
    qed
  qed
qed

lemma sign_and_base:
  assumes "split_sign str = (neg, cs)" "split_base cs = (base, sgd, body)"
  shows "parse_sign_and_base str 0 = (length str - length body, of_nat base, sgd, if neg then - 1 else 1) \<and>
    number_base base \<and> drop (length str - length body) str = body \<and> length body \<le> length str"
proof -
  define p where "p = (if char_at str 0 = 0x2D \<or> char_at str 0 = 0x2B then 1 else 0 :: nat)"
  have "drop p str = cs \<and> p \<le> length str \<and> (neg \<longleftrightarrow> char_at str 0 = 0x2D)"
    using assms(1) by (cases str) (auto simp: p_def split_sign_def char_at_def split: if_splits)
  with base_of_prefix [of p str cs base sgd body] assms(2) show ?thesis
    by (auto simp: parse_sign_and_base_def p_def Let_def split: if_splits)
qed

lemma first_digit: "char_at str p = c \<Longrightarrow> number_base b \<Longrightarrow>
    (parse_digit c < 0 \<or> sint (of_nat b :: u64) \<le> parse_digit c) = (\<not> is_digit b c)"
  using sint_base [of b] by (auto simp: is_digit_def)

text \<open>What remains after the digits: the end of the string and the range.\<close>

lemma literal_parts:
  assumes "split_sign str = (neg, cs)" "split_base cs = (base, sgd, body)" "literal_body base body = Some v"
  shows "v < 2 ^ 64 \<Longrightarrow> parse_intnat str nbits msg =
      (if sgd \<and> \<not> neg \<and> push_bit (nbits - 1) 1 \<le> (of_nat v :: u64) then Inl msg
       else if sgd \<and> neg \<and> push_bit (nbits - 1) 1 < (of_nat v :: u64) then Inl msg
       else if \<not> sgd \<and> nbits < 64 \<and> push_bit nbits 1 \<le> (of_nat v :: u64) then Inl msg
       else Inr (if neg then - of_nat v else of_nat v))"
    and "\<not> v < 2 ^ 64 \<Longrightarrow> parse_intnat str nbits msg = Inl msg"
proof -
  let ?p = "length str - length body"
  note sb = sign_and_base [OF assms(1,2)]
  from assms(3) obtain c ds where body: "body = c # ds" and ok: "is_digit base c"
    "\<forall>x \<in> set ds. x = 0x5F \<or> is_digit base x" and v: "v = digits_value base (nat (parse_digit c)) ds"
    by (auto simp: literal_body_def split: list.splits if_splits)
  have c: "char_at str ?p = c" and ds: "drop (Suc ?p) str = ds"
    using sb body by (auto dest: char_at_drop drop_Suc_Cons)
  have dw: "word_of_int (parse_digit c) = (of_nat (nat (parse_digit c)) :: u64)" "nat (parse_digit c) < 2 ^ 64"
    using ok(1) digit_range [of c] by (simp_all add: is_digit_def)
  have "Suc ?p \<le> length str" using sb body by auto
  from parse_digits_correct [OF _ dw(2) this, of base] sb ds ok(2)
  have run: "parse_digits str (of_nat base) (- 1 div of_nat base) (?p + 1) (of_nat (nat (parse_digit c))) =
      (if v < 2 ^ 64 then Some (length str, of_nat v) else None)"
    by (simp add: reads_digits_def v)
  have start: "\<not> (parse_digit c < 0 \<or> sint (of_nat base :: u64) \<le> parse_digit c)"
    using first_digit [OF c] sb ok(1) by blast
  show "v < 2 ^ 64 \<Longrightarrow> parse_intnat str nbits msg =
      (if sgd \<and> \<not> neg \<and> push_bit (nbits - 1) 1 \<le> (of_nat v :: u64) then Inl msg
       else if sgd \<and> neg \<and> push_bit (nbits - 1) 1 < (of_nat v :: u64) then Inl msg
       else if \<not> sgd \<and> nbits < 64 \<and> push_bit nbits 1 \<le> (of_nat v :: u64) then Inl msg
       else Inr (if neg then - of_nat v else of_nat v))"
    unfolding parse_intnat_def using sb run start by (simp add: c dw(1) Let_def del: of_nat_nat)
  show "\<not> v < 2 ^ 64 \<Longrightarrow> parse_intnat str nbits msg = Inl msg"
    unfolding parse_intnat_def using sb run start by (simp add: c dw(1) Let_def del: of_nat_nat)
qed

lemma literal_none:
  assumes "split_sign str = (neg, cs)" "split_base cs = (base, sgd, body)" "literal_body base body = None"
  shows "parse_intnat str nbits msg = Inl msg"
proof (cases body)
  case Nil
  then have "char_at str (length str - length body) = 0" by (simp add: char_at_def)
  then show ?thesis using sign_and_base [OF assms(1,2)] by (simp add: parse_intnat_def)
next
  case (Cons c ds)
  let ?p = "length str - length body"
  note sb = sign_and_base [OF assms(1,2)]
  have c: "char_at str ?p = c" and ds: "drop (Suc ?p) str = ds"
    using sb Cons by (auto dest: char_at_drop drop_Suc_Cons)
  show ?thesis
  proof (cases "is_digit base c")
    case False
    with first_digit [OF c] sb show ?thesis by (auto simp: parse_intnat_def c)
  next
    case True
    have dw: "word_of_int (parse_digit c) = (of_nat (nat (parse_digit c)) :: u64)" "nat (parse_digit c) < 2 ^ 64"
      using True digit_range [of c] by (simp_all add: is_digit_def)
    have "\<not> (\<forall>x \<in> set ds. x = 0x5F \<or> is_digit base x)"
      using assms(3) True by (simp add: literal_body_def Cons split: if_splits)
    moreover have "Suc ?p \<le> length str" using sb Cons by auto
    then have "reads_digits base (nat (parse_digit c)) ds (length str)
        (parse_digits str (of_nat base) (- 1 div of_nat base) (?p + 1) (of_nat (nat (parse_digit c))))"
      using parse_digits_correct [OF _ dw(2), of base "Suc ?p" str] sb ds by simp
    ultimately have "parse_digits str (of_nat base) (- 1 div of_nat base) (?p + 1)
        (word_of_int (parse_digit c)) = None \<or>
      (\<exists>q r'. parse_digits str (of_nat base) (- 1 div of_nat base) (?p + 1)
        (word_of_int (parse_digit c)) = Some (q, r') \<and> q \<noteq> length str)"
      unfolding dw(1) reads_digits_def by (simp only: if_False)
    then show ?thesis
      by (elim disjE exE conjE) (simp_all add: parse_intnat_def sb c Let_def)
  qed
qed

lemma unat_push_bit_1: "k < 64 \<Longrightarrow> unat (push_bit k 1 :: u64) = 2 ^ k"
proof -
  assume "k < 64"
  then have "(2 :: nat) ^ k < 2 ^ LENGTH(64)" by (intro power_strict_increasing) simp_all
  then have "unat (of_nat (2 ^ k) :: u64) = 2 ^ k" by (rule of_nat_inverse [OF refl])
  moreover have "push_bit k (1 :: u64) = of_nat (2 ^ k)" by (simp add: push_bit_eq_mult)
  ultimately show ?thesis by (simp only:)
qed

lemma literal_range_tests:
  assumes "0 < nbits" "nbits \<le> 64" "v < 2 ^ 64"
  shows "(sgd \<and> \<not> neg \<and> push_bit (nbits - 1) 1 \<le> (of_nat v :: u64) \<or>
          sgd \<and> neg \<and> push_bit (nbits - 1) 1 < (of_nat v :: u64) \<or>
          \<not> sgd \<and> nbits < 64 \<and> push_bit nbits 1 \<le> (of_nat v :: u64)) \<longleftrightarrow>
         \<not> literal_in_range nbits (neg, sgd, v)"
proof -
  have v: "unat (of_nat v :: u64) = v" using assms(3) by (simp add: of_nat_inverse [OF refl])
  have "nbits - 1 < 64" using assms(2) by simp
  then have "push_bit (nbits - 1) 1 \<le> (of_nat v :: u64) \<longleftrightarrow> 2 ^ (nbits - 1) \<le> v"
    "push_bit (nbits - 1) 1 < (of_nat v :: u64) \<longleftrightarrow> 2 ^ (nbits - 1) < v"
    by (simp_all only: word_le_nat_alt word_less_nat_alt v unat_push_bit_1)
  moreover have "nbits < 64 \<and> push_bit nbits 1 \<le> (of_nat v :: u64) \<longleftrightarrow> 2 ^ nbits \<le> v"
  proof (cases "nbits < 64")
    case True
    then show ?thesis by (simp only: word_le_nat_alt v unat_push_bit_1 simp_thms)
  next
    case False
    then have "nbits = 64" using assms(2) by simp
    then show ?thesis using assms(3) by simp
  qed
  ultimately show ?thesis by (auto simp: literal_in_range_def)
qed

lemma literal_in_range_small:
  assumes "literal_in_range nbits (neg, sgd, v)" "0 < nbits" "nbits \<le> 64" shows "v < 2 ^ 64"
proof -
  have "(2 :: nat) ^ nbits \<le> 2 ^ 64" using assms(3) by (intro power_increasing) simp_all
  moreover have "(2 :: nat) ^ (nbits - 1) < 2 ^ 64"
    using assms(2,3) by (intro power_strict_increasing) simp_all
  moreover have "v \<le> 2 ^ (nbits - 1) \<or> v < 2 ^ nbits"
    using assms(1) unfolding literal_in_range_def prod.case by (meson less_imp_le)
  ultimately show ?thesis by linarith
qed

text \<open>
  C29: parse_intnat accepts exactly the integer literals whose value is in range for the
  width, and returns that value; every other string fails with the message.
\<close>

theorem parse_intnat_correct:
  assumes "0 < nbits" "nbits \<le> 64"
  shows "parse_intnat str nbits msg =
    (case int_literal str of None \<Rightarrow> Inl msg
     | Some (neg, sgd, v) \<Rightarrow>
         if literal_in_range nbits (neg, sgd, v) then Inr (word_of_int (if neg then - int v else int v))
         else Inl msg)"
proof -
  obtain neg cs base sgd body where sp: "split_sign str = (neg, cs)" "split_base cs = (base, sgd, body)"
    by (metis prod.exhaust)
  show ?thesis
  proof (cases "literal_body base body")
    case None
    then show ?thesis using literal_none [OF sp] sp by (simp add: int_literal_def)
  next
    case (Some v)
    have lit: "int_literal str = Some (neg, sgd, v)" using Some sp by (simp add: int_literal_def)
    show ?thesis
    proof (cases "v < 2 ^ 64")
      case False
      then have "\<not> literal_in_range nbits (neg, sgd, v)" using literal_in_range_small assms by blast
      then show ?thesis using literal_parts(2) [OF sp Some False] lit by simp
    next
      case True
      let ?w = "of_nat v :: u64"
      have "parse_intnat str nbits msg = (if literal_in_range nbits (neg, sgd, v)
          then Inr (if neg then - ?w else ?w) else Inl msg)"
        using literal_parts(1) [OF sp Some True, of nbits msg] literal_range_tests [OF assms True, of sgd neg]
        by argo
      then show ?thesis using lit by (cases neg) simp_all
    qed
  qed
qed

theorem parse_intnat_correct_witness:
  "parse_intnat [0x2D, 0x30, 0x78, 0x46, 0x5F, 0x31] 63 ''int_of_string'' = Inr (- 241) \<and>
   parse_intnat [0x31, 0x32, 0x38] 8 ''int_of_string'' = Inl ''int_of_string''"
proof -
  have "int_literal [0x2D, 0x30, 0x78, 0x46, 0x5F, 0x31] = Some (True, False, 241)"
    "int_literal [0x31, 0x32, 0x38] = Some (False, True, 128)"
    by (simp_all add: int_literal_def split_sign_def split_base_def literal_body_def digits_value_def
        is_digit_def parse_digit_def)
  then show ?thesis
    by (simp add: parse_intnat_correct literal_in_range_def)
qed

theorem int64_of_string_parse: "int64_of_string str = parse_intnat str 64 ''Int64.of_string''"
proof -
  have "(64 :: nat) - 1 = 63" by simp
  then show ?thesis
    unfolding int64_of_string_def parse_intnat_def by (simp only: less_irrefl simp_thms if_False)
qed

end
