(* ===== verification/Boxed_Ints.thy ===== *)
theory Boxed_Ints
  imports Ints
begin

text \<open>
  The boxed integers of \<^verbatim>\<open>runtime/ints.c\<close>: \<open>int32\<close>, \<open>int64\<close> and \<open>nativeint\<close> as custom blocks,
  their arithmetic with the guarded divisions, shifts, byte swaps, comparisons, conversions,
  hashing and serialisation. The addresses of the three \<open>struct custom_operations\<close> are
  parameters. Conversions from and to \<open>double\<close> and the \<open>sprintf\<close> formats are not modelled.
\<close>

section \<open>Payloads\<close>

definition COMPARE_INT :: "'a::len word \<Rightarrow> 'a word \<Rightarrow> u64" where
  "COMPARE_INT v1 v2 = (if sint v2 < sint v1 then 1 else 0) - (if sint v1 < sint v2 then 1 else 0)"

definition Int32_val :: "store \<Rightarrow> u64 \<Rightarrow> u32" where
  "Int32_val m v = ucast (Field m v 1)"

definition set_Int32 :: "u64 \<Rightarrow> u32 \<Rightarrow> store \<Rightarrow> store" where
  "set_Int32 v i m = set_Field v 1 ((Field m v 1 AND NOT 0xFFFFFFFF) OR ucast i) m"

definition Int64_val :: "store \<Rightarrow> u64 \<Rightarrow> u64" where
  "Int64_val m v = Field m v 1"

definition Nativeint_val :: "store \<Rightarrow> u64 \<Rightarrow> u64" where
  "Nativeint_val m v = Field m v 1"

text \<open>C's truncating division and remainder, on operands for which they are defined.\<close>

definition word_sdiv :: "'a::len word \<Rightarrow> 'a word \<Rightarrow> 'a word" where
  "word_sdiv a b = word_of_int (sint a sdiv sint b)"

definition word_smod :: "'a::len word \<Rightarrow> 'a word \<Rightarrow> 'a word" where
  "word_smod a b = word_of_int (sint a smod sint b)"

text \<open>
  A shift count outside the width is undefined in C; the model takes its low bits, as the
  x86-64 shift instructions do.
\<close>

definition count32 :: "u64 \<Rightarrow> nat" where "count32 v = unat (Int_val v AND 31)"
definition count64 :: "u64 \<Rightarrow> nat" where "count64 v = unat (Int_val v AND 63)"

definition caml_copy_int32 :: "rt \<Rightarrow> u32 \<Rightarrow> caml_state \<Rightarrow> (u64, caml_state) cres" where
  "caml_copy_int32 rt i s =
    cbind (caml_alloc_custom rt (rt_int32_ops rt) 4 0 1 s) (\<lambda>v s. Ret v (on_mem (set_Int32 v i) s))"

definition caml_copy_int64 :: "rt \<Rightarrow> u64 \<Rightarrow> caml_state \<Rightarrow> (u64, caml_state) cres" where
  "caml_copy_int64 rt i s =
    cbind (caml_alloc_custom rt (rt_int64_ops rt) 8 0 1 s) (\<lambda>v s. Ret v (on_mem (set_Field v 1 i) s))"

definition caml_copy_nativeint :: "rt \<Rightarrow> u64 \<Rightarrow> caml_state \<Rightarrow> (u64, caml_state) cres" where
  "caml_copy_nativeint rt i s =
    cbind (caml_alloc_custom rt (rt_nativeint_ops rt) 8 0 1 s) (\<lambda>v s. Ret v (on_mem (set_Field v 1 i) s))"

text \<open>The shape of a primitive on boxed operands.\<close>

type_synonym prim1 = "rt \<Rightarrow> u64 \<Rightarrow> caml_state \<Rightarrow> (u64, caml_state) cres"
type_synonym prim2 = "rt \<Rightarrow> u64 \<Rightarrow> u64 \<Rightarrow> caml_state \<Rightarrow> (u64, caml_state) cres"

section \<open>32-bit integers\<close>

definition caml_int32_neg :: prim1 where
  "caml_int32_neg rt v1 s = caml_copy_int32 rt (- Int32_val (mem s) v1) s"

definition caml_int32_add :: prim2 where
  "caml_int32_add rt v1 v2 s = caml_copy_int32 rt (Int32_val (mem s) v1 + Int32_val (mem s) v2) s"

definition caml_int32_sub :: prim2 where
  "caml_int32_sub rt v1 v2 s = caml_copy_int32 rt (Int32_val (mem s) v1 - Int32_val (mem s) v2) s"

definition caml_int32_mul :: prim2 where
  "caml_int32_mul rt v1 v2 s = caml_copy_int32 rt (Int32_val (mem s) v1 * Int32_val (mem s) v2) s"

definition caml_int32_and :: prim2 where
  "caml_int32_and rt v1 v2 s = caml_copy_int32 rt (Int32_val (mem s) v1 AND Int32_val (mem s) v2) s"

definition caml_int32_or :: prim2 where
  "caml_int32_or rt v1 v2 s = caml_copy_int32 rt (Int32_val (mem s) v1 OR Int32_val (mem s) v2) s"

definition caml_int32_xor :: prim2 where
  "caml_int32_xor rt v1 v2 s = caml_copy_int32 rt (Int32_val (mem s) v1 XOR Int32_val (mem s) v2) s"

definition caml_int32_div :: prim2 where
  "caml_int32_div rt v1 v2 s0 = 
    (let dividend = Int32_val (mem s0) v1; divisor = Int32_val (mem s0) v2
     in cbind (raise_if (divisor = 0) (rt_raise_zero_divide rt) s0) (\<lambda>_ s.
          if dividend = push_bit 31 1 \<and> divisor = - 1 then Ret v1 s
          else caml_copy_int32 rt (word_sdiv dividend divisor) s))"

definition caml_int32_mod :: prim2 where
  "caml_int32_mod rt v1 v2 s0 = 
    (let dividend = Int32_val (mem s0) v1; divisor = Int32_val (mem s0) v2
     in cbind (raise_if (divisor = 0) (rt_raise_zero_divide rt) s0) (\<lambda>_ s.
          if dividend = push_bit 31 1 \<and> divisor = - 1 then caml_copy_int32 rt 0 s
          else caml_copy_int32 rt (word_smod dividend divisor) s))"

definition caml_int32_shift_left :: prim2 where
  "caml_int32_shift_left rt v1 v2 s = caml_copy_int32 rt (push_bit (count32 v2) (Int32_val (mem s) v1)) s"

definition caml_int32_shift_right :: prim2 where
  "caml_int32_shift_right rt v1 v2 s = caml_copy_int32 rt (signed_drop_bit (count32 v2) (Int32_val (mem s) v1)) s"

definition caml_int32_shift_right_unsigned :: prim2 where
  "caml_int32_shift_right_unsigned rt v1 v2 s = caml_copy_int32 rt (drop_bit (count32 v2) (Int32_val (mem s) v1)) s"

definition caml_swap32 :: "u32 \<Rightarrow> u32" where
  "caml_swap32 x =
    push_bit 24 (x AND 0x000000FF) OR push_bit 8 (x AND 0x0000FF00) OR
    signed_drop_bit 8 (x AND 0x00FF0000) OR drop_bit 24 (x AND 0xFF000000)"

definition caml_int32_bswap :: prim1 where
  "caml_int32_bswap rt v1 s = caml_copy_int32 rt (caml_swap32 (Int32_val (mem s) v1)) s"

definition caml_int32_of_int :: prim1 where
  "caml_int32_of_int rt v1 s = caml_copy_int32 rt (ucast (Long_val v1)) s"

definition caml_int32_to_int :: "store \<Rightarrow> u64 \<Rightarrow> u64" where
  "caml_int32_to_int m v1 = Val_long (scast (Int32_val m v1))"

definition int32_cmp :: "store \<Rightarrow> u64 \<Rightarrow> u64 \<Rightarrow> int" where
  "int32_cmp m v1 v2 = 
    (let i1 = Int32_val m v1; i2 = Int32_val m v2
     in (if sint i2 < sint i1 then 1 else 0) - (if sint i1 < sint i2 then 1 else 0))"

definition caml_int32_compare_unboxed :: "u32 \<Rightarrow> u32 \<Rightarrow> u64" where
  "caml_int32_compare_unboxed i1 i2 = COMPARE_INT i1 i2"

definition caml_int32_compare :: "store \<Rightarrow> u64 \<Rightarrow> u64 \<Rightarrow> u64" where
  "caml_int32_compare m v1 v2 = Val_long (caml_int32_compare_unboxed (Int32_val m v1) (Int32_val m v2))"

definition int32_hash :: "store \<Rightarrow> u64 \<Rightarrow> u64" where
  "int32_hash m v = scast (Int32_val m v)"

definition caml_int_of_string :: "rt \<Rightarrow> u64 \<Rightarrow> caml_state \<Rightarrow> (u64, caml_state) cres" where
  "caml_int_of_string rt v s =
    (case parse_intnat (string_bytes (mem s) v) 63 ''int_of_string'' of
       Inl msg \<Rightarrow> cbind (rt_failwith rt msg s) (\<lambda>_ s. Diverge) | Inr x \<Rightarrow> Ret (Val_long x) s)"

definition caml_int32_of_string :: prim1 where
  "caml_int32_of_string rt v s =
    (case parse_intnat (string_bytes (mem s) v) 32 ''Int32.of_string'' of
       Inl msg \<Rightarrow> cbind (rt_failwith rt msg s) (\<lambda>_ s. Diverge) | Inr x \<Rightarrow> caml_copy_int32 rt (ucast x) s)"

section \<open>64-bit integers\<close>

definition caml_int64_neg :: prim1 where
  "caml_int64_neg rt v1 s = caml_copy_int64 rt (- Int64_val (mem s) v1) s"

definition caml_int64_add :: prim2 where
  "caml_int64_add rt v1 v2 s = caml_copy_int64 rt (Int64_val (mem s) v1 + Int64_val (mem s) v2) s"

definition caml_int64_sub :: prim2 where
  "caml_int64_sub rt v1 v2 s = caml_copy_int64 rt (Int64_val (mem s) v1 - Int64_val (mem s) v2) s"

definition caml_int64_mul :: prim2 where
  "caml_int64_mul rt v1 v2 s = caml_copy_int64 rt (Int64_val (mem s) v1 * Int64_val (mem s) v2) s"

definition caml_int64_and :: prim2 where
  "caml_int64_and rt v1 v2 s = caml_copy_int64 rt (Int64_val (mem s) v1 AND Int64_val (mem s) v2) s"

definition caml_int64_or :: prim2 where
  "caml_int64_or rt v1 v2 s = caml_copy_int64 rt (Int64_val (mem s) v1 OR Int64_val (mem s) v2) s"

definition caml_int64_xor :: prim2 where
  "caml_int64_xor rt v1 v2 s = caml_copy_int64 rt (Int64_val (mem s) v1 XOR Int64_val (mem s) v2) s"

definition caml_int64_div :: prim2 where
  "caml_int64_div rt v1 v2 s0 = 
    (let dividend = Int64_val (mem s0) v1; divisor = Int64_val (mem s0) v2
     in cbind (raise_if (divisor = 0) (rt_raise_zero_divide rt) s0) (\<lambda>_ s.
          if dividend = push_bit 63 1 \<and> divisor = - 1 then caml_copy_int64 rt dividend s
          else caml_copy_int64 rt (word_sdiv dividend divisor) s))"

definition caml_int64_mod :: prim2 where
  "caml_int64_mod rt v1 v2 s0 = 
    (let dividend = Int64_val (mem s0) v1; divisor = Int64_val (mem s0) v2
     in cbind (raise_if (divisor = 0) (rt_raise_zero_divide rt) s0) (\<lambda>_ s.
          if dividend = push_bit 63 1 \<and> divisor = - 1 then caml_copy_int64 rt 0 s
          else caml_copy_int64 rt (word_smod dividend divisor) s))"

definition caml_int64_shift_left :: prim2 where
  "caml_int64_shift_left rt v1 v2 s = caml_copy_int64 rt (push_bit (count64 v2) (Int64_val (mem s) v1)) s"

definition caml_int64_shift_right :: prim2 where
  "caml_int64_shift_right rt v1 v2 s = caml_copy_int64 rt (signed_drop_bit (count64 v2) (Int64_val (mem s) v1)) s"

definition caml_int64_shift_right_unsigned :: prim2 where
  "caml_int64_shift_right_unsigned rt v1 v2 s = caml_copy_int64 rt (drop_bit (count64 v2) (Int64_val (mem s) v1)) s"

definition caml_swap64 :: "u64 \<Rightarrow> u64" where
  "caml_swap64 x =
    push_bit 56 (x AND 0x00000000000000FF) OR push_bit 40 (x AND 0x000000000000FF00) OR
    push_bit 24 (x AND 0x0000000000FF0000) OR push_bit 8 (x AND 0x00000000FF000000) OR
    signed_drop_bit 8 (x AND 0x000000FF00000000) OR signed_drop_bit 24 (x AND 0x0000FF0000000000) OR
    signed_drop_bit 40 (x AND 0x00FF000000000000) OR drop_bit 56 (x AND 0xFF00000000000000)"

definition caml_int64_bswap :: prim1 where
  "caml_int64_bswap rt v1 s = caml_copy_int64 rt (caml_swap64 (Int64_val (mem s) v1)) s"

definition caml_int64_of_int :: prim1 where
  "caml_int64_of_int rt v1 s = caml_copy_int64 rt (Long_val v1) s"

definition caml_int64_to_int :: "store \<Rightarrow> u64 \<Rightarrow> u64" where
  "caml_int64_to_int m v1 = Val_long (Int64_val m v1)"

definition caml_int64_of_int32 :: prim1 where
  "caml_int64_of_int32 rt v1 s = caml_copy_int64 rt (scast (Int32_val (mem s) v1)) s"

definition caml_int64_to_int32 :: prim1 where
  "caml_int64_to_int32 rt v1 s = caml_copy_int32 rt (ucast (Int64_val (mem s) v1)) s"

definition caml_int64_of_nativeint :: prim1 where
  "caml_int64_of_nativeint rt v1 s = caml_copy_int64 rt (Nativeint_val (mem s) v1) s"

definition caml_int64_to_nativeint :: prim1 where
  "caml_int64_to_nativeint rt v1 s = caml_copy_nativeint rt (Int64_val (mem s) v1) s"

definition int64_cmp :: "store \<Rightarrow> u64 \<Rightarrow> u64 \<Rightarrow> int" where
  "int64_cmp m v1 v2 = 
    (let i1 = Int64_val m v1; i2 = Int64_val m v2
     in (if sint i2 < sint i1 then 1 else 0) - (if sint i1 < sint i2 then 1 else 0))"

definition caml_int64_compare_unboxed :: "u64 \<Rightarrow> u64 \<Rightarrow> u64" where
  "caml_int64_compare_unboxed i1 i2 = COMPARE_INT i1 i2"

definition caml_int64_compare :: "store \<Rightarrow> u64 \<Rightarrow> u64 \<Rightarrow> u64" where
  "caml_int64_compare m v1 v2 = Val_long (caml_int64_compare_unboxed (Int64_val m v1) (Int64_val m v2))"

definition int64_hash :: "store \<Rightarrow> u64 \<Rightarrow> u64" where
  "int64_hash m v = 
    (let x = Int64_val m v; lo = (ucast x :: u32); hi = (ucast (signed_drop_bit 32 x) :: u32)
     in ucast (hi XOR lo))"

definition caml_int64_of_string :: prim1 where
  "caml_int64_of_string rt v s =
    (case int64_of_string (string_bytes (mem s) v) of
       Inl msg \<Rightarrow> cbind (rt_failwith rt msg s) (\<lambda>_ s. Diverge) | Inr x \<Rightarrow> caml_copy_int64 rt x s)"

section \<open>Native integers\<close>

definition caml_nativeint_neg :: prim1 where
  "caml_nativeint_neg rt v1 s = caml_copy_nativeint rt (- Nativeint_val (mem s) v1) s"

definition caml_nativeint_add :: prim2 where
  "caml_nativeint_add rt v1 v2 s = caml_copy_nativeint rt (Nativeint_val (mem s) v1 + Nativeint_val (mem s) v2) s"

definition caml_nativeint_sub :: prim2 where
  "caml_nativeint_sub rt v1 v2 s = caml_copy_nativeint rt (Nativeint_val (mem s) v1 - Nativeint_val (mem s) v2) s"

definition caml_nativeint_mul :: prim2 where
  "caml_nativeint_mul rt v1 v2 s = caml_copy_nativeint rt (Nativeint_val (mem s) v1 * Nativeint_val (mem s) v2) s"

definition caml_nativeint_and :: prim2 where
  "caml_nativeint_and rt v1 v2 s = caml_copy_nativeint rt (Nativeint_val (mem s) v1 AND Nativeint_val (mem s) v2) s"

definition caml_nativeint_or :: prim2 where
  "caml_nativeint_or rt v1 v2 s = caml_copy_nativeint rt (Nativeint_val (mem s) v1 OR Nativeint_val (mem s) v2) s"

definition caml_nativeint_xor :: prim2 where
  "caml_nativeint_xor rt v1 v2 s = caml_copy_nativeint rt (Nativeint_val (mem s) v1 XOR Nativeint_val (mem s) v2) s"

definition caml_nativeint_div :: prim2 where
  "caml_nativeint_div rt v1 v2 s0 = 
    (let dividend = Nativeint_val (mem s0) v1; divisor = Nativeint_val (mem s0) v2
     in cbind (raise_if (divisor = 0) (rt_raise_zero_divide rt) s0) (\<lambda>_ s.
          if dividend = push_bit 63 1 \<and> divisor = - 1 then Ret v1 s
          else caml_copy_nativeint rt (word_sdiv dividend divisor) s))"

definition caml_nativeint_mod :: prim2 where
  "caml_nativeint_mod rt v1 v2 s0 = 
    (let dividend = Nativeint_val (mem s0) v1; divisor = Nativeint_val (mem s0) v2
     in cbind (raise_if (divisor = 0) (rt_raise_zero_divide rt) s0) (\<lambda>_ s.
          if dividend = push_bit 63 1 \<and> divisor = - 1 then caml_copy_nativeint rt 0 s
          else caml_copy_nativeint rt (word_smod dividend divisor) s))"

definition caml_nativeint_shift_left :: prim2 where
  "caml_nativeint_shift_left rt v1 v2 s = caml_copy_nativeint rt (push_bit (count64 v2) (Nativeint_val (mem s) v1)) s"

definition caml_nativeint_shift_right :: prim2 where
  "caml_nativeint_shift_right rt v1 v2 s = caml_copy_nativeint rt (signed_drop_bit (count64 v2) (Nativeint_val (mem s) v1)) s"

definition caml_nativeint_shift_right_unsigned :: prim2 where
  "caml_nativeint_shift_right_unsigned rt v1 v2 s = caml_copy_nativeint rt (drop_bit (count64 v2) (Nativeint_val (mem s) v1)) s"

definition caml_nativeint_bswap :: prim1 where
  "caml_nativeint_bswap rt v1 s = caml_copy_nativeint rt (caml_swap64 (Nativeint_val (mem s) v1)) s"

definition caml_nativeint_of_int :: prim1 where
  "caml_nativeint_of_int rt v1 s = caml_copy_nativeint rt (Long_val v1) s"

definition caml_nativeint_to_int :: "store \<Rightarrow> u64 \<Rightarrow> u64" where
  "caml_nativeint_to_int m v1 = Val_long (Nativeint_val m v1)"

definition caml_nativeint_of_int32 :: prim1 where
  "caml_nativeint_of_int32 rt v1 s = caml_copy_nativeint rt (scast (Int32_val (mem s) v1)) s"

definition caml_nativeint_to_int32 :: prim1 where
  "caml_nativeint_to_int32 rt v1 s = caml_copy_int32 rt (ucast (Nativeint_val (mem s) v1)) s"

definition nativeint_cmp :: "store \<Rightarrow> u64 \<Rightarrow> u64 \<Rightarrow> int" where
  "nativeint_cmp m v1 v2 = 
    (let i1 = Nativeint_val m v1; i2 = Nativeint_val m v2
     in (if sint i2 < sint i1 then 1 else 0) - (if sint i1 < sint i2 then 1 else 0))"

definition caml_nativeint_compare_unboxed :: "u64 \<Rightarrow> u64 \<Rightarrow> u64" where
  "caml_nativeint_compare_unboxed i1 i2 = COMPARE_INT i1 i2"

definition caml_nativeint_compare :: "store \<Rightarrow> u64 \<Rightarrow> u64 \<Rightarrow> u64" where
  "caml_nativeint_compare m v1 v2 = Val_long (caml_nativeint_compare_unboxed (Nativeint_val m v1) (Nativeint_val m v2))"

definition nativeint_hash :: "store \<Rightarrow> u64 \<Rightarrow> u64" where
  "nativeint_hash m v = 
    (let n = Nativeint_val m v in signed_drop_bit 32 n XOR signed_drop_bit 63 n XOR n)"

definition caml_nativeint_of_string :: prim1 where
  "caml_nativeint_of_string rt v s =
    (case parse_intnat (string_bytes (mem s) v) 64 ''Nativeint.of_string'' of
       Inl msg \<Rightarrow> cbind (rt_failwith rt msg s) (\<lambda>_ s. Diverge) | Inr x \<Rightarrow> caml_copy_nativeint rt x s)"

section \<open>What the primitives compute\<close>

lemma Int32_set: "Int32_val (set_Int32 v i m) v = i"
proof -
  have "(ucast ((x AND NOT 0xFFFFFFFF) OR ucast i :: u64) :: u32) = i" for x
  proof (rule bit_word_eqI)
    fix n assume n: "n < LENGTH(32)"
    have "(0xFFFFFFFF :: u64) = mask 32" by (simp add: mask_eq_exp_minus_1)
    then show "bit (ucast ((x AND NOT 0xFFFFFFFF) OR ucast i :: u64) :: u32) n = bit i n"
      using n by (simp only: bit_simps) (auto simp: bit_simps)
  qed
  then show ?thesis by (simp add: Int32_val_def set_Int32_def Field_def set_Field_def)
qed

text \<open>A fresh custom block: header, operations and the words around it.\<close>

definition boxes :: "u64 \<Rightarrow> u64 \<Rightarrow> caml_state \<Rightarrow> caml_state \<Rightarrow> bool" where
  "boxes ops v t t' \<longleftrightarrow> Hd_val (mem t') v = Hd_val (mem t) v \<and> Field (mem t') v 0 = ops \<and>
     (\<forall>a. a \<noteq> v \<and> a \<noteq> v + 8 \<longrightarrow> mem t' a = mem t a) \<and> young_ptr t' = young_ptr t"

definition static_ops :: "u64 \<Rightarrow> u64 \<Rightarrow> caml_state \<Rightarrow> bool" where
  "static_ops ops v t \<longleftrightarrow> custom_finalize (mem t) ops = 0 \<and> ops + 8 \<noteq> v"

lemma alloc_custom_run:
  assumes "caml_alloc_small rt 2 Custom_tag s = Ret v t" "static_ops ops v t" "bsz = 4 \<or> bsz = 8"
  shows "caml_alloc_custom rt ops bsz 0 1 s = Ret v (store_at v ops t)"
proof -
  have "1 + (bsz + 8 - 1) div 8 = (2 :: u64)" using assms(3) by auto
  then show ?thesis
    using assms(1,2) unfolding caml_alloc_custom_def alloc_custom_gen_def Let_def
    by (simp add: Max_young_wosize_def static_ops_def custom_finalize_def store_at_def)
qed

lemma distinct_words: "v - 8 \<noteq> v" "v - 8 \<noteq> v + 8" "v + 8 \<noteq> v" for v :: u64
proof -
  show "v - 8 \<noteq> v" by simp
  show "v + 8 \<noteq> v" by simp
  show "v - 8 \<noteq> v + 8"
  proof
    assume "v - 8 = v + 8"
    then have "(16 :: u64) = 0" by (simp add: algebra_simps)
    then show False by simp
  qed
qed

lemma copy_int32_correct:
  assumes "caml_alloc_small rt 2 Custom_tag s = Ret v t" "static_ops (rt_int32_ops rt) v t"
  shows "\<exists>t'. caml_copy_int32 rt i s = Ret v t' \<and> boxes (rt_int32_ops rt) v t t' \<and> Int32_val (mem t') v = i"
proof -
  let ?t = "on_mem (set_Int32 v i) (store_at v (rt_int32_ops rt) t)"
  have "caml_copy_int32 rt i s = Ret v ?t"
    using alloc_custom_run [OF assms, of 4] by (simp add: caml_copy_int32_def)
  moreover have "Int32_val (mem ?t) v = i" by (simp add: on_mem_def Int32_set)
  moreover have "boxes (rt_int32_ops rt) v t ?t"
    using distinct_words [of v]
    by (auto simp: boxes_def on_mem_def set_Int32_def set_Field_def store_at_def Hd_val_def Field_def)
  ultimately show ?thesis by blast
qed

lemma copy_word_correct:
  assumes "caml_alloc_small rt 2 Custom_tag s = Ret v t" "static_ops ops v t"
  shows "\<exists>t'. cbind (caml_alloc_custom rt ops 8 0 1 s) (\<lambda>v s. Ret v (on_mem (set_Field v 1 i) s)) = Ret v t' \<and>
    boxes ops v t t' \<and> Field (mem t') v 1 = i"
proof -
  let ?t = "on_mem (set_Field v 1 i) (store_at v ops t)"
  have "boxes ops v t ?t" "Field (mem ?t) v 1 = i"
    using distinct_words [of v]
    by (auto simp: boxes_def on_mem_def set_Field_def store_at_def Hd_val_def Field_def)
  then show ?thesis using alloc_custom_run [OF assms, of 8] by simp
qed

lemma copy_int64_correct:
  assumes "caml_alloc_small rt 2 Custom_tag s = Ret v t" "static_ops (rt_int64_ops rt) v t"
  shows "\<exists>t'. caml_copy_int64 rt i s = Ret v t' \<and> boxes (rt_int64_ops rt) v t t' \<and> Int64_val (mem t') v = i"
  using copy_word_correct [OF assms] by (simp add: caml_copy_int64_def Int64_val_def)

lemma copy_nativeint_correct:
  assumes "caml_alloc_small rt 2 Custom_tag s = Ret v t" "static_ops (rt_nativeint_ops rt) v t"
  shows "\<exists>t'. caml_copy_nativeint rt i s = Ret v t' \<and> boxes (rt_nativeint_ops rt) v t t' \<and>
    Nativeint_val (mem t') v = i"
  using copy_word_correct [OF assms] by (simp add: caml_copy_nativeint_def Nativeint_val_def)

text \<open>The three kinds of boxed integer: where the operations are, the value, the width less one.\<close>

lemma word_ops_int:
  fixes a b :: "'a::len word"
  shows "sint (a + b) = signed_take_bit (LENGTH('a) - 1) (sint a + sint b)"
    "sint (a - b) = signed_take_bit (LENGTH('a) - 1) (sint a - sint b)"
    "sint (a * b) = signed_take_bit (LENGTH('a) - 1) (sint a * sint b)"
    "sint (a AND b) = signed_take_bit (LENGTH('a) - 1) (sint a AND sint b)"
    "sint (a OR b) = signed_take_bit (LENGTH('a) - 1) (sint a OR sint b)"
    "sint (a XOR b) = signed_take_bit (LENGTH('a) - 1) (sint a XOR sint b)"
    "sint (word_sdiv a b) = signed_take_bit (LENGTH('a) - 1) (sint a sdiv sint b)"
    "sint (word_smod a b) = signed_take_bit (LENGTH('a) - 1) (sint a smod sint b)"
proof -
  show "sint (a + b) = signed_take_bit (LENGTH('a) - 1) (sint a + sint b)"
    unfolding sint_word_of_int [symmetric] by simp
  show "sint (a - b) = signed_take_bit (LENGTH('a) - 1) (sint a - sint b)"
    unfolding sint_word_of_int [symmetric] by simp
  show "sint (a * b) = signed_take_bit (LENGTH('a) - 1) (sint a * sint b)"
    unfolding sint_word_of_int [symmetric] by simp
  show "sint (a AND b) = signed_take_bit (LENGTH('a) - 1) (sint a AND sint b)"
    unfolding sint_word_of_int [symmetric] signed_and_eq [symmetric] by simp
  show "sint (a OR b) = signed_take_bit (LENGTH('a) - 1) (sint a OR sint b)"
    unfolding sint_word_of_int [symmetric] signed_or_eq [symmetric] by simp
  show "sint (a XOR b) = signed_take_bit (LENGTH('a) - 1) (sint a XOR sint b)"
    unfolding sint_word_of_int [symmetric] signed_xor_eq [symmetric] by simp
qed (simp_all only: word_sdiv_def word_smod_def sint_word_of_int)

text \<open>
  The binary operations with the width of their operands, the operations of the block they
  box, the integer an operand stands for and the integer operation they compute.
\<close>

abbreviation val32 :: "store \<Rightarrow> u64 \<Rightarrow> int" where "val32 m v \<equiv> sint (Int32_val m v)"
abbreviation val64 :: "store \<Rightarrow> u64 \<Rightarrow> int" where "val64 m v \<equiv> sint (Int64_val m v)"
abbreviation valn :: "store \<Rightarrow> u64 \<Rightarrow> int" where "valn m v \<equiv> sint (Nativeint_val m v)"

type_synonym boxed_op = "prim2 \<times> nat \<times> u64 \<times> (store \<Rightarrow> u64 \<Rightarrow> int) \<times> (int \<Rightarrow> int \<Rightarrow> int)"

definition boxed_binops :: "rt \<Rightarrow> boxed_op set" where
  "boxed_binops rt = {
    (caml_int32_add, 32, rt_int32_ops rt, val32, (+)),
    (caml_int32_sub, 32, rt_int32_ops rt, val32, (-)),
    (caml_int32_mul, 32, rt_int32_ops rt, val32, (*)),
    (caml_int32_and, 32, rt_int32_ops rt, val32, (AND)),
    (caml_int32_or, 32, rt_int32_ops rt, val32, (OR)),
    (caml_int32_xor, 32, rt_int32_ops rt, val32, (XOR)),
    (caml_int64_add, 64, rt_int64_ops rt, val64, (+)),
    (caml_int64_sub, 64, rt_int64_ops rt, val64, (-)),
    (caml_int64_mul, 64, rt_int64_ops rt, val64, (*)),
    (caml_int64_and, 64, rt_int64_ops rt, val64, (AND)),
    (caml_int64_or, 64, rt_int64_ops rt, val64, (OR)),
    (caml_int64_xor, 64, rt_int64_ops rt, val64, (XOR)),
    (caml_nativeint_add, 64, rt_nativeint_ops rt, valn, (+)),
    (caml_nativeint_sub, 64, rt_nativeint_ops rt, valn, (-)),
    (caml_nativeint_mul, 64, rt_nativeint_ops rt, valn, (*)),
    (caml_nativeint_and, 64, rt_nativeint_ops rt, valn, (AND)),
    (caml_nativeint_or, 64, rt_nativeint_ops rt, valn, (OR)),
    (caml_nativeint_xor, 64, rt_nativeint_ops rt, valn, (XOR))}"

definition boxed_divops :: "rt \<Rightarrow> boxed_op set" where
  "boxed_divops rt = {
    (caml_int32_div, 32, rt_int32_ops rt, val32, (sdiv)),
    (caml_int32_mod, 32, rt_int32_ops rt, val32, (smod)),
    (caml_int64_div, 64, rt_int64_ops rt, val64, (sdiv)),
    (caml_int64_mod, 64, rt_int64_ops rt, val64, (smod)),
    (caml_nativeint_div, 64, rt_nativeint_ops rt, valn, (sdiv)),
    (caml_nativeint_mod, 64, rt_nativeint_ops rt, valn, (smod))}"

lemmas boxed_defs =
  caml_int32_add_def
  caml_int32_sub_def
  caml_int32_mul_def
  caml_int32_and_def
  caml_int32_or_def
  caml_int32_xor_def
  caml_int64_add_def
  caml_int64_sub_def
  caml_int64_mul_def
  caml_int64_and_def
  caml_int64_or_def
  caml_int64_xor_def
  caml_nativeint_add_def
  caml_nativeint_sub_def
  caml_nativeint_mul_def
  caml_nativeint_and_def
  caml_nativeint_or_def
  caml_nativeint_xor_def

text \<open>A result that is boxed stands for the integer it was made from.\<close>

lemma boxed_results:
  assumes "caml_alloc_small rt 2 Custom_tag s = Ret v t"
  shows "static_ops (rt_int32_ops rt) v t \<Longrightarrow> sint i = k \<Longrightarrow>
      \<exists>t'. caml_copy_int32 rt i s = Ret v t' \<and> boxes (rt_int32_ops rt) v t t' \<and> val32 (mem t') v = k"
    and "static_ops (rt_int64_ops rt) v t \<Longrightarrow> sint j = k \<Longrightarrow>
      \<exists>t'. caml_copy_int64 rt j s = Ret v t' \<and> boxes (rt_int64_ops rt) v t t' \<and> val64 (mem t') v = k"
    and "static_ops (rt_nativeint_ops rt) v t \<Longrightarrow> sint j = k \<Longrightarrow>
      \<exists>t'. caml_copy_nativeint rt j s = Ret v t' \<and> boxes (rt_nativeint_ops rt) v t t' \<and> valn (mem t') v = k"
  using copy_int32_correct [OF assms, of i] copy_int64_correct [OF assms, of j]
    copy_nativeint_correct [OF assms, of j] by auto


text \<open>The one quotient that does not fit is the dividend again, as wrap-around makes it.\<close>

lemma min_quotient:
  "signed_take_bit 31 (sint (push_bit 31 1 :: u32) sdiv sint (- 1 :: u32)) = sint (push_bit 31 1 :: u32)"
  "signed_take_bit 63 (sint (push_bit 63 1 :: u64) sdiv sint (- 1 :: u64)) = sint (push_bit 63 1 :: u64)"
  "signed_take_bit 31 (sint (push_bit 31 1 :: u32) smod sint (- 1 :: u32)) = 0"
  "signed_take_bit 63 (sint (push_bit 63 1 :: u64) smod sint (- 1 :: u64)) = 0"
  by (simp_all add: signed_divide_int_def signed_modulo_int_def)

lemmas boxed_div_defs = caml_int32_div_def caml_int32_mod_def caml_int64_div_def caml_int64_mod_def
  caml_nativeint_div_def caml_nativeint_mod_def

lemma boxed_or_same:
  "\<exists>t'. r = Ret v t' \<and> boxes ops v t t' \<and> val (mem t') v = k \<Longrightarrow>
    \<exists>x t'. r = Ret x t' \<and> (x = v \<and> boxes ops v t t' \<or> x = v1 \<and> t' = s) \<and> val (mem t') x = k"
  by blast

theorem boxed_div_correct:
  assumes "(prim, w, ops, val, f) \<in> boxed_divops rt" and "val (mem s) v2 \<noteq> 0"
    and "caml_alloc_small rt 2 Custom_tag s = Ret v t" and "static_ops ops v t"
  shows "\<exists>x t'. prim rt v1 v2 s = Ret x t' \<and> (x = v \<and> boxes ops v t t' \<or> x = v1 \<and> t' = s) \<and>
    val (mem t') x = signed_take_bit (w - 1) (f (val (mem s) v1) (val (mem s) v2))"
  using assms(1,2,4) unfolding boxed_divops_def
  by (elim insertE emptyE)
     (auto simp: boxed_div_defs raise_if_def Let_def word_ops_int min_quotient [simplified]
       intro!: boxed_or_same boxed_results [OF assms(3)])

theorem boxed_div_by_zero:
  assumes "(prim, w, ops, val, f) \<in> boxed_divops rt" and "val (mem s) v2 = 0"
    and "rt_raise_zero_divide rt s = Longjmp t"
  shows "prim rt v1 v2 s = Longjmp t"
proof -
  have "sint x = 0 \<longleftrightarrow> x = 0" for x :: u32 by (auto intro: sint_eqD)
  moreover have "sint x = 0 \<longleftrightarrow> x = 0" for x :: u64 by (auto intro: sint_eqD)
  ultimately show ?thesis
    using assms unfolding boxed_divops_def
    by (elim insertE emptyE) (auto simp: boxed_div_defs raise_if_def Let_def)
qed

section \<open>The theorems at a concrete state\<close>

definition boxed_sample :: caml_state where
  "boxed_sample = (caml_state.truncate sample_machine)
    \<lparr>mem := (\<lambda>_. 0)(0x7008 := 5, 0x7018 := - 7)\<rparr>"

lemma boxed_sample_alloc:
  "\<exists>t. caml_alloc_small sample_rt 2 Custom_tag boxed_sample = Ret 0xFFF0 t \<and>
    static_ops 0x6100 0xFFF0 t \<and> mem boxed_sample 0x7008 = 5 \<and> mem boxed_sample 0x7018 = - 7"
  by (simp add: caml_alloc_small_def boxed_sample_def caml_state.defs sample_machine_def Whsize_wosize_def
      Val_hp_def static_ops_def custom_finalize_def store_at_def)


theorem boxed_div_correct_witness:
  "\<exists>v t. caml_int64_mod sample_rt 0x7010 0x7000 boxed_sample = Ret v t \<and> val64 (mem t) v = - 2"
proof -
  obtain t where t: "caml_alloc_small sample_rt 2 Custom_tag boxed_sample = Ret 0xFFF0 t" "static_ops 0x6100 0xFFF0 t"
    and m: "mem boxed_sample 0x7008 = 5" "mem boxed_sample 0x7018 = - 7" using boxed_sample_alloc by blast
  have "(caml_int64_mod, 64, 0x6100, val64, (smod)) \<in> boxed_divops sample_rt"
    by (simp add: boxed_divops_def sample_rt_def)
  moreover have "val64 (mem boxed_sample) 0x7000 \<noteq> 0" by (simp add: Int64_val_def Field_def m)
  ultimately show ?thesis
    using boxed_div_correct [where ?v1.0 = "0x7010" and ?v2.0 = "0x7000", OF _ _ t,
        of caml_int64_mod 64 val64 "(smod)"]
    by (auto simp: Int64_val_def Field_def m signed_modulo_int_def signed_divide_int_def)
qed

end
