(* ===== verification/Str.thy ===== *)
theory Str
  imports Boxed_Ints
begin

text \<open>
  Strings and byte sequences (\<^verbatim>\<open>runtime/str.c\<close>): length, creation, access by one, two, four and
  eight bytes, equality by words, comparison, copying and filling. \<open>memcmp\<close>, \<open>memmove\<close> and
  \<open>memset\<close> are defined on the store; \<open>caml_alloc_sprintf\<close> is not modelled.
\<close>

section \<open>Length and creation\<close>

definition caml_ml_string_length :: "store \<Rightarrow> u64 \<Rightarrow> u64" where
  "caml_ml_string_length m v = (let temp = Bosize_val m v - 1 in Val_long (temp - ucast (Byte_u m v temp)))"

definition caml_ml_bytes_length :: "store \<Rightarrow> u64 \<Rightarrow> u64" where
  "caml_ml_bytes_length m v = caml_ml_string_length m v"

text \<open>\<open>strlen\<close>: the bytes before the first null; the search stays inside a well-formed string.\<close>

definition caml_string_is_c_safe :: "store \<Rightarrow> u64 \<Rightarrow> bool" where
  "caml_string_is_c_safe m v =
    (length (takeWhile (\<lambda>b. b \<noteq> 0) (load_bytes m v (unat (caml_string_length m v)))) =
     unat (caml_string_length m v))"

definition caml_create_string :: prim1 where
  "caml_create_string rt len s =
    (let sz = Long_val len
     in cbind (raise_if (Bsize_wsize Max_wosize - 1 < sz) (rt_invalid_argument rt ''String.create'') s)
          (\<lambda>_ s. caml_alloc_string rt sz s))"

definition caml_create_bytes :: prim1 where
  "caml_create_bytes rt len s =
    (let sz = Long_val len
     in cbind (raise_if (Bsize_wsize Max_wosize - 1 < sz) (rt_invalid_argument rt ''Bytes.create'') s)
          (\<lambda>_ s. caml_alloc_string rt sz s))"

section \<open>Access\<close>

text \<open>The bound test of an access to \<open>k + 1\<close> bytes.\<close>

definition str_out :: "store \<Rightarrow> u64 \<Rightarrow> u64 \<Rightarrow> u64 \<Rightarrow> bool" where
  "str_out m str idx k \<longleftrightarrow> sint idx < 0 \<or> caml_string_length m str \<le> idx + k"

definition caml_string_get :: prim2 where
  "caml_string_get rt str index s =
    (let idx = Long_val index
     in cbind (raise_if (str_out (mem s) str idx 0) (rt_array_bound_error rt) s)
          (\<lambda>_ s. Ret (Val_int (ucast (Byte_u (mem s) str idx))) s))"

definition caml_bytes_get :: prim2 where
  "caml_bytes_get rt str index = caml_string_get rt str index"

definition caml_bytes_set :: "rt \<Rightarrow> u64 \<Rightarrow> u64 \<Rightarrow> u64 \<Rightarrow> caml_state \<Rightarrow> (u64, caml_state) cres" where
  "caml_bytes_set rt str index newval s =
    (let idx = Long_val index
     in cbind (raise_if (str_out (mem s) str idx 0) (rt_array_bound_error rt) s)
          (\<lambda>_ s. Ret Val_unit (on_mem (set_Byte str idx (ucast (Int_val newval))) s)))"

definition caml_string_set :: "rt \<Rightarrow> u64 \<Rightarrow> u64 \<Rightarrow> u64 \<Rightarrow> caml_state \<Rightarrow> (u64, caml_state) cres" where
  "caml_string_set rt str index newval = caml_bytes_set rt str index newval"

definition caml_string_get16 :: prim2 where
  "caml_string_get16 rt str index s =
    (let idx = Long_val index
     in cbind (raise_if (str_out (mem s) str idx 1) (rt_array_bound_error rt) s)
          (\<lambda>_ s. let b1 = Byte_u (mem s) str idx; b2 = Byte_u (mem s) str (idx + 1)
                 in Ret (Val_int (push_bit 8 (ucast b2) OR ucast b1)) s))"

definition caml_bytes_get16 :: prim2 where
  "caml_bytes_get16 rt str index = caml_string_get16 rt str index"

definition caml_string_get32 :: prim2 where
  "caml_string_get32 rt str index s =
    (let idx = Long_val index
     in cbind (raise_if (str_out (mem s) str idx 3) (rt_array_bound_error rt) s)
          (\<lambda>_ s. let b1 = Byte_u (mem s) str idx; b2 = Byte_u (mem s) str (idx + 1);
                     b3 = Byte_u (mem s) str (idx + 2); b4 = Byte_u (mem s) str (idx + 3)
                 in caml_copy_int32 rt (push_bit 24 (ucast b4) OR push_bit 16 (ucast b3) OR
                      push_bit 8 (ucast b2) OR ucast b1) s))"

definition caml_bytes_get32 :: prim2 where
  "caml_bytes_get32 rt str index = caml_string_get32 rt str index"

definition caml_string_get64 :: prim2 where
  "caml_string_get64 rt str index s =
    (let idx = Long_val index
     in cbind (raise_if (str_out (mem s) str idx 7) (rt_array_bound_error rt) s)
          (\<lambda>_ s. let b1 = Byte_u (mem s) str idx; b2 = Byte_u (mem s) str (idx + 1);
                     b3 = Byte_u (mem s) str (idx + 2); b4 = Byte_u (mem s) str (idx + 3);
                     b5 = Byte_u (mem s) str (idx + 4); b6 = Byte_u (mem s) str (idx + 5);
                     b7 = Byte_u (mem s) str (idx + 6); b8 = Byte_u (mem s) str (idx + 7)
                 in caml_copy_int64 rt (push_bit 56 (ucast b8) OR push_bit 48 (ucast b7) OR
                      push_bit 40 (ucast b6) OR push_bit 32 (ucast b5) OR push_bit 24 (ucast b4) OR
                      push_bit 16 (ucast b3) OR push_bit 8 (ucast b2) OR ucast b1) s))"

definition caml_bytes_get64 :: prim2 where
  "caml_bytes_get64 rt str index = caml_string_get64 rt str index"

text \<open>Stores of consecutive bytes, the lowest address first.\<close>

definition caml_bytes_set16 :: "rt \<Rightarrow> u64 \<Rightarrow> u64 \<Rightarrow> u64 \<Rightarrow> caml_state \<Rightarrow> (u64, caml_state) cres" where
  "caml_bytes_set16 rt str index newval s =
    (let idx = Long_val index
     in cbind (raise_if (str_out (mem s) str idx 1) (rt_array_bound_error rt) s)
          (\<lambda>_ s. let val = Long_val newval;
                     b2 = ucast (0xFF AND signed_drop_bit 8 val); b1 = ucast (0xFF AND val)
                 in Ret Val_unit (on_mem (\<lambda>m. set_Byte str (idx + 1) b2 (set_Byte str idx b1 m)) s)))"

definition caml_bytes_set32 :: "rt \<Rightarrow> u64 \<Rightarrow> u64 \<Rightarrow> u64 \<Rightarrow> caml_state \<Rightarrow> (u64, caml_state) cres" where
  "caml_bytes_set32 rt str index newval s =
    (let idx = Long_val index
     in cbind (raise_if (str_out (mem s) str idx 3) (rt_array_bound_error rt) s)
          (\<lambda>_ s. let val = (scast (Int32_val (mem s) newval) :: u64);
                     b4 = ucast (0xFF AND signed_drop_bit 24 val);
                     b3 = ucast (0xFF AND signed_drop_bit 16 val);
                     b2 = ucast (0xFF AND signed_drop_bit 8 val); b1 = ucast (0xFF AND val)
                 in Ret Val_unit (on_mem (\<lambda>m. set_Byte str (idx + 3) b4 (set_Byte str (idx + 2) b3
                      (set_Byte str (idx + 1) b2 (set_Byte str idx b1 m)))) s)))"

definition caml_bytes_set64 :: "rt \<Rightarrow> u64 \<Rightarrow> u64 \<Rightarrow> u64 \<Rightarrow> caml_state \<Rightarrow> (u64, caml_state) cres" where
  "caml_bytes_set64 rt str index newval s =
    (let idx = Long_val index
     in cbind (raise_if (str_out (mem s) str idx 7) (rt_array_bound_error rt) s)
          (\<lambda>_ s. let val = Int64_val (mem s) newval;
                     b8 = ucast (0xFF AND signed_drop_bit 56 val);
                     b7 = ucast (0xFF AND signed_drop_bit 48 val);
                     b6 = ucast (0xFF AND signed_drop_bit 40 val);
                     b5 = ucast (0xFF AND signed_drop_bit 32 val);
                     b4 = ucast (0xFF AND signed_drop_bit 24 val);
                     b3 = ucast (0xFF AND signed_drop_bit 16 val);
                     b2 = ucast (0xFF AND signed_drop_bit 8 val); b1 = ucast (0xFF AND val)
                 in Ret Val_unit (on_mem (\<lambda>m. set_Byte str (idx + 7) b8 (set_Byte str (idx + 6) b7
                      (set_Byte str (idx + 5) b6 (set_Byte str (idx + 4) b5
                      (set_Byte str (idx + 3) b4 (set_Byte str (idx + 2) b3
                      (set_Byte str (idx + 1) b2 (set_Byte str idx b1 m)))))))) s)))"

section \<open>Equality and comparison\<close>

fun words_equal :: "store \<Rightarrow> nat \<Rightarrow> u64 \<Rightarrow> u64 \<Rightarrow> bool" where
  "words_equal m 0 p1 p2 = True"
| "words_equal m (Suc n) p1 p2 = (if m p1 \<noteq> m p2 then False else words_equal m n (p1 + 8) (p2 + 8))"

definition caml_string_equal :: "store \<Rightarrow> u64 \<Rightarrow> u64 \<Rightarrow> u64" where
  "caml_string_equal m s1 s2 =
    (if s1 = s2 then Val_true
     else (let sz1 = Wosize_val m s1; sz2 = Wosize_val m s2
           in if sz1 \<noteq> sz2 then Val_false
              else if words_equal m (unat sz1) s1 s2 then Val_true else Val_false))"

definition caml_bytes_equal :: "store \<Rightarrow> u64 \<Rightarrow> u64 \<Rightarrow> u64" where
  "caml_bytes_equal m s1 s2 = caml_string_equal m s1 s2"

definition caml_string_notequal :: "store \<Rightarrow> u64 \<Rightarrow> u64 \<Rightarrow> u64" where
  "caml_string_notequal m s1 s2 = Val_not (caml_string_equal m s1 s2)"

definition caml_bytes_notequal :: "store \<Rightarrow> u64 \<Rightarrow> u64 \<Rightarrow> u64" where
  "caml_bytes_notequal m s1 s2 = caml_string_notequal m s1 s2"

text \<open>\<open>memcmp\<close>: the sign of the difference of the first bytes that differ.\<close>

fun memcmp :: "u8 list \<Rightarrow> u8 list \<Rightarrow> int" where
  "memcmp (x # xs) (y # ys) = (if x < y then - 1 else if y < x then 1 else memcmp xs ys)"
| "memcmp _ _ = 0"

definition caml_string_compare :: "store \<Rightarrow> u64 \<Rightarrow> u64 \<Rightarrow> u64" where
  "caml_string_compare m s1 s2 =
    (if s1 = s2 then Val_int 0
     else (let len1 = caml_string_length m s1; len2 = caml_string_length m s2;
               n = unat (if len1 \<le> len2 then len1 else len2);
               res = memcmp (load_bytes m s1 n) (load_bytes m s2 n)
           in if res < 0 then Val_int (- 1)
              else if 0 < res then Val_int 1
              else if len1 < len2 then Val_int (- 1)
              else if len2 < len1 then Val_int 1
              else Val_int 0))"

definition caml_bytes_compare :: "store \<Rightarrow> u64 \<Rightarrow> u64 \<Rightarrow> u64" where
  "caml_bytes_compare m s1 s2 = caml_string_compare m s1 s2"

definition caml_string_lessthan :: "store \<Rightarrow> u64 \<Rightarrow> u64 \<Rightarrow> u64" where
  "caml_string_lessthan m s1 s2 = (if sint (caml_string_compare m s1 s2) < sint (Val_int 0) then Val_true else Val_false)"

definition caml_bytes_lessthan :: "store \<Rightarrow> u64 \<Rightarrow> u64 \<Rightarrow> u64" where
  "caml_bytes_lessthan m s1 s2 = caml_string_lessthan m s1 s2"

definition caml_string_lessequal :: "store \<Rightarrow> u64 \<Rightarrow> u64 \<Rightarrow> u64" where
  "caml_string_lessequal m s1 s2 = (if sint (caml_string_compare m s1 s2) \<le> sint (Val_int 0) then Val_true else Val_false)"

definition caml_bytes_lessequal :: "store \<Rightarrow> u64 \<Rightarrow> u64 \<Rightarrow> u64" where
  "caml_bytes_lessequal m s1 s2 = caml_string_lessequal m s1 s2"

definition caml_string_greaterthan :: "store \<Rightarrow> u64 \<Rightarrow> u64 \<Rightarrow> u64" where
  "caml_string_greaterthan m s1 s2 = (if sint (Val_int 0) < sint (caml_string_compare m s1 s2) then Val_true else Val_false)"

definition caml_bytes_greaterthan :: "store \<Rightarrow> u64 \<Rightarrow> u64 \<Rightarrow> u64" where
  "caml_bytes_greaterthan m s1 s2 = caml_string_greaterthan m s1 s2"

definition caml_string_greaterequal :: "store \<Rightarrow> u64 \<Rightarrow> u64 \<Rightarrow> u64" where
  "caml_string_greaterequal m s1 s2 = (if sint (Val_int 0) \<le> sint (caml_string_compare m s1 s2) then Val_true else Val_false)"

definition caml_bytes_greaterequal :: "store \<Rightarrow> u64 \<Rightarrow> u64 \<Rightarrow> u64" where
  "caml_bytes_greaterequal m s1 s2 = caml_string_greaterequal m s1 s2"

section \<open>Copying and filling\<close>

definition caml_blit_bytes :: "u64 \<Rightarrow> u64 \<Rightarrow> u64 \<Rightarrow> u64 \<Rightarrow> u64 \<Rightarrow> caml_state \<Rightarrow> (u64, caml_state) cres" where
  "caml_blit_bytes s1 ofs1 s2 ofs2 n s =
    Ret Val_unit (on_mem (move_bytes (s2 + Long_val ofs2) (s1 + Long_val ofs1) (unat (Long_val n))) s)"

definition caml_blit_string :: "u64 \<Rightarrow> u64 \<Rightarrow> u64 \<Rightarrow> u64 \<Rightarrow> u64 \<Rightarrow> caml_state \<Rightarrow> (u64, caml_state) cres" where
  "caml_blit_string s1 ofs1 s2 ofs2 n = caml_blit_bytes s1 ofs1 s2 ofs2 n"

definition caml_fill_bytes :: "u64 \<Rightarrow> u64 \<Rightarrow> u64 \<Rightarrow> u64 \<Rightarrow> caml_state \<Rightarrow> (u64, caml_state) cres" where
  "caml_fill_bytes v ofs len init s =
    Ret Val_unit (on_mem (set_bytes (v + Long_val ofs) (ucast (Int_val init)) (unat (Long_val len))) s)"

definition caml_fill_string :: "u64 \<Rightarrow> u64 \<Rightarrow> u64 \<Rightarrow> u64 \<Rightarrow> caml_state \<Rightarrow> (u64, caml_state) cres" where
  "caml_fill_string v ofs len init = caml_fill_bytes v ofs len init"

definition caml_string_of_bytes :: "u64 \<Rightarrow> u64" where "caml_string_of_bytes bv = bv"
definition caml_bytes_of_string :: "u64 \<Rightarrow> u64" where "caml_bytes_of_string bv = bv"

section \<open>Words and bytes\<close>

definition bytes8 :: "u64 \<Rightarrow> u8 list" where
  "bytes8 w = map (\<lambda>i. ucast (drop_bit (8 * i) w)) [0..<8]"

lemma length_bytes8 [simp]: "length (bytes8 w) = 8"
  by (simp add: bytes8_def)

lemma bytes8_inject: "bytes8 x = bytes8 y \<longleftrightarrow> x = y"
proof
  assume eq: "bytes8 x = bytes8 y"
  show "x = y"
  proof (rule bit_word_eqI)
    fix n assume n: "n < LENGTH(64)"
    then have i: "n div 8 < 8" by simp
    then have "bytes8 x ! (n div 8) = bytes8 y ! (n div 8)" using eq by simp
    then have "(ucast (drop_bit (8 * (n div 8)) x) :: u8) = ucast (drop_bit (8 * (n div 8)) y)"
      using i by (simp add: bytes8_def del: upt_Suc upt_rec_numeral)
    then have "bit (ucast (drop_bit (8 * (n div 8)) x) :: u8) (n mod 8) =
        bit (ucast (drop_bit (8 * (n div 8)) y) :: u8) (n mod 8)" by simp
    then show "bit x n = bit y n" by (simp add: bit_simps)
  qed
qed simp

lemma small_word_bits: "i < 8 \<Longrightarrow> bit (of_nat i :: u64) n \<Longrightarrow> n < 3"
  by (rule bit_small_word [where x = "of_nat i :: u64"]) (simp_all add: of_nat_inverse [OF refl])

lemma aligned_add_small:
  assumes "aligned a" "i < 8"
  shows "cell_of (a + of_nat i) = a" "(a + of_nat i) AND 7 = of_nat i"
proof -
  have low: "\<not> bit a n" if "n < 3" for n using assms(1) that by (simp add: aligned_iff_bits)
  have dis: "\<not> bit a n \<or> \<not> bit (of_nat i :: u64) n" for n
    using low [of n] small_word_bits [OF assms(2), of n] by blast
  then have or: "a + of_nat i = a OR of_nat i" by (intro disjunctive_add) blast
  have high: "3 \<le> n" if "bit a n" for n using low [of n] that by (cases "n < 3") simp_all
  have small: "\<not> 3 \<le> n" if "bit (of_nat i :: u64) n" for n using small_word_bits [OF assms(2) that] by simp
  show "cell_of (a + of_nat i) = a"
    unfolding or by (intro bit_word_eqI) (auto simp: bit_cell_of bit_or_iff dest: high small)
  have "(7 :: u64) = mask 3" by (simp add: mask_eq_exp_minus_1)
  then show "(a + of_nat i) AND 7 = of_nat i"
    unfolding or using low small_word_bits [OF assms(2)]
    by (intro bit_word_eqI) (auto simp: bit_simps)
qed

lemma load_byte_aligned: "aligned a \<Longrightarrow> i < 8 \<Longrightarrow> load_byte m (a + of_nat i) = bytes8 (m a) ! i"
  by (simp add: load_byte_def aligned_add_small byte_pos_def bytes8_def of_nat_inverse [OF refl]
      del: upt_Suc upt_rec_numeral)

lemma load_bytes_append: "load_bytes m a (n + k) = load_bytes m a n @ load_bytes m (a + of_nat n) k"
  by (rule nth_equalityI) (auto simp: load_bytes_def nth_append algebra_simps)

lemma load_bytes_take: "k \<le> n \<Longrightarrow> load_bytes m a k = take k (load_bytes m a n)"
  by (simp add: load_bytes_def take_map)

lemma load_bytes_8: "aligned a \<Longrightarrow> load_bytes m a 8 = bytes8 (m a)"
  by (rule nth_equalityI) (simp_all add: load_bytes_def load_byte_aligned del: upt_Suc upt_rec_numeral)

lemma load_bytes_words:
  "aligned a \<Longrightarrow> load_bytes m a (8 * n) = concat (map bytes8 (read_words m a n))"
proof (induction n arbitrary: a)
  case (Suc n)
  have "aligned (a + 8)" using Suc.prems by (metis aligned_minus8 add_diff_cancel_right')
  then have "load_bytes m (a + 8) (8 * n) = concat (map bytes8 (read_words m (a + 8) n))" by (rule Suc.IH)
  then show ?case
    using load_bytes_append [of m a 8 "8 * n"] load_bytes_8 [OF Suc.prems]
    by (simp add: read_words_Suc)
qed (simp add: load_bytes_def read_words_def)

lemma concat_bytes8_inject:
  "length xs = length ys \<Longrightarrow> concat (map bytes8 xs) = concat (map bytes8 ys) \<longleftrightarrow> xs = ys"
  by (induction xs ys rule: list_induct2) (auto simp: bytes8_inject)

lemma words_equal_iff: "words_equal m n p1 p2 \<longleftrightarrow> read_words m p1 n = read_words m p2 n"
  by (induction n arbitrary: p1 p2) (auto simp: read_words_Suc, simp add: read_words_def)

section \<open>Well-formed strings\<close>

text \<open>
  The block of a string holds its bytes, null bytes up to the last position and there the
  number of those null bytes.
\<close>

definition wf_string :: "store \<Rightarrow> u64 \<Rightarrow> u8 list \<Rightarrow> bool" where
  "wf_string m v bs \<longleftrightarrow>
    (let w = unat (Wosize_val m v); pad = 8 * w - 1 - length bs
     in aligned v \<and> length bs < 8 * w \<and> 8 * w \<le> length bs + 8 \<and>
        load_bytes m v (8 * w) = bs @ replicate pad 0 @ [of_nat pad])"

lemma wf_stringD:
  assumes "wf_string m v bs"
  defines "w \<equiv> unat (Wosize_val m v)"
  shows "aligned v" "length bs < 8 * w" "8 * w \<le> length bs + 8" "w = length bs div 8 + 1"
    "load_bytes m v (8 * w) = bs @ replicate (8 * w - 1 - length bs) 0 @ [of_nat (8 * w - 1 - length bs)]"
proof -
  show b: "length bs < 8 * w" "8 * w \<le> length bs + 8" "aligned v"
    "load_bytes m v (8 * w) = bs @ replicate (8 * w - 1 - length bs) 0 @ [of_nat (8 * w - 1 - length bs)]"
    using assms by (simp_all add: wf_string_def Let_def)
  show "w = length bs div 8 + 1" using b(1,2) by linarith
qed

lemma padding_inject:
  assumes "b1 @ replicate k1 0 @ [of_nat k1] = b2 @ replicate k2 0 @ [of_nat k2 :: u8]" "k1 < 8" "k2 < 8"
  shows "b1 = b2"
proof -
  have "(b1 @ replicate k1 0) @ [of_nat k1] = (b2 @ replicate k2 0) @ [of_nat k2 :: u8]" using assms(1) by simp
  then have "b1 @ replicate k1 0 = b2 @ replicate k2 (0 :: u8)" "(of_nat k1 :: u8) = of_nat k2" by simp_all
  moreover from this(2) have "unat (of_nat k1 :: u8) = unat (of_nat k2 :: u8)" by simp
  then have "k1 = k2" using assms(2,3) by (simp add: of_nat_inverse [OF refl])
  ultimately show ?thesis by simp
qed

text \<open>
  C31: caml_string_equal, which compares whole words with the padding, decides equality of the
  byte strings.
\<close>

theorem string_equal_correct:
  assumes "wf_string m s1 b1" "wf_string m s2 b2"
  shows "caml_string_equal m s1 s2 = (if b1 = b2 then Val_true else Val_false)"
proof -
  note d1 = wf_stringD [OF assms(1)] and d2 = wf_stringD [OF assms(2)]
  let ?n = "unat (Wosize_val m s1)"
  have bytes: "words_equal m ?n s1 s2 \<longleftrightarrow> load_bytes m s1 (8 * ?n) = load_bytes m s2 (8 * ?n)"
    unfolding load_bytes_words [OF d1(1)] load_bytes_words [OF d2(1)]
    by (simp add: concat_bytes8_inject words_equal_iff)
  have iff: "Wosize_val m s1 = Wosize_val m s2 \<and> words_equal m ?n s1 s2 \<longleftrightarrow> b1 = b2"
  proof
    assume eq: "Wosize_val m s1 = Wosize_val m s2 \<and> words_equal m ?n s1 s2"
    have "load_bytes m s2 (8 * ?n) = b2 @ replicate (8 * ?n - 1 - length b2) 0 @ [of_nat (8 * ?n - 1 - length b2)]"
      using d2(5) eq by (simp only:)
    then have "b1 @ replicate (8 * ?n - 1 - length b1) 0 @ [of_nat (8 * ?n - 1 - length b1)] =
        b2 @ replicate (8 * ?n - 1 - length b2) 0 @ [of_nat (8 * ?n - 1 - length b2)]"
      using bytes d1(5) eq by metis
    moreover have "8 * ?n - 1 - length b1 < 8" using d1(3) by linarith
    moreover have "8 * ?n - 1 - length b2 < 8"
      using d2(3) eq by auto
    ultimately show "b1 = b2" by (rule padding_inject)
  next
    assume "b1 = b2"
    moreover from this have "Wosize_val m s1 = Wosize_val m s2"
      using d1(4) d2(4) by (simp add: unsigned_word_eqI [where ?'a = nat])
    ultimately show "Wosize_val m s1 = Wosize_val m s2 \<and> words_equal m ?n s1 s2"
      using bytes d1(5) d2(5) by simp
  qed
  show ?thesis
  proof (cases "s1 = s2")
    case True
    have "b1 = b2"
      using iff True by (simp add: words_equal_iff)
    then show ?thesis using True by (simp add: caml_string_equal_def)
  next
    case False
    then show ?thesis using iff by (auto simp: caml_string_equal_def Let_def)
  qed
qed

lemma wf_string_read:
  assumes "wf_string m v bs"
  shows "unat (caml_string_length m v) = length bs" "string_bytes m v = bs"
    "load_byte m (v + of_nat (length bs)) = 0"
proof -
  note d = wf_stringD [OF assms]
  let ?w = "unat (Wosize_val m v)"
  let ?pad = "8 * ?w - 1 - length bs"
  have "?w = unat (Hd_val m v) div 2 ^ 10"
    by (simp only: Wosize_val_def Wosize_hd_def unsigned_drop_bit_eq) (simp add: drop_bit_eq_div take_bit_nat_eq_self unat_range64 [simplified])
  then have w: "8 * ?w < 2 ^ 64" using unat_range64 [of "Hd_val m v"] by simp
  have W: "Wosize_val m v = of_nat ?w" by simp
  have temp: "Bosize_val m v - 1 = of_nat (8 * ?w - 1)"
  proof -
    have "1 \<le> 8 * ?w" using d(2) by simp
    then have "(of_nat (8 * ?w - 1) :: u64) = of_nat (8 * ?w) - of_nat 1" by (rule of_nat_diff)
    then show ?thesis unfolding Bosize_val_def Bsize_wsize_def by (simp add: mult.commute)
  qed
  have "Byte_u m v (Bosize_val m v - 1) = load_bytes m v (8 * ?w) ! (8 * ?w - 1)"
    unfolding temp using d(2) by (simp add: Byte_u_def load_bytes_def)
  also have "\<dots> = of_nat ?pad"
  proof -
    have "8 * ?w - 1 = length (bs @ replicate ?pad (0 :: u8))" using d(2) by simp
    then show ?thesis unfolding d(5) by (metis append_assoc nth_append_length)
  qed
  finally have pad: "Byte_u m v (Bosize_val m v - 1) = of_nat ?pad" .
  have uc: "(ucast (of_nat ?pad :: u8) :: u64) = of_nat ?pad"
    using d(3) by (intro unsigned_word_eqI [where ?'a = nat])
      (simp add: unsigned_ucast_eq unsigned_of_nat take_bit_eq_mod)
  have "caml_string_length m v = of_nat (8 * ?w - 1) - of_nat ?pad"
    unfolding caml_string_length_def Let_def pad uc unfolding temp ..
  also have "\<dots> = of_nat (8 * ?w - 1 - ?pad)" by (rule of_nat_diff [symmetric]) simp
  also have "8 * ?w - 1 - ?pad = length bs" using d(2) by simp
  finally have len: "caml_string_length m v = of_nat (length bs)" .
  show lu: "unat (caml_string_length m v) = length bs"
    unfolding len using w d(2) by (intro of_nat_inverse [OF refl]) simp
  have "load_bytes m v (length bs) = take (length bs) (load_bytes m v (8 * ?w))"
    using d(2) by (simp add: load_bytes_def take_map)
  then show "string_bytes m v = bs" unfolding string_bytes_def lu d(5) by simp
  have "load_byte m (v + of_nat (length bs)) = load_bytes m v (8 * ?w) ! length bs"
    using d(2) by (simp add: load_bytes_def)
  also have "\<dots> = 0" unfolding d(5) by (cases ?pad) (simp_all add: nth_append)
  finally show "load_byte m (v + of_nat (length bs)) = 0" .
qed

text \<open>The order of strings is the lexicographic one.\<close>

lemma memcmp_take: "n = min (length xs) (length ys) \<Longrightarrow> memcmp (take n xs) (take n ys) = memcmp xs ys"
  by (induction xs ys arbitrary: n rule: memcmp.induct) (auto simp: min_def split: if_splits nat.splits)

lemma memcmp_lex:
  "memcmp xs ys < 0 \<or> memcmp xs ys = 0 \<and> length xs < length ys \<longleftrightarrow> ord_class.lexordp xs ys"
  "0 < memcmp xs ys \<or> memcmp xs ys = 0 \<and> length ys < length xs \<longleftrightarrow> ord_class.lexordp ys xs"
  by (induction xs ys rule: memcmp.induct) auto

text \<open>
  C32: caml_string_compare gives the sign of the lexicographic order of the byte strings.
\<close>

theorem string_compare_correct:
  assumes "wf_string m s1 b1" "wf_string m s2 b2"
  shows "caml_string_compare m s1 s2 =
    Val_int (if ord_class.lexordp b1 b2 then - 1 else if ord_class.lexordp b2 b1 then 1 else 0)"
proof -
  note r1 = wf_string_read [OF assms(1)] and r2 = wf_string_read [OF assms(2)]
  show ?thesis
  proof (cases "s1 = s2")
    case True
    then have "b1 = b2" using r1(2) r2(2) by simp
    then show ?thesis using True lexordp_irreflexive' [of b1] by (simp add: caml_string_compare_def)
  next
    case False
    let ?n = "min (length b1) (length b2)"
    have n: "unat (if caml_string_length m s1 \<le> caml_string_length m s2 then caml_string_length m s1
        else caml_string_length m s2) = ?n"
      by (simp add: word_le_nat_alt r1 r2)
    have "load_bytes m s1 ?n = take ?n b1" "load_bytes m s2 ?n = take ?n b2"
      using load_bytes_take [of ?n "length b1" m s1] load_bytes_take [of ?n "length b2" m s2] r1(1,2) r2(1,2)
      by (simp_all add: string_bytes_def)
    then have "memcmp (load_bytes m s1 ?n) (load_bytes m s2 ?n) = memcmp b1 b2"
      using memcmp_take by simp
    then show ?thesis
      using False memcmp_lex [of b1 b2] n
      by (auto simp: caml_string_compare_def Let_def word_less_nat_alt r1(1) r2(1))
  qed
qed

section \<open>The theorems at a concrete store\<close>

definition two_strings :: store where
  "two_strings = (\<lambda>_. 0)(0x1000 := 0x4FC, 0x1008 := 0x0500000000006261,
     0x2000 := 0x4FC, 0x2008 := 0x0500000000006161)"

lemma two_strings_wf: "wf_string two_strings 0x1008 [0x61, 0x62]" "wf_string two_strings 0x2008 [0x61, 0x61]"
proof -
  have w: "Wosize_val two_strings 0x1008 = 1" "Wosize_val two_strings 0x2008 = 1"
    by (simp_all add: Wosize_val_def Wosize_hd_def Hd_val_def two_strings_def)
  have a: "aligned 0x1008" "aligned 0x2008" by (simp_all add: aligned_def)
  have "bytes8 0x0500000000006261 = [0x61, 0x62, 0, 0, 0, 0, 0, 5]" "bytes8 0x0500000000006161 = [0x61, 0x61, 0, 0, 0, 0, 0, 5]"
    by (simp_all add: bytes8_def upt_rec)
  moreover have "two_strings 0x1008 = 0x0500000000006261" "two_strings 0x2008 = 0x0500000000006161"
    by (simp_all add: two_strings_def)
  moreover have "replicate 5 (0 :: u8) = [0, 0, 0, 0, 0]" by (simp add: numeral_eq_Suc)
  ultimately show "wf_string two_strings 0x1008 [0x61, 0x62]" "wf_string two_strings 0x2008 [0x61, 0x61]"
    using a load_bytes_8 [OF a(1), of two_strings] load_bytes_8 [OF a(2), of two_strings]
    by (simp_all add: wf_string_def w)
qed

theorem string_equal_correct_witness: "caml_string_equal two_strings 0x1008 0x2008 = Val_false"
  using string_equal_correct [OF two_strings_wf] by simp

theorem string_compare_correct_witness: "caml_string_compare two_strings 0x1008 0x2008 = Val_int 1"
  using string_compare_correct [OF two_strings_wf] by simp

section \<open>New strings\<close>

text \<open>The last word of a string: seven null bytes and the padding count.\<close>

lemma bytes8_last: "bytes8 (push_bit 56 (ucast (x :: u8))) = replicate 7 0 @ [x]"
proof (rule nth_equalityI)
  fix i assume "i < length (bytes8 (push_bit 56 (ucast x)))"
  then have i: "i < 8" by simp
  have b: "bit (bytes8 (push_bit 56 (ucast x)) ! i) n \<longleftrightarrow> i = 7 \<and> bit x n" for n
  proof -
    have "bit (bytes8 (push_bit 56 (ucast x)) ! i) n \<longleftrightarrow> n < 8 \<and> 56 \<le> 8 * i + n \<and> bit x (8 * i + n - 56)"
      using i bit_imp_le_length [of x] by (auto simp: bytes8_def bit_simps simp del: upt_Suc upt_rec_numeral)
    also have "\<dots> \<longleftrightarrow> i = 7 \<and> bit x n"
      using i bit_imp_le_length [of x n] by (cases "i = 7") auto
    finally show ?thesis .
  qed
  show "bytes8 (push_bit 56 (ucast x)) ! i = (replicate 7 0 @ [x]) ! i"
    by (rule bit_word_eqI) (use i b in \<open>auto simp: nth_append\<close>)
qed simp

lemma last_word_value:
  assumes "aligned v" "0 < w"
  defines "l \<equiv> v + 8 * of_nat (w - 1)"
  shows "set_Byte v (8 * of_nat w - 1) x (set_Field v (of_nat w - 1) 0 m) = m(l := push_bit 56 (ucast x))"
proof -
  have al: "aligned l" unfolding l_def using assms(1) by (intro aligned_add aligned_mult8)
  have W: "(of_nat w :: u64) = of_nat (w - 1) + 1" using assms(2) by (cases w) simp_all
  then have f: "v + 8 * (of_nat w - 1) = l" by (simp add: l_def)
  have a: "v + (8 * of_nat w - 1) = l + of_nat 7" unfolding l_def W by (simp add: algebra_simps)
  have p: "byte_pos (l + of_nat 7) = 56" "cell_of (l + of_nat 7) = l"
    using aligned_add_small [OF al, of 7] by (simp_all add: byte_pos_def)
  show ?thesis
    unfolding set_Byte_def set_Field_def store_byte_def f a p by simp
qed

lemma wf_string_new:
  assumes "aligned v" and w: "Wosize_val m' v = of_nat w" "0 < w" "w < 2 ^ 54" "n < 8 * w" "8 * w \<le> n + 8"
    and m': "m' = m(v + 8 * of_nat (w - 1) := push_bit 56 (ucast (of_nat (8 * w - 1 - n) :: u8)))"
  shows "\<exists>bs. length bs = n \<and> wf_string m' v bs"
proof -
  let ?pad = "8 * w - 1 - n"
  let ?front = "concat (map bytes8 (read_words m' v (w - 1)))"
  have uw: "unat (Wosize_val m' v) = w" unfolding w(1) using w(3) by (intro of_nat_inverse [OF refl]) simp
  obtain k where k: "w = Suc k" using w(2) by (cases w) simp_all
  have "m' (waddr v (w - 1)) = push_bit 56 (ucast (of_nat ?pad :: u8))" unfolding m' waddr_def by simp
  then have all: "load_bytes m' v (8 * w) = ?front @ replicate 7 0 @ [of_nat ?pad]"
    unfolding load_bytes_words [OF assms(1)] using read_words_snoc [of m' v k] bytes8_last
    by (simp add: k)
  have "length (concat (map bytes8 xs)) = 8 * length xs" for xs by (induction xs) simp_all
  then have front: "length ?front = 8 * (w - 1)" by simp
  let ?bs = "?front @ replicate (7 - ?pad) 0"
  have pad: "?pad \<le> 7" using w(4,5) by linarith
  then have "replicate 7 (0 :: u8) = replicate (7 - ?pad) 0 @ replicate ?pad 0"
    by (simp flip: replicate_add)
  then have eq: "load_bytes m' v (8 * w) = ?bs @ replicate ?pad 0 @ [of_nat ?pad]" unfolding all by simp
  have len: "length ?bs = n" unfolding length_append length_replicate front using w pad by linarith
  then have "wf_string m' v ?bs"
    unfolding wf_string_def Let_def uw using assms(1) w eq by simp
  then show ?thesis using len by blast
qed

lemma young_wf_on_mem [simp]: "young_wf (on_mem f s) = young_wf s" "arena (on_mem f s) = arena s"
  by (simp_all add: young_wf_def arena_def on_mem_def)



end
