(* ===== verification/Arrays.thy ===== *)
theory Arrays
  imports Boxed_Ints
begin

text \<open>
  Arrays (\<^verbatim>\<open>runtime/array.c\<close>), with flat float arrays: checked and unchecked access, creation,
  copying between overlapping arrays, filling, and the gathering of sub-arrays behind
  \<open>Array.sub\<close>, \<open>append\<close> and \<open>concat\<close>. Doubles are moved as their bit patterns.
\<close>

type_synonym prim3 = "rt \<Rightarrow> u64 \<Rightarrow> u64 \<Rightarrow> u64 \<Rightarrow> caml_state \<Rightarrow> (u64, caml_state) cres"

section \<open>Access\<close>

definition caml_array_length :: "store \<Rightarrow> u64 \<Rightarrow> u64" where
  "caml_array_length m a =
    (if Tag_val m a = Double_array_tag then Wosize_val m a div Double_wosize else Wosize_val m a)"

definition caml_is_double_array :: "store \<Rightarrow> u64 \<Rightarrow> bool" where
  "caml_is_double_array m a \<longleftrightarrow> Tag_val m a = Double_array_tag"

definition array_out :: "store \<Rightarrow> u64 \<Rightarrow> u64 \<Rightarrow> bool" where
  "array_out m a idx \<longleftrightarrow> sint idx < 0 \<or> Wosize_val m a \<le> idx"

definition float_array_out :: "store \<Rightarrow> u64 \<Rightarrow> u64 \<Rightarrow> bool" where
  "float_array_out m a idx \<longleftrightarrow> sint idx < 0 \<or> Wosize_val m a div Double_wosize \<le> idx"

definition caml_array_get_addr :: prim2 where
  "caml_array_get_addr rt a index s =
    (let idx = Long_val index
     in cbind (raise_if (array_out (mem s) a idx) (rt_array_bound_error rt) s)
          (\<lambda>_ s. Ret (Field (mem s) a idx) s))"

text \<open>Boxing of a double: the read comes before the allocation.\<close>

definition box_double :: "rt \<Rightarrow> u64 \<Rightarrow> caml_state \<Rightarrow> (u64, caml_state) cres" where
  "box_double rt d s =
    cbind (caml_alloc_small rt Double_wosize Double_tag s) (\<lambda>v s. Ret v (store_at v d s))"

definition caml_array_get_float :: prim2 where
  "caml_array_get_float rt a index s =
    (let idx = Long_val index
     in cbind (raise_if (float_array_out (mem s) a idx) (rt_array_bound_error rt) s)
          (\<lambda>_ s. box_double rt (Field (mem s) a idx) s))"

definition caml_array_get :: prim2 where
  "caml_array_get rt a index s =
    (if Tag_val (mem s) a = Double_array_tag then caml_array_get_float rt a index s
     else caml_array_get_addr rt a index s)"

definition caml_floatarray_get :: prim2 where
  "caml_floatarray_get rt a index s =
    (let idx = Long_val index
     in cbind (raise_if (float_array_out (mem s) a idx) (rt_array_bound_error rt) s)
          (\<lambda>_ s. box_double rt (Field (mem s) a idx) s))"

definition caml_array_set_addr :: prim3 where
  "caml_array_set_addr rt a index newval s =
    (let idx = Long_val index
     in cbind (raise_if (array_out (mem s) a idx) (rt_array_bound_error rt) s) (\<lambda>_ s.
        cbind (caml_modify rt (a + 8 * idx) newval s) (\<lambda>_ s. Ret Val_unit s)))"

definition caml_array_set_float :: prim3 where
  "caml_array_set_float rt a index newval s =
    (let idx = Long_val index; d = mem s newval
     in cbind (raise_if (float_array_out (mem s) a idx) (rt_array_bound_error rt) s)
          (\<lambda>_ s. Ret Val_unit (store_at (a + 8 * idx) d s)))"

definition caml_array_set :: prim3 where
  "caml_array_set rt a index newval s =
    (if Tag_val (mem s) a = Double_array_tag then caml_array_set_float rt a index newval s
     else caml_array_set_addr rt a index newval s)"

definition caml_floatarray_set :: prim3 where
  "caml_floatarray_set rt a index newval s =
    (let idx = Long_val index; d = mem s newval
     in cbind (raise_if (float_array_out (mem s) a idx) (rt_array_bound_error rt) s)
          (\<lambda>_ s. Ret Val_unit (store_at (a + 8 * idx) d s)))"

definition caml_array_unsafe_get_float :: prim2 where
  "caml_array_unsafe_get_float rt a index s = box_double rt (Field (mem s) a (Long_val index)) s"

definition caml_array_unsafe_get :: prim2 where
  "caml_array_unsafe_get rt a index s =
    (if Tag_val (mem s) a = Double_array_tag then caml_array_unsafe_get_float rt a index s
     else Ret (Field (mem s) a (Long_val index)) s)"

definition caml_floatarray_unsafe_get :: prim2 where
  "caml_floatarray_unsafe_get rt a index s = box_double rt (Field (mem s) a (Long_val index)) s"

definition caml_array_unsafe_set_addr :: prim3 where
  "caml_array_unsafe_set_addr rt a index newval s =
    cbind (caml_modify rt (a + 8 * Long_val index) newval s) (\<lambda>_ s. Ret Val_unit s)"

definition caml_array_unsafe_set_float :: prim3 where
  "caml_array_unsafe_set_float rt a index newval s =
    Ret Val_unit (store_at (a + 8 * Long_val index) (mem s newval) s)"

definition caml_array_unsafe_set :: prim3 where
  "caml_array_unsafe_set rt a index newval s =
    (if Tag_val (mem s) a = Double_array_tag then caml_array_unsafe_set_float rt a index newval s
     else caml_array_unsafe_set_addr rt a index newval s)"

definition caml_floatarray_unsafe_set :: prim3 where
  "caml_floatarray_unsafe_set rt a index newval s =
    Ret Val_unit (store_at (a + 8 * Long_val index) (mem s newval) s)"

section \<open>Creation\<close>

definition fill_words :: "u64 \<Rightarrow> u64 \<Rightarrow> u64 \<Rightarrow> caml_state \<Rightarrow> caml_state" where
  "fill_words v n x = on_mem (write_words v (replicate (unat n) x))"

definition caml_floatarray_create :: prim1 where
  "caml_floatarray_create rt len s =
    (let wosize = Long_val len * Double_wosize
     in if wosize = 0 then Ret (Atom s 0) s
        else cbind
          (if wosize \<le> Max_young_wosize then caml_alloc_small rt wosize Double_array_tag s
           else cbind (raise_if (Max_wosize < wosize) (rt_invalid_argument rt ''Float.Array.create'') s)
                  (\<lambda>_ s. caml_alloc_shr rt wosize Double_array_tag s))
          (caml_process_pending_actions_with_root rt))"

definition Is_in_value_area :: "rt \<Rightarrow> caml_state \<Rightarrow> u64 \<Rightarrow> bool" where
  "Is_in_value_area rt s v \<longleftrightarrow> in_heap s v \<or> Is_young s v \<or> rt_in_static_data rt v"

definition caml_make_vect :: prim2 where
  "caml_make_vect rt len init s0 =
    (let sz = Long_val len
     in cbind
       (if sz = 0 then Ret (Atom s0 0) s0
        else if Is_block init \<and> Is_in_value_area rt s0 init \<and> Tag_val (mem s0) init = Double_tag then
          (let d = mem s0 init; wsize = sz * Double_wosize
           in cbind (raise_if (Max_wosize < wsize) (rt_invalid_argument rt ''Array.make'') s0) (\<lambda>_ s.
              cbind (caml_alloc rt wsize Double_array_tag s) (\<lambda>res s. Ret res (fill_words res sz d s))))
        else if sz \<le> Max_young_wosize then
          cbind (with_root init (caml_alloc_small rt sz 0) s0)
            (\<lambda>(res, init) s. Ret res (fill_words res sz init s))
        else if Max_wosize < sz then
          cbind (rt_invalid_argument rt ''Array.make'' s0) (\<lambda>_ s. Diverge)
        else
          cbind (if Is_block init \<and> Is_young s0 init
                 then cbind (with_root init (caml_minor_collection rt) s0) (\<lambda>(_, init) s. Ret init s)
                 else Ret init s0) (\<lambda>init s.
          cbind (caml_alloc_shr rt sz 0 s) (\<lambda>res s. Ret res (fill_words res sz init s))))
       (\<lambda>res s. cbind (with_root res (caml_process_pending_actions rt) s) (\<lambda>(_, res) s. Ret res s)))"

definition caml_make_float_vect :: prim1 where
  "caml_make_float_vect rt len = caml_floatarray_create rt len"

fun unbox_floats :: "nat \<Rightarrow> u64 \<Rightarrow> u64 \<Rightarrow> store \<Rightarrow> store" where
  "unbox_floats 0 dst src m = m"
| "unbox_floats (Suc n) dst src m = unbox_floats n (dst + 8) (src + 8) (m(dst := m (m src)))"

definition caml_make_array :: prim1 where
  "caml_make_array rt init s0 =
    (let sz = Wosize_val (mem s0) init
     in if sz = 0 then Ret init s0
        else
          (let v = Field (mem s0) init 0
           in if Is_long v \<or> \<not> Is_in_value_area rt s0 v \<or> Tag_val (mem s0) v \<noteq> Double_tag then Ret init s0
              else
                (let wsize = sz * Double_wosize
                 in cbind (with_root init (if wsize \<le> Max_young_wosize
                             then caml_alloc_small rt wsize Double_array_tag
                             else caml_alloc_shr rt wsize Double_array_tag) s0) (\<lambda>(res, init) s.
                    cbind (with_root res (caml_process_pending_actions rt)
                             (on_mem (unbox_floats (unat sz) res init) s)) (\<lambda>(_, res) s. Ret res s)))))"

section \<open>Copying\<close>

text \<open>\<open>caml_modify\<close> of \<open>n\<close> consecutive fields, in descending order.\<close>

fun modify_down :: "rt \<Rightarrow> nat \<Rightarrow> u64 \<Rightarrow> u64 \<Rightarrow> caml_state \<Rightarrow> (unit, caml_state) cres" where
  "modify_down rt 0 dst src s = Ret () s"
| "modify_down rt (Suc n) dst src s =
    cbind (caml_modify rt dst (mem s src) s) (\<lambda>_ s. modify_down rt n (dst - 8) (src - 8) s)"

definition caml_array_blit :: "rt \<Rightarrow> u64 \<Rightarrow> u64 \<Rightarrow> u64 \<Rightarrow> u64 \<Rightarrow> u64 \<Rightarrow> caml_state \<Rightarrow>
    (u64, caml_state) cres" where
  "caml_array_blit rt a1 ofs1 a2 ofs2 n s =
    (let src = a1 + 8 * Long_val ofs1; dst = a2 + 8 * Long_val ofs2; count = Long_val n
     in if Tag_val (mem s) a2 = Double_array_tag then
          Ret Val_unit (on_mem (move_words dst src (unat count)) s)
        else if Is_young s a2 then
          Ret Val_unit (on_mem (move_words dst src (unat count)) s)
        else
          cbind (if a1 = a2 \<and> sint (Long_val ofs1) < sint (Long_val ofs2)
                 then modify_down rt (nat (sint count)) (dst + 8 * (count - 1)) (src + 8 * (count - 1)) s
                 else modify_up rt (nat (sint count)) dst src s) (\<lambda>_ s.
          cbind (caml_check_urgent_gc rt Val_unit s) (\<lambda>_ s. Ret Val_unit s)))"

section \<open>Gathering sub-arrays\<close>

text \<open>A segment: an array, an offset and a length.\<close>

type_synonym segment = "u64 \<times> u64 \<times> u64"

fun gather_size :: "u64 list \<Rightarrow> u64 \<Rightarrow> u64 option" where
  "gather_size [] sz = Some sz"
| "gather_size (len # lens) sz = (if - 1 - len < sz then None else gather_size lens (sz + len))"

fun gather_copy :: "segment list \<Rightarrow> u64 \<Rightarrow> store \<Rightarrow> store" where
  "gather_copy [] dst m = m"
| "gather_copy ((a, ofs, len) # segs) dst m =
    gather_copy segs (dst + 8 * len) (move_words dst (a + 8 * ofs) (unat len) m)"

fun initialize_up :: "rt \<Rightarrow> nat \<Rightarrow> u64 \<Rightarrow> u64 \<Rightarrow> caml_state \<Rightarrow> (unit, caml_state) cres" where
  "initialize_up rt 0 dst src s = Ret () s"
| "initialize_up rt (Suc n) dst src s =
    cbind (caml_initialize rt dst (mem s src) s) (\<lambda>_ s. initialize_up rt n (dst + 8) (src + 8) s)"

fun gather_initialize :: "rt \<Rightarrow> segment list \<Rightarrow> u64 \<Rightarrow> caml_state \<Rightarrow> (unit, caml_state) cres" where
  "gather_initialize rt [] dst s = Ret () s"
| "gather_initialize rt ((a, ofs, len) # segs) dst s =
    cbind (initialize_up rt (unat len) dst (a + 8 * ofs) s)
      (\<lambda>_ s. gather_initialize rt segs (dst + 8 * len) s)"

text \<open>\<open>CAMLparamN\<close>: the arrays as the collector leaves them.\<close>

definition with_roots :: "u64 list \<Rightarrow> (caml_state \<Rightarrow> ('r, caml_state) cres) \<Rightarrow> caml_state \<Rightarrow>
    ('r \<times> u64 list, caml_state) cres" where
  "with_roots vs f s =
    cbind (f (s\<lparr>c_roots := vs @ c_roots s\<rparr>))
      (\<lambda>r s. Ret (r, take (length vs) (c_roots s)) (s\<lparr>c_roots := drop (length vs) (c_roots s)\<rparr>))"

definition moved_segments :: "u64 list \<Rightarrow> segment list \<Rightarrow> segment list" where
  "moved_segments vs segs = map2 (\<lambda>a (_, ofs, len). (a, ofs, len)) vs segs"

definition caml_array_gather :: "rt \<Rightarrow> segment list \<Rightarrow> caml_state \<Rightarrow> (u64, caml_state) cres" where
  "caml_array_gather rt segs s0 =
    (case gather_size (map (\<lambda>(a, ofs, len). len) segs) 0 of
       None \<Rightarrow> cbind (rt_invalid_argument rt ''Array.concat'' s0) (\<lambda>_ s. Diverge)
     | Some sz \<Rightarrow>
         (let isfloat = (\<exists>(a, _, _) \<in> set segs. Tag_val (mem s0) a = Double_array_tag);
              arrays = map fst segs
          in if sz = 0 then Ret (Atom s0 0) s0
             else if isfloat then
               cbind (raise_if (Max_wosize div Double_wosize < sz) (rt_invalid_argument rt ''Array.concat'') s0)
                 (\<lambda>_ s. cbind (with_roots arrays (caml_alloc rt (sz * Double_wosize) Double_array_tag) s)
                 (\<lambda>(res, vs) s. Ret res (on_mem (gather_copy (moved_segments vs segs) res) s)))
             else if sz \<le> Max_young_wosize then
               cbind (with_roots arrays (caml_alloc_small rt sz 0) s0)
                 (\<lambda>(res, vs) s. Ret res (on_mem (gather_copy (moved_segments vs segs) res) s))
             else if Max_wosize < sz then
               cbind (rt_invalid_argument rt ''Array.concat'' s0) (\<lambda>_ s. Diverge)
             else
               cbind (with_roots arrays (caml_alloc_shr rt sz 0) s0) (\<lambda>(res, vs) s.
               cbind (gather_initialize rt (moved_segments vs segs) res s) (\<lambda>_ s.
               caml_process_pending_actions_with_root rt res s))))"

definition caml_array_sub :: prim3 where
  "caml_array_sub rt a ofs len = caml_array_gather rt [(a, Long_val ofs, Long_val len)]"

definition caml_array_append :: prim2 where
  "caml_array_append rt a1 a2 s =
    caml_array_gather rt [(a1, 0, caml_array_length (mem s) a1), (a2, 0, caml_array_length (mem s) a2)] s"

text \<open>The elements of a list value; \<open>None\<close> is a cyclic list.\<close>

partial_function (option) list_values :: "store \<Rightarrow> u64 \<Rightarrow> u64 list \<Rightarrow> u64 list option" where
  "list_values m l acc =
    (if l = Val_int 0 then Some (rev acc) else list_values m (Field m l 1) (Field m l 0 # acc))"

definition caml_array_concat :: prim1 where
  "caml_array_concat rt al s =
    (case list_values (mem s) al [] of None \<Rightarrow> Diverge
     | Some vs \<Rightarrow>
         cbind (raise_if (16 < length vs \<and> \<not> rt_table_alloc_ok rt (8 * length vs)) (rt_raise_out_of_memory rt) s)
           (\<lambda>_ s. caml_array_gather rt (map (\<lambda>a. (a, 0, caml_array_length (mem s) a)) vs) s))"

section \<open>Filling\<close>

fun fill_old :: "rt \<Rightarrow> nat \<Rightarrow> u64 \<Rightarrow> u64 \<Rightarrow> caml_state \<Rightarrow> (unit, caml_state) cres" where
  "fill_old rt 0 fp val s = Ret () s"
| "fill_old rt (Suc n) fp val s =
    (let old = mem s fp
     in if old = val then fill_old rt n (fp + 8) val s
        else
          (let s1 = store_at fp val s
           in if Is_block old \<and> Is_young s1 old then fill_old rt n (fp + 8) val s1
              else
                (let s2 = (if Is_block old \<and> caml_gc_phase s1 = Phase_mark then caml_darken rt old s1 else s1)
                 in cbind (if Is_block val \<and> Is_young s2 val then add_to_ref_table rt fp s2 else Ret () s2)
                      (\<lambda>_ s. fill_old rt n (fp + 8) val s))))"

definition caml_array_fill :: "rt \<Rightarrow> u64 \<Rightarrow> u64 \<Rightarrow> u64 \<Rightarrow> u64 \<Rightarrow> caml_state \<Rightarrow> (u64, caml_state) cres" where
  "caml_array_fill rt a v_ofs v_len val s =
    (let ofs = Long_val v_ofs; len = nat (sint (Long_val v_len)); fp = a + 8 * ofs
     in if Tag_val (mem s) a = Double_array_tag then
          Ret Val_unit (on_mem (write_words fp (replicate len (mem s val))) s)
        else if Is_young s a then
          Ret Val_unit (on_mem (write_words fp (replicate len val)) s)
        else
          cbind (fill_old rt len fp val s) (\<lambda>_ s.
          cbind (if Is_block val \<and> Is_young s val then caml_check_urgent_gc rt Val_unit s else Ret Val_unit s)
            (\<lambda>_ s. Ret Val_unit s)))"

section \<open>What the write barrier leaves in memory\<close>

text \<open>
  \<open>H\<close> holds the addresses of the headers \<open>caml_darken\<close> may recolour; a field is not one of them.
\<close>

definition heap_headers :: "u64 set \<Rightarrow> caml_state \<Rightarrow> bool" where
  "heap_headers H s \<longleftrightarrow>
    (\<forall>w. Is_block w \<and> in_heap s w \<longrightarrow> w - 8 \<in> H \<and> darken_target (mem s) w - 8 \<in> H)"

definition same_headers :: "u64 set \<Rightarrow> caml_state \<Rightarrow> caml_state \<Rightarrow> bool" where
  "same_headers H s t \<longleftrightarrow> in_heap t = in_heap s \<and>
    (\<forall>x \<in> H. Tag_hd (mem t x) = Tag_hd (mem s x) \<and> Wosize_hd (mem t x) = Wosize_hd (mem s x))"

lemma darken_target_same: "same_headers H s t \<Longrightarrow> w - 8 \<in> H \<Longrightarrow> darken_target (mem t) w = darken_target (mem s) w"
  by (simp add: same_headers_def darken_target_def Hd_val_def Infix_offset_val_def Infix_offset_hd_def Bosize_hd_def)

lemma heap_headers_same: "heap_headers H s \<Longrightarrow> same_headers H s t \<Longrightarrow> heap_headers H t"
  using darken_target_same [of H s t] unfolding heap_headers_def by (simp add: same_headers_def)

text \<open>\<open>t\<close> differs from \<open>s\<close> at most by new values at \<open>A\<close> and new colours of headers.\<close>

definition writes_only :: "u64 set \<Rightarrow> u64 set \<Rightarrow> caml_state \<Rightarrow> caml_state \<Rightarrow> bool" where
  "writes_only H A s t \<longleftrightarrow> same_headers H s t \<and> (\<forall>x. x \<notin> A \<longrightarrow> x \<notin> H \<longrightarrow> mem t x = mem s x)"

lemma writes_only_refl: "writes_only H A s s"
  by (simp add: writes_only_def same_headers_def)

lemma writes_only_trans:
  "writes_only H A s t \<Longrightarrow> writes_only H B t u \<Longrightarrow> writes_only H (A \<union> B) s u"
  by (auto simp: writes_only_def same_headers_def)

lemma in_heap_keeps [simp]:
  "in_heap (store_at a x s) = in_heap s" "in_heap (realloc_gray_vals rt s) = in_heap s"
  "in_heap (caml_request_minor_gc s) = in_heap s"
  by (auto simp: store_at_def realloc_gray_vals_def caml_request_minor_gc_def caml_set_action_pending_def)

lemma mem_request_minor_gc [simp]: "mem (caml_request_minor_gc s) = mem s"
  by (simp add: caml_request_minor_gc_def caml_set_action_pending_def)

lemma darken_writes_only:
  assumes "heap_headers H s" "Is_block v"
  shows "writes_only H {} s (caml_darken rt v s)"
proof (cases "in_heap s v")
  case False
  then have "caml_darken rt v s = s" by (simp add: caml_darken_def Is_in_heap_def)
  then show ?thesis by (simp add: writes_only_refl)
next
  case True
  let ?a = "darken_target (mem s) v - 8"
  have a: "?a \<in> H" using assms True by (simp add: heap_headers_def)
  have c: "Caml_gray AND 768 = Caml_gray" "Caml_black AND 768 = Caml_black"
    by (simp_all add: Caml_color_vals)
  have "Tag_hd (Grayhd_hd h) = Tag_hd h" "Wosize_hd (Grayhd_hd h) = Wosize_hd h"
    "Tag_hd (Blackhd_hd h) = Tag_hd h" "Wosize_hd (Blackhd_hd h) = Wosize_hd h" for h
    unfolding recolour_eqs using recolour_fields c by simp_all
  then have "same_headers H s (caml_darken rt v s)"
    by (auto simp: same_headers_def caml_darken_alt Let_def Hd_val_def)
  moreover have "mem (caml_darken rt v s) x = mem s x" if "x \<notin> H" for x
    using a that caml_darken_keeps(4) by metis
  ultimately show ?thesis by (simp add: writes_only_def)
qed

lemma store_writes_only: "fp \<notin> H \<Longrightarrow> writes_only H {fp} s (store_at fp x s)"
  by (auto simp: writes_only_def same_headers_def)

lemma add_to_ref_table_runs:
  assumes "\<forall>n. rt_table_alloc_ok rt n"
  shows "\<exists>t. add_to_ref_table rt p s = Ret () t \<and> mem t = mem s \<and> in_heap t = in_heap s"
  using assms mem_request_minor_gc [of s]
  by (auto simp: add_to_ref_table_def add_to_table_def realloc_generic_table_def alloc_generic_table_def Let_def
      split: sum.splits if_splits)

lemma caml_modify_writes:
  assumes ok: "\<forall>n. rt_table_alloc_ok rt n" and H: "heap_headers H s" and fp: "fp \<notin> H"
  shows "\<exists>t. caml_modify rt fp val s = Ret () t \<and> mem t fp = val \<and> writes_only H {fp} s t"
proof -
  let ?s1 = "store_at fp val s"
  have H1: "heap_headers H ?s1"
    using heap_headers_same [OF H] store_writes_only [OF fp, of s val] by (simp add: writes_only_def)
  define s2 where "s2 = (if Is_block (mem s fp) \<and> caml_gc_phase ?s1 = Phase_mark
    then caml_darken rt (mem s fp) ?s1 else ?s1)"
  have "writes_only H {} ?s1 s2"
    using darken_writes_only [OF H1] by (auto simp: s2_def writes_only_refl)
  then have w2: "writes_only H {fp} s s2"
    using writes_only_trans [OF store_writes_only [OF fp, of s val]] by fastforce
  have m2: "mem s2 fp = val"
    using \<open>writes_only H {} ?s1 s2\<close> fp by (simp add: writes_only_def)
  obtain t3 where t3: "add_to_ref_table rt fp s2 = Ret () t3" "mem t3 = mem s2" "in_heap t3 = in_heap s2"
    using add_to_ref_table_runs [OF ok] by blast
  have w3: "writes_only H {fp} s t3" using w2 t3(2,3) by (simp add: writes_only_def same_headers_def)
  show ?thesis
    using w2 m2 w3 t3 store_writes_only [OF fp, of s val]
    unfolding caml_modify_def Let_def s2_def by (auto split: if_splits)
qed

section \<open>Copying between overlapping arrays\<close>

lemma modify_up_writes:
  assumes ok: "\<forall>n. rt_table_alloc_ok rt n" and "heap_headers H s"
    and "cells dst n \<inter> H = {}" "cells src n \<inter> H = {}"
    and "\<And>i j. i < j \<Longrightarrow> j < n \<Longrightarrow> waddr dst i \<noteq> waddr src j" "n < 2 ^ 61"
  shows "\<exists>t. modify_up rt n dst src s = Ret () t \<and> read_words (mem t) dst n = read_words (mem s) src n \<and>
    writes_only H (cells dst n) s t"
  using assms(2-)
proof (induction n arbitrary: dst src s)
  case 0
  then show ?case by (simp add: writes_only_refl read_words_def)
next
  case (Suc n)
  have d: "dst \<notin> H" "src \<notin> H" "cells (dst + 8) n \<inter> H = {}" "cells (src + 8) n \<inter> H = {}"
    using Suc.prems(2,3) by (auto simp: cells_Suc)
  from caml_modify_writes [OF ok Suc.prems(1) d(1)] obtain s1 where
    s1: "caml_modify rt dst (mem s src) s = Ret () s1" "mem s1 dst = mem s src" "writes_only H {dst} s s1"
    by blast
  have H1: "heap_headers H s1" using heap_headers_same [OF Suc.prems(1)] s1(3) by (simp add: writes_only_def)
  have apart: "waddr (dst + 8) i \<noteq> waddr (src + 8) j" if "i < j" "j < n" for i j
    using Suc.prems(4) [of "Suc i" "Suc j"] that by (simp add: waddr_Suc)
  from Suc.IH [OF H1 d(3,4) apart] Suc.prems(5) obtain t where
    t: "modify_up rt n (dst + 8) (src + 8) s1 = Ret () t"
      "read_words (mem t) (dst + 8) n = read_words (mem s1) (src + 8) n"
      "writes_only H (cells (dst + 8) n) s1 t" by auto
  have "read_words (mem s1) (src + 8) n = read_words (mem s) (src + 8) n"
  proof (rule read_words_cong)
    fix i assume i: "i < n"
    then have "waddr (src + 8) i \<in> cells (src + 8) n" by simp
    then have "waddr (src + 8) i \<notin> H" using d(4) by blast
    moreover have "waddr (src + 8) i \<noteq> dst" using Suc.prems(4) [of 0 "Suc i"] i by (simp add: waddr_Suc)
    ultimately show "mem s1 (waddr (src + 8) i) = mem s (waddr (src + 8) i)"
      using s1(3) by (simp add: writes_only_def)
  qed
  moreover have "mem t dst = mem s src"
  proof -
    have "dst \<notin> cells (dst + 8) n"
    proof
      assume "dst \<in> cells (dst + 8) n"
      then obtain i where "i < n" "waddr dst 0 = waddr dst (Suc i)" by (auto simp: mem_cells_iff waddr_Suc)
      then show False using waddr_inj [of 0 "Suc i" dst] Suc.prems(5) by simp
    qed
    then show ?thesis using t(3) s1(2) d(1) by (simp add: writes_only_def)
  qed
  moreover have "writes_only H (cells dst (Suc n)) s t"
    using writes_only_trans [OF s1(3) t(3)] by (simp add: cells_Suc)
  ultimately show ?case using s1(1) t(1,2) by (auto simp: read_words_Suc)
qed

lemma modify_down_writes:
  assumes ok: "\<forall>n. rt_table_alloc_ok rt n" and "heap_headers H s"
    and "cells dst n \<inter> H = {}" "cells src n \<inter> H = {}"
    and "\<And>i j. i < j \<Longrightarrow> j < n \<Longrightarrow> waddr dst j \<noteq> waddr src i" "n < 2 ^ 61"
  shows "\<exists>t. modify_down rt n (dst + 8 * (of_nat n - 1)) (src + 8 * (of_nat n - 1)) s = Ret () t \<and>
    read_words (mem t) dst n = read_words (mem s) src n \<and> writes_only H (cells dst n) s t"
  using assms(2-)
proof (induction n arbitrary: s)
  case 0
  then show ?case by (simp add: writes_only_refl read_words_def)
next
  case (Suc n)
  let ?d = "waddr dst n" and ?s = "waddr src n"
  have d: "?d \<notin> H" "cells dst n \<inter> H = {}" "cells src n \<inter> H = {}"
    using Suc.prems(2,3) by (auto simp: cells_Suc_last)
  from caml_modify_writes [OF ok Suc.prems(1) d(1)] obtain s1 where
    s1: "caml_modify rt ?d (mem s ?s) s = Ret () s1" "mem s1 ?d = mem s ?s" "writes_only H {?d} s s1" by blast
  have H1: "heap_headers H s1" using heap_headers_same [OF Suc.prems(1)] s1(3) by (simp add: writes_only_def)
  have apart: "waddr dst j \<noteq> waddr src i" if "i < j" "j < n" for i j using Suc.prems(4) that by simp
  from Suc.IH [OF H1 d(2,3) apart] Suc.prems(5) obtain t where
    t: "modify_down rt n (dst + 8 * (of_nat n - 1)) (src + 8 * (of_nat n - 1)) s1 = Ret () t"
      "read_words (mem t) dst n = read_words (mem s1) src n" "writes_only H (cells dst n) s1 t" by auto
  have "read_words (mem s1) src n = read_words (mem s) src n"
  proof (rule read_words_cong)
    fix i assume i: "i < n"
    then have "waddr src i \<in> cells src n" by simp
    then have "waddr src i \<notin> H" using d(3) by blast
    then show "mem s1 (waddr src i) = mem s (waddr src i)"
      using s1(3) Suc.prems(4) [of i n] i by (simp add: writes_only_def)
  qed
  moreover have "mem t ?d = mem s ?s"
  proof -
    have "?d \<notin> cells dst n"
    proof
      assume "?d \<in> cells dst n"
      then obtain i where "i < n" "waddr dst n = waddr dst i" by (auto simp: mem_cells_iff)
      then show False using waddr_inj [of n i dst] Suc.prems(5) by simp
    qed
    then show ?thesis using t(3) s1(2) d(1) by (simp add: writes_only_def)
  qed
  moreover have "writes_only H (cells dst (Suc n)) s t"
    using writes_only_trans [OF s1(3) t(3)] by (simp add: cells_Suc_last)
  moreover have "dst + 8 * (of_nat (Suc n) - 1) = ?d" "src + 8 * (of_nat (Suc n) - 1) = ?s"
    "?d - 8 = dst + 8 * (of_nat n - 1)" "?s - 8 = src + 8 * (of_nat n - 1)"
    by (simp_all add: waddr_def algebra_simps)
  then have "modify_down rt (Suc n) (dst + 8 * (of_nat (Suc n) - 1)) (src + 8 * (of_nat (Suc n) - 1)) s = Ret () t"
    by (simp only: modify_down.simps s1(1) cbind.simps t(1))
  ultimately show ?case using t(2) by (auto simp: read_words_snoc)
qed

lemma read_move_words:
  assumes "n < 2 ^ 61" shows "read_words (move_words dst src n m) dst n = read_words m src n"
  using read_write_words [of "read_words m src n" dst m] assms by (simp add: move_words_def)

lemma move_words_outside: "x \<notin> cells dst n \<Longrightarrow> move_words dst src n m x = m x"
  by (simp add: move_words_def write_words_outside)

lemma cells_sub: "o1 + k \<le> len \<Longrightarrow> cells (waddr a o1) k \<subseteq> cells a len"
proof
  fix x assume "o1 + k \<le> len" "x \<in> cells (waddr a o1) k"
  then obtain i where "i < k" "x = waddr a (o1 + i)" by (auto simp: mem_cells_iff waddr_add)
  then show "x \<in> cells a len" using \<open>o1 + k \<le> len\<close> by simp
qed


definition blit_sample :: caml_state where
  "blit_sample = (caml_state.truncate sample_machine)\<lparr>in_heap := \<lambda>_. False, mem := \<lambda>a. a + 1\<rparr>"


end
