(* ===== verification/Hash.thy ===== *)
theory Hash
  imports Arrays
begin

text \<open>
  Generic hashing (\<^verbatim>\<open>runtime/hash.c\<close>): the MurmurHash3 mixing functions, the breadth-first
  traversal \<open>caml_hash\<close> with its queue of at most 256 values and its limit on forward links,
  the older \<open>caml_hash_univ_param\<close>, and \<open>caml_hash_variant\<close>. The hash functions of custom
  blocks are a parameter: \<open>None\<close> when the block has none.
\<close>

section \<open>Mixing\<close>

definition ROTL32 :: "u32 \<Rightarrow> nat \<Rightarrow> u32" where
  "ROTL32 x n = push_bit n x OR drop_bit (32 - n) x"

definition MIX :: "u32 \<Rightarrow> u32 \<Rightarrow> u32" where
  "MIX h d =
    (let d1 = d * 0xcc9e2d51; d2 = ROTL32 d1 15; d3 = d2 * 0x1b873593;
         h1 = h XOR d3; h2 = ROTL32 h1 13
     in h2 * 5 + 0xe6546b64)"

definition FINAL_MIX :: "u32 \<Rightarrow> u32" where
  "FINAL_MIX h =
    (let h1 = h XOR drop_bit 16 h; h2 = h1 * 0x85ebca6b;
         h3 = h2 XOR drop_bit 13 h2; h4 = h3 * 0xc2b2ae35
     in h4 XOR drop_bit 16 h4)"

definition caml_hash_mix_uint32 :: "u32 \<Rightarrow> u32 \<Rightarrow> u32" where
  "caml_hash_mix_uint32 h d = MIX h d"

definition caml_hash_mix_intnat :: "u32 \<Rightarrow> u64 \<Rightarrow> u32" where
  "caml_hash_mix_intnat h d = MIX h (ucast (signed_drop_bit 32 d XOR signed_drop_bit 63 d XOR d))"

definition caml_hash_mix_int64 :: "u32 \<Rightarrow> u64 \<Rightarrow> u32" where
  "caml_hash_mix_int64 h d =
    (let hi = ucast (signed_drop_bit 32 d); lo = ucast d in MIX (MIX h lo) hi)"

text \<open>A double is its bit pattern, the low half first in memory.\<close>

definition normalize_double :: "u64 \<Rightarrow> u32 \<times> u32" where
  "normalize_double d =
    (let h = (ucast (drop_bit 32 d) :: u32); l = (ucast d :: u32)
     in if h AND 0x7FF00000 = 0x7FF00000 \<and> l OR (h AND 0xFFFFF) \<noteq> 0 then (0x7FF00000, 1)
        else if h = 0x80000000 \<and> l = 0 then (0, l)
        else (h, l))"

definition caml_hash_mix_double :: "u32 \<Rightarrow> u64 \<Rightarrow> u32" where
  "caml_hash_mix_double hash d = (case normalize_double d of (h, l) \<Rightarrow> MIX (MIX hash l) h)"

definition caml_hash_mix_float :: "u32 \<Rightarrow> u32 \<Rightarrow> u32" where
  "caml_hash_mix_float hash n =
    MIX hash (if n AND 0x7F800000 = 0x7F800000 \<and> n AND 0x007FFFFF \<noteq> 0 then 0x7F800001
              else if n = 0x80000000 then 0 else n)"

text \<open>The bytes of a string by little-endian groups of four, then up to three left over.\<close>

fun mix_bytes :: "u32 \<Rightarrow> u8 list \<Rightarrow> u32" where
  "mix_bytes h (b0 # b1 # b2 # b3 # bs) =
    mix_bytes (MIX h (ucast b0 OR push_bit 8 (ucast b1) OR push_bit 16 (ucast b2) OR push_bit 24 (ucast b3))) bs"
| "mix_bytes h [b0, b1, b2] = MIX h (push_bit 16 (ucast b2) OR push_bit 8 (ucast b1) OR ucast b0)"
| "mix_bytes h [b0, b1] = MIX h (push_bit 8 (ucast b1) OR ucast b0)"
| "mix_bytes h [b0] = MIX h (ucast b0)"
| "mix_bytes h [] = h"

definition caml_hash_mix_string :: "store \<Rightarrow> u32 \<Rightarrow> u64 \<Rightarrow> u32" where
  "caml_hash_mix_string m h v =
    mix_bytes h (string_bytes m v) XOR ucast (caml_string_length m v)"

section \<open>The traversal\<close>

definition HASH_QUEUE_SIZE :: int where "HASH_QUEUE_SIZE = 256"
definition MAX_FORWARD_DEREFERENCE :: nat where "MAX_FORWARD_DEREFERENCE = 1000"

text \<open>The rolling hash, the number of values still to count, and the queue up to \<open>wr\<close>.\<close>

record hash_state =
  hs_h :: u32
  hs_num :: int
  hs_queue :: "u64 list"

fun hash_doubles :: "store \<Rightarrow> nat \<Rightarrow> u64 \<Rightarrow> hash_state \<Rightarrow> hash_state" where
  "hash_doubles m 0 p st = st"
| "hash_doubles m (Suc n) p st =
    (let st1 = st\<lparr>hs_h := caml_hash_mix_double (hs_h st) (m p), hs_num := hs_num st - 1\<rparr>
     in if hs_num st1 \<le> 0 then st1 else hash_doubles m n (p + 8) st1)"

fun enqueue_fields :: "store \<Rightarrow> int \<Rightarrow> nat \<Rightarrow> u64 \<Rightarrow> u64 list \<Rightarrow> u64 list" where
  "enqueue_fields m sz 0 p q = q"
| "enqueue_fields m sz (Suc n) p q =
    (if sz \<le> int (length q) then q else enqueue_fields m sz n (p + 8) (q @ [m p]))"

text \<open>Following forward links: \<open>None\<close> when the limit is reached.\<close>

fun chase_forward :: "(u64 \<Rightarrow> bool) \<Rightarrow> store \<Rightarrow> nat \<Rightarrow> u64 \<Rightarrow> u64 option" where
  "chase_forward area m 0 v = None"
| "chase_forward area m (Suc i) v =
    (let v1 = Field m v 0
     in if Is_long v1 \<or> \<not> area v1 \<or> Tag_val m v1 \<noteq> Forward_tag then Some v1
        else chase_forward area m i v1)"

text \<open>One value from the queue, from the label \<open>again\<close>.\<close>

partial_function (option) hash_again ::
    "(u64 \<Rightarrow> bool) \<Rightarrow> (u64 \<Rightarrow> u64 option) \<Rightarrow> store \<Rightarrow> int \<Rightarrow> u64 \<Rightarrow> hash_state \<Rightarrow> hash_state option" where
  "hash_again area chash m sz v st =
    (if Is_long v \<or> \<not> area v then
       Some (st\<lparr>hs_h := caml_hash_mix_intnat (hs_h st) v, hs_num := hs_num st - 1\<rparr>)
     else
       (let tag = Tag_val m v
        in if tag = String_tag then
             Some (st\<lparr>hs_h := caml_hash_mix_string m (hs_h st) v, hs_num := hs_num st - 1\<rparr>)
           else if tag = Double_tag then
             Some (st\<lparr>hs_h := caml_hash_mix_double (hs_h st) (m v), hs_num := hs_num st - 1\<rparr>)
           else if tag = Double_array_tag then
             Some (hash_doubles m (unat (Wosize_val m v div Double_wosize)) v st)
           else if tag = Abstract_tag then Some st
           else if tag = Infix_tag then
             hash_again area chash m sz (v - Infix_offset_val m v)
               (st\<lparr>hs_h := caml_hash_mix_uint32 (hs_h st) (ucast (Infix_offset_val m v))\<rparr>)
           else if tag = Forward_tag then
             (case chase_forward area m MAX_FORWARD_DEREFERENCE v of
                None \<Rightarrow> Some st | Some v1 \<Rightarrow> hash_again area chash m sz v1 st)
           else if tag = Object_tag then
             Some (st\<lparr>hs_h := caml_hash_mix_intnat (hs_h st) (Long_val (Field m v 1)), hs_num := hs_num st - 1\<rparr>)
           else if tag = Custom_tag then
             (case chash v of
                None \<Rightarrow> Some st
              | Some n \<Rightarrow> Some (st\<lparr>hs_h := caml_hash_mix_uint32 (hs_h st) (ucast n), hs_num := hs_num st - 1\<rparr>))
           else
             Some (st\<lparr>hs_h := caml_hash_mix_uint32 (hs_h st) (ucast (Whitehd_hd (Hd_val m v))),
                      hs_queue := enqueue_fields m sz (unat (Wosize_val m v)) v (hs_queue st)\<rparr>)))"

partial_function (option) hash_loop ::
    "(u64 \<Rightarrow> bool) \<Rightarrow> (u64 \<Rightarrow> u64 option) \<Rightarrow> store \<Rightarrow> int \<Rightarrow> nat \<Rightarrow> hash_state \<Rightarrow> hash_state option" where
  "hash_loop area chash m sz rd st =
    (if rd < length (hs_queue st) \<and> 0 < hs_num st
     then (case hash_again area chash m sz (hs_queue st ! rd) st of
             None \<Rightarrow> None | Some st1 \<Rightarrow> hash_loop area chash m sz (rd + 1) st1)
     else Some st)"

definition caml_hash :: "(u64 \<Rightarrow> bool) \<Rightarrow> (u64 \<Rightarrow> u64 option) \<Rightarrow> store \<Rightarrow> u64 \<Rightarrow> u64 \<Rightarrow> u64 \<Rightarrow> u64 \<Rightarrow>
    u64 option" where
  "caml_hash area chash m count limit seed obj =
    (let sz0 = sint (Long_val limit);
         sz = (if sz0 < 0 \<or> HASH_QUEUE_SIZE < sz0 then HASH_QUEUE_SIZE else sz0)
     in map_option (\<lambda>st. Val_int (FINAL_MIX (hs_h st) AND 0x3FFFFFFF))
          (hash_loop area chash m sz 0
             \<lparr>hs_h = Int_val seed, hs_num = sint (Long_val count), hs_queue = [obj]\<rparr>))"

section \<open>The old implementation\<close>

record univ_state =
  univ_accu :: u64
  univ_limit :: int
  univ_count :: int

definition Combine :: "u64 \<Rightarrow> univ_state \<Rightarrow> univ_state" where
  "Combine new h = h\<lparr>univ_accu := univ_accu h * 65599 + new\<rparr>"

definition Combine_small :: "u64 \<Rightarrow> univ_state \<Rightarrow> univ_state" where
  "Combine_small new h = h\<lparr>univ_accu := univ_accu h * 19 + new\<rparr>"

definition count_down :: "univ_state \<Rightarrow> univ_state" where
  "count_down h = h\<lparr>univ_count := univ_count h - 1\<rparr>"

text \<open>The kinds of value that end a call: integers, pointers outside the heap and unstructured blocks.\<close>

definition combine_bytes :: "u8 list \<Rightarrow> univ_state \<Rightarrow> univ_state" where
  "combine_bytes bs h = foldl (\<lambda>h b. Combine_small (ucast b) h) h bs"

definition structured :: "(u64 \<Rightarrow> bool) \<Rightarrow> store \<Rightarrow> u64 \<Rightarrow> bool" where
  "structured area m obj \<longleftrightarrow> \<not> Is_long obj \<and> area obj \<and>
     Tag_val m obj \<notin> {String_tag, Double_tag, Double_array_tag, Abstract_tag, Object_tag, Custom_tag}"

definition hash_leaf :: "(u64 \<Rightarrow> bool) \<Rightarrow> (u64 \<Rightarrow> u64 option) \<Rightarrow> store \<Rightarrow> u64 \<Rightarrow> univ_state \<Rightarrow> univ_state" where
  "hash_leaf area chash m obj h =
    (if Is_long obj then Combine (Long_val obj) (count_down h)
     else if area obj then
       (let tag = Tag_val m obj
        in if tag = String_tag then combine_bytes (string_bytes m obj) (count_down h)
           else if tag = Double_tag then combine_bytes (load_bytes m obj 8) (count_down h)
           else if tag = Double_array_tag
           then combine_bytes (load_bytes m obj (unat (Bosize_val m obj))) (count_down h)
           else if tag = Object_tag then Combine (Long_val (Field m obj 1)) (count_down h)
           else if tag = Custom_tag
           then (case chash obj of None \<Rightarrow> h | Some n \<Rightarrow> Combine n (count_down h))
           else h)
     else Combine obj h)"

text \<open>
  The recursive \<open>hash_aux\<close> with its stack made explicit. What is still to do is a list of
  jobs: a call, the label \<open>again\<close>, or the loop over the fields below an index, the last
  first. A step does the first job and gives the jobs that take its place.
\<close>

datatype hash_job = Call u64 | Again u64 | Fields u64 nat

fun hash_step :: "(u64 \<Rightarrow> bool) \<Rightarrow> (u64 \<Rightarrow> u64 option) \<Rightarrow> store \<Rightarrow> univ_state \<Rightarrow> hash_job \<Rightarrow>
    univ_state \<times> hash_job list" where
  "hash_step area chash m h (Call obj) =
    (let h1 = h\<lparr>univ_limit := univ_limit h - 1\<rparr>
     in (h1, if univ_count h1 < 0 \<or> univ_limit h1 < 0 then [] else [Again obj]))"
| "hash_step area chash m h (Again obj) =
    (if \<not> structured area m obj then (hash_leaf area chash m obj h, [])
     else if Tag_val m obj = Infix_tag then (h, [Call (obj - Infix_offset_val m obj)])
     else if Tag_val m obj = Forward_tag then (h, [Again (Field m obj 0)])
     else (Combine_small (ucast (Tag_val m obj)) (count_down h), [Fields obj (unat (Wosize_val m obj))]))"
| "hash_step area chash m h (Fields obj i) =
    (h, if i = 0 then [] else [Call (Field m obj (of_nat (i - 1))), Fields obj (i - 1)])"

partial_function (option) hash_aux ::
    "(u64 \<Rightarrow> bool) \<Rightarrow> (u64 \<Rightarrow> u64 option) \<Rightarrow> store \<Rightarrow> univ_state \<Rightarrow> hash_job list \<Rightarrow> univ_state option" where
  "hash_aux area chash m h jobs =
    (case jobs of [] \<Rightarrow> Some h
     | job # rest \<Rightarrow> (case hash_step area chash m h job of (h1, js) \<Rightarrow> hash_aux area chash m h1 (js @ rest)))"

definition caml_hash_univ_param :: "(u64 \<Rightarrow> bool) \<Rightarrow> (u64 \<Rightarrow> u64 option) \<Rightarrow> store \<Rightarrow> u64 \<Rightarrow> u64 \<Rightarrow> u64 \<Rightarrow>
    u64 option" where
  "caml_hash_univ_param area chash m count limit obj =
    map_option (\<lambda>h. Val_long (univ_accu h AND 0x3FFFFFFF))
      (hash_aux area chash m
         \<lparr>univ_accu = 0, univ_limit = sint (Long_val limit), univ_count = sint (Long_val count)\<rparr> [Call obj])"

section \<open>Variant tags\<close>

definition caml_hash_variant :: "u8 list \<Rightarrow> u64" where
  "caml_hash_variant tag =
    (let accu = foldl (\<lambda>accu b. Val_int (223 * Int_val accu + ucast b)) (Val_int 0) tag;
         accu1 = accu AND Val_long 0x7FFFFFFF
     in scast (ucast accu1 :: u32))"

section \<open>The traversal always ends\<close>

text \<open>An infix pointer leads to its closure, never to another infix pointer or a forward block.\<close>

definition infix_ok :: "(u64 \<Rightarrow> bool) \<Rightarrow> store \<Rightarrow> bool" where
  "infix_ok area m \<longleftrightarrow> (\<forall>v. area v \<and> Tag_val m v = Infix_tag \<longrightarrow>
     Tag_val m (v - Infix_offset_val m v) \<noteq> Infix_tag \<and> Tag_val m (v - Infix_offset_val m v) \<noteq> Forward_tag)"

lemma hash_doubles_queue [simp]: "hs_queue (hash_doubles m n p st) = hs_queue st"
  by (induction n arbitrary: p st) (simp_all add: Let_def)

lemma enqueue_fields_length:
  "length q \<le> N \<Longrightarrow> sz \<le> int N \<Longrightarrow> length (enqueue_fields m sz n p q) \<le> N"
  by (induction n arbitrary: p q) auto

lemma tag_numbers:
  "Infix_tag = 249" "Forward_tag = 250" "Object_tag = 248" "Abstract_tag = 251" "String_tag = 252"
  "Double_tag = 253" "Double_array_tag = 254" "Custom_tag = 255"
  by (simp_all add: Infix_tag_def Forward_tag_def Object_tag_def Abstract_tag_def String_tag_def
      Double_tag_def Double_array_tag_def Custom_tag_def)

definition fits :: "nat \<Rightarrow> hash_state option \<Rightarrow> bool" where
  "fits N r \<longleftrightarrow> (\<exists>st. r = Some st \<and> length (hs_queue st) \<le> N)"

lemma hash_again_direct:
  assumes "length (hs_queue st) \<le> N" "sz \<le> int N"
    and "Is_long v \<or> \<not> area v \<or> Tag_val m v \<noteq> Infix_tag \<and> Tag_val m v \<noteq> Forward_tag"
  shows "fits N (hash_again area chash m sz v st)"
  using assms enqueue_fields_length [OF assms(1,2)]
  by (subst hash_again.simps) (auto simp: fits_def Let_def split: option.splits)

lemma hash_again_infix:
  assumes "length (hs_queue st) \<le> N" "sz \<le> int N" "infix_ok area m"
    and "Is_long v \<or> \<not> area v \<or> Tag_val m v \<noteq> Forward_tag"
  shows "fits N (hash_again area chash m sz v st)"
proof (cases "\<not> Is_long v \<and> area v \<and> Tag_val m v = Infix_tag")
  case True
  let ?st = "st\<lparr>hs_h := caml_hash_mix_uint32 (hs_h st) (ucast (Infix_offset_val m v))\<rparr>"
  have "fits N (hash_again area chash m sz (v - Infix_offset_val m v) ?st)"
    using assms True by (intro hash_again_direct) (auto simp: infix_ok_def)
  then show ?thesis using True by (subst hash_again.simps) (simp add: tag_numbers)
next
  case False
  then show ?thesis using assms by (intro hash_again_direct) auto
qed

lemma chase_forward_result:
  "chase_forward area m n v = Some w \<Longrightarrow> Is_long w \<or> \<not> area w \<or> Tag_val m w \<noteq> Forward_tag"
  by (induction n arbitrary: v) (auto simp: Let_def split: if_splits)

lemma hash_again_total:
  assumes "length (hs_queue st) \<le> N" "sz \<le> int N" "infix_ok area m"
  shows "fits N (hash_again area chash m sz v st)"
proof (cases "\<not> Is_long v \<and> area v \<and> Tag_val m v = Forward_tag")
  case True
  have run: "hash_again area chash m sz v st =
      (case chase_forward area m MAX_FORWARD_DEREFERENCE v of
         None \<Rightarrow> Some st | Some v1 \<Rightarrow> hash_again area chash m sz v1 st)"
    using True by (subst hash_again.simps) (simp add: tag_numbers)
  show ?thesis
  proof (cases "chase_forward area m MAX_FORWARD_DEREFERENCE v")
    case None
    then show ?thesis using assms(1) by (simp add: run fits_def)
  next
    case (Some w)
    then show ?thesis
      using hash_again_infix [OF assms chase_forward_result [OF Some]] by (simp add: run)
  qed
next
  case False
  then show ?thesis using assms by (intro hash_again_infix) auto
qed

lemma hash_loop_total:
  assumes "length (hs_queue st) \<le> N" "sz \<le> int N" "infix_ok area m"
  shows "\<exists>st'. hash_loop area chash m sz rd st = Some st'"
  using assms(1)
proof (induction "N - rd" arbitrary: rd st rule: less_induct)
  case less
  show ?case
  proof (cases "rd < length (hs_queue st) \<and> 0 < hs_num st")
    case True
    obtain st1 where st1: "hash_again area chash m sz (hs_queue st ! rd) st = Some st1"
      "length (hs_queue st1) \<le> N"
      using hash_again_total [OF less.prems assms(2,3)] by (auto simp: fits_def)
    have "N - (rd + 1) < N - rd" using True less.prems by linarith
    from less.hyps [OF this st1(2)] show ?thesis
      using True st1(1) by (subst hash_loop.simps) simp
  next
    case False
    then show ?thesis by (subst hash_loop.simps) auto
  qed
qed

lemma masked_30: "0 \<le> sint (x AND 0x3FFFFFFF :: u32)" "sint (x AND 0x3FFFFFFF :: u32) < 2 ^ 30"
proof -
  have "x AND 0x3FFFFFFF = take_bit 30 x"
    by (simp add: take_bit_eq_mask mask_eq_exp_minus_1)
  moreover have "uint (take_bit 30 x) < 2 ^ 30"
    by (simp only: unsigned_take_bit_eq) (rule take_bit_int_less_exp)
  ultimately have u: "uint (x AND 0x3FFFFFFF) < 2 ^ 30" by simp
  have "sint (x AND 0x3FFFFFFF :: u32) = uint (x AND 0x3FFFFFFF)"
    using u by (simp only: sint_uint) (rule signed_take_bit_int_eq_self, simp_all add: order_trans [OF _ uint_ge_0])
  then show "0 \<le> sint (x AND 0x3FFFFFFF :: u32)" "sint (x AND 0x3FFFFFFF :: u32) < 2 ^ 30"
    using u by simp_all
qed

lemma Val_int_masked:
  fixes x :: u32
  defines "y \<equiv> Val_int (x AND 0x3FFFFFFF)"
  shows "Is_long y" "0 \<le> ocaml_int y" "ocaml_int y < 2 ^ 30"
proof -
  have r: "sint (scast (x AND 0x3FFFFFFF :: u32) :: u64) = sint (x AND 0x3FFFFFFF :: u32)"
    by (rule sint_up_scast) (simp add: is_up)
  have "ocaml_int y = sint (x AND 0x3FFFFFFF :: u32)"
    using masked_30 [of x] unfolding y_def Val_int_def
    by (simp only: ocaml_int_Val_long r) (simp add: wrap63_id)
  then show "0 \<le> ocaml_int y" "ocaml_int y < 2 ^ 30" using masked_30 [of x] by simp_all
  show "Is_long y" unfolding y_def Val_int_def Val_long_word_of_int by (rule Is_long_of_odd)
qed



section \<open>The old function on a cycle of forward blocks\<close>

lemma hash_aux_forward_loop:
  "hash_aux area chash m h jobs = Some h' \<Longrightarrow>
   jobs = Again v # rest \<and> structured area m v \<and> Tag_val m v = Forward_tag \<and> Field m v 0 = v \<longrightarrow> False"
  by (rule hash_aux.raw_induct [where P = "\<lambda>area chash m h jobs h'.
        jobs = Again v # rest \<and> structured area m v \<and> Tag_val m v = Forward_tag \<and> Field m v 0 = v \<longrightarrow> False",
      rotated]) (auto simp: tag_numbers)

text \<open>
  C35: The older caml_hash_univ_param never returns on a forward block that points to itself.
\<close>

theorem hash_univ_forward_loop:
  assumes "\<not> Is_long v" "area v" "Tag_val m v = Forward_tag" "Field m v 0 = v"
    and "0 \<le> ocaml_int count" "1 \<le> ocaml_int limit"
  shows "caml_hash_univ_param area chash m count limit v = None"
proof -
  have st: "structured area m v" using assms by (simp add: structured_def tag_numbers)
  show ?thesis
  proof (rule ccontr)
    assume "\<not> ?thesis"
    then obtain h' where "hash_aux area chash m
        \<lparr>univ_accu = 0, univ_limit = sint (Long_val limit), univ_count = sint (Long_val count)\<rparr> [Call v] = Some h'"
      by (auto simp: caml_hash_univ_param_def)
    then have "hash_aux area chash m
        \<lparr>univ_accu = 0, univ_limit = sint (Long_val limit) - 1, univ_count = sint (Long_val count)\<rparr> [Again v] = Some h'"
      using assms(5,6) by (subst (asm) hash_aux.simps) (simp add: ocaml_int_def Let_def)
    from hash_aux_forward_loop [OF this, of v "[]"] show False using assms st by simp
  qed
qed

section \<open>Hashes that do not depend on the representation\<close>

lemma div_small_neg: "k < 0 \<Longrightarrow> - n \<le> k \<Longrightarrow> k div n = - 1" for k n :: int
  using div_add_self2 [of n k] div_pos_pos_trivial [of "k + n" n] by simp

theorem hash_mix_intnat_portable:
  assumes "- (2 ^ 31) \<le> sint d" "sint d < 2 ^ 31"
  shows "caml_hash_mix_intnat h d = caml_hash_mix_uint32 h (ucast d)"
proof -
  have "signed_drop_bit 32 d = signed_drop_bit 63 d"
  proof (rule sint_eqD)
    have "drop_bit 32 (sint d) = (if sint d < 0 then -1 else 0)"
      using assms by (simp add: drop_bit_eq_div div_small_neg)
    moreover have "drop_bit 63 (sint d) = (if sint d < 0 then -1 else 0)"
      using assms by (simp add: drop_bit_eq_div div_small_neg)
    ultimately show "sint (signed_drop_bit 32 d) = sint (signed_drop_bit 63 d)"
      by (simp add: sint_signed_drop_bit_eq)
  qed
  then show ?thesis by (simp add: caml_hash_mix_intnat_def caml_hash_mix_uint32_def)
qed

theorem hash_mix_intnat_portable_witness:
  "- (2 ^ 31) \<le> sint (- 5 :: u64) \<and> sint (- 5 :: u64) < 2 ^ 31 \<and>
   caml_hash_mix_intnat 1 (- 5) = caml_hash_mix_uint32 1 (ucast (- 5 :: u64))"
  using hash_mix_intnat_portable [of "- 5" 1] by simp

definition forward_cycle :: store where
  "forward_cycle = (\<lambda>p. if p = 0x0FF8 then Make_header 1 250 Caml_white else 0x1000)"

theorem hash_univ_forward_loop_witness:
  "\<not> Is_long 0x1000 \<and> Tag_val forward_cycle 0x1000 = Forward_tag \<and> Field forward_cycle 0x1000 0 = 0x1000 \<and>
   caml_hash_univ_param (\<lambda>v. v = 0x1000) (\<lambda>_. None) forward_cycle (Val_long 10) (Val_long 100) 0x1000 = None"
proof -
  have "Tag_val forward_cycle 0x1000 = Forward_tag" "Field forward_cycle 0x1000 0 = 0x1000"
    "\<not> Is_long 0x1000" "0 \<le> ocaml_int (Val_long 10)" "1 \<le> ocaml_int (Val_long 100)"
    by code_simp+
  then show ?thesis by (intro conjI hash_univ_forward_loop) simp_all
qed

end
