(* ===== verification/Skip_List.thy ===== *)
theory Skip_List
  imports Gc_Dispatch
begin

text \<open>
  The skip lists of global roots (first half of \<^verbatim>\<open>runtime/globroots.c\<close>), with the proof that
  insertion and deletion do what they say on the set of roots a list holds. Nodes live in a heap of their own, a map from addresses; allocation of a node is a parameter
  \<open>malloc\<close> that may fail. A cursor is the head of the list or a node, since the code casts
  the list to a node to start its walk.
\<close>

section \<open>Skip lists\<close>

record global_root =
  gr_root :: u64
  gr_forward :: "u64 list"

definition NUM_LEVELS :: nat where "NUM_LEVELS = 17"

record global_root_list =
  gl_forward :: "u64 list"
  gl_level :: nat

type_synonym node_map = "u64 \<rightharpoonup> global_root"

record root_heap =
  gh_nodes :: node_map
  random_seed :: u32

type_synonym node_alloc = "node_map \<Rightarrow> nat \<Rightarrow> u64 option"

datatype cursor = Head | Node u64

definition gr_at :: "node_map \<Rightarrow> u64 \<Rightarrow> global_root" where
  "gr_at N a = the (N a)"

fun forward :: "global_root_list \<Rightarrow> node_map \<Rightarrow> cursor \<Rightarrow> nat \<Rightarrow> u64" where
  "forward L N Head i = gl_forward L ! i"
| "forward L N (Node a) i = gr_forward (gr_at N a) ! i"

fun set_forward :: "cursor \<Rightarrow> nat \<Rightarrow> u64 \<Rightarrow> global_root_list \<times> node_map \<Rightarrow> global_root_list \<times> node_map" where
  "set_forward Head i v (L, N) = (L\<lparr>gl_forward := (gl_forward L)[i := v]\<rparr>, N)"
| "set_forward (Node a) i v (L, N) =
    (L, N(a \<mapsto> (gr_at N a)\<lparr>gr_forward := (gr_forward (gr_at N a))[i := v]\<rparr>))"

lemma push_bit_dies: "push_bit (2 * 16) (r :: u32) = 0"
  by (intro bit_word_eqI) (simp add: bit_push_bit_iff)

function level_of :: "u32 \<Rightarrow> nat" where
  "level_of r = (if r AND 0xC0000000 = 0xC0000000 then level_of (push_bit 2 r) + 1 else 0)"
  by auto

lemma Least_push_bit:
  assumes "(r :: u32) \<noteq> 0"
  shows "(LEAST n. push_bit (2 * n) r = 0) = Suc (LEAST n. push_bit (2 * n) (push_bit 2 r) = 0)"
proof -
  have "(LEAST n. push_bit (2 * n) r = 0) = Suc (LEAST n. push_bit (2 * Suc n) r = 0)"
    by (rule Least_Suc [where n = 16]) (simp_all only: push_bit_dies assms mult_0_right push_bit_0_id id_apply not_False_eq_True)
  moreover have "push_bit (2 * Suc n) r = push_bit (2 * n) (push_bit 2 r)" for n
    by (simp only: push_bit_push_bit mult_Suc_right add.commute)
  ultimately show ?thesis by simp
qed

termination level_of
proof (relation "measure (\<lambda>r. LEAST n. push_bit (2 * n) r = 0)", goal_cases)
  case (2 r)
  then have "r \<noteq> 0" by auto
  from Least_push_bit [OF this] show ?case by (simp only: in_measure)
qed simp

declare level_of.simps [simp del]

definition random_level :: "u32 \<Rightarrow> nat \<times> u32" where
  "random_level seed = (let r = seed * 69069 + 25173 in (level_of r, r))"

text \<open>The inner loop of a search, at level \<open>i\<close>, and the search: the cursors of \<open>update\<close>.\<close>

partial_function (option) walk :: "global_root_list \<Rightarrow> node_map \<Rightarrow> u64 \<Rightarrow> nat \<Rightarrow> cursor \<Rightarrow> cursor option" where
  "walk L N r i e =
    (let f = forward L N e i
     in if f = 0 \<or> r \<le> gr_root (gr_at N f) then Some e else walk L N r i (Node f))"

fun find_place :: "global_root_list \<Rightarrow> node_map \<Rightarrow> u64 \<Rightarrow> nat \<Rightarrow> cursor \<Rightarrow> cursor list option" where
  "find_place L N r 0 e = Some []"
| "find_place L N r (Suc i) e =
    (case walk L N r i e of None \<Rightarrow> None
     | Some e1 \<Rightarrow> map_option (\<lambda>us. us @ [e1]) (find_place L N r i e1))"

fun link_node :: "u64 \<Rightarrow> nat \<Rightarrow> cursor list \<Rightarrow> global_root_list \<times> node_map \<Rightarrow> global_root_list \<times> node_map" where
  "link_node e i [] LN = LN"
| "link_node e i (u # us) LN =
    link_node e (i + 1) us
      (set_forward u i e (set_forward (Node e) i (forward (fst LN) (snd LN) u i) LN))"

text \<open>The result says whether the node could be allocated; the level is raised before that.\<close>

definition caml_insert_global_root :: "node_alloc \<Rightarrow> u64 \<Rightarrow>
    global_root_list \<times> root_heap \<Rightarrow> (bool \<times> global_root_list \<times> root_heap) option" where
  "caml_insert_global_root malloc r LH =
    (case LH of (L, H) \<Rightarrow>
      (let N = gh_nodes H
       in case find_place L N r (gl_level L + 1) Head of None \<Rightarrow> None
          | Some upd \<Rightarrow>
              (let e = forward L N (upd ! 0) 0
               in if e \<noteq> 0 \<and> gr_root (gr_at N e) = r then Some (True, L, H)
                  else
                    (case random_level (random_seed H) of (new_level, seed) \<Rightarrow>
                      (let upd1 = upd @ replicate (new_level - gl_level L) Head;
                           L1 = L\<lparr>gl_level := max (gl_level L) new_level\<rparr>
                       in case malloc N (16 + 8 * new_level) of
                            None \<Rightarrow> Some (False, L1, H\<lparr>random_seed := seed\<rparr>)
                          | Some e \<Rightarrow>
                              (case link_node e 0 (take (new_level + 1) upd1)
                                 (L1, N(e \<mapsto> \<lparr>gr_root = r, gr_forward = replicate (new_level + 1) 0\<rparr>)) of
                                 (L2, N2) \<Rightarrow> Some (True, L2, \<lparr>gh_nodes = N2, random_seed = seed\<rparr>)))))))"

fun unlink_node :: "u64 \<Rightarrow> nat \<Rightarrow> cursor list \<Rightarrow> global_root_list \<times> node_map \<Rightarrow> global_root_list \<times> node_map" where
  "unlink_node e i [] LN = LN"
| "unlink_node e i (u # us) LN =
    unlink_node e (i + 1) us
      (if forward (fst LN) (snd LN) u i = e
       then set_forward u i (forward (fst LN) (snd LN) (Node e) i) LN else LN)"

fun lower_level :: "u64 list \<Rightarrow> nat \<Rightarrow> nat" where
  "lower_level fs 0 = 0"
| "lower_level fs (Suc i) = (if fs ! Suc i = 0 then lower_level fs i else Suc i)"

definition caml_delete_global_root :: "u64 \<Rightarrow> global_root_list \<times> root_heap \<Rightarrow>
    (global_root_list \<times> root_heap) option" where
  "caml_delete_global_root r LH =
    (case LH of (L, H) \<Rightarrow>
      (let N = gh_nodes H
       in case find_place L N r (gl_level L + 1) Head of None \<Rightarrow> None
          | Some upd \<Rightarrow>
              (let e = forward L N (upd ! 0) 0
               in if e = 0 \<or> gr_root (gr_at N e) \<noteq> r then Some (L, H)
                  else
                    (case unlink_node e 0 upd (L, N) of (L1, N1) \<Rightarrow>
                       Some (L1\<lparr>gl_level := lower_level (gl_forward L1) (gl_level L1)\<rparr>,
                             H\<lparr>gh_nodes := N1(e := None)\<rparr>)))))"

partial_function (option) iterate_from :: "(u64 \<Rightarrow> u64 \<Rightarrow> 's caml_state_scheme \<Rightarrow> 's caml_state_scheme) \<Rightarrow>
    node_map \<Rightarrow> u64 \<Rightarrow> 's caml_state_scheme \<Rightarrow> 's caml_state_scheme option" where
  "iterate_from f N gr s =
    (if gr = 0 then Some s
     else (let r = gr_root (gr_at N gr)
           in iterate_from f N (gr_forward (gr_at N gr) ! 0) (f (mem s r) r s)))"

definition caml_iterate_global_roots :: "(u64 \<Rightarrow> u64 \<Rightarrow> 's caml_state_scheme \<Rightarrow> 's caml_state_scheme) \<Rightarrow>
    global_root_list \<times> root_heap \<Rightarrow> 's caml_state_scheme \<Rightarrow> 's caml_state_scheme option" where
  "caml_iterate_global_roots f LH s = iterate_from f (gh_nodes (snd LH)) (gl_forward (fst LH) ! 0) s"

partial_function (option) free_nodes :: "u64 \<Rightarrow> node_map \<Rightarrow> node_map option" where
  "free_nodes gr N =
    (if gr = 0 then Some N else (let nxt = gr_forward (gr_at N gr) ! 0 in free_nodes nxt (N(gr := None))))"

definition caml_empty_global_roots :: "global_root_list \<times> root_heap \<Rightarrow>
    (global_root_list \<times> root_heap) option" where
  "caml_empty_global_roots LH =
    (case LH of (L, H) \<Rightarrow>
       map_option (\<lambda>N. (\<lparr>gl_forward = replicate (gl_level L + 1) 0 @ drop (gl_level L + 1) (gl_forward L),
                         gl_level = 0\<rparr>, H\<lparr>gh_nodes := N\<rparr>))
         (free_nodes (gl_forward L ! 0) (gh_nodes H)))"

section \<open>What a skip list holds\<close>

definition height :: "node_map \<Rightarrow> u64 \<Rightarrow> nat" where
  "height N a = length (gr_forward (gr_at N a))"

definition key :: "node_map \<Rightarrow> u64 \<Rightarrow> u64" where
  "key N a = gr_root (gr_at N a)"

definition tall :: "node_map \<Rightarrow> nat \<Rightarrow> u64 \<Rightarrow> bool" where
  "tall N i a \<longleftrightarrow> i < height N a"

definition first_tall :: "node_map \<Rightarrow> nat \<Rightarrow> u64 list \<Rightarrow> u64" where
  "first_tall N i xs = (case filter (tall N i) xs of [] \<Rightarrow> 0 | a # _ \<Rightarrow> a)"

text \<open>A cursor's links are right for the nodes after it: link \<open>i\<close> is the first one of that height.\<close>

definition good :: "node_map \<Rightarrow> u64 list \<Rightarrow> u64 list \<Rightarrow> bool" where
  "good N fs xs \<longleftrightarrow> (\<forall>i<length fs. fs ! i = first_tall N i xs)"

fun nodes_ok :: "node_map \<Rightarrow> u64 list \<Rightarrow> bool" where
  "nodes_ok N [] = True"
| "nodes_ok N (a # xs) \<longleftrightarrow> good N (gr_forward (gr_at N a)) xs \<and> nodes_ok N xs"

definition skip_ok :: "global_root_list \<Rightarrow> node_map \<Rightarrow> u64 list \<Rightarrow> bool" where
  "skip_ok L N xs \<longleftrightarrow>
     length (gl_forward L) = NUM_LEVELS \<and> gl_level L < NUM_LEVELS \<and>
     good N (gl_forward L) xs \<and> nodes_ok N xs \<and> 0 \<notin> set xs \<and> set xs \<subseteq> dom N \<and>
     sorted_wrt (<) (map (key N) xs) \<and> (\<forall>a\<in>set xs. 1 \<le> height N a \<and> height N a \<le> gl_level L + 1)"

lemma first_tall_simps [simp]:
  "first_tall N i [] = 0"
  "first_tall N i (a # xs) = (if tall N i a then a else first_tall N i xs)"
  by (simp_all add: first_tall_def)

lemma first_tall_append:
  "first_tall N i (xs @ ys) = (if filter (tall N i) xs = [] then first_tall N i ys else first_tall N i xs)"
  by (induction xs) auto

lemma first_tall_in: "first_tall N i xs \<noteq> 0 \<Longrightarrow> first_tall N i xs \<in> set xs"
  by (induction xs) (auto split: if_splits)

lemma nodes_ok_append:
  "nodes_ok N (xs @ ys) \<longleftrightarrow> nodes_ok N ys \<and> (\<forall>as a bs. xs = as @ a # bs \<longrightarrow> good N (gr_forward (gr_at N a)) (bs @ ys))"
proof (induction xs)
  case (Cons x xs)
  have "(\<forall>as a bs. x # xs = as @ a # bs \<longrightarrow> good N (gr_forward (gr_at N a)) (bs @ ys)) \<longleftrightarrow>
      good N (gr_forward (gr_at N x)) (xs @ ys) \<and>
      (\<forall>as a bs. xs = as @ a # bs \<longrightarrow> good N (gr_forward (gr_at N a)) (bs @ ys))"
    by (auto simp: Cons_eq_append_conv)
  then show ?case using Cons.IH by auto
qed simp

section \<open>Searching\<close>

fun last_tall :: "node_map \<Rightarrow> nat \<Rightarrow> cursor \<Rightarrow> u64 list \<Rightarrow> cursor" where
  "last_tall N i c [] = c"
| "last_tall N i c (a # as) = last_tall N i (if tall N i a then Node a else c) as"

lemma last_tall_append: "last_tall N i c (xs @ ys) = last_tall N i (last_tall N i c xs) ys"
  by (induction xs arbitrary: c) auto

lemma last_tall_none: "filter (tall N i) xs = [] \<Longrightarrow> last_tall N i c xs = c"
  by (induction xs arbitrary: c) auto

lemma last_tall_same: "c \<notin> Node ` set xs \<Longrightarrow> last_tall N i c xs = c \<longleftrightarrow> filter (tall N i) xs = []"
proof (induction xs rule: rev_induct)
  case (snoc x xs)
  then show ?case by (auto simp: last_tall_append)
qed simp

lemma last_tall_split:
  "\<exists>as bs. xs = as @ bs \<and> filter (tall N i) bs = [] \<and>
     last_tall N i c xs = (if as = [] then c else Node (last as)) \<and> (as \<noteq> [] \<longrightarrow> tall N i (last as))"
proof (induction xs rule: rev_induct)
  case (snoc x xs)
  then obtain as bs where h: "xs = as @ bs" "filter (tall N i) bs = []"
    "last_tall N i c xs = (if as = [] then c else Node (last as))" "as \<noteq> [] \<longrightarrow> tall N i (last as)" by blast
  show ?case
  proof (cases "tall N i x")
    case True
    then show ?thesis by (intro exI [of _ "xs @ [x]"] exI [of _ "[]"]) (simp add: last_tall_append)
  next
    case False
    then show ?thesis using h by (intro exI [of _ as] exI [of _ "bs @ [x]"]) (simp add: last_tall_append)
  qed
qed simp

lemma last_tall_in: "last_tall N i c xs = c \<or> last_tall N i c xs \<in> Node ` set xs"
  using last_tall_split [of xs N i c] by (auto split: if_splits)

lemma forward_last_tall:
  "nodes_ok N (as @ bs) \<Longrightarrow> forward L N c i = first_tall N i (as @ bs) \<Longrightarrow>
   forward L N (last_tall N i c as) i = first_tall N i bs"
  by (induction as arbitrary: c) (auto simp: good_def tall_def height_def)

lemma walk_ok:
  assumes "nodes_ok N (as @ bs)" "forward L N c i = first_tall N i (as @ bs)" "0 \<notin> set as"
    and "\<forall>a\<in>set as. key N a < r" "\<forall>b\<in>set bs. r \<le> key N b"
  shows "walk L N r i c = Some (last_tall N i c as)"
  using assms
proof (induction as arbitrary: c)
  case Nil
  then show ?case
    using first_tall_in [of N i bs] by (subst walk.simps) (auto simp: key_def Let_def)
next
  case (Cons a as)
  show ?case
  proof (cases "tall N i a")
    case True
    have "walk L N r i (Node a) = Some (last_tall N i (Node a) as)"
      using Cons.prems True by (intro Cons.IH) (auto simp: good_def tall_def height_def)
    moreover have "walk L N r i c = walk L N r i (Node a)"
      using Cons.prems True by (subst walk.simps) (auto simp: key_def Let_def)
    ultimately show ?thesis using True by simp
  next
    case False
    then show ?thesis using Cons by simp
  qed
qed

lemma find_place_ok:
  assumes "nodes_ok N (as @ bs)" "\<forall>i<n. forward L N c i = first_tall N i (as @ bs)" "0 \<notin> set as"
    and "\<forall>a\<in>set as. key N a < r" "\<forall>b\<in>set bs. r \<le> key N b"
  shows "find_place L N r n c = Some (map (\<lambda>i. last_tall N i c as) [0..<n])"
  using assms
proof (induction n arbitrary: c as)
  case (Suc i)
  obtain xs ys where sp: "as = xs @ ys" "filter (tall N i) ys = []"
    "last_tall N i c as = (if xs = [] then c else Node (last xs))" "xs \<noteq> [] \<longrightarrow> tall N i (last xs)"
    using last_tall_split [of as N i c] by blast
  let ?e = "last_tall N i c as"
  have fw: "\<forall>j<i. forward L N ?e j = first_tall N j (ys @ bs)"
  proof (cases "xs = []")
    case False
    then obtain zs a where xs: "xs = zs @ [a]" by (metis append_butlast_last_id)
    then have "good N (gr_forward (gr_at N a)) (ys @ bs)"
      using Suc.prems(1) sp(1) by (auto simp: nodes_ok_append)
    then show ?thesis using sp xs by (auto simp: good_def tall_def height_def)
  qed (use Suc.prems sp in auto)
  have "find_place L N r i ?e = Some (map (\<lambda>j. last_tall N j ?e ys) [0..<i])"
    using Suc.prems sp fw by (intro Suc.IH) (auto simp: nodes_ok_append)
  moreover have "last_tall N j ?e ys = last_tall N j c as" if "j < i" for j
  proof (cases "xs = []")
    case False
    then obtain zs a where xs: "xs = zs @ [a]" by (metis append_butlast_last_id)
    then have "tall N j a" using sp that by (auto simp: tall_def)
    then show ?thesis using sp xs by (simp add: last_tall_append)
  qed (use sp in simp)
  moreover have "walk L N r i c = Some ?e" using Suc.prems by (intro walk_ok) auto
  ultimately show ?case by simp
qed simp

section \<open>Links after insertion and deletion\<close>

fun links :: "global_root_list \<times> node_map \<Rightarrow> cursor \<Rightarrow> u64 list" where
  "links (L, N) Head = gl_forward L"
| "links (L, N) (Node a) = gr_forward (gr_at N a)"

lemma forward_links: "forward L N c i = links (L, N) c ! i"
  by (cases c) auto

lemma links_set_forward [simp]:
  "links (set_forward c i v LN) = (links LN)(c := (links LN c)[i := v])"
proof
  fix d
  show "links (set_forward c i v LN) d = ((links LN)(c := (links LN c)[i := v])) d"
    by (cases LN; cases c; cases d) (auto simp: gr_at_def)
qed

text \<open>Setting links keeps the keys, the level and, on an allocated node, the domain.\<close>

definition same_frame :: "global_root_list \<times> node_map \<Rightarrow> global_root_list \<times> node_map \<Rightarrow> bool" where
  "same_frame LN LN' \<longleftrightarrow> gl_level (fst LN') = gl_level (fst LN) \<and> dom (snd LN') = dom (snd LN) \<and>
     key (snd LN') = key (snd LN)"

lemma same_frame_refl [simp]: "same_frame LN LN"
  by (simp add: same_frame_def)

lemma same_frame_trans: "same_frame A B \<Longrightarrow> same_frame B C \<Longrightarrow> same_frame A C"
  by (simp add: same_frame_def)

definition live :: "node_map \<Rightarrow> cursor \<Rightarrow> bool" where
  "live N c \<longleftrightarrow> (case c of Head \<Rightarrow> True | Node a \<Rightarrow> a \<in> dom N)"

lemma set_forward_frame: "live (snd LN) c \<Longrightarrow> same_frame LN (set_forward c i v LN)"
  by (cases LN; cases c) (auto simp: same_frame_def live_def key_def gr_at_def fun_eq_iff)

lemma live_frame: "same_frame LN LN' \<Longrightarrow> live (snd LN') c = live (snd LN) c"
  by (cases c) (auto simp: same_frame_def live_def)

lemma untouched: "Node a \<noteq> c \<Longrightarrow> snd (set_forward c i v LN) a = snd LN a"
  by (cases LN; cases c) auto

lemma link_node_frame:
  assumes "\<forall>u\<in>set us. live (snd LN) u" "live (snd LN) (Node e)"
  shows "same_frame LN (link_node e i us LN)"
  using assms
proof (induction us arbitrary: i LN)
  case (Cons u us)
  let ?A = "set_forward (Node e) i (forward (fst LN) (snd LN) u i) LN"
  let ?B = "set_forward u i e ?A"
  have A: "same_frame LN ?A" using Cons.prems by (intro set_forward_frame) simp
  then have "same_frame ?A ?B" using Cons.prems by (intro set_forward_frame) (simp add: live_frame)
  with A have B: "same_frame LN ?B" by (rule same_frame_trans)
  then have "same_frame ?B (link_node e (i + 1) us ?B)"
    using Cons.prems by (intro Cons.IH) (simp_all add: live_frame)
  with B show ?case by (simp add: same_frame_trans)
qed simp

lemma link_node_untouched: "Node a \<notin> set us \<Longrightarrow> a \<noteq> e \<Longrightarrow> snd (link_node e i us LN) a = snd LN a"
  by (induction us arbitrary: i LN) (auto simp: untouched)

lemma link_node_links:
  assumes "Node e \<notin> set us"
  shows "links (link_node e i us LN) c =
    (if c = Node e
     then map (\<lambda>j. if i \<le> j \<and> j < i + length us then links LN (us ! (j - i)) ! j else links LN c ! j)
            [0..<length (links LN c)]
     else map (\<lambda>j. if i \<le> j \<and> j < i + length us \<and> us ! (j - i) = c then e else links LN c ! j)
            [0..<length (links LN c)])"
  using assms
proof (induction us arbitrary: i LN)
  case Nil
  show ?case by (auto intro!: nth_equalityI)
next
  case (Cons u us)
  let ?A = "set_forward (Node e) i (links LN u ! i) LN"
  let ?B = "set_forward u i e ?A"
  have fwd: "forward (fst LN) (snd LN) u i = links LN u ! i" by (simp add: forward_links)
  have sel: "(u # us) ! (j - i) = (if j = i then u else us ! (j - (i + 1)))" if "i \<le> j" for j
    using that by (auto simp: nth_Cons')
  have ne: "u \<noteq> Node e" using Cons.prems by auto
  show ?case
    apply (simp only: link_node.simps fwd)
    apply (subst Cons.IH)
    using Cons.prems apply simp
    using ne apply (auto intro!: nth_equalityI simp: sel nth_list_update Suc_le_eq not_less dest: le_antisym)
    done
qed

section \<open>Insertion\<close>

lemma sorted_split:
  fixes r :: "'a::linorder"
  assumes "sorted_wrt (<) (map f xs)"
  shows "\<exists>as bs. xs = as @ bs \<and> (\<forall>a\<in>set as. f a < r) \<and> (\<forall>b\<in>set bs. r \<le> f b)"
proof (intro exI conjI)
  show "xs = takeWhile (\<lambda>a. f a < r) xs @ dropWhile (\<lambda>a. f a < r) xs" by simp
  show "\<forall>a\<in>set (takeWhile (\<lambda>a. f a < r) xs). f a < r" by (auto dest: set_takeWhileD)
  show "\<forall>b\<in>set (dropWhile (\<lambda>a. f a < r) xs). r \<le> f b"
    using assms by (induction xs) (auto intro: order_trans [OF _ less_imp_le])
qed

lemma skip_ok_distinct: "skip_ok L N xs \<Longrightarrow> distinct xs"
  by (simp add: skip_ok_def strict_sorted_iff distinct_map)

text \<open>What a search finds in a well-formed list.\<close>

lemma skip_search:
  assumes ok: "skip_ok L N (as @ bs)" and lt: "\<forall>a\<in>set as. key N a < r" and ge: "\<forall>b\<in>set bs. r \<le> key N b"
  shows "find_place L N r (gl_level L + 1) Head = Some (map (\<lambda>i. last_tall N i Head as) [0..<gl_level L + 1])"
    and "forward L N (last_tall N 0 Head as) 0 = (case bs of [] \<Rightarrow> 0 | b # _ \<Rightarrow> b)"
proof -
  show "find_place L N r (gl_level L + 1) Head = Some (map (\<lambda>i. last_tall N i Head as) [0..<gl_level L + 1])"
    using assms by (intro find_place_ok) (auto simp: skip_ok_def good_def)
  have "forward L N (last_tall N 0 Head as) 0 = first_tall N 0 bs"
    using ok by (intro forward_last_tall) (auto simp: skip_ok_def good_def NUM_LEVELS_def)
  also have "\<dots> = (case bs of [] \<Rightarrow> 0 | b # _ \<Rightarrow> b)"
    using ok by (auto simp: skip_ok_def tall_def split: list.splits)
  finally show "forward L N (last_tall N 0 Head as) 0 = (case bs of [] \<Rightarrow> 0 | b # _ \<Rightarrow> b)" .
qed

lemma last_tall_level: "skip_ok L N (as @ bs) \<Longrightarrow> gl_level L < i \<Longrightarrow> last_tall N i Head as = Head"
  by (rule last_tall_none) (auto simp: skip_ok_def tall_def filter_empty_conv ball_Un dest!: bspec)

lemma level_of_bound: "level_of r \<le> (LEAST n. push_bit (2 * n) r = 0)"
proof (induction r rule: level_of.induct)
  case (1 r)
  show ?case
  proof (cases "r AND 0xC0000000 = 0xC0000000")
    case True
    then have "r \<noteq> 0" by auto
    from 1 [OF True] Least_push_bit [OF this] show ?thesis
      by (simp only: level_of.simps [of r] True if_True refl Suc_eq_plus1 add_le_cancel_right)
  next
    case False
    then show ?thesis by (simp only: level_of.simps [of r] if_False)
  qed
qed

lemma random_level_bound: "random_level seed = (n, seed') \<Longrightarrow> n < NUM_LEVELS"
proof -
  assume "random_level seed = (n, seed')"
  then have "n = level_of (seed * 69069 + 25173)" by (auto simp: random_level_def Let_def)
  moreover have "(LEAST n. push_bit (2 * n) (seed * 69069 + 25173 :: u32) = 0) \<le> 16"
    by (rule Least_le) (rule push_bit_dies)
  ultimately show ?thesis
    using level_of_bound [of "seed * 69069 + 25173"] by (simp add: NUM_LEVELS_def)
qed

lemma good_cong:
  assumes "\<And>i a. a \<in> set xs \<Longrightarrow> tall N' i a = tall N i a"
  shows "good N' fs xs = good N fs xs"
proof -
  have "filter (tall N' i) xs = filter (tall N i) xs" for i using assms by (intro filter_cong) auto
  then show ?thesis by (simp add: good_def first_tall_def)
qed

text \<open>The links after a new node: those of the nodes before it change where no other is in between.\<close>

lemma good_insert:
  assumes "good N (links LN c) (as @ bs)" and "c \<notin> Node ` set as"
    and "\<And>i a. a \<in> set as \<union> set bs \<Longrightarrow> tall N' i a = tall N i a" and "\<And>i. tall N' i e = (i < n)"
    and "fs = map (\<lambda>j. if j < n \<and> last_tall N j c as = c then e else links LN c ! j) [0..<length (links LN c)]"
  shows "good N' fs (as @ e # bs)"
proof -
  have f: "filter (tall N' i) as = filter (tall N i) as" "filter (tall N' i) bs = filter (tall N i) bs" for i
    using assms(3) by (auto intro: filter_cong)
  then have "first_tall N' i as = first_tall N i as" "first_tall N' i bs = first_tall N i bs" for i
    by (simp_all add: first_tall_def)
  then show ?thesis
    using assms(1,4) last_tall_same [OF assms(2)]
    by (auto simp: good_def assms(5) first_tall_append f)
qed

lemma good_delete:
  assumes "good N (links LN c) (as @ e # bs)" and "c \<notin> Node ` set as" "e \<notin> set as"  "0 \<notin> set (as @ e # bs)" "e \<notin> set bs"
    and "good N (links LN (Node e)) bs"
    and "\<And>i a. a \<in> set as \<union> set bs \<Longrightarrow> tall N' i a = tall N i a"
    and "height N e \<le> n" and "height N e = length (links LN (Node e))"
    and "fs = map (\<lambda>j. if j < n \<and> last_tall N j c as = c \<and> links LN c ! j = e
                       then links LN (Node e) ! j else links LN c ! j) [0..<length (links LN c)]"
  shows "good N' fs (as @ bs)"
proof -
  have f: "filter (tall N' i) as = filter (tall N i) as" "filter (tall N' i) bs = filter (tall N i) bs" for i
    using assms(7) by (auto intro: filter_cong)
  then have ft: "first_tall N' i as = first_tall N i as" "first_tall N' i bs = first_tall N i bs" for i
    by (simp_all add: first_tall_def)
  have not_e: "first_tall N i as \<noteq> e \<and> first_tall N i bs \<noteq> e" for i
    using first_tall_in [of N i as] first_tall_in [of N i bs] assms(3,4,5) by fastforce
  show ?thesis
    unfolding good_def
  proof (intro allI impI)
    fix i assume "i < length fs"
    then have i: "i < length (links LN c)" by (simp add: assms(10))
    then have l: "links LN c ! i = first_tall N i (as @ e # bs)" using assms(1) by (simp add: good_def)
    show "fs ! i = first_tall N' i (as @ bs)"
    proof (cases "filter (tall N i) as = [] \<and> tall N i e")
      case True
      then have "i < n" "links LN (Node e) ! i = first_tall N i bs"
        using assms(6,8,9) by (auto simp: good_def tall_def)
      then show ?thesis
        using True i l last_tall_same [OF assms(2)] by (simp add: assms(10) first_tall_append f ft)
    next
      case False
      then have "links LN c ! i \<noteq> e" using l not_e by (auto simp: first_tall_append)
      then show ?thesis using False i l by (auto simp: assms(10) first_tall_append f ft)
    qed
  qed
qed

lemma height_links: "height N a = length (links (L, N) (Node a))"
  by (simp add: height_def)

lemma first_tall_cong: "\<forall>a\<in>set xs. tall N i a = tall N' i a \<Longrightarrow> first_tall N i xs = first_tall N' i xs"
  by (induction xs) auto

lemma nodes_ok_cong:
  assumes "\<forall>a\<in>set xs. gr_at N' a = gr_at N a"
  shows "nodes_ok N' xs = nodes_ok N xs"
  using assms
proof (induction xs)
  case (Cons a xs)
  then show ?case
    using good_cong [of xs N' N] by (simp add: tall_def height_def)
qed simp

lemma skip_insert:
  assumes ok: "skip_ok L N (as @ bs)" and lt: "\<forall>a\<in>set as. key N a < r" and gt: "\<forall>b\<in>set bs. r < key N b"
    and e: "N e = None" "e \<noteq> 0" and n: "n < NUM_LEVELS"
    and run: "link_node e 0 (map (\<lambda>i. last_tall N i Head as) [0..<n + 1])
      (L\<lparr>gl_level := max (gl_level L) n\<rparr>, N(e \<mapsto> \<lparr>gr_root = r, gr_forward = replicate (n + 1) 0\<rparr>)) = (L', N')"
  shows "skip_ok L' N' (as @ e # bs)" "map (key N') (as @ e # bs) = map (key N) as @ r # map (key N) bs"
    "dom N' = insert e (dom N)" "\<And>a. a \<notin> set as \<Longrightarrow> a \<noteq> e \<Longrightarrow> N' a = N a"
proof -
  let ?L1 = "L\<lparr>gl_level := max (gl_level L) n\<rparr>"
  let ?N1 = "N(e \<mapsto> \<lparr>gr_root = r, gr_forward = replicate (n + 1) 0\<rparr>)"
  let ?u = "map (\<lambda>i. last_tall N i Head as) [0..<n + 1]"
  have fresh: "e \<notin> set as" "e \<notin> set bs" using ok e by (auto simp: skip_ok_def dom_def)
  have Head_or: "c \<in> set ?u \<Longrightarrow> c = Head \<or> c \<in> Node ` set as" for c
    using last_tall_in [of N _ Head as] by auto
  then have u: "Node e \<notin> set ?u" using fresh by blast
  have live: "\<forall>c\<in>set ?u. live ?N1 c"
  proof
    fix c assume "c \<in> set ?u"
    from Head_or [OF this] ok show "live ?N1 c" by (auto simp: live_def skip_ok_def)
  qed
  have fr: "same_frame (?L1, ?N1) (L', N')"
    using link_node_frame [of ?u "(?L1, ?N1)" e 0] live run by (simp add: live_def)
  note ln = link_node_links [OF u, of 0 "(?L1, ?N1)", unfolded run]
  have old: "links (?L1, ?N1) c = links (L, N) c" if "c \<noteq> Node e" for c
    using that by (cases c) (auto simp: gr_at_def)
  have heights: "height N' a = (if a = e then n + 1 else height N a)" for a
    using ln [of "Node a"] old [of "Node a"] by (simp add: height_links [of _ _ L'] height_links [of _ _ L] gr_at_def)
  then have tall: "tall N' i a = (if a = e then i < n + 1 else tall N i a)" for i a by (simp add: tall_def)
  have keys: "key N' a = (if a = e then r else key N a)" for a
    using fr by (simp add: same_frame_def key_def gr_at_def fun_eq_iff)
  show "dom N' = insert e (dom N)" using fr by (simp add: same_frame_def)
  show other: "\<And>a. a \<notin> set as \<Longrightarrow> a \<noteq> e \<Longrightarrow> N' a = N a"
    using link_node_untouched [of _ ?u e 0 "(?L1, ?N1)", unfolded run] Head_or by fastforce
  show mk: "map (key N') (as @ e # bs) = map (key N) as @ r # map (key N) bs"
    using fresh by (auto simp: keys)
  have sub: "links (L', N') c = map (\<lambda>j. if j < n + 1 \<and> last_tall N j Head as = c then e else links (L, N) c ! j)
      [0..<length (links (L, N) c)]" if "c \<noteq> Node e" for c
    using ln [of c] old [OF that] that by (auto simp del: upt_Suc)
  have gH: "good N' (gl_forward L') (as @ e # bs)"
    using ok sub [of Head] fresh
    by (intro good_insert [where c = Head and LN = "(L, N)" and n = "n + 1" and N = N])
       (auto simp: skip_ok_def tall)
  have gas: "good N' (gr_forward (gr_at N' a)) (as2 @ e # bs)" if "as = as1 @ a # as2" for as1 a as2
  proof -
    have dist: "a \<notin> set as1" "a \<notin> set as2" using skip_ok_distinct [OF ok] that by auto
    have "good N (gr_forward (gr_at N a)) (as2 @ bs)" using ok that by (auto simp: skip_ok_def nodes_ok_append)
    moreover have "last_tall N j Head as = last_tall N j (Node a) as2" if "j < height N a" for j
      using that by (simp add: \<open>as = _\<close> last_tall_append tall_def)
    then have "links (L', N') (Node a) = map (\<lambda>j. if j < n + 1 \<and> last_tall N j (Node a) as2 = Node a then e
        else links (L, N) (Node a) ! j) [0..<length (links (L, N) (Node a))]"
      using sub [of "Node a"] fresh that by (auto simp: height_def)
    ultimately show ?thesis
      using dist fresh that
      by (intro good_insert [where c = "Node a" and LN = "(L, N)" and n = "n + 1" and N = N]) (auto simp: tall)
  qed
  have gb: "nodes_ok N' bs"
  proof -
    have "gr_at N' b = gr_at N b" if "b \<in> set bs" for b
    proof -
      have "b \<notin> set as" "b \<noteq> e" using that fresh skip_ok_distinct [OF ok] by auto
      then show ?thesis by (simp add: other gr_at_def)
    qed
    then have "nodes_ok N' bs = nodes_ok N bs" by (intro nodes_ok_cong) simp
    then show ?thesis using ok by (simp add: skip_ok_def nodes_ok_append)
  qed
  have ge: "good N' (gr_forward (gr_at N' e)) bs"
    unfolding good_def
  proof (intro allI impI)
    fix i assume "i < length (gr_forward (gr_at N' e))"
    then have i: "i < n + 1" using heights [of e] by (simp add: height_def)
    have "last_tall N i Head as \<noteq> Node e" using last_tall_in [of N i Head as] fresh by auto
    note this [THEN old]
    then have "gr_forward (gr_at N' e) ! i = links (L, N) (last_tall N i Head as) ! i"
      using ln [of "Node e"] i by (simp add: gr_at_def del: upt_Suc)
    also have "\<dots> = first_tall N i bs"
      using ok i n forward_last_tall [of N as bs L Head i]
      by (simp add: skip_ok_def good_def forward_links)
    also have "\<dots> = first_tall N' i bs"
      using fresh by (intro first_tall_cong) (auto simp: tall)
    finally show "gr_forward (gr_at N' e) ! i = first_tall N' i bs" .
  qed
  have "nodes_ok N' (as @ e # bs)"
    using gas gb ge by (auto simp: nodes_ok_append)
  moreover have "sorted_wrt (<) (map (key N') (as @ e # bs))"
    using ok lt gt unfolding mk by (auto simp: skip_ok_def sorted_wrt_append intro: less_trans)
  moreover have "length (gl_forward L') = NUM_LEVELS"
    using sub [of Head] ok by (simp add: skip_ok_def)
  moreover have lv: "gl_level L' = max (gl_level L) n" using fr by (simp add: same_frame_def)
  moreover have "gl_level L' < NUM_LEVELS" "0 \<notin> set (as @ e # bs)" using ok n e lv by (auto simp: skip_ok_def)
  moreover have "set (as @ e # bs) \<subseteq> dom N'" using ok fr by (auto simp: skip_ok_def same_frame_def)
  moreover have "\<forall>a\<in>set (as @ e # bs). 1 \<le> height N' a \<and> height N' a \<le> gl_level L' + 1"
  proof
    fix a assume a: "a \<in> set (as @ e # bs)"
    have "1 \<le> height N a \<and> height N a \<le> gl_level L + 1" if "a \<noteq> e" using that a ok by (auto simp: skip_ok_def)
    then show "1 \<le> height N' a \<and> height N' a \<le> gl_level L' + 1" by (auto simp: heights lv max_def)
  qed
  ultimately show "skip_ok L' N' (as @ e # bs)"
    using gH unfolding skip_ok_def by blast
qed

section \<open>Deletion\<close>

lemma unlink_node_frame:
  assumes "\<forall>u\<in>set us. live (snd LN) u"
  shows "same_frame LN (unlink_node e i us LN)"
  using assms
proof (induction us arbitrary: i LN)
  case (Cons u us)
  let ?A = "if forward (fst LN) (snd LN) u i = e
      then set_forward u i (forward (fst LN) (snd LN) (Node e) i) LN else LN"
  have A: "same_frame LN ?A" using Cons.prems by (simp add: set_forward_frame)
  moreover have "same_frame ?A (unlink_node e (i + 1) us ?A)"
    using Cons.prems by (intro Cons.IH) (simp add: live_frame [OF A])
  ultimately show ?case by (simp only: unlink_node.simps) (rule same_frame_trans)
qed simp

lemma unlink_node_untouched: "Node a \<notin> set us \<Longrightarrow> snd (unlink_node e i us LN) a = snd LN a"
  by (induction us arbitrary: i LN) (auto simp: untouched)

lemma unlink_node_links:
  assumes "Node e \<notin> set us"
  shows "links (unlink_node e i us LN) c =
     map (\<lambda>j. if i \<le> j \<and> j < i + length us \<and> us ! (j - i) = c \<and> links LN c ! j = e
              then links LN (Node e) ! j else links LN c ! j) [0..<length (links LN c)]"
  using assms
proof (induction us arbitrary: i LN)
  case Nil
  show ?case by (auto intro!: nth_equalityI)
next
  case (Cons u us)
  have fwd: "forward (fst LN) (snd LN) d i = links LN d ! i" for d by (simp add: forward_links)
  have sel: "(u # us) ! (j - i) = (if j = i then u else us ! (j - (i + 1)))" if "i \<le> j" for j
    using that by (auto simp: nth_Cons')
  have ne: "u \<noteq> Node e" using Cons.prems by auto
  show ?case
    apply (simp only: unlink_node.simps fwd)
    apply (subst Cons.IH)
    using Cons.prems apply simp
    using ne apply (auto intro!: nth_equalityI simp: sel nth_list_update Suc_le_eq not_less dest: le_antisym split: if_splits)
    done
qed

lemma lower_level_props:
  "lower_level fs n \<le> n" "j \<le> n \<Longrightarrow> fs ! j \<noteq> 0 \<Longrightarrow> j \<le> lower_level fs n"
  by (induction n) (auto simp: le_Suc_eq)

lemma first_tall_nonzero: "a \<in> set xs \<Longrightarrow> tall N i a \<Longrightarrow> 0 \<notin> set xs \<Longrightarrow> first_tall N i xs \<noteq> 0"
  by (induction xs) auto

lemma skip_delete:
  assumes ok: "skip_ok L N (as @ e # bs)"
    and run: "unlink_node e 0 (map (\<lambda>i. last_tall N i Head as) [0..<gl_level L + 1]) (L, N) = (L1, N1)"
  defines "L' \<equiv> L1\<lparr>gl_level := lower_level (gl_forward L1) (gl_level L1)\<rparr>" and "N' \<equiv> N1(e := None)"
  shows "skip_ok L' N' (as @ bs)" "map (key N') (as @ bs) = map (key N) (as @ bs)"
    "\<And>a. a \<notin> set as \<Longrightarrow> a \<noteq> e \<Longrightarrow> N' a = N a"
proof -
  let ?u = "map (\<lambda>i. last_tall N i Head as) [0..<gl_level L + 1]"
  have dist: "e \<notin> set as" "e \<notin> set bs" "set as \<inter> set bs = {}" using skip_ok_distinct [OF ok] by auto
  have Head_or: "c \<in> set ?u \<Longrightarrow> c = Head \<or> c \<in> Node ` set as" for c
    using last_tall_in [of N _ Head as] by auto
  then have u: "Node e \<notin> set ?u" using dist by blast
  have live: "\<forall>c\<in>set ?u. live N c"
  proof
    fix c assume "c \<in> set ?u"
    from Head_or [OF this] ok show "live N c" by (auto simp: live_def skip_ok_def)
  qed
  have fr: "same_frame (L, N) (L1, N1)"
    using unlink_node_frame [of ?u "(L, N)" e 0] live run by simp
  note ln = unlink_node_links [OF u, of 0 "(L, N)", unfolded run]
  have N': "gr_at N' a = gr_at N1 a" if "a \<noteq> e" for a using that by (simp add: N'_def gr_at_def)
  have heights: "height N' a = height N a" if "a \<noteq> e" for a
    using ln [of "Node a"] N' [OF that] by (simp add: height_def)
  then have tall: "tall N' i a = tall N i a" if "a \<noteq> e" for i a using that by (simp add: tall_def)
  have same: "tall N' i a = tall N i a" if "a \<in> set as \<union> set bs" for i a
    using that dist by (intro tall) auto
  have keys: "key N' a = key N a" if "a \<noteq> e" for a
    using fr N' [OF that] by (simp add: same_frame_def key_def fun_eq_iff)
  show other: "\<And>a. a \<notin> set as \<Longrightarrow> a \<noteq> e \<Longrightarrow> N' a = N a"
  proof -
    fix a assume "a \<notin> set as" "a \<noteq> e"
    then have "Node a \<notin> set ?u" using Head_or by fastforce
    from unlink_node_untouched [OF this, of e 0 "(L, N)", unfolded run] \<open>a \<noteq> e\<close>
    show "N' a = N a" by (simp add: N'_def)
  qed
  show mk: "map (key N') (as @ bs) = map (key N) (as @ bs)" using dist by (auto intro!: keys)
  have sub: "links (L1, N1) c = map (\<lambda>j. if j < gl_level L + 1 \<and> last_tall N j Head as = c \<and> links (L, N) c ! j = e
      then links (L, N) (Node e) ! j else links (L, N) c ! j) [0..<length (links (L, N) c)]" for c
    using ln [of c] by (auto simp del: upt_Suc)
  have ge: "good N (links (L, N) (Node e)) bs" using ok by (simp add: skip_ok_def nodes_ok_append)
  have he: "height N e \<le> gl_level L + 1" "height N e = length (links (L, N) (Node e))"
    using ok by (simp_all add: skip_ok_def height_def)
  note del = good_delete [where e = e and LN = "(L, N)" and n = "gl_level L + 1" and N = N and N' = N' and bs = bs,
      OF _ _ _ _ dist(2) ge _ he]
  have gH: "good N' (gl_forward L1) (as @ bs)"
    using ok sub [of Head] dist
    by (intro del [where c = Head]) (auto simp: skip_ok_def same)
  have gas: "good N' (gr_forward (gr_at N' a)) (as2 @ bs)" if "as = as1 @ a # as2" for as1 a as2
  proof -
    have d: "a \<notin> set as1" "a \<notin> set as2" "a \<noteq> e" using skip_ok_distinct [OF ok] that by auto
    have "good N (gr_forward (gr_at N a)) (as2 @ e # bs)" using ok that by (auto simp: skip_ok_def nodes_ok_append)
    moreover have "last_tall N j Head as = last_tall N j (Node a) as2" if "j < height N a" for j
      using that by (simp add: \<open>as = _\<close> last_tall_append tall_def)
    then have "gr_forward (gr_at N' a) = map (\<lambda>j. if j < gl_level L + 1 \<and> last_tall N j (Node a) as2 = Node a \<and>
        links (L, N) (Node a) ! j = e then links (L, N) (Node e) ! j else links (L, N) (Node a) ! j)
        [0..<length (links (L, N) (Node a))]"
      using sub [of "Node a"] N' [OF d(3)] by (auto simp: height_def)
    moreover have "0 \<notin> set (as2 @ e # bs)" using ok that by (simp add: skip_ok_def)
    ultimately show ?thesis
      using d dist that by (intro del [where c = "Node a" and as = as2]) (auto simp: same)
  qed
  have gb: "nodes_ok N' bs"
  proof -
    have "gr_at N' b = gr_at N b" if "b \<in> set bs" for b
    proof -
      have "b \<notin> set as" "b \<noteq> e" using that dist by auto
      then show ?thesis by (simp add: other gr_at_def)
    qed
    then have "nodes_ok N' bs = nodes_ok N bs" by (intro nodes_ok_cong) simp
    then show ?thesis using ok by (simp add: skip_ok_def nodes_ok_append)
  qed
  have len: "length (gl_forward L1) = NUM_LEVELS" using sub [of Head] ok by (simp add: skip_ok_def)
  have lev: "gl_level L < NUM_LEVELS" using ok by (simp add: skip_ok_def)
  have low: "height N' a \<le> gl_level L' + 1" if "a \<in> set (as @ bs)" for a
  proof -
    have "a \<noteq> e" using that dist by auto
    note a = this heights [OF this]
    then have h: "1 \<le> height N' a" "height N' a \<le> gl_level L + 1" using ok that by (auto simp: skip_ok_def)
    have "gl_forward L1 ! (height N' a - 1) = first_tall N' (height N' a - 1) (as @ bs)"
      using gH h len lev unfolding good_def by simp
    moreover have "\<dots> \<noteq> 0"
      using that h ok by (intro first_tall_nonzero [of a]) (auto simp: tall_def skip_ok_def)
    ultimately have "height N' a - 1 \<le> lower_level (gl_forward L1) (gl_level L1)"
      using h fr by (intro lower_level_props(2)) (auto simp: same_frame_def)
    then show ?thesis by (simp add: L'_def)
  qed
  have "gl_level L' < NUM_LEVELS"
    using lev fr lower_level_props(1) [of "gl_forward L1" "gl_level L1"]
    by (auto simp: L'_def same_frame_def)
  moreover have "nodes_ok N' (as @ bs)"
    using gas gb by (auto simp: nodes_ok_append)
  moreover have "set (as @ bs) \<subseteq> dom N'"
    using ok fr dist by (auto simp: skip_ok_def same_frame_def N'_def)
  moreover have "sorted_wrt (<) (map (key N') (as @ bs))"
    using ok unfolding mk by (auto simp: skip_ok_def sorted_wrt_append)
  moreover have "\<forall>a\<in>set (as @ bs). 1 \<le> height N' a"
  proof
    fix a assume a: "a \<in> set (as @ bs)"
    then have "a \<noteq> e" using dist by auto
    from heights [OF this] ok a show "1 \<le> height N' a" by (auto simp: skip_ok_def)
  qed
  moreover have "0 \<notin> set (as @ bs)" using ok by (simp add: skip_ok_def)
  moreover have "good N' (gl_forward L') (as @ bs)" "length (gl_forward L') = NUM_LEVELS"
    using gH len by (simp_all add: L'_def)
  ultimately show "skip_ok L' N' (as @ bs)"
    using low unfolding skip_ok_def by blast
qed

section \<open>The operations on the abstract set\<close>

text \<open>\<open>holds (L, H) A F\<close>: the list holds the set of roots \<open>A\<close> in the nodes \<open>F\<close>.\<close>

definition holds :: "global_root_list \<times> root_heap \<Rightarrow> u64 set \<Rightarrow> u64 set \<Rightarrow> bool" where
  "holds LH A F \<longleftrightarrow> (\<exists>xs. skip_ok (fst LH) (gh_nodes (snd LH)) xs \<and> A = key (gh_nodes (snd LH)) ` set xs \<and> F = set xs)"

lemma holdsI:
  "skip_ok L (gh_nodes H) xs \<Longrightarrow> set (map (key (gh_nodes H)) xs) = A \<Longrightarrow> set xs = F \<Longrightarrow> holds (L, H) A F"
  by (auto simp: holds_def)

definition malloc_ok :: "node_alloc \<Rightarrow> bool" where
  "malloc_ok malloc \<longleftrightarrow> (\<forall>N n e. malloc N n = Some e \<longrightarrow> N e = None \<and> e \<noteq> 0)"

lemma skip_level: "skip_ok L N xs \<Longrightarrow> gl_level L \<le> n \<Longrightarrow> n < NUM_LEVELS \<Longrightarrow> skip_ok (L\<lparr>gl_level := n\<rparr>) N xs"
  by (fastforce simp: skip_ok_def)

lemma searched:
  assumes ok: "skip_ok L N xs"
  shows "\<exists>as bs. xs = as @ bs \<and> (\<forall>a\<in>set as. key N a < r) \<and> (\<forall>b\<in>set bs. r \<le> key N b) \<and>
    find_place L N r (gl_level L + 1) Head = Some (map (\<lambda>i. last_tall N i Head as) [0..<gl_level L + 1]) \<and>
    forward L N (last_tall N 0 Head as) 0 = (case bs of [] \<Rightarrow> 0 | b # _ \<Rightarrow> b) \<and>
    (r \<in> key N ` set xs \<longleftrightarrow> bs \<noteq> [] \<and> key N (hd bs) = r)"
proof -
  obtain as bs where sp: "xs = as @ bs" "\<forall>a\<in>set as. key N a < r" "\<forall>b\<in>set bs. r \<le> key N b"
    using ok sorted_split [of "key N" xs r] by (auto simp: skip_ok_def)
  have "r \<in> key N ` set xs \<longleftrightarrow> bs \<noteq> [] \<and> key N (hd bs) = r"
  proof (cases bs)
    case (Cons b bs')
    then have "\<forall>c\<in>set bs'. key N b < key N c" "r \<le> key N b"
      using ok sp by (auto simp: skip_ok_def sorted_wrt_append)
    then show ?thesis using sp Cons by fastforce
  qed (use sp in auto)
  with sp skip_search [OF _ sp(2,3), of L] ok show ?thesis by blast
qed

lemma raised_levels:
  assumes "skip_ok L N (as @ bs)"
  shows "take (n + 1) (map (\<lambda>i. last_tall N i Head as) [0..<gl_level L + 1] @ replicate (n - gl_level L) Head) =
    map (\<lambda>i. last_tall N i Head as) [0..<n + 1]"
  by (rule nth_equalityI)
     (auto simp: nth_append last_tall_level [OF assms] not_less simp del: upt_Suc)

lemma insert_holds:
  assumes m: "malloc_ok malloc" and h: "holds (L, H) A F"
  shows "\<exists>ok L' H' F'. caml_insert_global_root malloc r (L, H) = Some (ok, L', H') \<and>
    holds (L', H') (if ok then insert r A else A) F' \<and> F' - F \<subseteq> - dom (gh_nodes H) \<and>
    (\<forall>a. a \<notin> F' \<longrightarrow> a \<notin> F \<longrightarrow> gh_nodes H' a = gh_nodes H a) \<and> F \<subseteq> F'"
proof -
  let ?N = "gh_nodes H"
  obtain xs where xs: "skip_ok L ?N xs" "A = key ?N ` set xs" "F = set xs" using h by (auto simp: holds_def)
  obtain as bs where s: "xs = as @ bs" "\<forall>a\<in>set as. key ?N a < r" "\<forall>b\<in>set bs. r \<le> key ?N b"
    "find_place L ?N r (gl_level L + 1) Head = Some (map (\<lambda>i. last_tall ?N i Head as) [0..<gl_level L + 1])"
    "forward L ?N (last_tall ?N 0 Head as) 0 = (case bs of [] \<Rightarrow> 0 | b # _ \<Rightarrow> b)"
    "r \<in> key ?N ` set xs \<longleftrightarrow> bs \<noteq> [] \<and> key ?N (hd bs) = r"
    using searched [OF xs(1), of r] by blast
  have nz: "0 \<notin> set xs" using xs by (simp add: skip_ok_def)
  show ?thesis
  proof (cases "r \<in> A")
    case True
    then obtain b bs' where b: "bs = b # bs'" "key ?N b = r" using s xs by (cases bs) auto
    then have "caml_insert_global_root malloc r (L, H) = Some (True, L, H)"
      using s nz by (auto simp: caml_insert_global_root_def Let_def key_def nth_append simp del: upt_Suc)
    then show ?thesis using h True by (auto simp: insert_absorb)
  next
    case False
    then have absent: "bs = [] \<or> key ?N (hd bs) \<noteq> r" using s(6) xs(2) by blast
    have gt: "\<forall>b\<in>set bs. r < key ?N b"
    proof
      fix b assume b: "b \<in> set bs"
      then have "key ?N b \<noteq> r" using False xs s by auto
      then show "r < key ?N b" using s(3) b by fastforce
    qed
    obtain n seed where n: "random_level (random_seed H) = (n, seed)" by fastforce
    note bound = random_level_bound [OF n]
    note levels = raised_levels [of L ?N as bs n]
    let ?L1 = "L\<lparr>gl_level := max (gl_level L) n\<rparr>"
    have run: "caml_insert_global_root malloc r (L, H) =
      (case malloc ?N (16 + 8 * n) of
         None \<Rightarrow> Some (False, ?L1, H\<lparr>random_seed := seed\<rparr>)
       | Some e \<Rightarrow>
           (case link_node e 0 (map (\<lambda>i. last_tall ?N i Head as) [0..<n + 1])
              (?L1, ?N(e \<mapsto> \<lparr>gr_root = r, gr_forward = replicate (n + 1) 0\<rparr>)) of
              (L2, N2) \<Rightarrow> Some (True, L2, \<lparr>gh_nodes = N2, random_seed = seed\<rparr>)))"
      using s(4,5) absent n levels xs(1) s(1)
      by (cases bs) (simp_all add: caml_insert_global_root_def Let_def key_def nth_append
        del: upt_Suc replicate_Suc split: option.split)
    show ?thesis
    proof (cases "malloc ?N (16 + 8 * n)")
      case None
      have "skip_ok ?L1 ?N xs" using bound xs(1) by (intro skip_level) (auto simp: skip_ok_def)
      then have "holds (?L1, H\<lparr>random_seed := seed\<rparr>) A F" using xs by (auto simp: holds_def)
      then show ?thesis using None run by auto
    next
      case (Some e)
      have e: "?N e = None" "e \<noteq> 0" using m Some by (auto simp: malloc_ok_def)
      obtain L2 N2 where l: "link_node e 0 (map (\<lambda>i. last_tall ?N i Head as) [0..<n + 1])
          (?L1, ?N(e \<mapsto> \<lparr>gr_root = r, gr_forward = replicate (n + 1) 0\<rparr>)) = (L2, N2)" by fastforce
      note si = skip_insert [OF xs(1) [unfolded s(1)] s(2) gt e bound l]
      have "set (map (key N2) (as @ e # bs)) = insert r A"
        unfolding si(2) using xs(2) s(1) by (simp add: image_Un)
      then have "holds (L2, \<lparr>gh_nodes = N2, random_seed = seed\<rparr>) (insert r A) (insert e F)"
        using si(1) xs(3) s(1) by (intro holdsI [of _ _ "as @ e # bs"]) simp_all
      moreover have "insert e F - F \<subseteq> - dom ?N" using e by auto
      moreover have "\<forall>a. a \<notin> insert e F \<longrightarrow> a \<notin> F \<longrightarrow> N2 a = ?N a" using si(4) xs s by auto
      ultimately show ?thesis using run Some l by (auto simp del: upt_Suc replicate_Suc)
    qed
  qed
qed

lemma insert_out_of_memory:
  assumes "holds (L, H) A F" "r \<notin> A" "\<forall>N n. malloc N n = None"
  shows "\<exists>L' H'. caml_insert_global_root malloc r (L, H) = Some (False, L', H')"
proof -
  let ?N = "gh_nodes H"
  obtain xs where xs: "skip_ok L ?N xs" "A = key ?N ` set xs" using assms(1) by (auto simp: holds_def)
  obtain as bs where s: "find_place L ?N r (gl_level L + 1) Head = Some (map (\<lambda>i. last_tall ?N i Head as) [0..<gl_level L + 1])"
    "forward L ?N (last_tall ?N 0 Head as) 0 = (case bs of [] \<Rightarrow> 0 | b # _ \<Rightarrow> b)"
    "r \<in> key ?N ` set xs \<longleftrightarrow> bs \<noteq> [] \<and> key ?N (hd bs) = r"
    using searched [OF xs(1), of r] by blast
  then have "bs = [] \<or> key ?N (hd bs) \<noteq> r" using assms(2) xs by blast
  then show ?thesis
    using s assms(3)
    by (cases bs; cases "random_level (random_seed H)")
       (simp_all add: caml_insert_global_root_def Let_def key_def nth_append del: upt_Suc)
qed

lemma delete_holds:
  assumes h: "holds (L, H) A F"
  shows "\<exists>L' H' F'. caml_delete_global_root r (L, H) = Some (L', H') \<and> holds (L', H') (A - {r}) F' \<and>
    F' \<subseteq> F \<and> (\<forall>a. a \<notin> F \<longrightarrow> gh_nodes H' a = gh_nodes H a)"
proof -
  let ?N = "gh_nodes H"
  obtain xs where xs: "skip_ok L ?N xs" "A = key ?N ` set xs" "F = set xs" using h by (auto simp: holds_def)
  obtain as bs where s: "xs = as @ bs" "\<forall>a\<in>set as. key ?N a < r" "\<forall>b\<in>set bs. r \<le> key ?N b"
    "find_place L ?N r (gl_level L + 1) Head = Some (map (\<lambda>i. last_tall ?N i Head as) [0..<gl_level L + 1])"
    "forward L ?N (last_tall ?N 0 Head as) 0 = (case bs of [] \<Rightarrow> 0 | b # _ \<Rightarrow> b)"
    "r \<in> key ?N ` set xs \<longleftrightarrow> bs \<noteq> [] \<and> key ?N (hd bs) = r"
    using searched [OF xs(1), of r] by blast
  show ?thesis
  proof (cases "r \<in> A")
    case False
    then have absent: "bs = [] \<or> key ?N (hd bs) \<noteq> r" using s(6) xs(2) by blast
    then have "caml_delete_global_root r (L, H) = Some (L, H)"
      using s by (cases bs) (auto simp: caml_delete_global_root_def Let_def key_def nth_append simp del: upt_Suc)
    then show ?thesis using h False by (auto simp: Diff_insert_absorb)
  next
    case True
    then obtain e bs' where b: "bs = e # bs'" "key ?N e = r" using s xs by (cases bs) auto
    have nz: "e \<noteq> 0" using xs s b by (auto simp: skip_ok_def)
    obtain L1 N1 where u: "unlink_node e 0 (map (\<lambda>i. last_tall ?N i Head as) [0..<gl_level L + 1]) (L, ?N) = (L1, N1)"
      by fastforce
    note sd = skip_delete [OF xs(1) [unfolded s(1) b(1)] u]
    let ?L' = "L1\<lparr>gl_level := lower_level (gl_forward L1) (gl_level L1)\<rparr>" and ?N' = "N1(e := None)"
    have run: "caml_delete_global_root r (L, H) = Some (?L', H\<lparr>gh_nodes := ?N'\<rparr>)"
      using s b nz u by (auto simp: caml_delete_global_root_def Let_def key_def nth_append simp del: upt_Suc)
    have "inj_on (key ?N) (set xs)"
      using xs by (simp add: skip_ok_def strict_sorted_iff distinct_map)
    then have "set (map (key ?N) (as @ bs')) = A - {r}"
      using skip_ok_distinct [OF xs(1)] xs(2) s(1) b by (auto simp: inj_on_def)
    then have "set (map (key ?N') (as @ bs')) = A - {r}" unfolding sd(2) .
    then have "holds (?L', H\<lparr>gh_nodes := ?N'\<rparr>) (A - {r}) (set (as @ bs'))"
      using sd(1) by (intro holdsI [of _ _ "as @ bs'"]) simp_all
    moreover have "\<forall>a. a \<notin> F \<longrightarrow> ?N' a = ?N a" using sd(3) xs s b by auto
    ultimately show ?thesis using run xs s b by auto
  qed
qed

section \<open>Walking the bottom level\<close>

lemma skip_bottom:
  assumes "nodes_ok N xs" "\<forall>a\<in>set xs. 1 \<le> height N a" "xs = as @ a # bs"
  shows "gr_forward (gr_at N a) ! 0 = (case bs of [] \<Rightarrow> 0 | b # _ \<Rightarrow> b)"
proof -
  have "good N (gr_forward (gr_at N a)) bs" using assms by (auto simp: nodes_ok_append)
  moreover have "0 < height N a" using assms by auto
  ultimately have "gr_forward (gr_at N a) ! 0 = first_tall N 0 bs" by (simp add: good_def height_def)
  also have "\<dots> = (case bs of [] \<Rightarrow> 0 | b # _ \<Rightarrow> b)"
    using assms by (cases bs) (auto simp: tall_def)
  finally show ?thesis .
qed

lemma iterate_from_ok:
  assumes "nodes_ok N xs" "0 \<notin> set xs" "\<forall>a\<in>set xs. 1 \<le> height N a"
  shows "iterate_from f N (case xs of [] \<Rightarrow> 0 | a # _ \<Rightarrow> a) s =
    Some (foldl (\<lambda>s r. f (mem s r) r s) s (map (key N) xs))"
  using assms
proof (induction xs arbitrary: s)
  case Nil
  show ?case by (simp add: iterate_from.simps)
next
  case (Cons a xs)
  have nxt: "gr_forward (gr_at N a) ! 0 = (case xs of [] \<Rightarrow> 0 | b # _ \<Rightarrow> b)"
    using skip_bottom [OF Cons.prems(1,3), of "[]"] by simp
  show ?case
    using Cons.prems by (simp add: iterate_from.simps [of f N a] nxt Let_def key_def Cons.IH [unfolded key_def])
qed

lemma skip_first: "skip_ok L N xs \<Longrightarrow> gl_forward L ! 0 = (case xs of [] \<Rightarrow> 0 | a # _ \<Rightarrow> a)"
  by (auto simp: skip_ok_def good_def NUM_LEVELS_def tall_def split: list.splits)

lemma iterate_ok:
  assumes "skip_ok L (gh_nodes H) xs"
  shows "caml_iterate_global_roots f (L, H) s =
    Some (foldl (\<lambda>s r. f (mem s r) r s) s (map (key (gh_nodes H)) xs))"
  using assms iterate_from_ok [of "gh_nodes H" xs f s]
  by (simp add: caml_iterate_global_roots_def skip_first) (simp add: skip_ok_def)

lemma free_nodes_ok:
  assumes "nodes_ok N xs" "0 \<notin> set xs" "\<forall>a\<in>set xs. 1 \<le> height N a" "distinct xs"
    and "\<forall>a\<in>set xs. M a = N a"
  shows "free_nodes (case xs of [] \<Rightarrow> 0 | a # _ \<Rightarrow> a) M = Some (M |` (- set xs))"
  using assms
proof (induction xs arbitrary: M)
  case Nil
  show ?case by (simp add: free_nodes.simps)
next
  case (Cons a xs)
  have "gr_at M a = gr_at N a" using Cons.prems by (simp add: gr_at_def)
  then have nxt: "gr_forward (gr_at M a) ! 0 = (case xs of [] \<Rightarrow> 0 | b # _ \<Rightarrow> b)"
    using skip_bottom [OF Cons.prems(1,3), of "[]"] by simp
  have "free_nodes (case xs of [] \<Rightarrow> 0 | b # _ \<Rightarrow> b) (M(a := None)) = Some (M(a := None) |` (- set xs))"
    using Cons.prems by (intro Cons.IH) auto
  moreover have "M(a := None) |` (- set xs) = M |` (- set (a # xs))"
    by (auto simp: restrict_map_def)
  ultimately show ?case
    using Cons.prems by (simp add: free_nodes.simps [of a] nxt Let_def)
qed

lemma empty_holds:
  assumes "holds (L, H) A F"
  shows "\<exists>L' H'. caml_empty_global_roots (L, H) = Some (L', H') \<and> holds (L', H') {} {} \<and>
    (\<forall>a. a \<notin> F \<longrightarrow> gh_nodes H' a = gh_nodes H a)"
proof -
  obtain xs where xs: "skip_ok L (gh_nodes H) xs" "F = set xs" using assms by (auto simp: holds_def)
  let ?N = "gh_nodes H"
  have free: "free_nodes (gl_forward L ! 0) ?N = Some (?N |` (- set xs))"
    using xs skip_ok_distinct [OF xs(1)] by (simp add: skip_first) (intro free_nodes_ok [where N = ?N], auto simp: skip_ok_def)
  have hi: "gl_forward L ! i = 0" if "gl_level L < i" "i < NUM_LEVELS" for i
  proof -
    have "filter (tall ?N i) xs = []" using xs that by (fastforce simp: skip_ok_def tall_def filter_empty_conv)
    then show ?thesis using xs that by (simp add: skip_ok_def good_def first_tall_def)
  qed
  let ?fs = "replicate (gl_level L + 1) 0 @ drop (gl_level L + 1) (gl_forward L)"
  have len: "length (gl_forward L) = NUM_LEVELS" "gl_level L < NUM_LEVELS" using xs by (auto simp: skip_ok_def)
  then have "?fs = replicate NUM_LEVELS 0"
    by (intro nth_equalityI) (auto simp: nth_append hi simp del: replicate_Suc)
  then have "skip_ok \<lparr>gl_forward = ?fs, gl_level = 0\<rparr> (?N |` (- set xs)) []"
    by (simp add: skip_ok_def good_def NUM_LEVELS_def del: replicate_Suc)
  then show ?thesis
    using free xs by (auto simp: caml_empty_global_roots_def holds_def simp del: replicate_Suc)
qed

lemma skip_keys_sorted:
  "skip_ok L N xs \<Longrightarrow> sorted_list_of_set (set (map (key N) xs)) = map (key N) xs"
  by (intro sorted_list_of_set.idem_if_sorted_distinct) (simp_all add: skip_ok_def strict_sorted_iff)

text \<open>What happens to other nodes does not concern a list.\<close>

lemma skip_ok_cong:
  assumes "\<forall>a\<in>set xs. N' a = N a"
  shows "skip_ok L N' xs = skip_ok L N xs"
proof -
  have "\<forall>a\<in>set xs. gr_at N' a = gr_at N a" using assms by (simp add: gr_at_def)
  then have "\<And>i a. a \<in> set xs \<Longrightarrow> tall N' i a = tall N i a" "\<forall>a\<in>set xs. height N' a = height N a"
    "map (key N') xs = map (key N) xs" "nodes_ok N' xs = nodes_ok N xs"
    by (auto simp: tall_def height_def key_def) (simp_all add: nodes_ok_cong [of xs N' N])
  moreover have "set xs \<subseteq> dom N' \<longleftrightarrow> set xs \<subseteq> dom N" using assms by (auto simp: subset_eq dom_def)
  ultimately show ?thesis using good_cong [of xs N' N] by (simp add: skip_ok_def del: map_eq_conv)
qed

lemma holds_frame:
  assumes "holds (L, H) A F" "\<forall>a\<in>F. gh_nodes H' a = gh_nodes H a"
  shows "holds (L, H') A F"
proof -
  obtain xs where xs: "skip_ok L (gh_nodes H) xs" "A = key (gh_nodes H) ` set xs" "F = set xs"
    using assms(1) by (auto simp: holds_def)
  then have "skip_ok L (gh_nodes H') xs" using assms(2) skip_ok_cong [of xs "gh_nodes H'" "gh_nodes H"] by simp
  moreover have "A = key (gh_nodes H') ` set xs" using xs assms(2) by (auto simp: key_def gr_at_def intro!: image_cong)
  ultimately show ?thesis using xs by (auto simp: holds_def)
qed

lemma holds_dom: "holds (L, H) A F \<Longrightarrow> F \<subseteq> dom (gh_nodes H)"
  by (auto simp: holds_def skip_ok_def)

section \<open>Sets of roots that share a heap\<close>

text \<open>
  What the users of root lists rely on: each operation returns, does its work on the set, and
  touches only the nodes of its list and nodes that were free. A family of lists in one heap,
  pairwise apart, then stays one.
\<close>

locale root_set =
  fixes holds :: "'l \<times> 'h \<Rightarrow> 'r set \<Rightarrow> 'n set \<Rightarrow> bool"
    and nodes :: "'h \<Rightarrow> 'n \<rightharpoonup> 'v"
    and ins :: "'r \<Rightarrow> 'l \<times> 'h \<Rightarrow> (bool \<times> 'l \<times> 'h) option"
    and del :: "'r \<Rightarrow> 'l \<times> 'h \<Rightarrow> ('l \<times> 'h) option"
    and clear :: "'l \<times> 'h \<Rightarrow> ('l \<times> 'h) option"
  assumes live: "holds (L, H) A F \<Longrightarrow> F \<subseteq> dom (nodes H)"
    and frame: "holds (L, H) A F \<Longrightarrow> \<forall>a\<in>F. nodes H' a = nodes H a \<Longrightarrow> holds (L, H') A F"
    and ins_law: "holds (L, H) A F \<Longrightarrow> \<exists>ok L' H' F'. ins r (L, H) = Some (ok, L', H') \<and>
      holds (L', H') (if ok then insert r A else A) F' \<and>
      F' - F \<subseteq> - dom (nodes H) \<and> (\<forall>a. a \<notin> F \<longrightarrow> a \<notin> F' \<longrightarrow> nodes H' a = nodes H a)"
    and del_law: "holds (L, H) A F \<Longrightarrow> \<exists>L' H' F'. del r (L, H) = Some (L', H') \<and>
      holds (L', H') (A - {r}) F' \<and> F' \<subseteq> F \<and> (\<forall>a. a \<notin> F \<longrightarrow> nodes H' a = nodes H a)"
    and clear_law: "holds (L, H) A F \<Longrightarrow> \<exists>L' H'. clear (L, H) = Some (L', H') \<and>
      holds (L', H') {} {} \<and> (\<forall>a. a \<notin> F \<longrightarrow> nodes H' a = nodes H a)"
begin

definition family :: "('i \<Rightarrow> 'l) \<Rightarrow> 'h \<Rightarrow> ('i \<Rightarrow> 'r set) \<Rightarrow> ('i \<Rightarrow> 'n set) \<Rightarrow> bool" where
  "family ls H As Fs \<longleftrightarrow> (\<forall>i. holds (ls i, H) (As i) (Fs i)) \<and> (\<forall>i j. i \<noteq> j \<longrightarrow> Fs i \<inter> Fs j = {})"

definition others_kept :: "('i \<Rightarrow> 'n set) \<Rightarrow> 'i \<Rightarrow> 'h \<Rightarrow> 'h \<Rightarrow> bool" where
  "others_kept Fs i H H' \<longleftrightarrow> (\<forall>j a. j \<noteq> i \<longrightarrow> a \<in> Fs j \<longrightarrow> nodes H' a = nodes H a)"

lemma family_step:
  assumes fam: "family ls H As Fs" and h: "holds (L', H') A' F'"
    and new: "F' - Fs i \<subseteq> - dom (nodes H)" "\<forall>a. a \<notin> Fs i \<longrightarrow> a \<notin> F' \<longrightarrow> nodes H' a = nodes H a"
  shows "family (ls(i := L')) H' (As(i := A')) (Fs(i := F')) \<and> others_kept Fs i H H'"
proof -
  have apart: "F' \<inter> Fs k = {}" if "k \<noteq> i" for k
    using fam that new(1) live [of "ls k" H "As k" "Fs k"] unfolding family_def by blast
  have kept: "nodes H' a = nodes H a" if "a \<in> Fs k" "k \<noteq> i" for a k
    using fam that new(2) apart [of k] unfolding family_def by blast
  have "holds ((ls(i := L')) j, H') ((As(i := A')) j) ((Fs(i := F')) j)" for j
  proof (cases "j = i")
    case False
    then show ?thesis using fam kept by (auto simp: family_def intro: frame)
  qed (use h in simp)
  moreover have "(Fs(i := F')) j \<inter> (Fs(i := F')) k = {}" if "j \<noteq> k" for j k
    using fam that apart [of j] apart [of k] by (cases "j = i"; cases "k = i") (simp_all add: Int_commute family_def)
  ultimately show ?thesis using kept by (auto simp: family_def others_kept_def)
qed

lemma family_ins:
  assumes "family ls H As Fs"
  shows "\<exists>ok L' H' F'. ins r (ls i, H) = Some (ok, L', H') \<and>
    family (ls(i := L')) H' (As(i := if ok then insert r (As i) else As i)) (Fs(i := F')) \<and> others_kept Fs i H H'"
proof -
  obtain ok L' H' F' where h: "ins r (ls i, H) = Some (ok, L', H')"
    "holds (L', H') (if ok then insert r (As i) else As i) F'" "F' - Fs i \<subseteq> - dom (nodes H)"
    "\<forall>a. a \<notin> Fs i \<longrightarrow> a \<notin> F' \<longrightarrow> nodes H' a = nodes H a"
    using ins_law [of "ls i" H "As i" "Fs i" r] assms unfolding family_def by blast
  with family_step [OF assms h(2,3,4)] show ?thesis by blast
qed

lemma family_del:
  assumes "family ls H As Fs"
  shows "\<exists>L' H' F'. del r (ls i, H) = Some (L', H') \<and>
    family (ls(i := L')) H' (As(i := As i - {r})) (Fs(i := F')) \<and> others_kept Fs i H H'"
proof -
  obtain L' H' F' where h: "del r (ls i, H) = Some (L', H')" "holds (L', H') (As i - {r}) F'" "F' \<subseteq> Fs i"
    "\<forall>a. a \<notin> Fs i \<longrightarrow> nodes H' a = nodes H a"
    using del_law [of "ls i" H "As i" "Fs i" r] assms by (auto simp: family_def)
  with family_step [OF assms h(2), of i] show ?thesis by blast
qed

lemma family_clear:
  assumes "family ls H As Fs"
  shows "\<exists>L' H'. clear (ls i, H) = Some (L', H') \<and>
    family (ls(i := L')) H' (As(i := {})) (Fs(i := {})) \<and> others_kept Fs i H H'"
proof -
  obtain L' H' where h: "clear (ls i, H) = Some (L', H')" "holds (L', H') {} {}"
    "\<forall>a. a \<notin> Fs i \<longrightarrow> nodes H' a = nodes H a"
    using clear_law [of "ls i" H "As i" "Fs i"] assms by (auto simp: family_def)
  with family_step [OF assms h(2), of i] show ?thesis by blast
qed

end

interpretation sl: root_set "\<lambda>LH A F. malloc_ok malloc \<and> holds LH A F" gh_nodes "caml_insert_global_root malloc"
    caml_delete_global_root caml_empty_global_roots for malloc
proof (unfold_locales, goal_cases)
  case (1 L H A F)
  then show ?case using holds_dom by blast
next
  case (2 L H A F H')
  then show ?case using holds_frame by blast
next
  case (3 L H A F r)
  then show ?case using insert_holds [of malloc L H A F r] by blast
next
  case (4 L H A F r)
  then show ?case using delete_holds [of L H A F r] by blast
next
  case (5 L H A F)
  then show ?case using empty_holds [of L H A F] by blast
qed

text \<open>
  C37: A skip list refines a set of roots: insertion adds the root unless memory is short,
  deletion removes it, iteration visits the roots once each in increasing order.
\<close>

theorem skip_list_refines_set:
  assumes "malloc_ok malloc" "holds (L, H) A F"
  shows "(\<exists>ok L' H' F'. caml_insert_global_root malloc r (L, H) = Some (ok, L', H') \<and>
      holds (L', H') (if ok then insert r A else A) F') \<and>
    (\<exists>L' H' F'. caml_delete_global_root r (L, H) = Some (L', H') \<and> holds (L', H') (A - {r}) F') \<and>
    caml_iterate_global_roots f (L, H) s = Some (foldl (\<lambda>s r. f (mem s r) r s) s (sorted_list_of_set A))"
proof (intro conjI)
  show "\<exists>ok L' H' F'. caml_insert_global_root malloc r (L, H) = Some (ok, L', H') \<and>
      holds (L', H') (if ok then insert r A else A) F'" using insert_holds [OF assms] by blast
  show "\<exists>L' H' F'. caml_delete_global_root r (L, H) = Some (L', H') \<and> holds (L', H') (A - {r}) F'"
    using delete_holds [OF assms(2)] by blast
  obtain xs where xs: "skip_ok L (gh_nodes H) xs" "A = set (map (key (gh_nodes H)) xs)"
    using assms(2) by (auto simp: holds_def)
  have "sorted_list_of_set A = map (key (gh_nodes H)) xs"
    unfolding xs(2) using xs(1) by (rule skip_keys_sorted)
  then show "caml_iterate_global_roots f (L, H) s = Some (foldl (\<lambda>s r. f (mem s r) r s) s (sorted_list_of_set A))"
    using iterate_ok [OF xs(1)] by simp
qed

definition empty_root_list :: global_root_list where
  "empty_root_list = \<lparr>gl_forward = replicate NUM_LEVELS 0, gl_level = 0\<rparr>"

definition bump_malloc :: node_alloc where
  "bump_malloc N n = (if N 0x100 = None then Some 0x100 else if N 0x200 = None then Some 0x200 else None)"

lemma empty_list_holds: "holds (empty_root_list, H) {} {}"
  by (auto simp: holds_def skip_ok_def good_def empty_root_list_def NUM_LEVELS_def)

lemma bump_malloc_ok: "malloc_ok bump_malloc"
  by (simp add: malloc_ok_def bump_malloc_def)

theorem skip_list_refines_set_witness:
  "\<exists>ok L' H' F'. caml_insert_global_root bump_malloc 0x7000 (empty_root_list, \<lparr>gh_nodes = Map.empty, random_seed = 0\<rparr>) =
     Some (ok, L', H') \<and> holds (L', H') (if ok then {0x7000} else {}) F'"
  using skip_list_refines_set [OF bump_malloc_ok empty_list_holds] by blast

end
