(* ===== verification/Global_Roots.thy ===== *)
theory Global_Roots
  imports Skip_List
begin

text \<open>
  The three lists of global roots (second half of \<^verbatim>\<open>runtime/globroots.c\<close>): registration of
  mutable and of generational roots, the change of a root's value, and the scans of the
  collectors.
\<close>

section \<open>The three lists of the runtime\<close>

record roots_state = caml_state +
  caml_global_roots :: global_root_list
  caml_global_roots_young :: global_root_list
  caml_global_roots_old :: global_root_list
  root_nodes :: root_heap

datatype root_list = Mutable | Young_list | Old_list

definition the_list :: "root_list \<Rightarrow> roots_state \<Rightarrow> global_root_list" where
  "the_list l s = (case l of Mutable \<Rightarrow> caml_global_roots s
     | Young_list \<Rightarrow> caml_global_roots_young s | Old_list \<Rightarrow> caml_global_roots_old s)"

definition put_list :: "root_list \<Rightarrow> global_root_list \<times> root_heap \<Rightarrow> roots_state \<Rightarrow>
    roots_state" where
  "put_list l LH s =
    (let s1 = s\<lparr>root_nodes := snd LH\<rparr>
     in case l of Mutable \<Rightarrow> s1\<lparr>caml_global_roots := fst LH\<rparr>
        | Young_list \<Rightarrow> s1\<lparr>caml_global_roots_young := fst LH\<rparr>
        | Old_list \<Rightarrow> s1\<lparr>caml_global_roots_old := fst LH\<rparr>)"

text \<open>Insertion in and deletion from one of them; a failed allocation raises \<open>Out_of_memory\<close>.\<close>

definition insert_in :: "rt \<Rightarrow> node_alloc \<Rightarrow> root_list \<Rightarrow> u64 \<Rightarrow> roots_state \<Rightarrow>
    (unit, roots_state) cres" where
  "insert_in rt malloc l r s =
    (case caml_insert_global_root malloc r (the_list l s, root_nodes s) of None \<Rightarrow> Diverge
     | Some (ok, LH) \<Rightarrow>
         (if ok then Ret () (put_list l LH s) else on_cs (rt_raise_out_of_memory rt) (put_list l LH s)))"

definition delete_from :: "root_list \<Rightarrow> u64 \<Rightarrow> roots_state \<Rightarrow>
    (unit, roots_state) cres" where
  "delete_from l r s =
    (case caml_delete_global_root r (the_list l s, root_nodes s) of None \<Rightarrow> Diverge
     | Some LH \<Rightarrow> Ret () (put_list l LH s))"

definition caml_register_global_root :: "rt \<Rightarrow> node_alloc \<Rightarrow> u64 \<Rightarrow> roots_state \<Rightarrow>
    (unit, roots_state) cres" where
  "caml_register_global_root rt malloc r s = insert_in rt malloc Mutable r s"

definition caml_remove_global_root :: "u64 \<Rightarrow> roots_state \<Rightarrow> (unit, roots_state) cres" where
  "caml_remove_global_root r s = delete_from Mutable r s"

datatype gc_root_class = YOUNG | OLD | UNTRACKED

definition classify_gc_root :: "roots_state \<Rightarrow> u64 \<Rightarrow> gc_root_class" where
  "classify_gc_root s v =
    (if \<not> Is_block v then UNTRACKED
     else if Is_young s v then YOUNG
     else if Is_in_heap s v then OLD
     else UNTRACKED)"

definition caml_register_generational_global_root :: "rt \<Rightarrow> node_alloc \<Rightarrow> u64 \<Rightarrow> roots_state \<Rightarrow>
    (unit, roots_state) cres" where
  "caml_register_generational_global_root rt malloc r s =
    (case classify_gc_root s (mem s r) of
       YOUNG \<Rightarrow> insert_in rt malloc Young_list r s
     | OLD \<Rightarrow> insert_in rt malloc Old_list r s
     | UNTRACKED \<Rightarrow> Ret () s)"

definition caml_remove_generational_global_root :: "u64 \<Rightarrow> roots_state \<Rightarrow>
    (unit, roots_state) cres" where
  "caml_remove_generational_global_root r s =
    (case classify_gc_root s (mem s r) of
       OLD \<Rightarrow> cbind (delete_from Old_list r s) (\<lambda>_ s. delete_from Young_list r s)
     | YOUNG \<Rightarrow> delete_from Young_list r s
     | UNTRACKED \<Rightarrow> Ret () s)"

definition caml_modify_generational_global_root :: "rt \<Rightarrow> node_alloc \<Rightarrow> u64 \<Rightarrow> u64 \<Rightarrow> roots_state \<Rightarrow>
    (unit, roots_state) cres" where
  "caml_modify_generational_global_root rt malloc r newval s =
    cthen
      (case classify_gc_root s newval of
         YOUNG \<Rightarrow>
           (let c = classify_gc_root s (mem s r)
            in cbind (if c = OLD then delete_from Old_list r s else Ret () s) (\<lambda>_ s.
                 if c \<noteq> YOUNG then insert_in rt malloc Young_list r s else Ret () s))
       | OLD \<Rightarrow>
           (if classify_gc_root s (mem s r) = UNTRACKED then insert_in rt malloc Old_list r s else Ret () s)
       | UNTRACKED \<Rightarrow> caml_remove_generational_global_root r s)
      (store_at r newval)"

section \<open>Scanning\<close>

type_synonym scanning_action = "u64 \<Rightarrow> u64 \<Rightarrow> roots_state \<Rightarrow> roots_state"

definition scan_list :: "scanning_action \<Rightarrow> root_list \<Rightarrow> roots_state \<Rightarrow>
    (unit, roots_state) cres" where
  "scan_list f l s =
    (case caml_iterate_global_roots f (the_list l s, root_nodes s) s of None \<Rightarrow> Diverge | Some s1 \<Rightarrow> Ret () s1)"

definition caml_scan_global_roots :: "scanning_action \<Rightarrow> roots_state \<Rightarrow>
    (unit, roots_state) cres" where
  "caml_scan_global_roots f s =
    cbind (scan_list f Mutable s) (\<lambda>_ s. cbind (scan_list f Young_list s) (\<lambda>_ s. scan_list f Old_list s))"

text \<open>
  After the scan the young roots move to the old list. The pointer \<open>gr\<close> runs along the young
  list, whose nodes the insertions do not touch; a walk that meets a node again shows in the
  model as \<open>None\<close>.
\<close>

partial_function (option) move_young :: "rt \<Rightarrow> node_alloc \<Rightarrow> u64 \<Rightarrow> roots_state \<Rightarrow> (unit, roots_state) cres option" where
  "move_young rt malloc gr s =
    (if gr = 0 then Some (Ret () s)
     else (case insert_in rt malloc Old_list (gr_root (gr_at (gh_nodes (root_nodes s)) gr)) s of
             Ret _ s1 \<Rightarrow> move_young rt malloc (gr_forward (gr_at (gh_nodes (root_nodes s1)) gr) ! 0) s1
           | Longjmp s1 \<Rightarrow> Some (Longjmp s1) | Fatal e \<Rightarrow> Some (Fatal e) | Diverge \<Rightarrow> Some Diverge))"

definition caml_scan_global_young_roots :: "rt \<Rightarrow> node_alloc \<Rightarrow> scanning_action \<Rightarrow> roots_state \<Rightarrow>
    (unit, roots_state) cres" where
  "caml_scan_global_young_roots rt malloc f s =
    cbind (scan_list f Mutable s) (\<lambda>_ s. cbind (scan_list f Young_list s) (\<lambda>_ s.
    cbind (case move_young rt malloc (gl_forward (caml_global_roots_young s) ! 0) s of
             None \<Rightarrow> Diverge | Some r \<Rightarrow> r) (\<lambda>_ s.
    (case caml_empty_global_roots (caml_global_roots_young s, root_nodes s) of
       None \<Rightarrow> Diverge | Some LH \<Rightarrow> Ret () (put_list Young_list LH s)))))"

section \<open>The lists as a family of sets\<close>

text \<open>\<open>roots_ok malloc s As\<close>: the lists of \<open>s\<close> hold the sets \<open>As\<close>, in nodes that are pairwise apart.\<close>

definition roots_in :: "node_alloc \<Rightarrow> roots_state \<Rightarrow> (root_list \<Rightarrow> u64 set) \<Rightarrow> (root_list \<Rightarrow> u64 set) \<Rightarrow> bool" where
  "roots_in malloc s As Fs = sl.family malloc (\<lambda>l. the_list l s) (root_nodes s) As Fs"

definition roots_ok :: "node_alloc \<Rightarrow> roots_state \<Rightarrow> (root_list \<Rightarrow> u64 set) \<Rightarrow> bool" where
  "roots_ok malloc s As \<longleftrightarrow> (\<exists>Fs. roots_in malloc s As Fs)"

text \<open>The part of the state that the lists are not: what an operation on a list leaves alone.\<close>

abbreviation rest :: "roots_state \<Rightarrow> caml_state" where
  "rest s \<equiv> caml_state.truncate s"

lemma the_list_put [simp]:
  "(\<lambda>l'. the_list l' (put_list l LH s)) = (\<lambda>l'. the_list l' s)(l := fst LH)"
  "root_nodes (put_list l LH s) = snd LH" "rest (put_list l LH s) = rest s"
  by (auto simp: the_list_def put_list_def Let_def fun_eq_iff caml_state.defs split: root_list.split)

lemma insert_in_at:
  assumes "roots_in malloc s As Fs"
  shows "\<exists>t F'. (insert_in rt malloc l r s = Ret () t \<and> roots_in malloc t (As(l := insert r (As l))) (Fs(l := F')) \<or>
      insert_in rt malloc l r s = on_cs (rt_raise_out_of_memory rt) t \<and> roots_in malloc t As (Fs(l := F'))) \<and>
    rest t = rest s \<and> sl.others_kept Fs l (root_nodes s) (root_nodes t)"
proof -
  obtain ok L' H' F' where h: "caml_insert_global_root malloc r (the_list l s, root_nodes s) = Some (ok, L', H')"
    "sl.family malloc ((\<lambda>l. the_list l s)(l := L')) H' (As(l := if ok then insert r (As l) else As l)) (Fs(l := F'))"
    "sl.others_kept Fs l (root_nodes s) H'"
    using sl.family_ins [OF assms [unfolded roots_in_def], of r l] by blast
  then show ?thesis
    by (cases ok) (auto simp: insert_in_def roots_in_def intro!: exI [of _ "put_list l (L', H') s"] exI [of _ F'])
qed

lemma insert_in_ok:
  assumes "roots_ok malloc s As"
  shows "(\<exists>t. insert_in rt malloc l r s = Ret () t \<and> roots_ok malloc t (As(l := insert r (As l))) \<and> rest t = rest s) \<or>
    (\<exists>t. insert_in rt malloc l r s = on_cs (rt_raise_out_of_memory rt) t \<and> roots_ok malloc t As \<and> rest t = rest s)"
  using assms insert_in_at unfolding roots_ok_def by blast

lemma delete_from_ok:
  assumes "roots_ok malloc s As"
  shows "\<exists>t. delete_from l r s = Ret () t \<and> roots_ok malloc t (As(l := As l - {r})) \<and> rest t = rest s"
proof -
  obtain Fs where "roots_in malloc s As Fs" using assms by (auto simp: roots_ok_def)
  then obtain L' H' F' where "caml_delete_global_root r (the_list l s, root_nodes s) = Some (L', H')"
    "sl.family malloc ((\<lambda>l. the_list l s)(l := L')) H' (As(l := As l - {r})) (Fs(l := F'))"
    using sl.family_del [of malloc "\<lambda>l. the_list l s" "root_nodes s" As Fs r l] by (auto simp: roots_in_def)
  then show ?thesis
    by (auto simp: delete_from_def roots_ok_def roots_in_def intro!: exI [of _ "Fs(l := F')"])
qed

section \<open>The generational discipline\<close>

text \<open>
  The invariant that the comment before \<open>caml_register_global_root\<close> states, over the set \<open>R\<close> of
  the generational roots that are registered. That a root with a young value is not in the old
  list is implicit there; \<open>caml_remove_generational_global_root\<close> relies on it.
\<close>

definition gen_inv :: "u64 set \<Rightarrow> (root_list \<Rightarrow> u64 set) \<Rightarrow> roots_state \<Rightarrow> bool" where
  "gen_inv R As s \<longleftrightarrow> As Young_list \<union> As Old_list \<subseteq> R \<and>
     (\<forall>r\<in>R. case classify_gc_root s (mem s r) of
        YOUNG \<Rightarrow> r \<in> As Young_list \<and> r \<notin> As Old_list
      | OLD \<Rightarrow> r \<in> As Young_list \<union> As Old_list
      | UNTRACKED \<Rightarrow> r \<notin> As Young_list \<union> As Old_list)"

lemma classify_rest: "rest t = rest s \<Longrightarrow> classify_gc_root t v = classify_gc_root s v"
  "rest t = rest s \<Longrightarrow> mem t = mem s"
  by (auto simp: classify_gc_root_def Is_young_def Is_in_heap_def caml_state.defs)

lemma classify_store [simp]: "classify_gc_root (store_at a x s) v = classify_gc_root s v"
  by (simp add: classify_gc_root_def Is_young_def Is_in_heap_def store_at_def)

lemma roots_ok_store [simp]: "roots_ok malloc (store_at a x s) As = roots_ok malloc s As"
proof -
  have "(\<lambda>l. the_list l (store_at a x s)) = (\<lambda>l. the_list l s)" "root_nodes (store_at a x s) = root_nodes s"
    by (auto simp: store_at_def the_list_def split: root_list.split)
  then show ?thesis by (simp only: roots_ok_def roots_in_def)
qed

definition kept :: "node_alloc \<Rightarrow> u64 set \<Rightarrow> roots_state \<Rightarrow> bool" where
  "kept malloc R s \<longleftrightarrow> (\<exists>As. roots_ok malloc s As \<and> gen_inv R As s)"

text \<open>The raise of \<open>Out_of_memory\<close> never returns to its caller.\<close>

definition raises_oom :: "rt \<Rightarrow> bool" where
  "raises_oom rt \<longleftrightarrow> (\<forall>s. \<exists>t. rt_raise_out_of_memory rt s = Longjmp t)"

lemma oom_not_Ret:
  assumes "raises_oom rt" "on_cs (rt_raise_out_of_memory rt) s = Ret x t"
  shows False
proof -
  obtain u where "rt_raise_out_of_memory rt (caml_state.truncate s) = Longjmp u"
    using assms(1) by (auto simp: raises_oom_def)
  then show False using assms(2) by (simp add: on_cs_def)
qed

lemma insert_in_Ret:
  assumes "roots_ok malloc s As" "raises_oom rt" "insert_in rt malloc l r s = Ret () t"
  shows "roots_ok malloc t (As(l := insert r (As l)))" "rest t = rest s"
  using insert_in_ok [OF assms(1), of rt l r] assms(3) oom_not_Ret [OF assms(2)] by (metis cres.inject(1))+

lemma delete_from_Ret:
  assumes "roots_ok malloc s As" "delete_from l r s = Ret () t"
  shows "roots_ok malloc t (As(l := As l - {r}))" "rest t = rest s"
  using delete_from_ok [OF assms(1), of l r] assms(2) by auto

lemma register_keeps:
  assumes "kept malloc R s" "raises_oom rt" "r \<notin> R"
    and "caml_register_generational_global_root rt malloc r s = Ret () t"
  shows "kept malloc (insert r R) t"
proof -
  obtain As where As: "roots_ok malloc s As" "gen_inv R As s" using assms(1) by (auto simp: kept_def)
  show ?thesis
  proof (cases "classify_gc_root s (mem s r)")
    case YOUNG
    then have "insert_in rt malloc Young_list r s = Ret () t"
      using assms(4) by (simp add: caml_register_generational_global_root_def)
    note i = insert_in_Ret [OF As(1) assms(2) this]
    have "gen_inv (insert r R) (As(Young_list := insert r (As Young_list))) t"
      using As(2) assms(3) YOUNG by (auto simp: gen_inv_def classify_rest [OF i(2)] split: gc_root_class.splits)
    with i(1) show ?thesis by (auto simp: kept_def)
  next
    case OLD
    then have "insert_in rt malloc Old_list r s = Ret () t"
      using assms(4) by (simp add: caml_register_generational_global_root_def)
    note i = insert_in_Ret [OF As(1) assms(2) this]
    have "gen_inv (insert r R) (As(Old_list := insert r (As Old_list))) t"
      using As(2) assms(3) OLD by (auto simp: gen_inv_def classify_rest [OF i(2)] split: gc_root_class.splits)
    with i(1) show ?thesis by (auto simp: kept_def)
  next
    case UNTRACKED
    then have "t = s" using assms(4) by (simp add: caml_register_generational_global_root_def)
    then show ?thesis using As assms(3) UNTRACKED by (auto simp: kept_def gen_inv_def split: gc_root_class.splits)
  qed
qed

lemma remove_keeps:
  assumes "kept malloc R s" "r \<in> R" and "caml_remove_generational_global_root r s = Ret () t"
  shows "kept malloc (R - {r}) t \<and> rest t = rest s"
proof -
  obtain As where As: "roots_ok malloc s As" "gen_inv R As s" using assms(1) by (auto simp: kept_def)
  show ?thesis
  proof (cases "classify_gc_root s (mem s r)")
    case YOUNG
    then have "delete_from Young_list r s = Ret () t"
      using assms(3) by (simp add: caml_remove_generational_global_root_def)
    note d = delete_from_Ret [OF As(1) this]
    have "gen_inv (R - {r}) (As(Young_list := As Young_list - {r})) t"
      using As(2) assms(2) YOUNG by (auto simp: gen_inv_def classify_rest [OF d(2)] split: gc_root_class.splits)
    with d show ?thesis by (auto simp: kept_def)
  next
    case OLD
    then obtain u where u: "delete_from Old_list r s = Ret () u" "delete_from Young_list r u = Ret () t"
      using assms(3) by (auto simp: caml_remove_generational_global_root_def cbind_eq_Ret)
    note d = delete_from_Ret [OF As(1) u(1)]
    note e = delete_from_Ret [OF d(1) u(2)]
    have same: "rest t = rest s" using d e by simp
    have "gen_inv (R - {r}) (As(Old_list := As Old_list - {r}, Young_list := As Young_list - {r})) t"
      using As(2) by (auto simp: gen_inv_def classify_rest [OF same] split: gc_root_class.splits)
    with e same show ?thesis by (auto simp: kept_def)
  next
    case UNTRACKED
    then have "t = s" using assms(3) by (simp add: caml_remove_generational_global_root_def)
    moreover have "gen_inv (R - {r}) As s"
      using As(2) assms(2) UNTRACKED by (auto simp: gen_inv_def split: gc_root_class.splits)
    ultimately show ?thesis using As by (auto simp: kept_def)
  qed
qed

text \<open>Storing in a root that the lists hold as the class of the new value requires.\<close>

definition placed :: "gc_root_class \<Rightarrow> u64 \<Rightarrow> (root_list \<Rightarrow> u64 set) \<Rightarrow> bool" where
  "placed c r As = (case c of YOUNG \<Rightarrow> r \<in> As Young_list \<and> r \<notin> As Old_list
      | OLD \<Rightarrow> r \<in> As Young_list \<union> As Old_list | UNTRACKED \<Rightarrow> r \<notin> As Young_list \<union> As Old_list)"

lemma gen_inv_placed:
  "gen_inv R As s \<longleftrightarrow> As Young_list \<union> As Old_list \<subseteq> R \<and> (\<forall>r\<in>R. placed (classify_gc_root s (mem s r)) r As)"
  by (simp add: gen_inv_def placed_def)

lemma store_keeps:
  assumes "roots_ok malloc t Bs" "Bs Young_list \<union> Bs Old_list \<subseteq> R"
    and "\<forall>q\<in>R - {r}. placed (classify_gc_root t (mem t q)) q Bs" "placed (classify_gc_root t v) r Bs"
  shows "kept malloc R (store_at r v t)"
proof -
  have "mem (store_at r v t) = (mem t)(r := v)" by (simp add: store_at_def)
  then have "gen_inv R Bs (store_at r v t)" using assms by (simp add: gen_inv_placed)
  then show ?thesis using assms(1) by (auto simp: kept_def)
qed

lemma placed_others:
  assumes "gen_inv R As s" "\<forall>l. Bs l - {r} = As l - {r}" "rest t = rest s"
  shows "\<forall>q\<in>R - {r}. placed (classify_gc_root t (mem t q)) q Bs"
proof
  fix q assume q: "q \<in> R - {r}"
  then have "q \<in> Bs l \<longleftrightarrow> q \<in> As l" for l using assms(2) by blast
  then have "placed c q Bs = placed c q As" for c by (cases c) (simp_all add: placed_def)
  then show "placed (classify_gc_root t (mem t q)) q Bs"
    using q assms(1) by (simp add: classify_rest [OF assms(3)] gen_inv_placed)
qed

lemma modify_keeps:
  assumes "kept malloc R s" "raises_oom rt" "r \<in> R"
    and "caml_modify_generational_global_root rt malloc r v s = Ret () t"
  shows "kept malloc R t"
proof -
  obtain As where As: "roots_ok malloc s As" "gen_inv R As s" using assms(1) by (auto simp: kept_def)
  let ?c = "classify_gc_root s (mem s r)"
  have pl: "placed ?c r As" using As(2) assms(3) by (simp add: gen_inv_placed)
  have sub: "As Young_list \<subseteq> R" "As Old_list \<subseteq> R" using As(2) by (auto simp: gen_inv_def)
  note finish = store_keeps [OF _ _ placed_others [OF As(2)]]
  show ?thesis
  proof (cases "classify_gc_root s v")
    case YOUNG
    then obtain u w where u: "(if ?c = OLD then delete_from Old_list r s else Ret () s) = Ret () u"
        "(if ?c \<noteq> YOUNG then insert_in rt malloc Young_list r u else Ret () u) = Ret () w" "t = store_at r v w"
      using assms(4) by (auto simp: caml_modify_generational_global_root_def cthen_def cbind_eq_Ret Let_def)
    let ?B = "if ?c = OLD then As(Old_list := As Old_list - {r}) else As"
    let ?D = "if ?c = YOUNG then ?B else ?B(Young_list := insert r (?B Young_list))"
    have B: "roots_ok malloc u ?B \<and> rest u = rest s"
      using u(1) As(1) delete_from_Ret [OF As(1), of Old_list r u] by (cases "?c = OLD") simp_all
    have D: "roots_ok malloc w ?D \<and> rest w = rest u"
      using u(2) B insert_in_Ret [OF conjunct1 [OF B] assms(2), of Young_list r w] by (cases "?c = YOUNG") simp_all
    show ?thesis
      unfolding u(3)
    proof (rule finish [OF conjunct1 [OF D]])
      show "?D Young_list \<union> ?D Old_list \<subseteq> R" using sub assms(3) by auto
      show "\<forall>l. ?D l - {r} = As l - {r}" by auto
      show same: "rest w = rest s" using B D by simp
      show "placed (classify_gc_root w v) r ?D"
        using pl unfolding classify_rest(1) [OF same] YOUNG by (cases ?c) (simp_all add: placed_def)
    qed
  next
    case OLD
    then obtain w where w: "(if ?c = UNTRACKED then insert_in rt malloc Old_list r s else Ret () s) = Ret () w"
        "t = store_at r v w"
      using assms(4) by (auto simp: caml_modify_generational_global_root_def cthen_def cbind_eq_Ret)
    let ?D = "if ?c = UNTRACKED then As(Old_list := insert r (As Old_list)) else As"
    have "roots_ok malloc w ?D \<and> rest w = rest s"
      using w(1) As(1) insert_in_Ret [OF As(1) assms(2), of Old_list r w] by (cases "?c = UNTRACKED") simp_all
    note D = conjunct1 [OF this] conjunct2 [OF this]
    show ?thesis
      unfolding w(2)
    proof (rule finish [OF D(1) _ _ D(2)])
      show "?D Young_list \<union> ?D Old_list \<subseteq> R" using sub assms(3) by auto
      show "\<forall>l. ?D l - {r} = As l - {r}" by auto
      show "placed (classify_gc_root w v) r ?D"
        using pl unfolding classify_rest(1) [OF D(2)] OLD by (cases ?c) (simp_all add: placed_def)
    qed
  next
    case UNTRACKED
    then obtain w where w: "caml_remove_generational_global_root r s = Ret () w" "t = store_at r v w"
      using assms(4) by (auto simp: caml_modify_generational_global_root_def cthen_def cbind_eq_Ret)
    from remove_keeps [OF assms(1,3) w(1)] obtain Bs where B: "roots_ok malloc w Bs" "gen_inv (R - {r}) Bs w"
      "rest w = rest s" by (auto simp: kept_def)
    show ?thesis
      unfolding w(2)
    proof (rule store_keeps [OF B(1)])
      show "Bs Young_list \<union> Bs Old_list \<subseteq> R" using B(2) by (auto simp: gen_inv_placed)
      show "\<forall>q\<in>R - {r}. placed (classify_gc_root w (mem w q)) q Bs" using B(2) by (simp add: gen_inv_placed)
      show "placed (classify_gc_root w v) r Bs"
        using B(2) unfolding classify_rest(1) [OF B(3)] UNTRACKED by (auto simp: placed_def gen_inv_placed)
    qed
  qed
qed

section \<open>Scans\<close>

lemma scan_list_ok:
  assumes "roots_ok malloc s As"
  shows "scan_list f l s = Ret () (foldl (\<lambda>s r. f (mem s r) r s) s (sorted_list_of_set (As l)))"
proof -
  obtain F where "malloc_ok malloc" "holds (the_list l s, root_nodes s) (As l) F"
    using assms by (auto simp: roots_ok_def roots_in_def sl.family_def)
  then obtain xs where xs: "skip_ok (the_list l s) (gh_nodes (root_nodes s)) xs"
    "As l = set (map (key (gh_nodes (root_nodes s))) xs)" by (auto simp: holds_def)
  then show ?thesis
    using iterate_ok [OF xs(1), of f s] skip_keys_sorted [OF xs(1)] by (simp add: scan_list_def del: set_map)
qed

lemma oom_Longjmp:
  assumes "raises_oom rt"
  shows "\<exists>u. on_cs (rt_raise_out_of_memory rt) s = Longjmp u"
proof -
  obtain u where "rt_raise_out_of_memory rt (caml_state.truncate s) = Longjmp u"
    using assms by (auto simp: raises_oom_def)
  then show ?thesis by (simp add: on_cs_def)
qed

text \<open>Moving the young roots to the old list, from a node of the young list on.\<close>

lemma move_young_ok:
  assumes oom: "raises_oom rt" and ok: "nodes_ok N xs" "0 \<notin> set xs" "\<forall>a\<in>set xs. 1 \<le> height N a"
    and "xs = zs @ ys" "roots_in malloc s As Fs" "Fs Young_list = set xs"
    and "\<forall>a\<in>set xs. gh_nodes (root_nodes s) a = N a"
    and "move_young rt malloc (case ys of [] \<Rightarrow> 0 | y # _ \<Rightarrow> y) s = Some (Ret () t)"
  shows "roots_ok malloc t (As(Old_list := As Old_list \<union> key N ` set ys)) \<and> rest t = rest s"
  using assms(5-)
proof (induction ys arbitrary: zs s As Fs)
  case Nil
  then have "t = s" by (simp add: move_young.simps)
  then show ?case using Nil by (auto simp: roots_ok_def)
next
  case (Cons y ys)
  let ?N = "gh_nodes (root_nodes s)"
  have y: "y \<noteq> 0" "gr_at ?N y = gr_at N y" using Cons.prems ok by (auto simp: gr_at_def)
  obtain s1 F' where s1: "insert_in rt malloc Old_list (key N y) s = Ret () s1 \<and>
        roots_in malloc s1 (As(Old_list := insert (key N y) (As Old_list))) (Fs(Old_list := F')) \<or>
      insert_in rt malloc Old_list (key N y) s = on_cs (rt_raise_out_of_memory rt) s1"
    "rest s1 = rest s" "sl.others_kept Fs Old_list (root_nodes s) (root_nodes s1)"
    using insert_in_at [OF Cons.prems(2), of rt Old_list "key N y"] by blast
  have run: "move_young rt malloc y s = (case insert_in rt malloc Old_list (key N y) s of
             Ret _ s1 \<Rightarrow> move_young rt malloc (gr_forward (gr_at (gh_nodes (root_nodes s1)) y) ! 0) s1
           | Longjmp s1 \<Rightarrow> Some (Longjmp s1) | Fatal e \<Rightarrow> Some (Fatal e) | Diverge \<Rightarrow> Some Diverge)"
    using y by (subst move_young.simps) (simp add: key_def)
  have ret: "insert_in rt malloc Old_list (key N y) s = Ret () s1"
    "roots_in malloc s1 (As(Old_list := insert (key N y) (As Old_list))) (Fs(Old_list := F'))"
    using s1(1) Cons.prems(5) oom_Longjmp [OF oom, of s1] by (auto simp: run)
  have keep: "\<forall>a\<in>set xs. gh_nodes (root_nodes s1) a = N a"
    using s1(3) Cons.prems(3,4) by (auto simp: sl.others_kept_def)
  then have "gr_at (gh_nodes (root_nodes s1)) y = gr_at N y" using Cons.prems(1) by (simp add: gr_at_def)
  then have nxt: "gr_forward (gr_at (gh_nodes (root_nodes s1)) y) ! 0 = (case ys of [] \<Rightarrow> 0 | y # _ \<Rightarrow> y)"
    using skip_bottom [OF ok(1,3) Cons.prems(1)] by simp
  have "roots_ok malloc t ((As(Old_list := insert (key N y) (As Old_list)))
      (Old_list := (As(Old_list := insert (key N y) (As Old_list))) Old_list \<union> key N ` set ys)) \<and> rest t = rest s1"
    using Cons.prems ret keep by (intro Cons.IH [of "zs @ [y]" s1 "As(Old_list := insert (key N y) (As Old_list))" "Fs(Old_list := F')"])
         (simp_all add: run nxt del: fun_upd_apply, simp)
  moreover have "(As(Old_list := insert (key N y) (As Old_list)))
      (Old_list := (As(Old_list := insert (key N y) (As Old_list))) Old_list \<union> key N ` set ys) =
      As(Old_list := As Old_list \<union> key N ` set (y # ys))"
    by (auto simp: fun_eq_iff)
  ultimately show ?case using s1(2) by (simp only: simp_thms)
qed

text \<open>
  What the minor collector does at a root (\<open>caml_oldify_one\<close>): the value of the root, when
  young, is replaced by one in the major heap; other roots, and the lists, are left alone. The
  predicate \<open>I\<close> is what the collector needs of the states it scans in.
\<close>

definition promotes :: "(roots_state \<Rightarrow> bool) \<Rightarrow> scanning_action \<Rightarrow> u64 set \<Rightarrow> bool" where
  "promotes I f R \<longleftrightarrow> (\<forall>s r. I s \<longrightarrow> (let t = f (mem s r) r s in I t \<and>
     (\<forall>l. the_list l t = the_list l s) \<and> root_nodes t = root_nodes s \<and>
     (\<forall>q\<in>R. classify_gc_root t (mem t q) =
        (if q = r \<and> classify_gc_root s (mem s q) = YOUNG then OLD else classify_gc_root s (mem s q)))))"

lemma promotes_fold:
  assumes "promotes I f R"
  defines "g \<equiv> foldl (\<lambda>s r. f (mem s r) r s)"
  shows "I s \<Longrightarrow> I (g s rs) \<and> the_list l (g s rs) = the_list l s \<and> root_nodes (g s rs) = root_nodes s \<and>
    (\<forall>q\<in>R. classify_gc_root (g s rs) (mem (g s rs) q) =
       (if q \<in> set rs \<and> classify_gc_root s (mem s q) = YOUNG then OLD else classify_gc_root s (mem s q)))"
  unfolding g_def
proof (induction rs arbitrary: s)
  case (Cons r rs)
  have "I (f (mem s r) r s) \<and> (\<forall>l. the_list l (f (mem s r) r s) = the_list l s) \<and> root_nodes (f (mem s r) r s) = root_nodes s \<and>
     (\<forall>q\<in>R. classify_gc_root (f (mem s r) r s) (mem (f (mem s r) r s) q) =
        (if q = r \<and> classify_gc_root s (mem s q) = YOUNG then OLD else classify_gc_root s (mem s q)))"
    using assms(1) Cons.prems unfolding promotes_def Let_def by blast
  with Cons.IH [of "f (mem s r) r s"] show ?case by auto
qed simp

lemma roots_ok_same:
  "\<forall>l. the_list l t = the_list l s \<Longrightarrow> root_nodes t = root_nodes s \<Longrightarrow> roots_ok malloc t As = roots_ok malloc s As"
  by (simp add: roots_ok_def roots_in_def)

lemma scan_young_keeps:
  assumes "kept malloc R s" "raises_oom rt" "promotes I f R" "I s"
    and run: "caml_scan_global_young_roots rt malloc f s = Ret () t"
  shows "kept malloc R t \<and> (\<forall>r\<in>R. classify_gc_root t (mem t r) \<noteq> YOUNG)"
proof -
  obtain As where As: "roots_ok malloc s As" "gen_inv R As s" using assms(1) by (auto simp: kept_def)
  let ?g = "foldl (\<lambda>s r. f (mem s r) r s)"
  define s1 where "s1 = ?g s (sorted_list_of_set (As Mutable))"
  define s2 where "s2 = ?g s1 (sorted_list_of_set (As Young_list))"
  note p1 = promotes_fold [OF assms(3,4), where rs = "sorted_list_of_set (As Mutable)", folded s1_def]
  then have "I s1" by blast
  note p2 = promotes_fold [OF assms(3) this, where rs = "sorted_list_of_set (As Young_list)", folded s2_def]
  have ok1: "roots_ok malloc s1 As" using As(1) p1 roots_ok_same by blast
  have ok2: "roots_ok malloc s2 As" using ok1 p2 roots_ok_same by blast
  have sc: "scan_list f Mutable s = Ret () s1" "scan_list f Young_list s1 = Ret () s2"
    using scan_list_ok [OF As(1)] scan_list_ok [OF ok1] by (simp_all add: s1_def s2_def)
  obtain Fs where Fs: "roots_in malloc s2 As Fs" using ok2 by (auto simp: roots_ok_def)
  let ?N = "gh_nodes (root_nodes s2)"
  have "holds (the_list Young_list s2, root_nodes s2) (As Young_list) (Fs Young_list)"
    using Fs unfolding roots_in_def sl.family_def by blast
  then obtain xs where xs: "skip_ok (caml_global_roots_young s2) ?N xs" "As Young_list = key ?N ` set xs"
    "Fs Young_list = set xs" "finite (As Young_list)"
    by (auto simp: holds_def the_list_def)
  obtain s3 where s3: "move_young rt malloc (gl_forward (caml_global_roots_young s2) ! 0) s2 = Some (Ret () s3)"
    and fin: "(case caml_empty_global_roots (caml_global_roots_young s3, root_nodes s3) of
       None \<Rightarrow> Diverge | Some LH \<Rightarrow> Ret () (put_list Young_list LH s3)) = Ret () t"
    using run by (auto simp: caml_scan_global_young_roots_def sc cbind_eq_Ret split: option.splits)
  have m: "roots_ok malloc s3 (As(Old_list := As Old_list \<union> As Young_list)) \<and> rest s3 = rest s2"
    using move_young_ok [OF assms(2), of ?N xs "[]" xs malloc s2 As Fs s3] xs s3 Fs
    by (simp add: skip_first [OF xs(1)]) (simp add: skip_ok_def)
  have young: "caml_global_roots_young s3 = the_list Young_list s3" by (simp add: the_list_def)
  obtain Gs where Gs: "roots_in malloc s3 (As(Old_list := As Old_list \<union> As Young_list)) Gs"
    using m by (auto simp: roots_ok_def)
  then obtain L' H' where e: "caml_empty_global_roots (caml_global_roots_young s3, root_nodes s3) = Some (L', H')"
    "sl.family malloc ((\<lambda>l. the_list l s3)(Young_list := L')) H'
       (As(Old_list := As Old_list \<union> As Young_list, Young_list := {})) (Gs(Young_list := {}))"
    using sl.family_clear [OF Gs [unfolded roots_in_def], of Young_list] young by auto
  let ?B = "As(Old_list := As Old_list \<union> As Young_list, Young_list := {})"
  have t: "t = put_list Young_list (L', H') s3" using fin e by simp
  have ok: "roots_ok malloc t ?B" using e(2) by (auto simp: t roots_ok_def roots_in_def)
  have same: "rest t = rest s2" using m by (simp add: t)
  have cls: "classify_gc_root t (mem t q) = (if classify_gc_root s (mem s q) = YOUNG then OLD else classify_gc_root s (mem s q))"
    if "q \<in> R" for q
    using that p1 p2 As(2) xs(4) by (auto simp: classify_rest [OF same] gen_inv_def)
  then have "gen_inv R ?B t" using As(2) by (fastforce simp: gen_inv_def split: gc_root_class.splits)
  then show ?thesis using ok cls by (auto simp: kept_def)
qed

section \<open>Reachable states\<close>

text \<open>
  Registration, removal and change of generational roots, the same for mutable roots, minor
  collections, and whatever else the program does that leaves the lists and the class of the
  values of registered roots alone.
\<close>

inductive root_step :: "rt \<Rightarrow> node_alloc \<Rightarrow> u64 set \<times> roots_state \<Rightarrow> u64 set \<times> roots_state \<Rightarrow> bool"
  for rt malloc where
  register: "r \<notin> R \<Longrightarrow> caml_register_generational_global_root rt malloc r s = Ret () t \<Longrightarrow>
    root_step rt malloc (R, s) (insert r R, t)"
| remove: "r \<in> R \<Longrightarrow> caml_remove_generational_global_root r s = Ret () t \<Longrightarrow>
    root_step rt malloc (R, s) (R - {r}, t)"
| modify: "r \<in> R \<Longrightarrow> caml_modify_generational_global_root rt malloc r v s = Ret () t \<Longrightarrow>
    root_step rt malloc (R, s) (R, t)"
| register_mutable: "caml_register_global_root rt malloc r s = Ret () t \<Longrightarrow> root_step rt malloc (R, s) (R, t)"
| remove_mutable: "caml_remove_global_root r s = Ret () t \<Longrightarrow> root_step rt malloc (R, s) (R, t)"
| minor_gc: "promotes I f R \<Longrightarrow> I s \<Longrightarrow> caml_scan_global_young_roots rt malloc f s = Ret () t \<Longrightarrow>
    root_step rt malloc (R, s) (R, t)"
| other: "\<forall>l. the_list l t = the_list l s \<Longrightarrow> root_nodes t = root_nodes s \<Longrightarrow>
    \<forall>r\<in>R. classify_gc_root t (mem t r) = classify_gc_root s (mem s r) \<Longrightarrow> root_step rt malloc (R, s) (R, t)"

definition no_roots :: "roots_state \<Rightarrow> bool" where
  "no_roots s \<longleftrightarrow> (\<forall>l. the_list l s = empty_root_list)"

lemma no_roots_kept:
  assumes "no_roots s" "malloc_ok malloc"
  shows "kept malloc {} s"
proof -
  have "holds (empty_root_list, root_nodes s) {} {}"
    by (rule empty_list_holds)
  then have "roots_in malloc s (\<lambda>_. {}) (\<lambda>_. {})"
    unfolding roots_in_def sl.family_def using assms by (auto simp: no_roots_def)
  then show ?thesis by (auto simp: kept_def roots_ok_def gen_inv_def)
qed

lemma gen_inv_mutable:
  assumes "rest t = rest s"
  shows "gen_inv R (As(Mutable := A)) t = gen_inv R As s"
  by (simp add: gen_inv_def classify_rest [OF assms] cong: gc_root_class.case_cong)

lemma step_kept:
  assumes "root_step rt malloc p q" "raises_oom rt" "kept malloc (fst p) (snd p)"
  shows "kept malloc (fst q) (snd q)"
  using assms
proof (induction rule: root_step.induct)
  case (register_mutable r s t R)
  obtain As where As: "roots_ok malloc s As" "gen_inv R As s" using register_mutable by (auto simp: kept_def)
  note i = insert_in_Ret [OF As(1) register_mutable(2) register_mutable(1) [unfolded caml_register_global_root_def]]
  from i(1) gen_inv_mutable [OF i(2)] As(2) show ?case unfolding kept_def fst_conv snd_conv by blast
next
  case (remove_mutable r s t R)
  obtain As where As: "roots_ok malloc s As" "gen_inv R As s" using remove_mutable by (auto simp: kept_def)
  note d = delete_from_Ret [OF As(1) remove_mutable(1) [unfolded caml_remove_global_root_def]]
  from d(1) gen_inv_mutable [OF d(2)] As(2) show ?case unfolding kept_def fst_conv snd_conv by blast
next
  case (other t s R)
  then have "roots_ok malloc t As = roots_ok malloc s As" "gen_inv R As t = gen_inv R As s" for As
    using roots_ok_same [of t s malloc] by (simp_all add: gen_inv_def)
  then show ?case using other by (simp add: kept_def)
next
  case (minor_gc I f R s t)
  then show ?case using scan_young_keeps [of malloc R s rt I f t] by simp
qed (auto dest: register_keeps remove_keeps modify_keeps)

lemma reachable_kept:
  assumes "(root_step rt malloc)\<^sup>*\<^sup>* ({}, s0) (R, s)" "no_roots s0" "malloc_ok malloc" "raises_oom rt"
  shows "kept malloc R s"
proof -
  have "kept malloc (fst q) (snd q)" if "(root_step rt malloc)\<^sup>*\<^sup>* ({}, s0) q" for q
    using that by (induction rule: rtranclp_induct) (use assms no_roots_kept step_kept in auto)
  from this [OF assms(1)] show ?thesis by simp
qed



section \<open>A root lost when memory runs out\<close>

text \<open>
  \<open>caml_modify_generational_global_root\<close> takes the root out of the old list before it allocates
  a node in the young one. When that allocation fails, \<open>Out_of_memory\<close> is raised with the root
  in neither list, though it still holds a pointer to the major heap: the invariant is broken
  and no collection sees the root.
\<close>

text \<open>
  C40: When the young list cannot grow, changing an old root to a young value raises
  Out_of_memory with the root in no list although it still points to the major heap.
\<close>

theorem modify_oom_loses_root:
  assumes "roots_ok malloc s As" "raises_oom rt" "\<forall>N n. malloc N n = None"
    and "classify_gc_root s v = YOUNG" "classify_gc_root s (mem s r) = OLD" "r \<in> As Old_list" "r \<notin> As Young_list"
  shows "\<exists>t Bs. caml_modify_generational_global_root rt malloc r v s = on_cs (rt_raise_out_of_memory rt) t \<and>
    roots_ok malloc t Bs \<and> r \<notin> Bs Old_list \<union> Bs Young_list \<and> classify_gc_root t (mem t r) = OLD"
proof -
  obtain u where u: "delete_from Old_list r s = Ret () u" "roots_ok malloc u (As(Old_list := As Old_list - {r}))"
    "rest u = rest s" using delete_from_ok [OF assms(1)] by blast
  obtain Fs where Fs: "roots_in malloc u (As(Old_list := As Old_list - {r})) Fs" using u(2) by (auto simp: roots_ok_def)
  obtain ok L' H' F' where h: "caml_insert_global_root malloc r (the_list Young_list u, root_nodes u) = Some (ok, L', H')"
    "sl.family malloc ((\<lambda>l. the_list l u)(Young_list := L')) H' ((As(Old_list := As Old_list - {r}))
       (Young_list := if ok then insert r ((As(Old_list := As Old_list - {r})) Young_list)
          else (As(Old_list := As Old_list - {r})) Young_list)) (Fs(Young_list := F'))"
    using sl.family_ins [OF Fs [unfolded roots_in_def], of r Young_list] by blast
  have "holds (the_list Young_list u, root_nodes u) ((As(Old_list := As Old_list - {r})) Young_list) (Fs Young_list)"
    using Fs unfolding roots_in_def sl.family_def by blast
  with insert_out_of_memory [OF this _ assms(3), of r] assms(7) h(1) have "\<not> ok" by auto
  with h(2) have h2: "roots_in malloc (put_list Young_list (L', H') u) (As(Old_list := As Old_list - {r})) (Fs(Young_list := F'))"
    by (simp add: roots_in_def fun_upd_idem)
  from \<open>\<not> ok\<close>
  have i: "insert_in rt malloc Young_list r u = on_cs (rt_raise_out_of_memory rt) (put_list Young_list (L', H') u)"
    using h(1) by (simp add: insert_in_def)
  let ?t = "put_list Young_list (L', H') u"
  obtain w where w: "on_cs (rt_raise_out_of_memory rt) ?t = Longjmp w" using oom_Longjmp [OF assms(2)] by blast
  have same: "rest ?t = rest s" using u(3) by simp
  then have "classify_gc_root ?t (mem ?t r) = OLD" using assms(5) by (simp add: classify_rest [OF same])
  moreover have "caml_modify_generational_global_root rt malloc r v s = on_cs (rt_raise_out_of_memory rt) ?t"
    using u(1) i w assms(4,5) by (simp add: caml_modify_generational_global_root_def cthen_def)
  ultimately show ?thesis using h2 assms(7) unfolding roots_ok_def
    by (intro exI [of _ ?t] exI [of _ "As(Old_list := As Old_list - {r})"]) auto
qed

section \<open>Witnesses\<close>

definition roots_sample :: roots_state where
  "roots_sample = caml_state.extend (caml_state.truncate (sample_machine\<lparr>mem := (\<lambda>a. 0x9000)\<rparr>))
     \<lparr>caml_global_roots = empty_root_list, caml_global_roots_young = empty_root_list,
      caml_global_roots_old = empty_root_list, root_nodes = \<lparr>gh_nodes = Map.empty, random_seed = 0\<rparr>\<rparr>"

lemma roots_sample_fields [simp]:
  "mem roots_sample = (\<lambda>a. 0x9000)" "young_start roots_sample = 0x7FF8" "young_end roots_sample = 0x10000"
  "the_list l roots_sample = empty_root_list" "root_nodes roots_sample = \<lparr>gh_nodes = Map.empty, random_seed = 0\<rparr>"
  by (simp_all add: roots_sample_def sample_machine_def caml_state.defs the_list_def split: root_list.split)

lemma sample_raises_oom: "raises_oom sample_rt"
  by (simp add: raises_oom_def sample_rt_def)

lemma sample_registers:
  "\<exists>t. caml_register_generational_global_root sample_rt bump_malloc 0x7000 roots_sample = Ret () t"
proof -
  have "level_of 25173 = 0" by (simp add: level_of.simps)
  then have "\<exists>LH. caml_insert_global_root bump_malloc 0x7000 (empty_root_list, \<lparr>gh_nodes = Map.empty, random_seed = 0\<rparr>) =
      Some (True, LH)"
    by (simp add: caml_insert_global_root_def empty_root_list_def NUM_LEVELS_def walk.simps Let_def
        random_level_def bump_malloc_def split: prod.split)
  then obtain LH where "caml_insert_global_root bump_malloc 0x7000 (empty_root_list, \<lparr>gh_nodes = Map.empty, random_seed = 0\<rparr>) =
      Some (True, LH)" by blast
  then show ?thesis
    by (simp add: caml_register_generational_global_root_def classify_gc_root_def Is_young_def insert_in_def Is_block_def)
qed


text \<open>A scan action that replaces a young value by a fixed one in the major heap.\<close>

definition sample_promote :: scanning_action where
  "sample_promote v r s = (if classify_gc_root s v = YOUNG then store_at r 0x20008 s else s)"

lemma sample_promotes:
  "promotes (\<lambda>s. young_start s = 0x7FF8 \<and> young_end s = 0x10000 \<and> in_heap s = in_heap sample_machine) sample_promote R"
proof -
  have "classify_gc_root s 0x20008 = OLD"
    if "young_start s = 0x7FF8" "young_end s = 0x10000" "in_heap s = in_heap sample_machine" for s :: roots_state
    using that by (simp add: classify_gc_root_def Is_young_def Is_in_heap_def Is_block_def)
  then show ?thesis
    by (auto simp: promotes_def sample_promote_def Let_def store_at_def the_list_def classify_store [unfolded store_at_def]
        split: root_list.split)
qed

lemma sample_scans:
  assumes "caml_register_generational_global_root sample_rt bump_malloc 0x7000 roots_sample = Ret () t"
  shows "classify_gc_root t (mem t 0x7000) = YOUNG" "in_heap t = in_heap sample_machine" "young_start t = 0x7FF8"
    "young_end t = 0x10000" "\<exists>u. caml_scan_global_young_roots sample_rt bump_malloc sample_promote t = Ret () u"
proof -
  have lev: "level_of 25173 = 0" "level_of 1738699110 = 0" by (simp_all add: level_of.simps)
  have z: "replicate NUM_LEVELS (0::u64) = 0 # replicate 16 0" by (simp add: NUM_LEVELS_def numeral_eq_Suc)
  let ?L = "\<lparr>gl_forward = 0x100 # replicate 16 0, gl_level = 0\<rparr>"
  let ?n = "\<lambda>e. \<lparr>gr_root = 0x7000, gr_forward = [0]\<rparr>"
  have "caml_insert_global_root bump_malloc 0x7000 (empty_root_list, \<lparr>gh_nodes = Map.empty, random_seed = 0\<rparr>) =
      Some (True, ?L, \<lparr>gh_nodes = [0x100 \<mapsto> \<lparr>gr_root = 0x7000, gr_forward = [0]\<rparr>], random_seed = 25173\<rparr>)"
    by (simp add: caml_insert_global_root_def empty_root_list_def z walk.simps Let_def gr_at_def
        random_level_def bump_malloc_def lev)
  then have t: "t = put_list Young_list (?L, \<lparr>gh_nodes = [0x100 \<mapsto> \<lparr>gr_root = 0x7000, gr_forward = [0]\<rparr>], random_seed = 25173\<rparr>) roots_sample"
    using assms by (simp add: caml_register_generational_global_root_def classify_gc_root_def Is_young_def insert_in_def Is_block_def)
  show "classify_gc_root t (mem t 0x7000) = YOUNG" "in_heap t = in_heap sample_machine" "young_start t = 0x7FF8"
    "young_end t = 0x10000"
    by (simp_all add: t put_list_def roots_sample_def sample_machine_def caml_state.defs classify_gc_root_def Is_young_def Is_block_def)
  show "\<exists>u. caml_scan_global_young_roots sample_rt bump_malloc sample_promote t = Ret () u"
  proof -
    let ?H = "\<lparr>gh_nodes = [0x100 \<mapsto> \<lparr>gr_root = 0x7000, gr_forward = [0]\<rparr>], random_seed = 25173\<rparr>"
    let ?s = "store_at 0x7000 0x20008 t"
    have tf: "caml_global_roots t = empty_root_list" "caml_global_roots_young t = ?L"
      "caml_global_roots_old t = empty_root_list" "root_nodes t = ?H" "mem t = (\<lambda>a. 0x9000)"
      by (simp_all add: t put_list_def roots_sample_def sample_machine_def caml_state.defs)
    have sf: "caml_global_roots_young ?s = ?L" "caml_global_roots_old ?s = empty_root_list" "root_nodes ?s = ?H"
      by (simp_all add: store_at_def tf)
    have sc: "scan_list sample_promote Mutable t = Ret () t" "scan_list sample_promote Young_list t = Ret () ?s"
      using \<open>classify_gc_root t (mem t 0x7000) = YOUNG\<close>
      by (simp_all add: scan_list_def caml_iterate_global_roots_def iterate_from.simps the_list_def
         empty_root_list_def z gr_at_def sample_promote_def tf)
    have "caml_insert_global_root bump_malloc 0x7000 (empty_root_list, ?H) = Some (True,
       \<lparr>gl_forward = 0x200 # replicate 16 0, gl_level = 0\<rparr>,
       \<lparr>gh_nodes = (gh_nodes ?H)(0x200 \<mapsto> \<lparr>gr_root = 0x7000, gr_forward = [0]\<rparr>), random_seed = 1738699110\<rparr>)"
      by (simp add: caml_insert_global_root_def empty_root_list_def z walk.simps Let_def gr_at_def
        random_level_def bump_malloc_def lev)
    then have "\<exists>u. move_young sample_rt bump_malloc 0x100 ?s = Some (Ret () u) \<and> caml_global_roots_young u = ?L \<and>
       gh_nodes (root_nodes u) = (gh_nodes ?H)(0x200 \<mapsto> \<lparr>gr_root = 0x7000, gr_forward = [0]\<rparr>)"
      by (simp add: move_young.simps insert_in_def the_list_def sf gr_at_def put_list_def)
    then obtain u where u: "move_young sample_rt bump_malloc 0x100 ?s = Some (Ret () u)" "caml_global_roots_young u = ?L"
       "gh_nodes (root_nodes u) = (gh_nodes ?H)(0x200 \<mapsto> \<lparr>gr_root = 0x7000, gr_forward = [0]\<rparr>)" by blast
    have "\<exists>LH. caml_empty_global_roots (?L, root_nodes u) = Some LH"
      by (simp add: caml_empty_global_roots_def u(3) free_nodes.simps gr_at_def)
    with u(1,2) show ?thesis
      by (auto simp: caml_scan_global_young_roots_def sc sf)
  qed
qed


definition old_root_list :: global_root_list where
  "old_root_list = \<lparr>gl_forward = 0x100 # replicate 16 0, gl_level = 0\<rparr>"

definition old_root_heap :: root_heap where
  "old_root_heap = \<lparr>gh_nodes = [0x100 \<mapsto> \<lparr>gr_root = 0x7000, gr_forward = [0]\<rparr>], random_seed = 0\<rparr>"

definition old_root_sample :: roots_state where
  "old_root_sample = roots_sample\<lparr>mem := (\<lambda>a. 0x20008), caml_global_roots_old := old_root_list, root_nodes := old_root_heap\<rparr>"

lemma old_root_holds: "holds (old_root_list, old_root_heap) {0x7000} {0x100}"
proof -
  have at: "gr_at (gh_nodes old_root_heap) 0x100 = \<lparr>gr_root = 0x7000, gr_forward = [0]\<rparr>"
    by (simp add: gr_at_def old_root_heap_def)
  have "good (gh_nodes old_root_heap) (gl_forward old_root_list) [0x100]"
    by (auto simp: good_def old_root_list_def tall_def height_def at nth_Cons split: nat.splits)
  then have "skip_ok old_root_list (gh_nodes old_root_heap) [0x100]"
    by (simp add: skip_ok_def height_def at good_def) (simp add: old_root_list_def NUM_LEVELS_def old_root_heap_def)
  then show ?thesis by (rule holdsI) (simp_all add: key_def at)
qed

theorem modify_oom_loses_root_witness:
  "\<exists>t Bs. caml_modify_generational_global_root sample_rt (\<lambda>_ _. None) 0x7000 0x9000 old_root_sample =
       on_cs (rt_raise_out_of_memory sample_rt) t \<and>
     roots_ok (\<lambda>_ _. None) t Bs \<and> 0x7000 \<notin> Bs Old_list \<union> Bs Young_list \<and> classify_gc_root t (mem t 0x7000) = OLD"
proof (rule modify_oom_loses_root [where As = "\<lambda>l. if l = Old_list then {0x7000} else {}"])
  have lists: "the_list l old_root_sample = (if l = Old_list then old_root_list else empty_root_list)"
    "root_nodes old_root_sample = old_root_heap" for l
    using roots_sample_fields(4) [of l] by (cases l; simp add: old_root_sample_def the_list_def)+
  have "roots_in (\<lambda>_ _. None) old_root_sample (\<lambda>l. if l = Old_list then {0x7000} else {}) (\<lambda>l. if l = Old_list then {0x100} else {})"
    unfolding roots_in_def sl.family_def by (auto simp: lists malloc_ok_def old_root_holds empty_list_holds)
  then show "roots_ok (\<lambda>_ _. None) old_root_sample (\<lambda>l. if l = Old_list then {0x7000} else {})"
    unfolding roots_ok_def by blast
  show "classify_gc_root old_root_sample 0x9000 = YOUNG"
    by (simp add: classify_gc_root_def Is_block_def Is_young_def old_root_sample_def)
  have "in_heap roots_sample = (\<lambda>a. 0x20000 \<le> a \<and> a < 0x30000)"
    by (simp add: roots_sample_def sample_machine_def caml_state.defs)
  then show "classify_gc_root old_root_sample (mem old_root_sample 0x7000) = OLD"
    by (simp add: classify_gc_root_def Is_block_def Is_young_def Is_in_heap_def old_root_sample_def)
qed (simp_all add: sample_raises_oom)

end
