(* ===== verification/Compare.thy ===== *)
theory Compare
  imports Hash Str
begin

text \<open>
  Structural comparison (\<^verbatim>\<open>runtime/compare.c\<close>): the traversal \<open>do_compare_val\<close> with its stack of
  fields still to compare, and the primitives over it. The comparison functions of custom
  blocks are a parameter, called by the address of the function; they return a result and
  whether they found the values unordered (\<open>Caml_state->compare_unordered\<close>).
\<close>

section \<open>Doubles\<close>

text \<open>The order of IEEE doubles on their bit patterns: a sign and a magnitude.\<close>

definition is_nan :: "u64 \<Rightarrow> bool" where
  "is_nan d \<longleftrightarrow> 0x7FF0000000000000 < d AND 0x7FFFFFFFFFFFFFFF"

definition double_key :: "u64 \<Rightarrow> int" where
  "double_key d = (let mag = uint (d AND 0x7FFFFFFFFFFFFFFF) in if bit d 63 then - mag else mag)"

definition double_lt :: "u64 \<Rightarrow> u64 \<Rightarrow> bool" where
  "double_lt d1 d2 \<longleftrightarrow> \<not> is_nan d1 \<and> \<not> is_nan d2 \<and> double_key d1 < double_key d2"

definition double_eq :: "u64 \<Rightarrow> u64 \<Rightarrow> bool" where
  "double_eq d1 d2 \<longleftrightarrow> \<not> is_nan d1 \<and> \<not> is_nan d2 \<and> double_key d1 = double_key d2"

section \<open>The stack\<close>

definition COMPARE_STACK_INIT_SIZE :: nat where "COMPARE_STACK_INIT_SIZE = 8"
definition COMPARE_STACK_MIN_ALLOC_SIZE :: nat where "COMPARE_STACK_MIN_ALLOC_SIZE = 32"
definition COMPARE_STACK_MAX_SIZE :: nat where "COMPARE_STACK_MAX_SIZE = 1024 * 1024"

record compare_item =
  ci_v1 :: u64
  ci_v2 :: u64
  ci_count :: u64

text \<open>
  The items in use, the most recent first (the bottom slot of the array is never used), and
  the size of the array. \<open>None\<close> from a resize is \<open>compare_stack_overflow\<close>.
\<close>

record compare_stack =
  cs_items :: "compare_item list"
  cs_size :: nat

definition compare_resize_stack :: "(nat \<Rightarrow> bool) \<Rightarrow> compare_stack \<Rightarrow> compare_stack option" where
  "compare_resize_stack alloc_ok st =
    (if cs_size st = COMPARE_STACK_INIT_SIZE then
       (if alloc_ok (24 * COMPARE_STACK_MIN_ALLOC_SIZE)
        then Some (st\<lparr>cs_size := COMPARE_STACK_MIN_ALLOC_SIZE\<rparr>) else None)
     else
       (let newsize = 2 * cs_size st
        in if COMPARE_STACK_MAX_SIZE \<le> newsize then None
           else if alloc_ok (24 * newsize) then Some (st\<lparr>cs_size := newsize\<rparr>) else None))"

definition push_item :: "(nat \<Rightarrow> bool) \<Rightarrow> compare_item \<Rightarrow> compare_stack \<Rightarrow> compare_stack option" where
  "push_item alloc_ok it st =
    map_option (\<lambda>st. st\<lparr>cs_items := it # cs_items st\<rparr>)
      (if cs_size st \<le> length (cs_items st) + 1 then compare_resize_stack alloc_ok st else Some st)"

section \<open>One value against another\<close>

definition LESS :: u64 where "LESS = - 1"
definition EQUAL :: u64 where "EQUAL = 0"
definition GREATER :: u64 where "GREATER = 1"
definition UNORDERED :: u64 where "UNORDERED = push_bit 63 1"

type_synonym custom_compare = "u64 \<Rightarrow> u64 \<Rightarrow> u64 \<Rightarrow> u32 \<times> bool"

text \<open>
  Where the body of the loop goes: on with two values, to \<open>next_item\<close>, out with a result, or
  out by an exception.
\<close>

datatype compare_out =
    Continue u64 u64 compare_stack
  | Next_item compare_stack
  | Return u64
  | Invalid_arg string
  | Stack_overflow

partial_function (option) strcmp_less :: "store \<Rightarrow> u64 \<Rightarrow> u64 \<Rightarrow> bool option" where
  "strcmp_less m p q =
    (let a = load_byte m p; b = load_byte m q
     in if a \<noteq> b then Some (a < b) else if a = 0 then Some False else strcmp_less m (p + 1) (q + 1))"

definition Custom_ops_val :: "store \<Rightarrow> u64 \<Rightarrow> u64" where "Custom_ops_val m v = m v"
definition custom_identifier :: "store \<Rightarrow> u64 \<Rightarrow> u64" where "custom_identifier m ops = m ops"
definition custom_compare_fn :: "store \<Rightarrow> u64 \<Rightarrow> u64" where "custom_compare_fn m ops = m (ops + 16)"
definition custom_compare_ext :: "store \<Rightarrow> u64 \<Rightarrow> u64" where "custom_compare_ext m ops = m (ops + 48)"

definition call_compare :: "custom_compare \<Rightarrow> u64 \<Rightarrow> u64 \<Rightarrow> u64 \<Rightarrow> bool \<Rightarrow> compare_stack \<Rightarrow> compare_out" where
  "call_compare cust f v1 v2 tot st =
    (case cust f v1 v2 of (res, unordered) \<Rightarrow>
       if unordered \<and> \<not> tot then Return UNORDERED
       else if res \<noteq> 0 then Return (scast res)
       else Next_item st)"

definition compare_long_block :: "(u64 \<Rightarrow> bool) \<Rightarrow> custom_compare \<Rightarrow> store \<Rightarrow> bool \<Rightarrow> u64 \<Rightarrow> u64 \<Rightarrow>
    compare_stack \<Rightarrow> compare_out" where
  "compare_long_block area cust m tot v1 v2 st =
    (if \<not> area v2 then Return LESS
     else if Tag_val m v2 = Forward_tag then Continue v1 (Field m v2 0) st
     else if Tag_val m v2 = Custom_tag \<and> custom_compare_ext m (Custom_ops_val m v2) \<noteq> 0
     then call_compare cust (custom_compare_ext m (Custom_ops_val m v2)) v1 v2 tot st
     else Return LESS)"

definition compare_block_long :: "(u64 \<Rightarrow> bool) \<Rightarrow> custom_compare \<Rightarrow> store \<Rightarrow> bool \<Rightarrow> u64 \<Rightarrow> u64 \<Rightarrow>
    compare_stack \<Rightarrow> compare_out" where
  "compare_block_long area cust m tot v1 v2 st =
    (if \<not> area v1 then Return GREATER
     else if Tag_val m v1 = Forward_tag then Continue (Field m v1 0) v2 st
     else if Tag_val m v1 = Custom_tag \<and> custom_compare_ext m (Custom_ops_val m v1) \<noteq> 0
     then call_compare cust (custom_compare_ext m (Custom_ops_val m v1)) v1 v2 tot st
     else Return GREATER)"

definition compare_strings :: "store \<Rightarrow> u64 \<Rightarrow> u64 \<Rightarrow> compare_stack \<Rightarrow> compare_out" where
  "compare_strings m v1 v2 st =
    (if v1 = v2 then Next_item st
     else (let len1 = caml_string_length m v1; len2 = caml_string_length m v2;
               n = unat (if len1 \<le> len2 then len1 else len2);
               res = memcmp (load_bytes m v1 n) (load_bytes m v2 n)
           in if res < 0 then Return LESS
              else if 0 < res then Return GREATER
              else if len1 \<noteq> len2 then Return (len1 - len2)
              else Next_item st))"

text \<open>\<open>None\<close>: the two doubles are equal for the purpose of the comparison.\<close>

definition compare_doubles :: "bool \<Rightarrow> u64 \<Rightarrow> u64 \<Rightarrow> u64 option" where
  "compare_doubles tot d1 d2 =
    (if double_lt d1 d2 then Some LESS
     else if double_lt d2 d1 then Some GREATER
     else if \<not> double_eq d1 d2 then
       (if \<not> tot then Some UNORDERED
        else if double_eq d1 d1 then Some GREATER
        else if double_eq d2 d2 then Some LESS
        else None)
     else None)"

fun compare_double_fields :: "bool \<Rightarrow> store \<Rightarrow> nat \<Rightarrow> u64 \<Rightarrow> u64 \<Rightarrow> u64 option" where
  "compare_double_fields tot m 0 p q = None"
| "compare_double_fields tot m (Suc n) p q =
    (case compare_doubles tot (m p) (m q) of
       Some r \<Rightarrow> Some r
     | None \<Rightarrow> compare_double_fields tot m n (p + 8) (q + 8))"

definition compare_customs :: "custom_compare \<Rightarrow> store \<Rightarrow> bool \<Rightarrow> u64 \<Rightarrow> u64 \<Rightarrow> compare_stack \<Rightarrow> compare_out option" where
  "compare_customs cust m tot v1 v2 st =
    (let ops1 = Custom_ops_val m v1; ops2 = Custom_ops_val m v2; f = custom_compare_fn m ops1
     in if f \<noteq> custom_compare_fn m ops2 then
          map_option (\<lambda>less. Return (if less then LESS else GREATER))
            (strcmp_less m (custom_identifier m ops1) (custom_identifier m ops2))
        else if f = 0 then Some (Invalid_arg ''compare: abstract value'')
        else Some (call_compare cust f v1 v2 tot st))"

definition compare_structured :: "(nat \<Rightarrow> bool) \<Rightarrow> store \<Rightarrow> u64 \<Rightarrow> u64 \<Rightarrow> compare_stack \<Rightarrow> compare_out" where
  "compare_structured alloc_ok m v1 v2 st =
    (let sz1 = Wosize_val m v1; sz2 = Wosize_val m v2
     in if sz1 \<noteq> sz2 then Return (sz1 - sz2)
        else if sz1 = 0 then Next_item st
        else
          (case (if 1 < sz1
                 then push_item alloc_ok \<lparr>ci_v1 = v1 + 8, ci_v2 = v2 + 8, ci_count = sz1 - 1\<rparr> st
                 else Some st) of
             None \<Rightarrow> Stack_overflow
           | Some st1 \<Rightarrow> Continue (Field m v1 0) (Field m v2 0) st1))"

definition compare_blocks :: "(nat \<Rightarrow> bool) \<Rightarrow> custom_compare \<Rightarrow> store \<Rightarrow> bool \<Rightarrow> u64 \<Rightarrow> u64 \<Rightarrow>
    compare_stack \<Rightarrow> compare_out option" where
  "compare_blocks alloc_ok cust m tot v1 v2 st =
    (let t1 = Tag_val m v1; t2 = Tag_val m v2
     in if t1 = Forward_tag then Some (Continue (Field m v1 0) v2 st)
        else if t2 = Forward_tag then Some (Continue v1 (Field m v2 0) st)
        else if t1 \<noteq> t2 then Some (Return (ucast t1 - ucast t2))
        else if t1 = String_tag then Some (compare_strings m v1 v2 st)
        else if t1 = Double_tag then
          Some (case compare_doubles tot (m v1) (m v2) of Some r \<Rightarrow> Return r | None \<Rightarrow> Next_item st)
        else if t1 = Double_array_tag then
          (let sz1 = Wosize_val m v1 div Double_wosize; sz2 = Wosize_val m v2 div Double_wosize
           in if sz1 \<noteq> sz2 then Some (Return (sz1 - sz2))
              else Some (case compare_double_fields tot m (unat sz1) v1 v2 of
                           Some r \<Rightarrow> Return r | None \<Rightarrow> Next_item st))
        else if t1 = Abstract_tag then Some (Invalid_arg ''compare: abstract value'')
        else if t1 = Closure_tag \<or> t1 = Infix_tag then Some (Invalid_arg ''compare: functional value'')
        else if t1 = Object_tag then
          (let oid1 = Long_val (Field m v1 1); oid2 = Long_val (Field m v2 1)
           in Some (if oid1 \<noteq> oid2 then Return (oid1 - oid2) else Next_item st))
        else if t1 = Custom_tag then compare_customs cust m tot v1 v2 st
        else Some (compare_structured alloc_ok m v1 v2 st))"

definition compare_body :: "(u64 \<Rightarrow> bool) \<Rightarrow> (nat \<Rightarrow> bool) \<Rightarrow> custom_compare \<Rightarrow> store \<Rightarrow> bool \<Rightarrow> u64 \<Rightarrow> u64 \<Rightarrow>
    compare_stack \<Rightarrow> compare_out option" where
  "compare_body area alloc_ok cust m tot v1 v2 st =
    (if v1 = v2 \<and> tot then Some (Next_item st)
     else if Is_long v1 then
       (if v1 = v2 then Some (Next_item st)
        else if Is_long v2 then Some (Return (Long_val v1 - Long_val v2))
        else Some (compare_long_block area cust m tot v1 v2 st))
     else if Is_long v2 then Some (compare_block_long area cust m tot v1 v2 st)
     else if \<not> area v1 \<or> \<not> area v2 then
       Some (if v1 = v2 then Next_item st else Return (signed_drop_bit 1 v1 - signed_drop_bit 1 v2))
     else compare_blocks alloc_ok cust m tot v1 v2 st)"

section \<open>The loop\<close>

text \<open>From the label \<open>next_item\<close>: the next two fields, the item popped with its last ones.\<close>

definition next_item :: "store \<Rightarrow> compare_stack \<Rightarrow> compare_out" where
  "next_item m st =
    (case cs_items st of
       [] \<Rightarrow> Return EQUAL
     | it # its \<Rightarrow>
         (let n = ci_count it - 1;
              it1 = \<lparr>ci_v1 = ci_v1 it + 8, ci_v2 = ci_v2 it + 8, ci_count = n\<rparr>
          in Continue (m (ci_v1 it)) (m (ci_v2 it)) (st\<lparr>cs_items := if n = 0 then its else it1 # its\<rparr>)))"

definition compare_turn :: "(u64 \<Rightarrow> bool) \<Rightarrow> (nat \<Rightarrow> bool) \<Rightarrow> custom_compare \<Rightarrow> store \<Rightarrow> bool \<Rightarrow> u64 \<Rightarrow> u64 \<Rightarrow>
    compare_stack \<Rightarrow> compare_out option" where
  "compare_turn area alloc_ok cust m tot v1 v2 st =
    map_option (\<lambda>out. case out of Next_item st1 \<Rightarrow> next_item m st1 | _ \<Rightarrow> out)
      (compare_body area alloc_ok cust m tot v1 v2 st)"

partial_function (option) do_compare_val :: "(u64 \<Rightarrow> bool) \<Rightarrow> (nat \<Rightarrow> bool) \<Rightarrow> custom_compare \<Rightarrow> store \<Rightarrow> bool \<Rightarrow>
    u64 \<Rightarrow> u64 \<Rightarrow> compare_stack \<Rightarrow> compare_out option" where
  "do_compare_val area alloc_ok cust m tot v1 v2 st =
    (case compare_turn area alloc_ok cust m tot v1 v2 st of
       None \<Rightarrow> None
     | Some out \<Rightarrow> (case out of Continue w1 w2 st1 \<Rightarrow> do_compare_val area alloc_ok cust m tot w1 w2 st1
                    | _ \<Rightarrow> Some out))"

definition compare_val :: "(u64 \<Rightarrow> bool) \<Rightarrow> (nat \<Rightarrow> bool) \<Rightarrow> custom_compare \<Rightarrow> store \<Rightarrow> u64 \<Rightarrow> u64 \<Rightarrow> bool \<Rightarrow>
    compare_out option" where
  "compare_val area alloc_ok cust m v1 v2 tot =
    do_compare_val area alloc_ok cust m tot v1 v2 \<lparr>cs_items = [], cs_size = COMPARE_STACK_INIT_SIZE\<rparr>"

section \<open>The primitives\<close>

definition with_compare :: "bool \<Rightarrow> (u64 \<Rightarrow> u64) \<Rightarrow> rt \<Rightarrow> custom_compare \<Rightarrow> u64 \<Rightarrow> u64 \<Rightarrow> caml_state \<Rightarrow>
    (u64, caml_state) cres" where
  "with_compare tot f rt cust v1 v2 s =
    (case compare_val (Is_in_value_area rt s) (rt_table_alloc_ok rt) cust (mem s) v1 v2 tot of
       Some (Return r) \<Rightarrow> Ret (f r) s
     | Some (Invalid_arg msg) \<Rightarrow> cbind (rt_invalid_argument rt msg s) (\<lambda>_ s. Diverge)
     | Some Stack_overflow \<Rightarrow> cbind (rt_raise_out_of_memory rt s) (\<lambda>_ s. Diverge)
     | _ \<Rightarrow> Diverge)"

definition truth :: "bool \<Rightarrow> u64" where "truth b = Val_int (if b then 1 else 0)"

definition caml_compare :: "rt \<Rightarrow> custom_compare \<Rightarrow> u64 \<Rightarrow> u64 \<Rightarrow> caml_state \<Rightarrow> (u64, caml_state) cres" where
  "caml_compare = with_compare True (\<lambda>res. Val_int (if res <s 0 then - 1 else if 0 <s res then 1 else 0))"

definition caml_equal :: "rt \<Rightarrow> custom_compare \<Rightarrow> u64 \<Rightarrow> u64 \<Rightarrow> caml_state \<Rightarrow> (u64, caml_state) cres" where
  "caml_equal = with_compare False (\<lambda>res. truth (res = 0))"

definition caml_notequal :: "rt \<Rightarrow> custom_compare \<Rightarrow> u64 \<Rightarrow> u64 \<Rightarrow> caml_state \<Rightarrow> (u64, caml_state) cres" where
  "caml_notequal = with_compare False (\<lambda>res. truth (res \<noteq> 0))"

definition caml_lessthan :: "rt \<Rightarrow> custom_compare \<Rightarrow> u64 \<Rightarrow> u64 \<Rightarrow> caml_state \<Rightarrow> (u64, caml_state) cres" where
  "caml_lessthan = with_compare False (\<lambda>res. truth (res <s 0 \<and> res \<noteq> UNORDERED))"

definition caml_lessequal :: "rt \<Rightarrow> custom_compare \<Rightarrow> u64 \<Rightarrow> u64 \<Rightarrow> caml_state \<Rightarrow> (u64, caml_state) cres" where
  "caml_lessequal = with_compare False (\<lambda>res. truth (res \<le>s 0 \<and> res \<noteq> UNORDERED))"

definition caml_greaterthan :: "rt \<Rightarrow> custom_compare \<Rightarrow> u64 \<Rightarrow> u64 \<Rightarrow> caml_state \<Rightarrow> (u64, caml_state) cres" where
  "caml_greaterthan = with_compare False (\<lambda>res. truth (0 <s res))"

definition caml_greaterequal :: "rt \<Rightarrow> custom_compare \<Rightarrow> u64 \<Rightarrow> u64 \<Rightarrow> caml_state \<Rightarrow> (u64, caml_state) cres" where
  "caml_greaterequal = with_compare False (\<lambda>res. truth (0 \<le>s res))"

section \<open>What is compared: finite trees\<close>

text \<open>
  The values that comparison orders without help: integers, strings, doubles, and blocks of
  such values. A tree unfolds a value; sharing in the heap is invisible.
\<close>

datatype tree = TInt int | TStr "u8 list" | TDbl u64 | TBlk u32 "tree list"

definition plain_tag :: "u32 \<Rightarrow> bool" where
  "plain_tag t \<longleftrightarrow> t \<notin> {Forward_tag, String_tag, Double_tag, Double_array_tag, Abstract_tag, Closure_tag,
     Infix_tag, Object_tag, Custom_tag}"

fun repr :: "(u64 \<Rightarrow> bool) \<Rightarrow> store \<Rightarrow> u64 \<Rightarrow> tree \<Rightarrow> bool"
  and fields :: "(u64 \<Rightarrow> bool) \<Rightarrow> store \<Rightarrow> u64 \<Rightarrow> tree list \<Rightarrow> bool" where
  "repr area m v (TInt k) \<longleftrightarrow> Is_long v \<and> ocaml_int v = k"
| "repr area m v (TStr bs) \<longleftrightarrow> \<not> Is_long v \<and> area v \<and> Tag_val m v = String_tag \<and> wf_string m v bs"
| "repr area m v (TDbl d) \<longleftrightarrow> \<not> Is_long v \<and> area v \<and> Tag_val m v = Double_tag \<and> m v = d"
| "repr area m v (TBlk t ts) \<longleftrightarrow> \<not> Is_long v \<and> area v \<and> Tag_val m v = t \<and> plain_tag t \<and>
     Wosize_val m v = of_nat (length ts) \<and> length ts < 2 ^ 54 \<and> fields area m v ts"
| "fields area m p [] \<longleftrightarrow> True"
| "fields area m p (t # ts) \<longleftrightarrow> repr area m (m p) t \<and> fields area m (p + 8) ts"

text \<open>The order on trees, \<open>Unord\<close> for a comparison that meets a NaN.\<close>

datatype order = Lt | Eq | Gt | Unord

definition by_int :: "int \<Rightarrow> int \<Rightarrow> order" where
  "by_int a b = (if a < b then Lt else if a = b then Eq else Gt)"

definition dbl_cmp :: "bool \<Rightarrow> u64 \<Rightarrow> u64 \<Rightarrow> order" where
  "dbl_cmp tot a b =
    (if is_nan a \<or> is_nan b then
       (if \<not> tot then Unord else if \<not> is_nan a then Gt else if \<not> is_nan b then Lt else Eq)
     else by_int (double_key a) (double_key b))"

fun tree_tag :: "tree \<Rightarrow> u32" where
  "tree_tag (TBlk t ts) = t"
| "tree_tag (TStr bs) = String_tag"
| "tree_tag (TDbl d) = Double_tag"
| "tree_tag (TInt k) = 0"

fun tree_cmp :: "bool \<Rightarrow> tree \<Rightarrow> tree \<Rightarrow> order" and trees_cmp :: "bool \<Rightarrow> tree list \<Rightarrow> tree list \<Rightarrow> order" where
  "tree_cmp tot (TInt a) (TInt b) = by_int a b"
| "tree_cmp tot (TInt a) t = Lt"
| "tree_cmp tot t (TInt b) = Gt"
| "tree_cmp tot (TStr a) (TStr b) = (if ord_class.lexordp a b then Lt else if ord_class.lexordp b a then Gt else Eq)"
| "tree_cmp tot (TDbl a) (TDbl b) = dbl_cmp tot a b"
| "tree_cmp tot (TBlk t xs) (TBlk u ys) =
    (if t \<noteq> u then by_int (uint t) (uint u)
     else if length xs \<noteq> length ys then by_int (int (length xs)) (int (length ys))
     else trees_cmp tot xs ys)"
| "tree_cmp tot t u = by_int (uint (tree_tag t)) (uint (tree_tag u))"
| "trees_cmp tot (x # xs) (y # ys) = (case tree_cmp tot x y of Eq \<Rightarrow> trees_cmp tot xs ys | r \<Rightarrow> r)"
| "trees_cmp tot xs ys = Eq"

fun depth :: "tree \<Rightarrow> nat" where
  "depth (TBlk t ts) = Suc (foldr max (map depth ts) 0)"
| "depth t = 1"

text \<open>The result of the code as an order.\<close>

definition denotes :: "u64 \<Rightarrow> order \<Rightarrow> bool" where
  "denotes r ord = (case ord of Lt \<Rightarrow> sint r < 0 \<and> r \<noteq> UNORDERED | Eq \<Rightarrow> r = 0 | Gt \<Rightarrow> 0 < sint r | Unord \<Rightarrow> r = UNORDERED)"

section \<open>Reflexivity\<close>

lemma by_int_Eq [simp]: "by_int a b = Eq \<longleftrightarrow> a = b"
  by (simp add: by_int_def)

lemma lexordp_irrefl_u8 [simp]: "\<not> ord_class.lexordp xs (xs :: u8 list)"
  by (induction xs) auto

lemma trees_cmp_refl: "\<forall>t\<in>set ts. tree_cmp True t t = Eq \<Longrightarrow> trees_cmp True ts ts = Eq"
  by (induction ts) auto

lemma tree_cmp_refl: "tree_cmp True t t = Eq"
  by (induction t) (simp_all add: dbl_cmp_def trees_cmp_refl)

lemma wf_string_unique: "wf_string m v b1 \<Longrightarrow> wf_string m v b2 \<Longrightarrow> b1 = b2"
proof -
  assume w: "wf_string m v b1" "wf_string m v b2"
  note d1 = wf_stringD [OF w(1)] and d2 = wf_stringD [OF w(2)]
  have "8 * unat (Wosize_val m v) - 1 - length b1 < 8" "8 * unat (Wosize_val m v) - 1 - length b2 < 8"
    using d1(3) d2(3) by linarith+
  then show ?thesis using padding_inject d1(5) d2(5) by metis
qed

lemma unat_of_nat54: "n < 2 ^ 54 \<Longrightarrow> unat (of_nat n :: u64) = n"
  by (rule of_nat_inverse [OF refl]) (simp add: less_le_trans)

lemma of_nat_inject54: "i < 2 ^ 54 \<Longrightarrow> j < 2 ^ 54 \<Longrightarrow> (of_nat i :: u64) = of_nat j \<Longrightarrow> i = j"
  by (metis unat_of_nat54)

lemma repr_unique: "repr area m v t \<Longrightarrow> repr area m v u \<Longrightarrow> t = u"
  and fields_unique: "fields area m p ts \<Longrightarrow> fields area m p us \<Longrightarrow> length ts = length us \<Longrightarrow> ts = us"
proof (induction area m v t and area m p ts arbitrary: u and us rule: repr_fields.induct)
  case (1 area m v k)
  then show ?case by (cases u) auto
next
  case (2 area m v bs)
  then show ?case
    by (cases u) (auto simp: String_tag_def Double_tag_def plain_tag_def intro: wf_string_unique)
next
  case (3 area m v d)
  then show ?case by (cases u) (auto simp: String_tag_def Double_tag_def plain_tag_def)
next
  case (4 area m v t ts)
  then obtain us where u: "u = TBlk t us" "fields area m v us" "length us < 2 ^ 54" "Wosize_val m v = of_nat (length us)"
    by (cases u) (auto simp: plain_tag_def)
  have "Wosize_val m v = of_nat (length ts)" "length ts < 2 ^ 54" using 4(2) by simp_all
  with u(3,4) have "length ts = length us" using of_nat_inject54 by metis
  then show ?case using 4 u by simp
next
  case (6 area m p t ts)
  then show ?case by (cases us) auto
qed auto
section \<open>Differences as orders\<close>

lemma UNORDERED_sint: "sint UNORDERED = - (2 ^ 63)"
  by (simp add: UNORDERED_def) 

lemma denotes_diff:
  assumes "- (2 ^ 62) \<le> sint a" "sint a < 2 ^ 62" "- (2 ^ 62) \<le> sint b" "sint b < 2 ^ 62"
  shows "denotes (a - b) (by_int (sint a) (sint b))"
proof -
  have "sint (a - b) = signed_take_bit 63 (sint a - sint b)"
    by (simp only: sint_word_of_int64 [symmetric]) simp
  also have "\<dots> = sint a - sint b"
    using assms by (intro signed_take_bit_int_eq_self) simp_all
  finally have d: "sint (a - b) = sint a - sint b" .
  then have u: "a - b \<noteq> UNORDERED" using assms UNORDERED_sint by auto
  show ?thesis
  proof (cases "sint a = sint b")
    case True
    then have "a = b" by (rule sint_eqD)
    then show ?thesis by (simp add: denotes_def by_int_def)
  next
    case False
    then show ?thesis using d u by (auto simp: denotes_def by_int_def)
  qed
qed

lemma denotes_nat_diff:
  fixes a b :: u64
  assumes "unat a < 2 ^ 62" "unat b < 2 ^ 62"
  shows "denotes (a - b) (by_int (int (unat a)) (int (unat b)))"
proof -
  have s: "sint c = int (unat c)" if "unat c < 2 ^ 62" for c :: u64
  proof -
    have "sint (word_of_int (int n) :: u64) = int n" if "n < 2 ^ 62" for n
      using that by (intro sint_of_small) auto
    from this [OF that] show ?thesis by simp
  qed
  have b: "- (2 ^ 62) \<le> int n \<and> int n < 2 ^ 62" if "n < 2 ^ 62" for n :: nat using that by auto
  show ?thesis
    using denotes_diff [of a b] b [OF assms(1)] b [OF assms(2)] unfolding s [OF assms(1)] s [OF assms(2)] by blast
qed

lemma denotes_consts: "denotes LESS Lt" "denotes GREATER Gt" "denotes UNORDERED Unord" "denotes EQUAL Eq"
  by (simp_all add: denotes_def LESS_def GREATER_def EQUAL_def UNORDERED_def)

lemma compare_doubles_cmp:
  "case compare_doubles tot a b of Some r \<Rightarrow> denotes r (dbl_cmp tot a b) \<and> dbl_cmp tot a b \<noteq> Eq | None \<Rightarrow> dbl_cmp tot a b = Eq"
  by (auto simp: compare_doubles_def dbl_cmp_def double_lt_def double_eq_def by_int_def denotes_consts)

lemma string_length_bound:
  assumes "wf_string m v bs"
  shows "length bs < 2 ^ 62"
proof -
  have "unat (Wosize_val m v) = unat (Hd_val m v) div 2 ^ 10"
    by (simp only: Wosize_val_def Wosize_hd_def unsigned_drop_bit_eq)
       (simp add: drop_bit_eq_div take_bit_nat_eq_self unat_range64 [simplified])
  then show ?thesis using wf_stringD(2) [OF assms] unat_range64 [of "Hd_val m v"] by simp
qed

lemma compare_strings_cmp:
  assumes "wf_string m v1 b1" "wf_string m v2 b2"
  shows "case compare_strings m v1 v2 st of
      Return r \<Rightarrow> denotes r (tree_cmp tot (TStr b1) (TStr b2)) \<and> tree_cmp tot (TStr b1) (TStr b2) \<noteq> Eq
    | Next_item st' \<Rightarrow> st' = st \<and> tree_cmp tot (TStr b1) (TStr b2) = Eq
    | _ \<Rightarrow> False"
proof (cases "v1 = v2")
  case True
  then have "b1 = b2" using wf_string_unique assms by blast
  then show ?thesis using True by (simp add: compare_strings_def)
next
  case False
  note r1 = wf_string_read [OF assms(1)] and r2 = wf_string_read [OF assms(2)]
  let ?n = "min (length b1) (length b2)"
  have n: "unat (if caml_string_length m v1 \<le> caml_string_length m v2 then caml_string_length m v1
      else caml_string_length m v2) = ?n"
    by (simp add: word_le_nat_alt r1 r2)
  have "load_bytes m v1 ?n = take ?n b1" "load_bytes m v2 ?n = take ?n b2"
    using load_bytes_take [of ?n "length b1" m v1] load_bytes_take [of ?n "length b2" m v2] r1(1,2) r2(1,2)
    by (simp_all add: string_bytes_def)
  then have mc: "memcmp (load_bytes m v1 ?n) (load_bytes m v2 ?n) = memcmp b1 b2"
    using memcmp_take by simp
  have len: "caml_string_length m v1 = caml_string_length m v2 \<longleftrightarrow> length b1 = length b2"
    using r1(1) r2(1) by (metis unsigned_word_eqI)
  have diff: "denotes (caml_string_length m v1 - caml_string_length m v2) (by_int (int (length b1)) (int (length b2)))"
    using denotes_nat_diff [of "caml_string_length m v1" "caml_string_length m v2"]
      string_length_bound [OF assms(1)] string_length_bound [OF assms(2)] r1(1) r2(1) by simp
  show ?thesis
    using False memcmp_lex [of b1 b2] diff
    by (auto simp: compare_strings_def Let_def n mc len by_int_def denotes_consts)
qed
section \<open>The stack\<close>

definition cap_ok :: "compare_stack \<Rightarrow> bool" where
  "cap_ok st \<longleftrightarrow> length (cs_items st) < cs_size st \<and> (cs_size st = 8 \<or> 32 \<le> cs_size st)"

text \<open>How many items the stack can hold before \<open>compare_stack_overflow\<close>.\<close>

definition max_depth :: nat where "max_depth = 524288"

lemma push_ok:
  assumes "cap_ok st" "length (cs_items st) + 1 < max_depth" "\<forall>n. alloc_ok n"
  shows "\<exists>st'. push_item alloc_ok it st = Some st' \<and> cs_items st' = it # cs_items st \<and> cap_ok st'"
  using assms
  by (auto simp: push_item_def compare_resize_stack_def cap_ok_def max_depth_def COMPARE_STACK_INIT_SIZE_def
      COMPARE_STACK_MIN_ALLOC_SIZE_def COMPARE_STACK_MAX_SIZE_def Let_def)

section \<open>The body of the loop\<close>

text \<open>One turn on two trees: an order found, equal, or on to the first fields of two blocks.\<close>

definition body_result :: "bool \<Rightarrow> store \<Rightarrow> tree \<Rightarrow> tree \<Rightarrow> u64 \<Rightarrow> u64 \<Rightarrow> compare_stack \<Rightarrow> compare_out option \<Rightarrow> bool" where
  "body_result tot m t1 t2 v1 v2 st out \<longleftrightarrow>
     out = Some (Next_item st) \<and> tree_cmp tot t1 t2 = Eq \<or>
     (\<exists>r. out = Some (Return r) \<and> denotes r (tree_cmp tot t1 t2) \<and> tree_cmp tot t1 t2 \<noteq> Eq) \<or>
     (\<exists>t x xs y ys st'. t1 = TBlk t (x # xs) \<and> t2 = TBlk t (y # ys) \<and> length xs = length ys \<and>
        out = Some (Continue (m v1) (m v2) st') \<and> cap_ok st' \<and>
        cs_items st' = (if xs = [] then cs_items st
          else \<lparr>ci_v1 = v1 + 8, ci_v2 = v2 + 8, ci_count = of_nat (length xs)\<rparr> # cs_items st))"

lemma different_tags:
  "t \<noteq> u \<Longrightarrow> denotes (ucast t - ucast u) (by_int (uint t) (uint u)) \<and> by_int (uint t) (uint u) \<noteq> Eq" for t u :: u32
proof -
  assume ne: "t \<noteq> u"
  have "unat (ucast x :: u64) = unat x" for x :: u32 
    by (simp add: unsigned_ucast_eq take_bit_nat_eq_self_iff less_trans [OF unsigned_less [of x, where ?'a = nat]])
  moreover have "unat x < 2 ^ 62" for x :: u32 using unsigned_less [of x, where ?'a = nat] by simp
  ultimately have "denotes (ucast t - ucast u) (by_int (uint t) (uint u))"
    using denotes_nat_diff [of "ucast t" "ucast u"] by simp
  then show ?thesis using ne unsigned_word_eqI [of t u, where ?'a = int] by auto
qed

lemma structured_result:
  assumes r: "repr area m v1 (TBlk t xs)" "repr area m v2 (TBlk t ys)"
    and st: "cap_ok st" "length (cs_items st) + 1 < max_depth" "\<forall>n. alloc_ok n"
  shows "body_result tot m (TBlk t xs) (TBlk t ys) v1 v2 st (Some (compare_structured alloc_ok m v1 v2 st))"
proof -
  have w: "Wosize_val m v1 = of_nat (length xs)" "Wosize_val m v2 = of_nat (length ys)"
    "unat (Wosize_val m v1) = length xs" "unat (Wosize_val m v2) = length ys"
    using r unat_of_nat54 [of "length xs"] unat_of_nat54 [of "length ys"] by simp_all
  have bound: "length xs < 2 ^ 62" "length ys < 2 ^ 62" using r by simp_all
  show ?thesis
  proof (cases "length xs = length ys")
    case False
    then have "Wosize_val m v1 \<noteq> Wosize_val m v2" using w(3,4) by metis
    moreover have "denotes (Wosize_val m v1 - Wosize_val m v2) (by_int (int (length xs)) (int (length ys)))"
      using denotes_nat_diff [of "Wosize_val m v1" "Wosize_val m v2"] bound w(3,4) by simp
    ultimately show ?thesis using False
      by (simp add: body_result_def compare_structured_def Let_def)
  next
    case same: True
    show ?thesis
    proof (cases xs)
      case Nil
      then show ?thesis using same w by (simp add: body_result_def compare_structured_def Let_def)
    next
      case (Cons x xs')
      then obtain y ys' where ys: "ys = y # ys'" using same by (cases ys) auto
      have ne: "Wosize_val m v1 \<noteq> 0" using w(3) Cons by auto
      have one: "1 < Wosize_val m v1 \<longleftrightarrow> xs' \<noteq> []"
        using w(3) Cons by (auto simp: word_less_nat_alt)
      have cnt: "Wosize_val m v1 - 1 = of_nat (length xs')" using w(1) Cons by simp
      obtain st' where st': "push_item alloc_ok \<lparr>ci_v1 = v1 + 8, ci_v2 = v2 + 8, ci_count = of_nat (length xs')\<rparr> st = Some st'"
        "cs_items st' = \<lparr>ci_v1 = v1 + 8, ci_v2 = v2 + 8, ci_count = of_nat (length xs')\<rparr> # cs_items st" "cap_ok st'"
        using push_ok [OF st] by blast
      have eq: "Wosize_val m v1 = Wosize_val m v2" using w(1,2) same by simp
      have "compare_structured alloc_ok m v1 v2 st = Continue (m v1) (m v2) (if xs' = [] then st else st')"
        using ne one st'(1) unfolding compare_structured_def Let_def eq [symmetric] cnt by (simp add: Field_def)
      then show ?thesis
        using Cons ys same st' st(1) by (auto simp: body_result_def)
    qed
  qed
qed

definition is_int :: "tree \<Rightarrow> bool" where "is_int t = (case t of TInt k \<Rightarrow> True | _ \<Rightarrow> False)"

lemma repr_int: "repr area m v t \<Longrightarrow> is_int t = Is_long v"
  by (cases t) (auto simp: is_int_def)

lemma repr_block:
  "repr area m v t \<Longrightarrow> \<not> is_int t \<Longrightarrow> area v \<and> Tag_val m v = tree_tag t \<and>
     (plain_tag (tree_tag t) \<or> tree_tag t = String_tag \<or> tree_tag t = Double_tag)"
  by (cases t) (auto simp: is_int_def)

lemmas tag_values = tag_numbers Closure_tag_def plain_tag_def

lemma tree_cmp_tags:
  "\<not> is_int t \<Longrightarrow> \<not> is_int u \<Longrightarrow> tree_tag t \<noteq> tree_tag u \<Longrightarrow>
   tree_cmp tot t u = by_int (uint (tree_tag t)) (uint (tree_tag u))"
  by (cases t; cases u) (auto simp: is_int_def)

lemma blocks_result:
  assumes r: "repr area m v1 t1" "repr area m v2 t2" and ni: "\<not> is_int t1" "\<not> is_int t2"
    and st: "cap_ok st" "length (cs_items st) + 1 < max_depth" "\<forall>n. alloc_ok n"
  shows "body_result tot m t1 t2 v1 v2 st (compare_blocks alloc_ok cust m tot v1 v2 st)"
proof -
  note b = repr_block [OF r(1) ni(1)] repr_block [OF r(2) ni(2)]
  have nf: "tree_tag t1 \<noteq> Forward_tag" "tree_tag t2 \<noteq> Forward_tag" using b by (auto simp: tag_values)
  show ?thesis
  proof (cases "tree_tag t1 = tree_tag t2")
    case False
    then have "compare_blocks alloc_ok cust m tot v1 v2 st = Some (Return (ucast (tree_tag t1) - ucast (tree_tag t2)))"
      using b nf by (simp add: compare_blocks_def Let_def)
    then show ?thesis
      using different_tags [OF False] tree_cmp_tags [OF ni False] by (simp add: body_result_def)
  next
    case same: True
    show ?thesis
    proof (cases t1)
      case (TStr b1)
      then obtain b2 where t2: "t2 = TStr b2" using same r(2) ni(2) b by (cases t2) (auto simp: tag_values is_int_def)
      have "compare_blocks alloc_ok cust m tot v1 v2 st = Some (compare_strings m v1 v2 st)"
        using b TStr t2 by (simp add: compare_blocks_def Let_def tag_values)
      moreover have "case compare_strings m v1 v2 st of
          Return r \<Rightarrow> denotes r (tree_cmp tot (TStr b1) (TStr b2)) \<and> tree_cmp tot (TStr b1) (TStr b2) \<noteq> Eq
        | Next_item st' \<Rightarrow> st' = st \<and> tree_cmp tot (TStr b1) (TStr b2) = Eq | _ \<Rightarrow> False"
        using r TStr t2 by (intro compare_strings_cmp) simp_all
      ultimately show ?thesis using TStr t2 by (auto simp: body_result_def simp del: tree_cmp.simps split: compare_out.splits)
    next
      case (TDbl d1)
      then obtain d2 where t2: "t2 = TDbl d2" using same r(2) ni(2) b by (cases t2) (auto simp: tag_values is_int_def)
      have "compare_blocks alloc_ok cust m tot v1 v2 st =
          Some (case compare_doubles tot d1 d2 of Some r \<Rightarrow> Return r | None \<Rightarrow> Next_item st)"
        using b TDbl t2 r by (simp add: compare_blocks_def Let_def tag_values)
      then show ?thesis
        using TDbl t2 compare_doubles_cmp [of tot d1 d2] by (auto simp: body_result_def split: option.splits)
    next
      case (TBlk t xs)
      then obtain ys where t2: "t2 = TBlk t ys" using same r ni(2) by (cases t2) (auto simp: tag_values is_int_def)
      have "plain_tag t" using r(1) TBlk by simp
      then have "compare_blocks alloc_ok cust m tot v1 v2 st = Some (compare_structured alloc_ok m v1 v2 st)"
        using b TBlk t2 by (simp add: compare_blocks_def Let_def plain_tag_def)
      then show ?thesis using structured_result [of area m v1 t xs v2 ys st alloc_ok tot] r st TBlk t2 by simp
    qed (use ni in \<open>simp add: is_int_def\<close>)
  qed
qed

lemma body_ok:
  assumes r: "repr area m v1 t1" "repr area m v2 t2"
    and st: "cap_ok st" "length (cs_items st) + 1 < max_depth" "\<forall>n. alloc_ok n"
  shows "body_result tot m t1 t2 v1 v2 st (compare_body area alloc_ok cust m tot v1 v2 st)"
proof -
  note i = repr_int [OF r(1)] repr_int [OF r(2)]
  consider (same) "v1 = v2 \<and> (tot \<or> Is_long v1)" | (ints) "v1 \<noteq> v2" "is_int t1" "is_int t2"
    | (left) "v1 \<noteq> v2" "is_int t1" "\<not> is_int t2" | (right) "v1 \<noteq> v2" "\<not> is_int t1" "is_int t2"
    | (blocks) "\<not> (v1 = v2 \<and> tot)" "\<not> is_int t1" "\<not> is_int t2"
    using i by blast
  then show ?thesis
  proof cases
    case same
    then have "t1 = t2" using r repr_unique by blast
    moreover have "tree_cmp tot t1 t1 = Eq" using same tree_cmp_refl [of t1] i by (cases t1) (auto simp: is_int_def)
    moreover have "compare_body area alloc_ok cust m tot v1 v2 st = Some (Next_item st)"
      using same by (auto simp: compare_body_def)
    ultimately show ?thesis by (simp add: body_result_def)
  next
    case ints
    then obtain a b where t: "t1 = TInt a" "t2 = TInt b" by (cases t1; cases t2) (auto simp: is_int_def)
    then have "denotes (Long_val v1 - Long_val v2) (by_int a b)"
      using r denotes_diff [of "Long_val v1" "Long_val v2"] ocaml_int_range [of v1] ocaml_int_range [of v2]
      by (auto simp: ocaml_int_def)
    moreover have "a \<noteq> b" using r t ints(1) ocaml_int_inject [of v1 v2] by auto
    ultimately show ?thesis using ints i t by (simp add: body_result_def compare_body_def)
  next
    case left
    then have "tree_cmp tot t1 t2 = Lt" by (cases t1; cases t2) (auto simp: is_int_def)
    moreover have "compare_body area alloc_ok cust m tot v1 v2 st = Some (Return LESS)"
      using left i repr_block [OF r(2) left(3)] by (auto simp: compare_body_def compare_long_block_def tag_values)
    ultimately show ?thesis by (simp add: body_result_def denotes_consts)
  next
    case right
    then have "tree_cmp tot t1 t2 = Gt" by (cases t1; cases t2) (auto simp: is_int_def)
    moreover have "compare_body area alloc_ok cust m tot v1 v2 st = Some (Return GREATER)"
      using right i repr_block [OF r(1) right(2)] by (auto simp: compare_body_def compare_block_long_def tag_values)
    ultimately show ?thesis by (simp add: body_result_def denotes_consts)
  next
    case blocks
    then have "compare_body area alloc_ok cust m tot v1 v2 st = compare_blocks alloc_ok cust m tot v1 v2 st"
      using i repr_block [OF r(1) blocks(2)] repr_block [OF r(2) blocks(3)] by (auto simp: compare_body_def)
    then show ?thesis using blocks_result [OF r blocks(2,3) st] by simp
  qed
qed
section \<open>The loop\<close>

text \<open>
  The items of the stack stand for lists of trees still to compare; a tree in an item is not
  so deep that its own items would not fit.
\<close>

fun items_ok :: "(u64 \<Rightarrow> bool) \<Rightarrow> store \<Rightarrow> compare_item list \<Rightarrow> (tree list \<times> tree list) list \<Rightarrow> bool" where
  "items_ok area m [] [] \<longleftrightarrow> True"
| "items_ok area m (it # its) ((xs, ys) # ps) \<longleftrightarrow>
     xs \<noteq> [] \<and> length xs = length ys \<and> length xs < 2 ^ 54 \<and> ci_count it = of_nat (length xs) \<and>
     fields area m (ci_v1 it) xs \<and> fields area m (ci_v2 it) ys \<and>
     (\<forall>x\<in>set xs. depth x + length its + 1 < max_depth) \<and> items_ok area m its ps"
| "items_ok area m its ps \<longleftrightarrow> False"

fun pending :: "bool \<Rightarrow> (tree list \<times> tree list) list \<Rightarrow> order" where
  "pending tot [] = Eq"
| "pending tot ((xs, ys) # ps) = (case trees_cmp tot xs ys of Eq \<Rightarrow> pending tot ps | r \<Rightarrow> r)"

definition then_order :: "order \<Rightarrow> order \<Rightarrow> order" where
  "then_order a b = (case a of Eq \<Rightarrow> b | r \<Rightarrow> r)"

lemma then_order_simps [simp]: "then_order Eq b = b" "a \<noteq> Eq \<Longrightarrow> then_order a b = a"
  "then_order (then_order a b) c = then_order a (then_order b c)"
  by (cases a; simp add: then_order_def)+

lemma trees_cmp_then: "trees_cmp tot (x # xs) (y # ys) = then_order (tree_cmp tot x y) (trees_cmp tot xs ys)"
  by (simp add: then_order_def)

lemma pending_then: "pending tot ((xs, ys) # ps) = then_order (trees_cmp tot xs ys) (pending tot ps)"
  by (simp add: then_order_def)

fun weight :: "tree \<Rightarrow> nat" where
  "weight (TBlk t ts) = Suc (sum_list (map weight ts))"
| "weight t = 1"

definition pending_weight :: "(tree list \<times> tree list) list \<Rightarrow> nat" where
  "pending_weight ps = sum_list (map (\<lambda>(xs, ys). sum_list (map weight xs)) ps)"

lemma weight_pos: "0 < weight t" by (cases t) auto

lemma depth_child: "x \<in> set ts \<Longrightarrow> depth x < depth (TBlk t ts)"
proof -
  have "x \<in> set ts \<Longrightarrow> depth x \<le> foldr max (map depth ts) 0" by (induction ts) auto
  then show "x \<in> set ts \<Longrightarrow> depth x < depth (TBlk t ts)" by simp
qed

lemma depth_pos: "0 < depth t" by (cases t) auto

text \<open>A state of the loop: two values with their trees, and what is still to do.\<close>

definition loop_state :: "(u64 \<Rightarrow> bool) \<Rightarrow> store \<Rightarrow> u64 \<Rightarrow> u64 \<Rightarrow> compare_stack \<Rightarrow> tree \<Rightarrow> tree \<Rightarrow>
    (tree list \<times> tree list) list \<Rightarrow> bool" where
  "loop_state area m v1 v2 st t1 t2 ps \<longleftrightarrow> repr area m v1 t1 \<and> repr area m v2 t2 \<and>
     items_ok area m (cs_items st) ps \<and> cap_ok st \<and> depth t1 + length (cs_items st) < max_depth"

lemma items_ok_Cons:
  assumes "items_ok area m (it # its) ps"
  obtains x xs y ys qs where "ps = (x # xs, y # ys) # qs" "length xs = length ys" "length (x # xs) < 2 ^ 54"
    "ci_count it = of_nat (length (x # xs))" "fields area m (ci_v1 it) (x # xs)" "fields area m (ci_v2 it) (y # ys)"
    "\<forall>z\<in>set (x # xs). depth z + length its + 1 < max_depth" "items_ok area m its qs"
proof -
  obtain us vs qs where ps: "ps = (us, vs) # qs" using assms by (cases ps) auto
  moreover obtain x xs where us: "us = x # xs" using assms ps by (cases us) auto
  moreover obtain y ys where "vs = y # ys" using assms ps us by (cases vs) auto
  ultimately show thesis using assms that by simp
qed

lemma next_item_ok:
  assumes "items_ok area m (cs_items st) ps" "cap_ok st"
  shows "ps = [] \<and> next_item m st = Return EQUAL \<or>
    (\<exists>w1 w2 st' t1 t2 qs. next_item m st = Continue w1 w2 st' \<and> loop_state area m w1 w2 st' t1 t2 qs \<and>
       pending tot ps = then_order (tree_cmp tot t1 t2) (pending tot qs) \<and>
       weight t1 + pending_weight qs = pending_weight ps)"
proof (cases "cs_items st")
  case Nil
  then show ?thesis using assms by (cases ps) (auto simp: next_item_def)
next
  case (Cons it its)
  obtain x xs y ys qs where ps: "ps = (x # xs, y # ys) # qs" and len: "length xs = length ys" "length (x # xs) < 2 ^ 54"
    and it: "ci_count it = of_nat (length (x # xs))" "fields area m (ci_v1 it) (x # xs)" "fields area m (ci_v2 it) (y # ys)"
    and d: "\<forall>z\<in>set (x # xs). depth z + length its + 1 < max_depth" and rest: "items_ok area m its qs"
    by (rule items_ok_Cons [OF assms(1) [unfolded Cons]])
  have cnt: "ci_count it - 1 = of_nat (length xs)" using it(1) by simp
  have z: "(of_nat (length xs) :: u64) = 0 \<longleftrightarrow> xs = []"
    using of_nat_inject54 [of "length xs" 0] len(2) by auto
  let ?it = "\<lparr>ci_v1 = ci_v1 it + 8, ci_v2 = ci_v2 it + 8, ci_count = of_nat (length xs)\<rparr>"
  let ?st = "st\<lparr>cs_items := if xs = [] then its else ?it # its\<rparr>"
  let ?qs = "if xs = [] then qs else (xs, ys) # qs"
  have run: "next_item m st = Continue (m (ci_v1 it)) (m (ci_v2 it)) ?st"
    using Cons by (simp add: next_item_def Let_def cnt z)
  have "items_ok area m (cs_items ?st) ?qs" using len it rest d by auto
  moreover have "cap_ok ?st" using assms(2) Cons by (auto simp: cap_ok_def)
  moreover have "depth x + length (cs_items ?st) < max_depth" using d by auto
  ultimately have "loop_state area m (m (ci_v1 it)) (m (ci_v2 it)) ?st x y ?qs"
    using it by (simp add: loop_state_def)
  moreover have "pending tot ps = then_order (tree_cmp tot x y) (pending tot ?qs)"
    using len(1) by (simp add: ps pending_then trees_cmp_then del: pending.simps trees_cmp.simps(1))
  moreover have "weight x + pending_weight ?qs = pending_weight ps"
    by (simp add: ps pending_weight_def)
  ultimately show ?thesis using run by blast
qed

lemma compare_loop:
  assumes "loop_state area m v1 v2 st t1 t2 ps" "\<forall>n. alloc_ok n"
  shows "\<exists>r. do_compare_val area alloc_ok cust m tot v1 v2 st = Some (Return r) \<and>
    denotes r (then_order (tree_cmp tot t1 t2) (pending tot ps))"
  using assms(1)
proof (induction "weight t1 + pending_weight ps" arbitrary: v1 v2 st t1 t2 ps rule: less_induct)
  case less
  let ?body = "compare_body area alloc_ok cust m tot v1 v2 st"
  have s: "repr area m v1 t1" "repr area m v2 t2" "items_ok area m (cs_items st) ps" "cap_ok st"
    "depth t1 + length (cs_items st) < max_depth" using less.prems by (simp_all add: loop_state_def)
  then have "length (cs_items st) + 1 < max_depth" using depth_pos [of t1] by linarith
  then have body: "body_result tot m t1 t2 v1 v2 st ?body" using s assms(2) by (intro body_ok)
  then consider (eq) "?body = Some (Next_item st)" "tree_cmp tot t1 t2 = Eq"
    | (found) r where "?body = Some (Return r)" "denotes r (tree_cmp tot t1 t2)" "tree_cmp tot t1 t2 \<noteq> Eq"
    | (deeper) t x xs y ys st' where "t1 = TBlk t (x # xs)" "t2 = TBlk t (y # ys)" "length xs = length ys"
        "?body = Some (Continue (m v1) (m v2) st')" "cap_ok st'"
        "cs_items st' = (if xs = [] then cs_items st
          else \<lparr>ci_v1 = v1 + 8, ci_v2 = v2 + 8, ci_count = of_nat (length xs)\<rparr> # cs_items st)"
    unfolding body_result_def by blast
  then show ?case
  proof cases
    case eq
    have turn: "compare_turn area alloc_ok cust m tot v1 v2 st = Some (next_item m st)"
      using eq by (cases "next_item m st") (simp_all add: compare_turn_def)
    show ?thesis
      using next_item_ok [OF s(3,4), of tot]
    proof (elim disjE exE conjE)
      assume "ps = []" "next_item m st = Return EQUAL"
      then show ?thesis using turn eq by (subst do_compare_val.simps) (simp add: denotes_consts)
    next
      fix w1 w2 st' u1 u2 qs
      assume h: "next_item m st = Continue w1 w2 st'" "loop_state area m w1 w2 st' u1 u2 qs"
        "pending tot ps = then_order (tree_cmp tot u1 u2) (pending tot qs)" "weight u1 + pending_weight qs = pending_weight ps"
      then have "weight u1 + pending_weight qs < weight t1 + pending_weight ps" using weight_pos [of t1] by linarith
      from less.hyps [OF this h(2)] show ?thesis
        using turn h eq by (subst do_compare_val.simps) simp
    qed
  next
    case (found r)
    then show ?thesis by (subst do_compare_val.simps) (simp add: compare_turn_def)
  next
    case (deeper t x xs y ys st')
    let ?ps = "if xs = [] then ps else (xs, ys) # ps"
    have f: "repr area m (m v1) x" "repr area m (m v2) y" "fields area m (v1 + 8) xs" "fields area m (v2 + 8) ys"
      "length (x # xs) < 2 ^ 54"
      using s(1,2) deeper(1,2) by simp_all
    have dep: "\<forall>z\<in>set (x # xs). depth z + length (cs_items st) + 1 < max_depth"
      using depth_child [of _ "x # xs" t] s(5) deeper(1) by fastforce
    have "items_ok area m (cs_items st') ?ps"
      using f s(3) deeper(3,6) dep by auto
    moreover have "depth x + length (cs_items st') < max_depth" using dep deeper(6) by auto
    ultimately have ls: "loop_state area m (m v1) (m v2) st' x y ?ps"
      using f deeper(5) by (simp add: loop_state_def)
    have "weight x + pending_weight ?ps < weight t1 + pending_weight ps"
      using deeper(1) by (simp add: pending_weight_def)
    from less.hyps [OF this ls]
    obtain r where r: "do_compare_val area alloc_ok cust m tot (m v1) (m v2) st' = Some (Return r)"
      "denotes r (then_order (tree_cmp tot x y) (pending tot ?ps))" by blast
    have "then_order (tree_cmp tot t1 t2) (pending tot ps) = then_order (tree_cmp tot x y) (pending tot ?ps)"
      using deeper(1,2,3) by (simp add: pending_then trees_cmp_then del: pending.simps trees_cmp.simps(1))
    then show ?thesis
      using r deeper(4) by (subst do_compare_val.simps) (simp add: compare_turn_def)
  qed
qed

lemma compare_val_correct:
  assumes "repr area m v1 t1" "repr area m v2 t2" "depth t1 < max_depth" "\<forall>n. alloc_ok n"
  shows "\<exists>r. compare_val area alloc_ok cust m v1 v2 tot = Some (Return r) \<and> denotes r (tree_cmp tot t1 t2)"
proof -
  have "loop_state area m v1 v2 \<lparr>cs_items = [], cs_size = COMPARE_STACK_INIT_SIZE\<rparr> t1 t2 []"
    using assms by (simp add: loop_state_def cap_ok_def COMPARE_STACK_INIT_SIZE_def)
  moreover have "then_order (tree_cmp tot t1 t2) Eq = tree_cmp tot t1 t2"
    by (cases "tree_cmp tot t1 t2 = Eq") simp_all
  ultimately show ?thesis
    using compare_loop [of area m v1 v2 _ t1 t2 "[]" alloc_ok cust tot] assms(4) by (simp add: compare_val_def)
qed

section \<open>The primitives on trees\<close>

lemma denotes_sign:
  "denotes r Lt \<Longrightarrow> r <s 0 \<and> r \<le>s 0 \<and> \<not> 0 <s r \<and> \<not> 0 \<le>s r \<and> r \<noteq> 0 \<and> r \<noteq> UNORDERED"
  "denotes r Eq \<Longrightarrow> \<not> r <s 0 \<and> r \<le>s 0 \<and> \<not> 0 <s r \<and> 0 \<le>s r \<and> r = 0 \<and> r \<noteq> UNORDERED"
  "denotes r Gt \<Longrightarrow> \<not> r <s 0 \<and> \<not> r \<le>s 0 \<and> 0 <s r \<and> 0 \<le>s r \<and> r \<noteq> 0 \<and> r \<noteq> UNORDERED"
  "denotes r Unord \<Longrightarrow> \<not> 0 <s r \<and> \<not> 0 \<le>s r \<and> r \<noteq> 0 \<and> r = UNORDERED"
  by (auto simp: denotes_def word_sless_alt word_sle_eq UNORDERED_def)

lemma UNORDERED_sign [simp]: "UNORDERED \<noteq> 0" "\<not> 0 <s UNORDERED" "\<not> 0 \<le>s UNORDERED"
  by (simp_all add: UNORDERED_def word_sless_alt word_sle_eq)

lemma trees_cmp_total: "\<forall>x\<in>set xs. \<forall>y. tree_cmp True x y \<noteq> Unord \<Longrightarrow> trees_cmp True xs ys \<noteq> Unord"
  by (induction xs arbitrary: ys) (simp, case_tac ys, auto split: order.splits)

lemma tree_cmp_total: "tree_cmp True x y \<noteq> Unord"
proof (induction x arbitrary: y)
  case (TBlk t xs)
  then have "trees_cmp True xs ys \<noteq> Unord" for ys by (intro trees_cmp_total) blast
  then show ?case by (cases y) (simp_all add: by_int_def)
qed (case_tac y; simp add: by_int_def dbl_cmp_def)+


text \<open>Two pairs of 1 and the same NaN: equal for \<open>compare\<close>, not equal for \<open>=\<close>.\<close>

definition nan_store :: store where
  "nan_store = (\<lambda>p. if p = 0x20000 \<or> p = 0x20100 then Make_header 2 0 Caml_white
     else if p = 0x20020 then Make_header 1 253 Caml_white
     else if p = 0x20008 \<or> p = 0x20108 then 3
     else if p = 0x20010 \<or> p = 0x20110 then 0x20028
     else 0x7FF8000000000001)"

definition nan_pairs :: caml_state where
  "nan_pairs = (caml_state.truncate sample_machine)\<lparr>mem := nan_store\<rparr>"


end
