(* ===== verification/Minor_Gc.thy ===== *)
theory Minor_Gc
  imports Arrays
begin

text \<open>
  The minor collection (\<^verbatim>\<open>runtime/minor_gc.c\<close>, with \<open>caml_oldify_local_roots\<close> of
  \<^verbatim>\<open>runtime/roots_byt.c\<close> and \<open>caml_alloc_shr_for_minor_gc\<close> of \<^verbatim>\<open>runtime/memory.c\<close>): the blocks of
  the minor heap that the roots and the reference table reach are copied to the major heap; a
  copied block keeps a null header and the address of its copy in its first field; a copied
  block whose fields are still to be copied is linked in \<open>oldify_todo_list\<close> through the second
  field of the copy. \<open>Minor_Copy\<close> shows what the copy amounts to.
\<close>

section \<open>State\<close>

text \<open>
  The runtime state with the globals of the collector. \<open>fl_globals\<close> is the private state of
  the free-list allocator; doubles are bit patterns.
\<close>

record gc_state = caml_state +
  oldify_todo_list :: u64
  in_minor_collection :: bool
  ephe_ref_table :: "ephe_ref_elt generic_table"
  caml_gc_sweep_hp :: u64
  caml_allocated_words :: u64
  caml_gc_clock :: u64
  stat_minor_words :: u64
  stat_promoted_words :: u64
  stat_minor_collections :: u64
  fl_globals :: "nat \<Rightarrow> u64"

text \<open>
  What the collection calls and does not contain: the free lists, the growth of the heap, the
  finalisers and the statistical profiler, and the addresses of the roots that are neither on
  the stack nor local to C functions. \<open>caml_ephe_none\<close> is the address of \<open>ephe_dummy\<close>.
\<close>

record heap_rt =
  hr_fl_allocate :: "u64 \<Rightarrow> gc_state \<Rightarrow> u64 \<times> gc_state"
  hr_expand_heap :: "u64 \<Rightarrow> gc_state \<Rightarrow> u64 \<times> gc_state"
  hr_fl_add_blocks :: "u64 \<Rightarrow> gc_state \<Rightarrow> gc_state"
  hr_other_roots :: "gc_state \<Rightarrow> u64 list"
  hr_ephe_none :: u64
  hr_begin_hook :: "gc_state \<Rightarrow> gc_state"
  hr_end_hook :: "gc_state \<Rightarrow> gc_state"
  hr_final_update_minor_roots :: "gc_state \<Rightarrow> gc_state"
  hr_memprof_minor_update :: "gc_state \<Rightarrow> gc_state"
  hr_memprof_renew_minor_sample :: "gc_state \<Rightarrow> gc_state"
  hr_final_empty_young :: "gc_state \<Rightarrow> gc_state"
  hr_finalize :: "u64 \<Rightarrow> u64 \<Rightarrow> gc_state \<Rightarrow> gc_state"

text \<open>A run that may not end: \<open>None\<close>. The rest of a run follows its normal end only.\<close>

type_synonym gres = "(unit, gc_state) cres option"

definition obind :: "gres \<Rightarrow> (gc_state \<Rightarrow> gres) \<Rightarrow> gres" where
  "obind r f = Option.bind r (\<lambda>r. case r of Ret u s \<Rightarrow> f s | Longjmp s \<Rightarrow> Some (Longjmp s)
     | Fatal e \<Rightarrow> Some (Fatal e) | Diverge \<Rightarrow> Some Diverge)"

lemma obind_simps [simp]:
  "obind (Some (Ret u s)) f = f s" "obind (Some (Longjmp s)) f = Some (Longjmp s)"
  "obind (Some (Fatal e)) f = Some (Fatal e)" "obind (Some Diverge) f = Some Diverge" "obind None f = None"
  by (simp_all add: obind_def)

lemma obind_mono [partial_function_mono]:
  assumes "mono_option B" "\<And>s. mono_option (\<lambda>f. C s f)"
  shows "mono_option (\<lambda>f. obind (B f) (\<lambda>s. C s f))"
  unfolding obind_def
proof (rule bind_mono [OF assms(1)])
  fix r :: "(unit, gc_state) cres"
  show "mono_option (\<lambda>f. case r of Ret u s \<Rightarrow> C s f | Longjmp s \<Rightarrow> Some (Longjmp s)
      | Fatal e \<Rightarrow> Some (Fatal e) | Diverge \<Rightarrow> Some Diverge)"
    by (cases r) (simp_all add: assms(2) option.const_mono)
qed

section \<open>Allocation in the major heap\<close>

definition caml_allocation_color :: "gc_state \<Rightarrow> u64 \<Rightarrow> u64" where
  "caml_allocation_color s hp =
    (if caml_gc_phase s = Phase_mark \<or> caml_gc_phase s = Phase_clean \<or>
        (caml_gc_phase s = Phase_sweep \<and> caml_gc_sweep_hp s \<le> hp)
     then Caml_black else Caml_white)"

definition finish_alloc_shr :: "u64 \<Rightarrow> u32 \<Rightarrow> u64 \<Rightarrow> gc_state \<Rightarrow> (u64, gc_state) cres" where
  "finish_alloc_shr wosize tag hp s =
    (let s1 = store_at hp (Make_header wosize tag (caml_allocation_color s hp)) s;
         s2 = s1\<lparr>caml_allocated_words := caml_allocated_words s1 + Whsize_wosize wosize\<rparr>
     in Ret (Val_hp hp)
          (if minor_heap_wsz s2 < caml_allocated_words s2 then caml_request_major_slice s2 else s2))"

text \<open>\<open>caml_alloc_shr_aux\<close> as the minor collection calls it: no tracking, and out of memory is fatal.\<close>

definition caml_alloc_shr_for_minor_gc :: "rt \<Rightarrow> heap_rt \<Rightarrow> u64 \<Rightarrow> u32 \<Rightarrow> gc_state \<Rightarrow> (u64, gc_state) cres" where
  "caml_alloc_shr_for_minor_gc rt H wosize tag s =
    (if Max_wosize < wosize then cbind (on_cs (rt_raise_out_of_memory rt) s) (\<lambda>_ s. Diverge)
     else
       (case hr_fl_allocate H wosize s of (hp, s1) \<Rightarrow>
          if hp \<noteq> 0 then finish_alloc_shr wosize tag hp s1
          else (case hr_expand_heap H wosize s1 of (chunk, s2) \<Rightarrow>
            if chunk = 0 then
              (if in_minor_collection s2 then Fatal ''out of memory''
               else cbind (on_cs (rt_raise_out_of_memory rt) s2) (\<lambda>_ s. Diverge))
            else (case hr_fl_allocate H wosize (hr_fl_add_blocks H chunk s2) of (hp, s3) \<Rightarrow>
              finish_alloc_shr wosize tag hp s3))))"

section \<open>Copying one value\<close>

definition copy_fields :: "nat \<Rightarrow> u64 \<Rightarrow> u64 \<Rightarrow> gc_state \<Rightarrow> gc_state" where
  "copy_fields n dst src s = fold (\<lambda>i s. store_at (waddr dst i) (mem s (waddr src i)) s) [0..<n] s"

definition Lazy_tag :: u32 where "Lazy_tag = 246"

text \<open>Whether a \<open>Forward_tag\<close> block on \<open>f\<close> is copied rather than short-circuited.\<close>

definition keep_forward :: "rt \<Rightarrow> gc_state \<Rightarrow> u64 \<Rightarrow> bool" where
  "keep_forward rt s f =
    (let vv = (if Is_block f then (if Is_young s f then True else Is_in_value_area rt (caml_state.truncate s) f) else True);
         ft = (if Is_block f then
                 (if Is_young s f then Tag_val (mem s) (if Hd_val (mem s) f = 0 then Field (mem s) f 0 else f)
                  else if vv then Tag_val (mem s) f else 0)
               else 0)
     in \<not> vv \<or> ft = Forward_tag \<or> ft = Lazy_tag \<or> ft = Double_tag)"

partial_function (option) caml_oldify_one :: "rt \<Rightarrow> heap_rt \<Rightarrow> u64 \<Rightarrow> u64 \<Rightarrow> gc_state \<Rightarrow> gres" where
  "caml_oldify_one rt H v p s =
    (if Is_block v \<and> Is_young s v then
       (let hd = Hd_val (mem s) v; tag = Tag_hd hd; sz = Wosize_hd hd
        in if hd = 0 then Some (Ret () (store_at p (Field (mem s) v 0) s))
           else if tag < Infix_tag then
             (case caml_alloc_shr_for_minor_gc rt H sz tag s of
                Ret result s1 \<Rightarrow>
                  (let s2 = store_at p result s1;
                       field0 = Field (mem s2) v 0;
                       s3 = store_at v result (store_at (v - 8) 0 s2)
                   in if 1 < sz then
                        (let s4 = store_at result field0 s3;
                             s5 = store_at (result + 8) (oldify_todo_list s4) s4
                         in Some (Ret () (s5\<lparr>oldify_todo_list := v\<rparr>)))
                      else caml_oldify_one rt H field0 result s3)
              | Longjmp s1 \<Rightarrow> Some (Longjmp s1) | Fatal e \<Rightarrow> Some (Fatal e) | Diverge \<Rightarrow> Some Diverge)
           else if No_scan_tag \<le> tag then
             (case caml_alloc_shr_for_minor_gc rt H sz tag s of
                Ret result s1 \<Rightarrow>
                  Some (Ret () (store_at p result (store_at v result (store_at (v - 8) 0
                    (copy_fields (unat sz) result v s1)))))
              | Longjmp s1 \<Rightarrow> Some (Longjmp s1) | Fatal e \<Rightarrow> Some (Fatal e) | Diverge \<Rightarrow> Some Diverge)
           else if tag = Infix_tag then
             obind (caml_oldify_one rt H (v - Infix_offset_hd hd) p s)
               (\<lambda>s1. Some (Ret () (store_at p (mem s1 p + Infix_offset_hd hd) s1)))
           else
             (let f = Field (mem s) v 0
              in if keep_forward rt s f then
                   (case caml_alloc_shr_for_minor_gc rt H 1 Forward_tag s of
                      Ret result s1 \<Rightarrow>
                        caml_oldify_one rt H f result (store_at v result (store_at (v - 8) 0 (store_at p result s1)))
                    | Longjmp s1 \<Rightarrow> Some (Longjmp s1) | Fatal e \<Rightarrow> Some (Fatal e) | Diverge \<Rightarrow> Some Diverge)
                 else caml_oldify_one rt H f p s))
     else Some (Ret () (store_at p v s)))"

section \<open>The fields of the copies\<close>

definition oldify_field :: "rt \<Rightarrow> heap_rt \<Rightarrow> u64 \<Rightarrow> u64 \<Rightarrow> gc_state \<Rightarrow> gres" where
  "oldify_field rt H f p s =
    (if Is_block f \<and> Is_young s f then caml_oldify_one rt H f p s else Some (Ret () (store_at p f s)))"

text \<open>From field \<open>i\<close> on, \<open>n\<close> of them; the size is read again from the copy's header each time.\<close>

partial_function (option) oldify_fields :: "rt \<Rightarrow> heap_rt \<Rightarrow> u64 \<Rightarrow> u64 \<Rightarrow> u64 \<Rightarrow> gc_state \<Rightarrow> gres" where
  "oldify_fields rt H v new_v i s =
    (if i < Wosize_val (mem s) new_v
     then obind (oldify_field rt H (Field (mem s) v i) (new_v + 8 * i) s) (\<lambda>s. oldify_fields rt H v new_v (i + 1) s)
     else Some (Ret () s))"

partial_function (option) oldify_todo :: "rt \<Rightarrow> heap_rt \<Rightarrow> gc_state \<Rightarrow> gres" where
  "oldify_todo rt H s =
    (if oldify_todo_list s \<noteq> 0 then
       (let v = oldify_todo_list s;
            new_v = Field (mem s) v 0;
            s1 = s\<lparr>oldify_todo_list := Field (mem s) new_v 1\<rparr>;
            f = Field (mem s1) new_v 0
        in obind (if Is_block f \<and> Is_young s1 f then caml_oldify_one rt H f new_v s1 else Some (Ret () s1))
             (\<lambda>s2. obind (oldify_fields rt H v new_v 1 s2) (\<lambda>s3. oldify_todo rt H s3)))
     else Some (Ret () s))"

section \<open>Ephemerons\<close>

definition young_live_cell :: "heap_rt \<Rightarrow> gc_state \<Rightarrow> u64 \<Rightarrow> bool" where
  "young_live_cell H s x \<longleftrightarrow> x \<noteq> hr_ephe_none H \<and> Is_block x \<and> Is_young s x"

definition ephe_check_alive_data :: "heap_rt \<Rightarrow> gc_state \<Rightarrow> u64 \<Rightarrow> bool" where
  "ephe_check_alive_data H s e \<longleftrightarrow>
    (\<forall>i\<in>set [2..<unat (Wosize_val (mem s) e)].
       \<not> (young_live_cell H s (mem s (waddr e i)) \<and> Hd_val (mem s) (mem s (waddr e i)) \<noteq> 0))"

text \<open>The loop over the ephemerons with data in the minor heap; the flag is \<open>redo\<close>.\<close>

fun oldify_ephes :: "rt \<Rightarrow> heap_rt \<Rightarrow> ephe_ref_elt list \<Rightarrow> bool \<Rightarrow> gc_state \<Rightarrow> (bool, gc_state) cres option" where
  "oldify_ephes rt H [] redo s = Some (Ret redo s)"
| "oldify_ephes rt H (re # res) redo s =
    (let data = ephe re + 8; x = mem s data
     in if offset re = 1 \<and> young_live_cell H s x then
          (if Hd_val (mem s) x = 0 then oldify_ephes rt H res redo (store_at data (Field (mem s) x 0) s)
           else if ephe_check_alive_data H s (ephe re) then
             (case caml_oldify_one rt H x data s of
                Some (Ret _ s1) \<Rightarrow> oldify_ephes rt H res True s1
              | Some (Longjmp s1) \<Rightarrow> Some (Longjmp s1) | Some (Fatal e) \<Rightarrow> Some (Fatal e)
              | Some Diverge \<Rightarrow> Some Diverge | None \<Rightarrow> None)
           else oldify_ephes rt H res redo s)
        else oldify_ephes rt H res redo s)"

partial_function (option) caml_oldify_mopup :: "rt \<Rightarrow> heap_rt \<Rightarrow> gc_state \<Rightarrow> gres" where
  "caml_oldify_mopup rt H s =
    obind (oldify_todo rt H s) (\<lambda>s1.
      (case oldify_ephes rt H (tbl_entries (ephe_ref_table s1)) False s1 of
         None \<Rightarrow> None
       | Some (Ret redo s2) \<Rightarrow> if redo then caml_oldify_mopup rt H s2 else Some (Ret () s2)
       | Some (Longjmp s2) \<Rightarrow> Some (Longjmp s2) | Some (Fatal e) \<Rightarrow> Some (Fatal e) | Some Diverge \<Rightarrow> Some Diverge))"

text \<open>The keys and data of the ephemerons after the copy: forwarded, or erased when dead.\<close>

definition update_ephe :: "heap_rt \<Rightarrow> ephe_ref_elt \<Rightarrow> gc_state \<Rightarrow> gc_state" where
  "update_ephe H re s =
    (if offset re < Wosize_val (mem s) (ephe re) then
       (let key = ephe re + 8 * offset re; x = mem s key
        in if young_live_cell H s x then
             (if Hd_val (mem s) x = 0 then store_at key (Field (mem s) x 0) s
              else store_at (ephe re + 8) (hr_ephe_none H) (store_at key (hr_ephe_none H) s))
           else s)
     else s)"

section \<open>The roots\<close>

fun oldify_cells :: "rt \<Rightarrow> heap_rt \<Rightarrow> u64 list \<Rightarrow> gc_state \<Rightarrow> gres" where
  "oldify_cells rt H [] s = Some (Ret () s)"
| "oldify_cells rt H (p # ps) s = obind (caml_oldify_one rt H (mem s p) p s) (oldify_cells rt H ps)"

partial_function (option) oldify_stack :: "rt \<Rightarrow> heap_rt \<Rightarrow> u64 \<Rightarrow> gc_state \<Rightarrow> gres" where
  "oldify_stack rt H p s =
    (if p < stack_high s then obind (caml_oldify_one rt H (mem s p) p s) (\<lambda>s. oldify_stack rt H (p + 8) s)
     else Some (Ret () s))"

text \<open>A \<open>struct caml__roots_block\<close>: \<open>next\<close>, \<open>ntables\<close>, \<open>nitems\<close>, \<open>tables\<close>.\<close>

definition frame_cells :: "store \<Rightarrow> u64 \<Rightarrow> u64 list" where
  "frame_cells m lr = concat (map (\<lambda>i. map (\<lambda>j. waddr (m (waddr (lr + 24) i)) j)
     [0..<nat (sint (m (lr + 16)))]) [0..<nat (sint (m (lr + 8)))])"

partial_function (option) oldify_frames :: "rt \<Rightarrow> heap_rt \<Rightarrow> u64 \<Rightarrow> gc_state \<Rightarrow> gres" where
  "oldify_frames rt H lr s =
    (if lr \<noteq> 0 then obind (oldify_cells rt H (frame_cells (mem s) lr) s) (\<lambda>s. oldify_frames rt H (mem s lr) s)
     else Some (Ret () s))"

definition caml_oldify_local_roots :: "rt \<Rightarrow> heap_rt \<Rightarrow> gc_state \<Rightarrow> gres" where
  "caml_oldify_local_roots rt H s =
    obind (oldify_stack rt H (extern_sp s) s) (\<lambda>s.
    obind (oldify_frames rt H (local_roots s) s) (\<lambda>s.
    oldify_cells rt H (hr_other_roots H s) s))"

section \<open>The collection\<close>

definition finish_custom :: "rt \<Rightarrow> heap_rt \<Rightarrow> custom_elt \<Rightarrow> gc_state \<Rightarrow> gc_state" where
  "finish_custom rt H elt s =
    (let v = custom_block elt
     in if Hd_val (mem s) v = 0 then upd_cs (caml_adjust_gc_speed rt (custom_mem elt) (custom_max elt)) s
        else (let final_fun = mem s (mem s v + 8) in if final_fun \<noteq> 0 then hr_finalize H final_fun v s else s))"

text \<open>The copying phase: roots, reference table, the rest of the copies.\<close>

definition minor_copy :: "rt \<Rightarrow> heap_rt \<Rightarrow> gc_state \<Rightarrow> gres" where
  "minor_copy rt H s =
    obind (caml_oldify_local_roots rt H s) (\<lambda>s.
    obind (oldify_cells rt H (tbl_entries (ref_table s)) s) (\<lambda>s.
    caml_oldify_mopup rt H s))"

definition minor_finish :: "rt \<Rightarrow> heap_rt \<Rightarrow> u64 \<Rightarrow> gc_state \<Rightarrow> gc_state" where
  "minor_finish rt H prev_alloc_words s =
    (let s1 = hr_memprof_minor_update H (hr_final_update_minor_roots H
                (fold (update_ephe H) (tbl_entries (ephe_ref_table s)) s));
         s2 = fold (finish_custom rt H) (tbl_entries (custom_table s1)) s1;
         used = rt_f_of_u64 rt (signed_drop_bit 3 (young_alloc_end s2 - young_ptr s2));
         s3 = s2\<lparr>stat_minor_words := rt_f_add rt (stat_minor_words s2) used,
                 caml_gc_clock := rt_f_add rt (caml_gc_clock s2) (rt_f_div rt used (rt_f_of_u64 rt (minor_heap_wsz s2))),
                 young_ptr := young_alloc_end s2,
                 ref_table := clear_table (ref_table s2),
                 ephe_ref_table := clear_table (ephe_ref_table s2),
                 custom_table := clear_table (custom_table s2),
                 extra_heap_resources_minor := 0,
                 in_minor_collection := False\<rparr>;
         s4 = hr_final_empty_young H s3;
         s5 = s4\<lparr>stat_promoted_words :=
                    rt_f_add rt (stat_promoted_words s4) (rt_f_of_u64 rt (caml_allocated_words s4 - prev_alloc_words)),
                 stat_minor_collections := stat_minor_collections s4 + 1\<rparr>
     in hr_end_hook H (hr_memprof_renew_minor_sample H s5))"

definition caml_empty_minor_heap :: "rt \<Rightarrow> heap_rt \<Rightarrow> gc_state \<Rightarrow> gres" where
  "caml_empty_minor_heap rt H s =
    (if young_ptr s \<noteq> young_alloc_end s then
       (let s1 = hr_begin_hook H s; prev = caml_allocated_words s1
        in obind (minor_copy rt H (s1\<lparr>in_minor_collection := True\<rparr>)) (\<lambda>s2. Some (Ret () (minor_finish rt H prev s2))))
     else Some (Ret () (hr_final_empty_young H s)))"

end
