(* ===== verification/Minor_Copy.thy ===== *)
theory Minor_Copy
  imports Minor_Gc
begin

text \<open>
  What the copying functions of the minor collection do: an invariant over the store as it was
  when the copy began, kept by every call of \<open>caml_oldify_one\<close>. Where blocks went is read from
  the young heap itself (a null header, then the address of the copy); \<open>new_value\<close> says which
  value must stand for an old one; cells whose contents are not settled yet are named, as are
  the blocks in \<open>oldify_todo_list\<close>.
\<close>

section \<open>The young heap\<close>

text \<open>
  What is known when the copy starts: the store, which addresses are young, which are values
  of the heap, the blocks of the minor heap, the cells outside it that may be overwritten
  (roots, fields in the reference table, ephemerons), and the free memory.
\<close>

record young_heap =
  g_mem :: store
  g_young :: "u64 \<Rightarrow> bool"
  g_area :: "u64 \<Rightarrow> bool"
  g_blocks :: "u64 set"
  g_cells :: "u64 set"
  g_free :: "u64 set"

definition bsize :: "young_heap \<Rightarrow> u64 \<Rightarrow> nat" where
  "bsize G v = unat (Wosize_val (g_mem G) v)"

abbreviation btag :: "young_heap \<Rightarrow> u64 \<Rightarrow> u32" where
  "btag G v \<equiv> Tag_hd (g_mem G (v - 8))"

text \<open>The words of a block of \<open>n\<close> fields, the header first.\<close>

definition block_words :: "u64 \<Rightarrow> nat \<Rightarrow> u64 set" where
  "block_words v n = insert (v - 8) (cells v n)"

abbreviation young_words :: "young_heap \<Rightarrow> u64 set" where
  "young_words G \<equiv> (\<Union>v\<in>g_blocks G. block_words v (bsize G v))"

text \<open>A pointer to the inside of a block of closures.\<close>

definition infix_start :: "young_heap \<Rightarrow> u64 \<Rightarrow> u64" where
  "infix_start G x = x - Infix_offset_val (g_mem G) x"

definition infix_ptr :: "young_heap \<Rightarrow> u64 \<Rightarrow> bool" where
  "infix_ptr G x \<longleftrightarrow> btag G x = Infix_tag \<and> infix_start G x \<in> g_blocks G \<and> btag G (infix_start G x) < Infix_tag \<and>
     (\<exists>k. 2 \<le> k \<and> k < bsize G (infix_start G x) \<and> Infix_offset_val (g_mem G) x = 8 * of_nat k)"

definition young_block :: "young_heap \<Rightarrow> u64 \<Rightarrow> bool" where
  "young_block G x \<longleftrightarrow> Is_block x \<and> g_young G x"

definition good :: "young_heap \<Rightarrow> u64 \<Rightarrow> bool" where
  "good G x \<longleftrightarrow> (young_block G x \<longrightarrow> x \<in> g_blocks G \<or> infix_ptr G x)"

definition wf_block :: "young_heap \<Rightarrow> u64 \<Rightarrow> bool" where
  "wf_block G v \<longleftrightarrow> v \<noteq> 0 \<and> aligned v \<and> g_young G v \<and> 0 < bsize G v \<and> g_mem G (v - 8) \<noteq> 0 \<and> btag G v \<noteq> Infix_tag \<and>
     (btag G v = Forward_tag \<longrightarrow> bsize G v = 1) \<and>
     block_words v (bsize G v) \<inter> (g_cells G \<union> g_free G) = {} \<and>
     (btag G v < No_scan_tag \<longrightarrow> (\<forall>i < bsize G v. good G (g_mem G (waddr v i))))"

text \<open>What the test on a forward block reads outside the minor heap is not overwritten.\<close>

definition forward_ok :: "young_heap \<Rightarrow> u64 \<Rightarrow> bool" where
  "forward_ok G v \<longleftrightarrow> (btag G v = Forward_tag \<and> \<not> young_block G (g_mem G v) \<longrightarrow>
     g_mem G v \<notin> g_free G \<and>
     (Is_block (g_mem G v) \<and> g_area G (g_mem G v) \<longrightarrow> aligned (g_mem G v) \<and> g_mem G v - 8 \<notin> g_cells G \<union> g_free G \<union> young_words G))"

definition wf_heap :: "young_heap \<Rightarrow> bool" where
  "wf_heap G \<longleftrightarrow> (\<forall>v\<in>g_blocks G. wf_block G v \<and> forward_ok G v) \<and>
     (\<forall>v\<in>g_blocks G. \<forall>w\<in>g_blocks G. v \<noteq> w \<longrightarrow> block_words v (bsize G v) \<inter> block_words w (bsize G w) = {}) \<and>
     (\<forall>l\<in>g_cells G. good G (g_mem G l)) \<and> g_cells G \<inter> g_free G = {} \<and> (\<forall>a\<in>g_free G. \<not> g_young G a)"

section \<open>The image of a value\<close>

text \<open>
  Given where blocks were copied, the value that stands for a value after the copy: itself
  when it is not young, the copy, the same place inside the copy, or, when a forward block is
  short-circuited, what stands for its contents.
\<close>

definition new_value0 :: "young_heap \<Rightarrow> (u64 \<rightharpoonup> u64) \<Rightarrow> u64 \<Rightarrow> u64 option" where
  "new_value0 G \<phi> x =
    (if \<not> young_block G x then Some x
     else if btag G x = Infix_tag then map_option (\<lambda>r. r + Infix_offset_val (g_mem G) x) (\<phi> (infix_start G x))
     else \<phi> x)"

definition short_circuit :: "young_heap \<Rightarrow> u64 \<Rightarrow> bool" where
  "short_circuit G v \<longleftrightarrow> btag G v = Forward_tag \<and>
    (let f = g_mem G v
     in Is_block f \<longrightarrow> (g_young G f \<or> g_area G f) \<and> btag G f \<notin> {Forward_tag, Lazy_tag, Double_tag})"

definition new_value :: "young_heap \<Rightarrow> (u64 \<rightharpoonup> u64) \<Rightarrow> u64 \<Rightarrow> u64 option" where
  "new_value G \<phi> x = new_value0 G \<phi> (if young_block G x \<and> short_circuit G x then g_mem G x else x)"

lemma new_value0_mono: "\<phi> \<subseteq>\<^sub>m \<psi> \<Longrightarrow> new_value0 G \<phi> x = Some y \<Longrightarrow> new_value0 G \<psi> x = Some y"
  by (auto simp: new_value0_def map_le_def dom_def split: if_splits)

lemma new_value_mono: "\<phi> \<subseteq>\<^sub>m \<psi> \<Longrightarrow> new_value G \<phi> x = Some y \<Longrightarrow> new_value G \<psi> x = Some y"
  by (auto simp: new_value_def new_value0_mono)

lemma new_value_other [simp]: "\<not> young_block G x \<Longrightarrow> new_value G \<phi> x = Some x"
  by (simp add: new_value_def new_value0_def)

section \<open>The invariant of the copy\<close>

definition copied :: "young_heap \<Rightarrow> gc_state \<Rightarrow> u64 \<rightharpoonup> u64" where
  "copied G s v = (if v \<in> g_blocks G \<and> mem s (v - 8) = 0 then Some (mem s v) else None)"

text \<open>The linked list of blocks still to be scanned.\<close>

fun todo_chain :: "young_heap \<Rightarrow> gc_state \<Rightarrow> u64 \<Rightarrow> u64 list \<Rightarrow> bool" where
  "todo_chain G s x [] \<longleftrightarrow> x = 0"
| "todo_chain G s x (v # vs) \<longleftrightarrow> x = v \<and> v \<in> g_blocks G \<and> btag G v < No_scan_tag \<and> 1 < bsize G v \<and>
     (\<exists>r. copied G s v = Some r \<and> mem s r = g_mem G v \<and> todo_chain G s (mem s (r + 8)) vs)"

text \<open>The fields of copies, those of the blocks of \<open>X\<close> left out.\<close>

definition copy_cells :: "young_heap \<Rightarrow> gc_state \<Rightarrow> u64 set \<Rightarrow> u64 set" where
  "copy_cells G s X = {waddr r i | v r i. copied G s v = Some r \<and> v \<notin> X \<and> i < bsize G v}"

definition same_young :: "rt \<Rightarrow> young_heap \<Rightarrow> gc_state \<Rightarrow> bool" where
  "same_young rt G s \<longleftrightarrow> (\<forall>a. Is_young s a = g_young G a) \<and>
     (\<forall>a. a \<notin> g_free G \<longrightarrow> Is_in_value_area rt (caml_state.truncate s) a = g_area G a) \<and> in_minor_collection s"

definition old_kept :: "young_heap \<Rightarrow> gc_state \<Rightarrow> bool" where
  "old_kept G s \<longleftrightarrow> (\<forall>a. a \<notin> g_cells G \<union> g_free G \<union> young_words G \<longrightarrow> mem s a = g_mem G a)"

definition young_kept :: "young_heap \<Rightarrow> gc_state \<Rightarrow> bool" where
  "young_kept G s \<longleftrightarrow> (\<forall>v\<in>g_blocks G. (copied G s v = None \<longrightarrow> (\<forall>a\<in>block_words v (bsize G v). mem s a = g_mem G a)) \<and>
     (\<forall>i. 0 < i \<and> i < bsize G v \<longrightarrow> mem s (waddr v i) = g_mem G (waddr v i)))"

definition copies_apart :: "((nat \<Rightarrow> u64) \<Rightarrow> u64 set) \<Rightarrow> young_heap \<Rightarrow> gc_state \<Rightarrow> bool" where
  "copies_apart avail G s \<longleftrightarrow> avail (fl_globals s) \<subseteq> g_free G \<and>
     (\<forall>v r. copied G s v = Some r \<longrightarrow> aligned r \<and> block_words r (bsize G v) \<subseteq> g_free G - avail (fl_globals s) \<and>
        Wosize_val (mem s) r = Wosize_val (g_mem G) v \<and> Tag_hd (mem s (r - 8)) = btag G v \<and> \<not> short_circuit G v) \<and>
     (\<forall>v w r q. copied G s v = Some r \<and> copied G s w = Some q \<and> v \<noteq> w \<longrightarrow>
        block_words r (bsize G v) \<inter> block_words q (bsize G w) = {})"

definition copies_filled :: "young_heap \<Rightarrow> gc_state \<Rightarrow> u64 set \<Rightarrow> u64 list \<Rightarrow> bool" where
  "copies_filled G s E T \<longleftrightarrow> (\<forall>v r i. copied G s v = Some r \<and> i < bsize G v \<and> v \<notin> set T \<and> waddr r i \<notin> E \<longrightarrow>
     (if btag G v < No_scan_tag then new_value G (copied G s) (g_mem G (waddr v i)) = Some (mem s (waddr r i))
      else mem s (waddr r i) = g_mem G (waddr v i)))"

definition cells_filled :: "young_heap \<Rightarrow> gc_state \<Rightarrow> u64 set \<Rightarrow> bool" where
  "cells_filled G s E \<longleftrightarrow> (\<forall>l\<in>g_cells G - E. mem s l = g_mem G l \<or> new_value G (copied G s) (g_mem G l) = Some (mem s l))"

text \<open>\<open>E\<close>: cells whose contents are not settled; \<open>T\<close>: the blocks in the list.\<close>

definition copy_inv :: "rt \<Rightarrow> ((nat \<Rightarrow> u64) \<Rightarrow> u64 set) \<Rightarrow> young_heap \<Rightarrow> gc_state \<Rightarrow> u64 set \<Rightarrow> u64 list \<Rightarrow> bool" where
  "copy_inv rt avail G s E T \<longleftrightarrow> same_young rt G s \<and> old_kept G s \<and> young_kept G s \<and> copies_apart avail G s \<and>
     copies_filled G s E T \<and> cells_filled G s E \<and> distinct T \<and> todo_chain G s (oldify_todo_list s) T \<and>
     E \<subseteq> g_cells G \<union> copy_cells G s (set T)"
section \<open>Sizes and cells\<close>

lemma bsize_less: "bsize G v < 2 ^ 54"
proof -
  have "unat (drop_bit 10 (x :: u64)) < 2 ^ 54" for x
  proof -
    have "unat (drop_bit 10 x) = unat x div 2 ^ 10" unfolding unat_drop_bit_eq by (simp add: drop_bit_eq_div)
    also have "\<dots> < 2 ^ 54" using unat_range64 [of x] by (simp add: less_mult_imp_div_less)
    finally show ?thesis .
  qed
  then show ?thesis by (simp add: bsize_def Wosize_val_def Wosize_hd_def)
qed

lemma waddr_inj_small: "i < bsize G v \<Longrightarrow> j < bsize G w \<Longrightarrow> waddr r i = waddr r j \<longleftrightarrow> i = j"
  using bsize_less [of G v] bsize_less [of G w] by (intro waddr_inj) simp_all

lemma header_not_cell: "i < bsize G v \<Longrightarrow> r - 8 \<noteq> waddr r i"
proof
  assume i: "i < bsize G v" and e: "r - 8 = waddr r i"
  have "waddr (r - 8) (Suc i) = waddr r i" using waddr_Suc [of "r - 8" i] by simp
  with e have "waddr (r - 8) (Suc i) = waddr (r - 8) 0" by simp
  moreover have "Suc i < 2 ^ 61" using i bsize_less [of G v] by simp
  ultimately show False using waddr_inj [of "Suc i" 0 "r - 8"] by simp
qed

lemma block_wordsI [simp]: "r - 8 \<in> block_words r n" "i < n \<Longrightarrow> waddr r i \<in> block_words r n"
  by (simp_all add: block_words_def)

lemma waddr_1: "waddr r 1 = r + 8" "waddr r (Suc 0) = r + 8" by (simp_all add: waddr_def)

section \<open>Consequences of well-formedness\<close>

lemma wf_blockD:
  assumes "wf_heap G" "v \<in> g_blocks G"
  shows "v \<noteq> 0" "aligned v \<and> young_block G v" "0 < bsize G v" "g_mem G (v - 8) \<noteq> 0" "btag G v \<noteq> Infix_tag"
    "btag G v = Forward_tag \<Longrightarrow> bsize G v = 1" "forward_ok G v"
    "block_words v (bsize G v) \<inter> g_cells G = {}" "block_words v (bsize G v) \<inter> g_free G = {}"
    "btag G v < No_scan_tag \<Longrightarrow> i < bsize G v \<Longrightarrow> good G (g_mem G (waddr v i))"
  using assms by (auto simp: wf_heap_def wf_block_def young_block_def aligned_Is_block)

lemma wf_apart: "wf_heap G \<Longrightarrow> v \<in> g_blocks G \<Longrightarrow> w \<in> g_blocks G \<Longrightarrow> v \<noteq> w \<Longrightarrow>
    a \<in> block_words v (bsize G v) \<Longrightarrow> a \<notin> block_words w (bsize G w)"
  unfolding wf_heap_def by blast

lemma wf_cellsD: "wf_heap G \<Longrightarrow> l \<in> g_cells G \<Longrightarrow> good G (g_mem G l)"
  "wf_heap G \<Longrightarrow> l \<in> g_cells G \<Longrightarrow> l \<notin> g_free G" "wf_heap G \<Longrightarrow> a \<in> g_free G \<Longrightarrow> \<not> g_young G a"
  by (auto simp: wf_heap_def)

lemma young_words_apart: "wf_heap G \<Longrightarrow> a \<in> young_words G \<Longrightarrow> a \<notin> g_cells G \<and> a \<notin> g_free G"
  by (auto dest: wf_blockD)

lemma copied_blocks: "copied G s v = Some r \<Longrightarrow> v \<in> g_blocks G"
  by (simp add: copied_def split: if_splits)

section \<open>Changes outside the settled memory\<close>

lemma copy_invD:
  assumes "copy_inv rt avail G s E T"
  shows "same_young rt G s" "old_kept G s" "young_kept G s" "copies_apart avail G s" "copies_filled G s E T"
    "cells_filled G s E" "distinct T" "todo_chain G s (oldify_todo_list s) T"
    "E \<subseteq> g_cells G \<union> copy_cells G s (set T)"
  using assms by (simp_all add: copy_inv_def)

lemma copies_apartD:
  assumes "copies_apart avail G s" "copied G s v = Some r"
  shows "aligned r" "block_words r (bsize G v) \<subseteq> g_free G" "block_words r (bsize G v) \<inter> avail (fl_globals s) = {}"
    "Wosize_val (mem s) r = Wosize_val (g_mem G) v" "Tag_hd (mem s (r - 8)) = btag G v" "\<not> short_circuit G v"
    "copied G s w = Some q \<Longrightarrow> v \<noteq> w \<Longrightarrow> a \<in> block_words r (bsize G v) \<Longrightarrow> a \<notin> block_words q (bsize G w)"
  using assms unfolding copies_apart_def by blast+

lemma copy_cells_free: "copies_apart avail G s \<Longrightarrow> copy_cells G s X \<subseteq> g_free G"
  unfolding copy_cells_def using copies_apartD(2) block_wordsI(2) by blast

text \<open>An unsettled cell is not a header, nor in a block of the list.\<close>

lemma unsettled_not_header:
  assumes "copy_inv rt avail G s E T" "wf_heap G" "copied G s v = Some r"
  shows "r - 8 \<notin> E"
proof
  assume "r - 8 \<in> E"
  moreover have "r - 8 \<in> g_free G" using copies_apartD(2) [OF copy_invD(4) [OF assms(1)] assms(3)] by auto
  ultimately obtain w q i where w: "copied G s w = Some q" "i < bsize G w" "r - 8 = waddr q i"
    using copy_invD(9) [OF assms(1)] wf_cellsD(2) [OF assms(2)] by (auto simp: copy_cells_def)
  show False
  proof (cases "w = v")
    case True
    then show ?thesis using w assms(3) header_not_cell [of i G v r] by simp
  next
    case False
    then show ?thesis
      using copies_apartD(7) [OF copy_invD(4) [OF assms(1)] w(1) assms(3), of "r - 8"] w(2,3) False block_wordsI by metis
  qed
qed

lemma todo_not_unsettled:
  assumes "copy_inv rt avail G s E T" "wf_heap G" "copied G s v = Some r" "v \<in> set T" "i < bsize G v"
  shows "waddr r i \<notin> E"
proof
  assume "waddr r i \<in> E"
  moreover have "waddr r i \<in> g_free G"
    using copies_apartD(2) [OF copy_invD(4) [OF assms(1)] assms(3)] assms(5) block_wordsI(2) by blast
  ultimately obtain w q j where w: "copied G s w = Some q" "j < bsize G w" "waddr r i = waddr q j" "w \<notin> set T"
    using copy_invD(9) [OF assms(1)] wf_cellsD(2) [OF assms(2)] by (auto simp: copy_cells_def)
  then have "w \<noteq> v" using assms(4) by auto
  then show False
    using copies_apartD(7) [OF copy_invD(4) [OF assms(1)] w(1) assms(3), of "waddr r i"] w(2,3) assms(5)
    by (metis block_wordsI(2))
qed

lemma todo_chainD: "todo_chain G s x T \<Longrightarrow> v \<in> set T \<Longrightarrow>
    v \<in> g_blocks G \<and> btag G v < No_scan_tag \<and> 1 < bsize G v \<and> (\<exists>r. copied G s v = Some r)"
  by (induction T arbitrary: x) auto

lemma todo_chain_cong:
  assumes "todo_chain G s x T"
    "\<And>v r. v \<in> set T \<Longrightarrow> copied G s v = Some r \<Longrightarrow> copied G s' v = Some r \<and> mem s' r = mem s r \<and> mem s' (r + 8) = mem s (r + 8)"
  shows "todo_chain G s' x T"
  using assms
proof (induction T arbitrary: x)
  case (Cons v T)
  then obtain r where r: "copied G s v = Some r" "mem s r = g_mem G v" "todo_chain G s (mem s (r + 8)) T" by auto
  have "todo_chain G s' (mem s (r + 8)) T"
    by (rule Cons.IH [OF r(3)]) (rule Cons.prems(2), simp_all)
  then show ?case using Cons.prems(1) Cons.prems(2) [OF _ r(1)] r by simp
qed simp

lemma copy_inv_agree:
  assumes wf: "wf_heap G" and inv: "copy_inv rt avail G s E T"
    and ch: "\<And>a. mem s' a \<noteq> mem s a \<Longrightarrow>
      a \<in> E \<or> a \<in> g_free G \<and> (\<forall>v r. copied G s v = Some r \<longrightarrow> a \<notin> block_words r (bsize G v))"
    and rest: "avail (fl_globals s') \<subseteq> avail (fl_globals s)" "same_young rt G s'" "oldify_todo_list s' = oldify_todo_list s"
  shows "copy_inv rt avail G s' E T \<and> copied G s' = copied G s"
proof -
  note I = copy_invD [OF inv]
  have sub: "E \<subseteq> g_cells G \<union> g_free G" using I(9) copy_cells_free [OF I(4)] by blast
  have yw: "mem s' a = mem s a" if "a \<in> young_words G" for a
    using ch [of a] sub young_words_apart [OF wf that] by blast
  have same: "copied G s' = copied G s"
  proof
    fix v
    show "copied G s' v = copied G s v"
    proof (cases "v \<in> g_blocks G")
      case True
      then have "v - 8 \<in> young_words G" "v \<in> young_words G"
        using wf_blockD(3) [OF wf True] block_wordsI(1) [of v "bsize G v"] block_wordsI(2) [of 0 "bsize G v" v] True
        by (auto simp del: block_wordsI)
      then show ?thesis by (simp add: copied_def yw)
    qed (simp add: copied_def)
  qed
  have cw: "mem s' a = mem s a" if "copied G s v = Some r" "a \<in> block_words r (bsize G v)" "a \<notin> E" for v r a
    using ch [of a] that by blast
  have hdr: "mem s' (r - 8) = mem s (r - 8)" if "copied G s v = Some r" for v r
    using cw [OF that, of "r - 8"] unsettled_not_header [OF inv wf that] by simp
  have cell: "mem s' l = mem s l" if "l \<in> g_cells G - E" for l
    using ch [of l] that wf_cellsD(2) [OF wf] by blast
  have "old_kept G s'"
    unfolding old_kept_def
  proof (intro allI impI)
    fix a assume a: "a \<notin> g_cells G \<union> g_free G \<union> young_words G"
    then have "mem s' a = mem s a" using ch [of a] sub by blast
    then show "mem s' a = g_mem G a" using I(2) a unfolding old_kept_def by simp
  qed
  moreover have "young_kept G s'"
    unfolding young_kept_def
  proof (intro ballI conjI impI allI)
    fix v a assume "v \<in> g_blocks G" "copied G s' v = None" "a \<in> block_words v (bsize G v)"
    then show "mem s' a = g_mem G a" using I(3) same yw [of a] unfolding young_kept_def by auto
  next
    fix v i assume "v \<in> g_blocks G" "0 < i \<and> i < bsize G v"
    then have "mem s (waddr v i) = g_mem G (waddr v i)" "waddr v i \<in> young_words G"
      using I(3) block_wordsI(2) [of i "bsize G v" v] unfolding young_kept_def by blast+
    then show "mem s' (waddr v i) = g_mem G (waddr v i)" using yw by simp
  qed
  moreover have "copies_apart avail G s'"
    using rest(1) copies_apartD [OF I(4)] I(4)
    unfolding copies_apart_def same by (simp add: Wosize_val_def Hd_val_def hdr) blast
  moreover have "copies_filled G s' E T"
    using I(5) cw [OF _ block_wordsI(2)] unfolding copies_filled_def same by metis
  moreover have "cells_filled G s' E" using I(6) cell unfolding cells_filled_def same by simp
  moreover have "todo_chain G s' (oldify_todo_list s') T"
  proof (unfold rest(3), rule todo_chain_cong [OF I(8)])
    fix v r assume v: "v \<in> set T" "copied G s v = Some r"
    have "1 < bsize G v" using todo_chainD [OF I(8) v(1)] by simp
    then show "copied G s' v = Some r \<and> mem s' r = mem s r \<and> mem s' (r + 8) = mem s (r + 8)"
      using same v(2) cw [OF v(2)] todo_not_unsettled [OF inv wf v(2,1), of 0] todo_not_unsettled [OF inv wf v(2,1), of 1]
        block_wordsI(2) [of 0 "bsize G v" r] block_wordsI(2) [of 1 "bsize G v" r] by (simp add: waddr_1)
  qed
  moreover have "E \<subseteq> g_cells G \<union> copy_cells G s' (set T)" using I(9) unfolding copy_cells_def same .
  ultimately show ?thesis using same rest(2) I(7) by (simp add: copy_inv_def)
qed
section \<open>A block gets its copy\<close>

lemma map_leD: "\<phi> \<subseteq>\<^sub>m \<psi> \<Longrightarrow> \<phi> x = Some y \<Longrightarrow> \<psi> x = Some y"
  by (metis domI map_le_def)

lemma copy_cells_mono: "copied G s \<subseteq>\<^sub>m copied G s' \<Longrightarrow> copy_cells G s X \<subseteq> copy_cells G s' X"
  unfolding copy_cells_def by (intro Collect_mono impI; elim exE conjE; intro exI conjI) (assumption | erule (1) map_leD)+

text \<open>Memory for the copy of \<open>v\<close> at \<open>r\<close>: its header is set, and it is nobody's.\<close>

definition fresh_copy :: "((nat \<Rightarrow> u64) \<Rightarrow> u64 set) \<Rightarrow> young_heap \<Rightarrow> gc_state \<Rightarrow> u64 \<Rightarrow> u64 \<Rightarrow> bool" where
  "fresh_copy avail G s v r \<longleftrightarrow> aligned r \<and> block_words r (bsize G v) \<subseteq> g_free G - avail (fl_globals s) \<and>
     (\<forall>w q. copied G s w = Some q \<longrightarrow> block_words q (bsize G w) \<inter> block_words r (bsize G v) = {}) \<and>
     Wosize_val (mem s) r = Wosize_val (g_mem G) v \<and> Tag_hd (mem s (r - 8)) = btag G v"

definition mark_copied :: "u64 \<Rightarrow> u64 \<Rightarrow> gc_state \<Rightarrow> gc_state" where
  "mark_copied v r s = store_at v r (store_at (v - 8) 0 s)"

lemma mem_mark: "mem (mark_copied v r s) a = (if a = v then r else if a = v - 8 then 0 else mem s a)"
  by (simp add: mark_copied_def store_at_def)

lemma mark_fields [simp]: "fl_globals (mark_copied v r s) = fl_globals s"
  "oldify_todo_list (mark_copied v r s) = oldify_todo_list s" "same_young rt G (mark_copied v r s) = same_young rt G s"
  by (simp_all add: mark_copied_def store_at_def same_young_def Is_young_def Is_in_value_area_def caml_state.defs)

lemma copied_mark:
  assumes "wf_heap G" "v \<in> g_blocks G"
  shows "copied G (mark_copied v r s) = (copied G s)(v \<mapsto> r)"
proof
  fix w
  show "copied G (mark_copied v r s) w = ((copied G s)(v \<mapsto> r)) w"
  proof (cases "w \<in> g_blocks G \<and> w \<noteq> v")
    case True
    have "v \<in> block_words v (bsize G v)" using wf_blockD(3) [OF assms] block_wordsI(2) [of 0] by simp
    moreover have "w \<in> block_words w (bsize G w)" using wf_blockD(3) [OF assms(1)] True block_wordsI(2) [of 0] by simp
    ultimately have "w \<noteq> v - 8" "w - 8 \<noteq> v" "w - 8 \<noteq> v - 8"
      using wf_apart [OF assms, of w] True block_wordsI(1) by metis+
    then show ?thesis using True by (simp add: copied_def mem_mark)
  next
    case False
    have "v - 8 \<noteq> v" by simp
    then have "copied G (mark_copied v r s) v = Some r" using assms(2) by (simp only: copied_def mem_mark if_True if_False simp_thms)
    then show ?thesis using False by (cases "w = v") (simp_all add: copied_def)
  qed
qed

lemma copy_inv_mark:
  assumes wf: "wf_heap G" and inv: "copy_inv rt avail G s E T" and v: "v \<in> g_blocks G" "copied G s v = None"
    and fr: "fresh_copy avail G s v r" and ns: "\<not> short_circuit G v"
  shows "copy_inv rt avail G (mark_copied v r s) (E \<union> cells r (bsize G v)) T"
proof -
  let ?s = "mark_copied v r s" and ?E = "E \<union> cells r (bsize G v)"
  note I = copy_invD [OF inv] and c = copied_mark [OF wf v(1), of r s]
  have mono: "copied G s \<subseteq>\<^sub>m copied G ?s" using v(2) by (auto simp: c map_le_def)
  have vw: "v \<in> block_words v (bsize G v)" "v - 8 \<in> block_words v (bsize G v)"
    using wf_blockD(3) [OF wf v(1)] block_wordsI(2) [of 0] by simp_all
  then have yw: "v \<in> young_words G" "v - 8 \<in> young_words G" using v(1) by blast+
  have old: "mem ?s a = mem s a" if "a \<notin> young_words G" for a using that yw by (auto simp: mem_mark)
  have free: "mem ?s a = mem s a" if "a \<in> g_cells G \<union> g_free G" for a
    using that young_words_apart [OF wf] by (intro old) blast
  have vT: "v \<notin> set T" using todo_chainD [OF I(8), of v] v(2) by auto
  have cw: "mem ?s a = mem s a" if "copied G s w = Some q" "a \<in> block_words q (bsize G w)" for w q a
    using copies_apartD(2) [OF I(4) that(1)] that(2) by (intro free) blast
  have rw: "mem ?s a = mem s a" if "a \<in> block_words r (bsize G v)" for a
    using fr that by (intro free) (auto simp: fresh_copy_def)
  have "old_kept G ?s" using I(2) old by (simp add: old_kept_def)
  moreover have "young_kept G ?s"
    unfolding young_kept_def
  proof (intro ballI conjI impI allI)
    fix w a assume w: "w \<in> g_blocks G" "copied G ?s w = None" "a \<in> block_words w (bsize G w)"
    then have "w \<noteq> v" by (auto simp: c)
    then have "a \<noteq> v" "a \<noteq> v - 8" using wf_apart [OF wf v(1) w(1)] w(3) vw by metis+
    then show "mem ?s a = g_mem G a" using I(3) w by (simp add: young_kept_def mem_mark c split: if_splits)
  next
    fix w i assume w: "w \<in> g_blocks G" and i: "0 < i \<and> i < bsize G w"
    have "waddr w i \<noteq> v \<and> waddr w i \<noteq> v - 8"
    proof (cases "w = v")
      case True
      then show ?thesis using header_not_cell [of i G v v] i waddr_inj_small [of i G w 0 w v] by auto
    next
      case False
      then show ?thesis using wf_apart [OF wf v(1) w] vw block_wordsI(2) [of i "bsize G w" w] i by metis
    qed
    then show "mem ?s (waddr w i) = g_mem G (waddr w i)" using I(3) w i by (simp add: young_kept_def mem_mark)
  qed
  moreover have "copies_apart avail G ?s"
    unfolding copies_apart_def c
  proof (intro conjI allI impI)
    fix w q assume "((copied G s)(v \<mapsto> r)) w = Some q"
    then consider "w = v" "q = r" | "w \<noteq> v" "copied G s w = Some q" by (auto split: if_splits)
    note cases = this
    show "aligned q" "block_words q (bsize G w) \<subseteq> g_free G - avail (fl_globals ?s)"
      using cases fr copies_apartD(1-3) [OF I(4), of w q] by (cases; auto simp: fresh_copy_def)+
    show "\<not> short_circuit G w" using cases ns copies_apartD(6) [OF I(4)] by metis
    have "mem ?s (q - 8) = mem s (q - 8)" using cases cw [of w q "q - 8"] rw [of "q - 8"] by (cases; simp)
    moreover have "Wosize_val (mem s) q = Wosize_val (g_mem G) w \<and> Tag_hd (mem s (q - 8)) = btag G w"
      using cases fr copies_apartD(4,5) [OF I(4)] unfolding fresh_copy_def by metis
    ultimately show "Wosize_val (mem ?s) q = Wosize_val (g_mem G) w" "Tag_hd (mem ?s (q - 8)) = btag G w"
      unfolding Wosize_val_def Hd_val_def by simp_all
  next
    fix w u q p assume "((copied G s)(v \<mapsto> r)) w = Some q \<and> ((copied G s)(v \<mapsto> r)) u = Some p \<and> w \<noteq> u"
    then have h: "((copied G s)(v \<mapsto> r)) w = Some q" "((copied G s)(v \<mapsto> r)) u = Some p" "w \<noteq> u" by blast+
    have d: "block_words q (bsize G w) \<inter> block_words r (bsize G v) = {}" if "copied G s w = Some q" for w q
      using fr that unfolding fresh_copy_def by blast
    show "block_words q (bsize G w) \<inter> block_words p (bsize G u) = {}"
    proof (cases "w = v \<or> u = v")
      case True
      then show ?thesis using h d [of u p] d [of w q] by fastforce
    next
      case False
      then have "copied G s w = Some q" "copied G s u = Some p" using h by simp_all
      then show ?thesis using copies_apartD(7) [OF I(4)] h(3) by blast
    qed
  qed (use I(4) in \<open>simp add: copies_apart_def\<close>)
  moreover have "copies_filled G ?s ?E T"
    unfolding copies_filled_def
  proof (intro allI impI)
    fix w q i assume h: "copied G ?s w = Some q \<and> i < bsize G w \<and> w \<notin> set T \<and> waddr q i \<notin> ?E"
    then have w: "copied G s w = Some q" by (auto simp: c split: if_splits)
    have "mem ?s (waddr q i) = mem s (waddr q i)" using cw [OF w] h by simp
    then show "if btag G w < No_scan_tag then new_value G (copied G ?s) (g_mem G (waddr w i)) = Some (mem ?s (waddr q i))
        else mem ?s (waddr q i) = g_mem G (waddr w i)"
      using I(5) w h new_value_mono [OF mono] unfolding copies_filled_def by (simp split: if_splits)
  qed
  moreover have "cells_filled G ?s ?E"
    using I(6) free new_value_mono [OF mono] unfolding cells_filled_def by fastforce
  moreover have "todo_chain G ?s (oldify_todo_list ?s) T"
    unfolding mark_fields
  proof (rule todo_chain_cong [OF I(8)])
    fix w q assume w: "w \<in> set T" "copied G s w = Some q"
    have "q \<in> block_words q (bsize G w)" "q + 8 \<in> block_words q (bsize G w)"
      using todo_chainD [OF I(8) w(1)] block_wordsI(2) [of 0 "bsize G w" q] block_wordsI(2) [of 1 "bsize G w" q]
      by (auto simp: waddr_1)
    then show "copied G ?s w = Some q \<and> mem ?s q = mem s q \<and> mem ?s (q + 8) = mem s (q + 8)"
      using w vT cw [OF w(2)] by (auto simp: c)
  qed
  moreover have "?E \<subseteq> g_cells G \<union> copy_cells G ?s (set T)"
  proof -
    have "copy_cells G s (set T) \<subseteq> copy_cells G ?s (set T)"
      by (rule copy_cells_mono [OF mono])
    moreover have "cells r (bsize G v) \<subseteq> copy_cells G ?s (set T)"
    proof
      fix a assume "a \<in> cells r (bsize G v)"
      then obtain i where "i < bsize G v" "a = waddr r i" by (auto simp: mem_cells_iff)
      then show "a \<in> copy_cells G ?s (set T)"
        unfolding copy_cells_def using vT by (intro CollectI exI [of _ v] exI [of _ r] exI [of _ i]) (simp add: c)
    qed
    ultimately show ?thesis using I(9) by blast
  qed
  ultimately show ?thesis using I(1,7) by (simp add: copy_inv_def)
qed
section \<open>Settled cells and the list\<close>

definition settled :: "young_heap \<Rightarrow> gc_state \<Rightarrow> u64 list \<Rightarrow> u64 \<Rightarrow> bool" where
  "settled G s T e \<longleftrightarrow>
    (e \<in> g_cells G \<longrightarrow> mem s e = g_mem G e \<or> new_value G (copied G s) (g_mem G e) = Some (mem s e)) \<and>
    (\<forall>v r i. copied G s v = Some r \<and> i < bsize G v \<and> v \<notin> set T \<and> e = waddr r i \<longrightarrow>
       (if btag G v < No_scan_tag then new_value G (copied G s) (g_mem G (waddr v i)) = Some (mem s e)
        else mem s e = g_mem G (waddr v i)))"

lemma copy_inv_settle:
  assumes "copy_inv rt avail G s E T" "E' \<subseteq> E" "\<And>e. e \<in> E - E' \<Longrightarrow> settled G s T e"
  shows "copy_inv rt avail G s E' T"
proof -
  note I = copy_invD [OF assms(1)]
  have "copies_filled G s E' T"
    unfolding copies_filled_def
  proof (intro allI impI)
    fix v r i assume h: "copied G s v = Some r \<and> i < bsize G v \<and> v \<notin> set T \<and> waddr r i \<notin> E'"
    show "if btag G v < No_scan_tag then new_value G (copied G s) (g_mem G (waddr v i)) = Some (mem s (waddr r i))
        else mem s (waddr r i) = g_mem G (waddr v i)"
    proof (cases "waddr r i \<in> E")
      case True
      then show ?thesis using assms(3) [of "waddr r i"] h unfolding settled_def by blast
    next
      case False
      then show ?thesis using I(5) h unfolding copies_filled_def by blast
    qed
  qed
  moreover have "cells_filled G s E'"
    using I(6) assms(3) unfolding cells_filled_def settled_def by blast
  ultimately show ?thesis using I assms(2) by (auto simp: copy_inv_def)
qed

lemma cell_in_block: "x \<in> cells r n \<Longrightarrow> x \<in> block_words r n"
  by (simp add: block_words_def)

lemma copy_cellsE:
  assumes "e \<in> copy_cells G s X"
  obtains v r i where "copied G s v = Some r" "v \<notin> X" "i < bsize G v" "e = waddr r i"
  using assms unfolding copy_cells_def by blast

lemma copy_cellsI: "copied G s v = Some r \<Longrightarrow> v \<notin> X \<Longrightarrow> i < bsize G v \<Longrightarrow> waddr r i \<in> copy_cells G s X"
  unfolding copy_cells_def by blast

lemma copied_todo [simp]: "copied G (s\<lparr>oldify_todo_list := x\<rparr>) = copied G s"
  by (simp add: copied_def fun_eq_iff)

lemma todo_upd [simp]:
  "same_young rt G (s\<lparr>oldify_todo_list := x\<rparr>) = same_young rt G s"
  "old_kept G (s\<lparr>oldify_todo_list := x\<rparr>) = old_kept G s" "young_kept G (s\<lparr>oldify_todo_list := x\<rparr>) = young_kept G s"
  "copies_apart avail G (s\<lparr>oldify_todo_list := x\<rparr>) = copies_apart avail G s"
  "copies_filled G (s\<lparr>oldify_todo_list := x\<rparr>) E T = copies_filled G s E T"
  "cells_filled G (s\<lparr>oldify_todo_list := x\<rparr>) E = cells_filled G s E"
  "copy_cells G (s\<lparr>oldify_todo_list := x\<rparr>) X = copy_cells G s X"
  "settled G (s\<lparr>oldify_todo_list := x\<rparr>) T e = settled G s T e"
  by (simp_all add: same_young_def Is_young_def Is_in_value_area_def caml_state.defs old_kept_def
    young_kept_def copies_apart_def copies_filled_def cells_filled_def copy_cells_def settled_def)

lemma todo_chain_upd [simp]: "todo_chain G (s\<lparr>oldify_todo_list := x\<rparr>) y T = todo_chain G s y T"
  by (induction T arbitrary: y) simp_all

lemma copy_inv_push:
  assumes wf: "wf_heap G" and inv: "copy_inv rt avail G s E T"
    and v: "copied G s v = Some r" "v \<notin> set T" "btag G v < No_scan_tag" "1 < bsize G v"
    and m: "mem s r = g_mem G v" "mem s (r + 8) = oldify_todo_list s"
  shows "copy_inv rt avail G (s\<lparr>oldify_todo_list := v\<rparr>) (E - cells r (bsize G v)) (v # T)"
proof -
  note I = copy_invD [OF inv]
  let ?C = "cells r (bsize G v)"
  have other: "waddr q i \<notin> ?C" if "copied G s w = Some q" "w \<noteq> v" "i < bsize G w" for w q i
    using copies_apartD(7) [OF I(4) that(1) v(1) that(2), of "waddr q i"] that(3) cell_in_block by (metis block_wordsI(2))
  have fr: "?C \<subseteq> g_free G" using copies_apartD(2) [OF I(4) v(1)] cell_in_block by blast
  have "copies_filled G s (E - ?C) (v # T)"
    unfolding copies_filled_def
  proof (intro allI impI)
    fix w q i assume h: "copied G s w = Some q \<and> i < bsize G w \<and> w \<notin> set (v # T) \<and> waddr q i \<notin> E - ?C"
    then have "waddr q i \<notin> E" using other [of w q i] by simp
    then show "if btag G w < No_scan_tag then new_value G (copied G s) (g_mem G (waddr w i)) = Some (mem s (waddr q i))
        else mem s (waddr q i) = g_mem G (waddr w i)"
      using I(5) h unfolding copies_filled_def by simp
  qed
  moreover have "cells_filled G s (E - ?C)"
    using I(6) fr wf_cellsD(2) [OF wf] unfolding cells_filled_def by blast
  moreover have "E - ?C \<subseteq> g_cells G \<union> copy_cells G s (set (v # T))"
  proof
    fix e assume e: "e \<in> E - ?C"
    then consider "e \<in> g_cells G" | "e \<in> copy_cells G s (set T)" using I(9) by blast
    then show "e \<in> g_cells G \<union> copy_cells G s (set (v # T))"
    proof cases
      case 2
      then obtain w q i where w: "copied G s w = Some q" "w \<notin> set T" "i < bsize G w" "e = waddr q i" by (rule copy_cellsE)
      have "w \<noteq> v" using e w v(1) by auto
      then show ?thesis using w copy_cellsI [of G s w q "set (v # T)" i] by simp
    qed simp
  qed
  moreover have "todo_chain G s v (v # T)" using v m I(8) copied_blocks [OF v(1)] by simp
  ultimately show ?thesis using I(1-4,7) v(2) by (simp add: copy_inv_def del: todo_chain.simps)
qed

lemma copy_inv_pop:
  assumes wf: "wf_heap G" and inv: "copy_inv rt avail G s E (v # T)" and v: "copied G s v = Some r"
  shows "copy_inv rt avail G (s\<lparr>oldify_todo_list := mem s (r + 8)\<rparr>) (E \<union> cells r (bsize G v)) T"
proof -
  note I = copy_invD [OF inv]
  let ?E = "E \<union> cells r (bsize G v)"
  have "copies_filled G s ?E T"
    unfolding copies_filled_def
  proof (intro allI impI)
    fix w q i assume h: "copied G s w = Some q \<and> i < bsize G w \<and> w \<notin> set T \<and> waddr q i \<notin> ?E"
    then have "w \<noteq> v" using v by auto
    then show "if btag G w < No_scan_tag then new_value G (copied G s) (g_mem G (waddr w i)) = Some (mem s (waddr q i))
        else mem s (waddr q i) = g_mem G (waddr w i)"
      using I(5) h unfolding copies_filled_def by simp
  qed
  moreover have "cells_filled G s ?E" using I(6) unfolding cells_filled_def by blast
  moreover have "?E \<subseteq> g_cells G \<union> copy_cells G s (set T)"
  proof -
    have "copy_cells G s (set (v # T)) \<subseteq> copy_cells G s (set T)"
      by (rule subsetI, erule copy_cellsE) (simp add: copy_cellsI)
    moreover have "cells r (bsize G v) \<subseteq> copy_cells G s (set T)"
    proof
      fix a assume "a \<in> cells r (bsize G v)"
      then obtain i where "i < bsize G v" "a = waddr r i" by (auto simp: mem_cells_iff)
      then show "a \<in> copy_cells G s (set T)" using copy_cellsI [OF v] I(7) by simp
    qed
    ultimately show ?thesis using I(9) by blast
  qed
  ultimately show ?thesis using I(1-4,7,8) v by (simp add: copy_inv_def)
qed

section \<open>The allocator\<close>

text \<open>
  What the collection relies on: \<open>avail\<close> tells from the state of the free lists which memory
  is free; the allocator writes only there and hands out blocks from there.
\<close>

definition alloc_step :: "((nat \<Rightarrow> u64) \<Rightarrow> u64 set) \<Rightarrow> gc_state \<Rightarrow> gc_state \<Rightarrow> bool" where
  "alloc_step avail s s' \<longleftrightarrow> avail (fl_globals s') \<subseteq> avail (fl_globals s) \<and>
     (\<forall>a. a \<notin> avail (fl_globals s) \<longrightarrow> mem s' a = mem s a \<and> in_heap s' a = in_heap s a) \<and>
     (\<exists>m h g w. s' = s\<lparr>mem := m, in_heap := h, fl_globals := g, stat_heap_wsz := w\<rparr>)"

definition heap_ok :: "heap_rt \<Rightarrow> ((nat \<Rightarrow> u64) \<Rightarrow> u64 set) \<Rightarrow> bool" where
  "heap_ok H avail \<longleftrightarrow>
    (\<forall>w s. case hr_fl_allocate H w s of (hp, s') \<Rightarrow> alloc_step avail s s' \<and>
       (hp \<noteq> 0 \<longrightarrow> aligned hp \<and> cells hp (Suc (unat w)) \<subseteq> avail (fl_globals s) - avail (fl_globals s'))) \<and>
    (\<forall>w s. case hr_expand_heap H w s of (p, s') \<Rightarrow> alloc_step avail s s' \<and>
       (p \<noteq> 0 \<longrightarrow> alloc_step avail s' (hr_fl_add_blocks H p s') \<and>
          fst (hr_fl_allocate H w (hr_fl_add_blocks H p s')) \<noteq> 0))"

lemma alloc_step_trans:
  assumes "alloc_step avail s t" "alloc_step avail t u"
  shows "alloc_step avail s u"
proof -
  have "avail (fl_globals u) \<subseteq> avail (fl_globals s)" "\<forall>a. a \<notin> avail (fl_globals s) \<longrightarrow> mem u a = mem s a \<and> in_heap u a = in_heap s a"
    using assms unfolding alloc_step_def by (blast, metis subsetD)
  moreover have "\<exists>m h g w. u = s\<lparr>mem := m, in_heap := h, fl_globals := g, stat_heap_wsz := w\<rparr>"
  proof -
    obtain m h g w m' h' g' w' where "t = s\<lparr>mem := m', in_heap := h', fl_globals := g', stat_heap_wsz := w'\<rparr>"
      "u = t\<lparr>mem := m, in_heap := h, fl_globals := g, stat_heap_wsz := w\<rparr>"
      using assms unfolding alloc_step_def by metis
    then have "u = s\<lparr>mem := m, in_heap := h, fl_globals := g, stat_heap_wsz := w\<rparr>" by simp
    then show ?thesis by (intro exI)
  qed
  ultimately show ?thesis unfolding alloc_step_def by blast
qed
text \<open>The fields that the copy leaves alone and the loops of the collection read.\<close>

definition keeps :: "gc_state \<Rightarrow> gc_state \<Rightarrow> bool" where
  "keeps s s' \<longleftrightarrow> stack_high s' = stack_high s \<and> local_roots s' = local_roots s \<and> ref_table s' = ref_table s \<and>
     ephe_ref_table s' = ephe_ref_table s \<and> custom_table s' = custom_table s \<and> extern_sp s' = extern_sp s"

lemma keeps_refl [simp]: "keeps s s" and keeps_trans: "keeps s t \<Longrightarrow> keeps t u \<Longrightarrow> keeps s u"
  by (simp_all add: keeps_def)

lemma same_young_step:
  assumes "same_young rt G s" "alloc_step avail s s'" "avail (fl_globals s) \<subseteq> g_free G"
  shows "same_young rt G s'"
proof -
  obtain m h g w where s': "s' = s\<lparr>mem := m, in_heap := h, fl_globals := g, stat_heap_wsz := w\<rparr>"
    using assms(2) unfolding alloc_step_def by blast
  have "in_heap s' a = in_heap s a" if "a \<notin> g_free G" for a using assms(2,3) that unfolding alloc_step_def by blast
  then have "h a = in_heap s a" if "a \<notin> g_free G" for a using that s' by simp
  then show ?thesis
    using assms(1) unfolding s' same_young_def Is_young_def Is_in_value_area_def by (auto simp: caml_state.defs)
qed

lemma Tag_hd_less: "unat (Tag_hd h) < 256"
proof -
  have "take_bit 8 (Tag_hd h) = Tag_hd h" by (rule bit_word_eqI) (auto simp: bit_Tag_hd bit_take_bit_iff)
  then have "unat (Tag_hd h) = take_bit 8 (unat (Tag_hd h))" by (metis unsigned_take_bit_eq)
  then show ?thesis using take_bit_nat_less_exp [of 8 "unat (Tag_hd h)"] by simp
qed

lemma heap_ok_allocate:
  assumes "heap_ok H avail" "hr_fl_allocate H w s = (hp, s')"
  shows "alloc_step avail s s'"
    "hp \<noteq> 0 \<Longrightarrow> aligned hp \<and> cells hp (Suc (unat w)) \<subseteq> avail (fl_globals s) - avail (fl_globals s')"
proof -
  have "case hr_fl_allocate H w s of (hp, s') \<Rightarrow> alloc_step avail s s' \<and>
       (hp \<noteq> 0 \<longrightarrow> aligned hp \<and> cells hp (Suc (unat w)) \<subseteq> avail (fl_globals s) - avail (fl_globals s'))"
    by (rule conjunct1 [OF assms(1) [unfolded heap_ok_def], THEN spec, THEN spec])
  then show "alloc_step avail s s'"
    "hp \<noteq> 0 \<Longrightarrow> aligned hp \<and> cells hp (Suc (unat w)) \<subseteq> avail (fl_globals s) - avail (fl_globals s')"
    by (simp_all add: assms(2))
qed

lemma heap_ok_expand:
  assumes "heap_ok H avail" "hr_expand_heap H w s = (p, s')"
  shows "alloc_step avail s s'" "p \<noteq> 0 \<Longrightarrow> alloc_step avail s' (hr_fl_add_blocks H p s') \<and>
    fst (hr_fl_allocate H w (hr_fl_add_blocks H p s')) \<noteq> 0"
proof -
  have "case hr_expand_heap H w s of (p, s') \<Rightarrow> alloc_step avail s s' \<and>
       (p \<noteq> 0 \<longrightarrow> alloc_step avail s' (hr_fl_add_blocks H p s') \<and>
          fst (hr_fl_allocate H w (hr_fl_add_blocks H p s')) \<noteq> 0)"
    by (rule conjunct2 [OF assms(1) [unfolded heap_ok_def], THEN spec, THEN spec])
  then show "alloc_step avail s s'" "p \<noteq> 0 \<Longrightarrow> alloc_step avail s' (hr_fl_add_blocks H p s') \<and>
    fst (hr_fl_allocate H w (hr_fl_add_blocks H p s')) \<noteq> 0"
    by (simp_all add: assms(2))
qed

lemma cells_header: "cells (r - 8) (Suc n) = block_words r n"
  by (simp add: cells_Suc block_words_def)

definition alloc_done :: "rt \<Rightarrow> ((nat \<Rightarrow> u64) \<Rightarrow> u64 set) \<Rightarrow> young_heap \<Rightarrow> u64 set \<Rightarrow> u64 list \<Rightarrow> u64 \<Rightarrow>
    gc_state \<Rightarrow> u64 \<Rightarrow> gc_state \<Rightarrow> bool" where
  "alloc_done rt avail G E T v s r s1 \<longleftrightarrow>
    copy_inv rt avail G s1 E T \<and> copied G s1 = copied G s \<and> fresh_copy avail G s1 v r \<and>
    block_words r (bsize G v) \<subseteq> avail (fl_globals s) \<and> avail (fl_globals s1) \<subseteq> avail (fl_globals s) \<and>
    (\<forall>a. a \<notin> avail (fl_globals s) \<longrightarrow> mem s1 a = mem s a) \<and> oldify_todo_list s1 = oldify_todo_list s \<and> keeps s s1"

lemma alloc_ok:
  assumes wf: "wf_heap G" and H: "heap_ok H avail" and inv: "copy_inv rt avail G s E T" and v: "v \<in> g_blocks G"
  defines "r0 \<equiv> caml_alloc_shr_for_minor_gc rt H (Wosize_val (g_mem G) v) (btag G v) s"
  shows "r0 = Fatal ''out of memory'' \<or>
    (\<exists>r s1. r0 = Ret r s1 \<and> alloc_done rt avail G E T v s r s1)"
proof -
  let ?sz = "Wosize_val (g_mem G) v"
  note I = copy_invD [OF inv]
  have max: "\<not> Max_wosize < ?sz"
    using bsize_less [of G v] by (simp add: bsize_def Max_wosize_def word_less_nat_alt)
  have fin: ?thesis if st: "alloc_step avail s s'" and r0: "r0 = finish_alloc_shr ?sz (btag G v) hp s'"
    and hp: "aligned hp" "cells hp (Suc (bsize G v)) \<subseteq> avail (fl_globals s) - avail (fl_globals s')" for hp s'
  proof -
    obtain c where c: "c = caml_allocation_color s' hp" "c AND 768 = c"
      by (simp add: caml_allocation_color_def Caml_black_def Caml_white_def)
    obtain s1 where s1: "r0 = Ret (hp + 8) s1" "mem s1 = (mem s')(hp := Make_header ?sz (btag G v) c)"
      "fl_globals s1 = fl_globals s'" "oldify_todo_list s1 = oldify_todo_list s'" "keeps s' s1"
      "same_young rt G s1 = same_young rt G s'"
      unfolding r0 finish_alloc_shr_def Let_def
      by (simp add: Val_hp_def store_at_def c(1) caml_request_major_slice_def caml_set_action_pending_def keeps_def
          same_young_def Is_young_def Is_in_value_area_def caml_state.defs)
    obtain m h g w where s': "s' = s\<lparr>mem := m, in_heap := h, fl_globals := g, stat_heap_wsz := w\<rparr>"
      using st unfolding alloc_step_def by blast
    have words: "block_words (hp + 8) (bsize G v) \<subseteq> avail (fl_globals s) - avail (fl_globals s1)"
      using hp(2) cells_header [of "hp + 8" "bsize G v"] s1(3) by simp
    have "hp \<in> avail (fl_globals s)" using hp(2) by (auto simp: cells_Suc)
    then have mem: "mem s1 a = mem s a" if "a \<notin> avail (fl_globals s)" for a
      using that st s1(2) unfolding alloc_step_def by auto
    have av: "avail (fl_globals s1) \<subseteq> avail (fl_globals s)" "avail (fl_globals s) \<subseteq> g_free G"
      using st s1(3) I(4) unfolding alloc_step_def copies_apart_def by auto
    have nc: "a \<notin> block_words q (bsize G w)" if "copied G s w = Some q" "a \<in> avail (fl_globals s)" for w q a
      using copies_apartD(3) [OF I(4) that(1)] that(2) by blast
    have "same_young rt G s1" using same_young_step [OF I(1) st av(2)] s1(6) by simp
    moreover have "oldify_todo_list s1 = oldify_todo_list s" using s1(4) s' by simp
    ultimately have inv1: "copy_inv rt avail G s1 E T \<and> copied G s1 = copied G s"
      using mem av nc by (intro copy_inv_agree [OF wf inv]) blast+
    have "fresh_copy avail G s1 v (hp + 8)"
      unfolding fresh_copy_def
    proof (intro conjI allI impI)
      show "aligned (hp + 8)" using hp(1) by (metis add_diff_cancel_right' aligned_minus8)
      show "block_words (hp + 8) (bsize G v) \<subseteq> g_free G - avail (fl_globals s1)" using words av by blast
      show "block_words q (bsize G w) \<inter> block_words (hp + 8) (bsize G v) = {}" if "copied G s1 w = Some q" for w q
        using that inv1 words nc by fastforce
      show "Wosize_val (mem s1) (hp + 8) = ?sz" "Tag_hd (mem s1 (hp + 8 - 8)) = btag G v"
        using Wosize_Make_header [OF _ Tag_hd_less c(2)] Tag_Make_header [OF Tag_hd_less c(2)] bsize_less [of G v] s1(2)
        by (simp_all add: Wosize_val_def Hd_val_def bsize_def)
    qed
    moreover have "keeps s s1" using s1(5) s' by (simp add: keeps_def)
    ultimately show ?thesis
      using s1(1) inv1 av(1) mem words \<open>oldify_todo_list s1 = oldify_todo_list s\<close> unfolding alloc_done_def by blast
  qed
  obtain hp s1 where a1: "hr_fl_allocate H ?sz s = (hp, s1)" by (cases "hr_fl_allocate H ?sz s")
  have st1: "alloc_step avail s s1" "hp \<noteq> 0 \<Longrightarrow> aligned hp \<and> cells hp (Suc (bsize G v)) \<subseteq> avail (fl_globals s) - avail (fl_globals s1)"
    using heap_ok_allocate [OF H a1] by (simp_all add: bsize_def)
  show ?thesis
  proof (cases "hp = 0")
    case False
    then show ?thesis using fin [OF st1(1) _ _ conjunct2 [OF st1(2)]] st1(2) a1 max
      by (simp add: r0_def caml_alloc_shr_for_minor_gc_def)
  next
    case True
    obtain p s2 where a2: "hr_expand_heap H ?sz s1 = (p, s2)" by (cases "hr_expand_heap H ?sz s1")
    have st2: "alloc_step avail s1 s2" "p \<noteq> 0 \<Longrightarrow> alloc_step avail s2 (hr_fl_add_blocks H p s2) \<and>
          fst (hr_fl_allocate H ?sz (hr_fl_add_blocks H p s2)) \<noteq> 0"
      using heap_ok_expand [OF H a2] by simp_all
    have c: "in_minor_collection s2"
      using same_young_step [OF I(1) alloc_step_trans [OF st1(1) st2(1)]] I(4)
      by (simp add: same_young_def copies_apart_def)
    obtain hp' s3 where a3: "hr_fl_allocate H ?sz (hr_fl_add_blocks H p s2) = (hp', s3)"
      by (cases "hr_fl_allocate H ?sz (hr_fl_add_blocks H p s2)")
    have st3: "alloc_step avail (hr_fl_add_blocks H p s2) s3" "hp' \<noteq> 0 \<Longrightarrow> aligned hp' \<and>
        cells hp' (Suc (bsize G v)) \<subseteq> avail (fl_globals (hr_fl_add_blocks H p s2)) - avail (fl_globals s3)"
      using heap_ok_allocate [OF H a3] by (simp_all add: bsize_def)
    show ?thesis
    proof (cases "p = 0")
      case True
      then show ?thesis using a1 a2 c \<open>hp = 0\<close> max by (simp add: r0_def caml_alloc_shr_for_minor_gc_def)
    next
      case False
      have st: "alloc_step avail s (hr_fl_add_blocks H p s2)" "alloc_step avail s s3"
        using st1(1) st2 st3(1) False alloc_step_trans by blast+
      have hp': "aligned hp'" "cells hp' (Suc (bsize G v)) \<subseteq> avail (fl_globals s) - avail (fl_globals s3)"
        using st3(2) st2(2) False a3 st(1) unfolding alloc_step_def by auto
      show ?thesis using fin [OF st(2) _ hp'] a1 a2 a3 False \<open>hp = 0\<close> max
        by (simp add: r0_def caml_alloc_shr_for_minor_gc_def)
    qed
  qed
qed
section \<open>One value\<close>

definition uncopied :: "young_heap \<Rightarrow> gc_state \<Rightarrow> u64 set" where
  "uncopied G s = {v \<in> g_blocks G. copied G s v = None}"

lemma finite_uncopied [simp]: "finite (uncopied G s)"
  by (rule finite_subset [OF subset_UNIV]) simp

text \<open>What a call for the value \<open>v\<close> and the cell \<open>p\<close> has done.\<close>

definition oldified :: "rt \<Rightarrow> ((nat \<Rightarrow> u64) \<Rightarrow> u64 set) \<Rightarrow> young_heap \<Rightarrow> u64 set \<Rightarrow> u64 list \<Rightarrow> u64 \<Rightarrow> u64 \<Rightarrow>
    gc_state \<Rightarrow> gc_state \<Rightarrow> bool" where
  "oldified rt avail G E T v p s s' \<longleftrightarrow>
    (\<exists>T'. copy_inv rt avail G s' E (T' @ T) \<and> card (uncopied G s') + length T' \<le> card (uncopied G s)) \<and>
    copied G s \<subseteq>\<^sub>m copied G s' \<and> new_value G (copied G s') v = Some (mem s' p) \<and>
    avail (fl_globals s') \<subseteq> avail (fl_globals s) \<and>
    (\<forall>a. a \<noteq> p \<and> a \<notin> avail (fl_globals s) \<and> a \<notin> young_words G \<longrightarrow> mem s' a = mem s a) \<and> keeps s s'"

text \<open>A run that ends with a property, or out of memory.\<close>

definition ends :: "gres \<Rightarrow> (gc_state \<Rightarrow> bool) \<Rightarrow> bool" where
  "ends r P \<longleftrightarrow> r = Some (Fatal ''out of memory'') \<or> (\<exists>s. r = Some (Ret () s) \<and> P s)"

lemma ends_Ret [simp]: "ends (Some (Ret () s)) P = P s" and ends_Fatal [simp]: "ends (Some (Fatal ''out of memory'')) P"
  by (simp_all add: ends_def)

lemma ends_mono: "ends r P \<Longrightarrow> (\<And>s. P s \<Longrightarrow> Q s) \<Longrightarrow> ends r Q"
  by (auto simp: ends_def)

lemma ends_obind: "ends r P \<Longrightarrow> (\<And>s. P s \<Longrightarrow> ends (f s) Q) \<Longrightarrow> ends (obind r f) Q"
  unfolding ends_def [of r] by (elim disjE exE conjE) simp_all

definition oldify_up_to :: "rt \<Rightarrow> heap_rt \<Rightarrow> ((nat \<Rightarrow> u64) \<Rightarrow> u64 set) \<Rightarrow> young_heap \<Rightarrow> nat \<Rightarrow> bool" where
  "oldify_up_to rt H avail G n \<longleftrightarrow> (\<forall>E T v p s. copy_inv rt avail G s E T \<and> p \<in> E \<and> good G v \<and> card (uncopied G s) < n \<longrightarrow>
     ends (caml_oldify_one rt H v p s) (oldified rt avail G E T v p s))"

subsection \<open>Steps\<close>

lemma store_fields [simp]: "fl_globals (store_at p x s) = fl_globals s"
  "oldify_todo_list (store_at p x s) = oldify_todo_list s" "same_young rt G (store_at p x s) = same_young rt G s"
  "keeps t (store_at p x s) = keeps t s" "mem (store_at p x s) = (mem s)(p := x)"
  by (simp_all add: store_at_def same_young_def Is_young_def Is_in_value_area_def caml_state.defs keeps_def)

lemma mark_keeps [simp]: "keeps t (mark_copied v r s) = keeps t s"
  by (simp add: mark_copied_def)

lemma todo_keeps [simp]: "keeps t (s\<lparr>oldify_todo_list := x\<rparr>) = keeps t s"
  by (simp add: keeps_def)

lemma unsettled_old:
  assumes "copy_inv rt avail G s E T" "wf_heap G" "p \<in> E"
  shows "p \<notin> young_words G" "p \<notin> avail (fl_globals s)"
proof -
  note I = copy_invD [OF assms(1)]
  show "p \<notin> young_words G"
    using I(9) copy_cells_free [OF I(4)] assms(3) young_words_apart [OF assms(2)] by blast
  consider "p \<in> g_cells G" | "p \<in> copy_cells G s (set T)" using I(9) assms(3) by blast
  then show "p \<notin> avail (fl_globals s)"
  proof cases
    case 1
    then show ?thesis using wf_cellsD(2) [OF assms(2)] I(4) unfolding copies_apart_def by blast
  next
    case 2
    then obtain w q i where "copied G s w = Some q" "i < bsize G w" "p = waddr q i" by (rule copy_cellsE)
    then show ?thesis using copies_apartD(3) [OF I(4)] block_wordsI(2) by blast
  qed
qed

lemma copy_inv_store:
  assumes "copy_inv rt avail G s E T" "wf_heap G" "p \<in> E"
  shows "copy_inv rt avail G (store_at p x s) E T" "copied G (store_at p x s) = copied G s"
proof -
  have "copy_inv rt avail G (store_at p x s) E T \<and> copied G (store_at p x s) = copied G s"
    using copy_invD(1) [OF assms(1)] assms(3) by (intro copy_inv_agree [OF assms(2,1)]) (simp_all split: if_splits)
  then show "copy_inv rt avail G (store_at p x s) E T" "copied G (store_at p x s) = copied G s" by simp_all
qed

lemma fresh_apart:
  assumes "copy_inv rt avail G s E T" "wf_heap G" "fresh_copy avail G s v r" "p \<in> E"
  shows "p \<notin> block_words r (bsize G v)"
proof
  note I = copy_invD [OF assms(1)]
  assume p: "p \<in> block_words r (bsize G v)"
  then have "p \<in> g_free G" using assms(3) unfolding fresh_copy_def by blast
  then have "p \<in> copy_cells G s (set T)" using I(9) assms(4) wf_cellsD(2) [OF assms(2)] by blast
  then obtain w q i where "copied G s w = Some q" "i < bsize G w" "p = waddr q i" by (rule copy_cellsE)
  then show False using assms(3) p block_wordsI(2) [of i "bsize G w" q] unfolding fresh_copy_def by blast
qed

lemma fresh_store:
  assumes "copy_inv rt avail G s E T" "wf_heap G" "fresh_copy avail G s v r" "p \<in> E"
  shows "fresh_copy avail G (store_at p x s) v r"
proof -
  have "r - 8 \<noteq> p" using fresh_apart [OF assms] block_wordsI(1) by metis
  then show ?thesis
    using assms(3) copy_inv_store(2) [OF assms(1,2,4)] by (simp add: fresh_copy_def Wosize_val_def Hd_val_def)
qed

lemma uncopied_mark:
  assumes "wf_heap G" "v \<in> g_blocks G" "copied G s v = None" "copied G s' = (copied G s)(v \<mapsto> r)"
  shows "Suc (card (uncopied G s')) = card (uncopied G s)"
proof -
  have "uncopied G s' = uncopied G s - {v}" using assms(4) by (auto simp: uncopied_def)
  moreover have "v \<in> uncopied G s" using assms by (simp add: uncopied_def)
  ultimately show ?thesis using card_Suc_Diff1 [OF finite_uncopied] by metis
qed

lemma new_value_block:
  assumes "wf_heap G" "v \<in> g_blocks G" "\<not> short_circuit G v"
  shows "new_value G \<phi> v = \<phi> v"
  using wf_blockD [OF assms(1,2)] assms(3) by (simp add: new_value_def new_value0_def)
subsection \<open>Cases\<close>

lemma Field_0: "Field m v 0 = m v"
  by (simp add: Field_def)

lemma tag_order: "\<not> Infix_tag < Infix_tag" "\<not> No_scan_tag \<le> Infix_tag" "\<not> Forward_tag < Infix_tag" "\<not> No_scan_tag \<le> Forward_tag"
  "Forward_tag \<noteq> Infix_tag"
  by (simp_all add: Infix_tag_def No_scan_tag_def Forward_tag_def)

lemma oldify_eq1:
  "\<not> (Is_block v \<and> Is_young s v) \<Longrightarrow> caml_oldify_one rt H v p s = Some (Ret () (store_at p v s))"
  by (subst caml_oldify_one.simps [of rt H v p s]) (simp only: Let_def Field_0 mark_copied_def tag_order store_fields(2) simp_thms if_True if_False)

lemma oldify_eq2:
  "Is_block v \<and> Is_young s v \<Longrightarrow> Hd_val (mem s) v = 0 \<Longrightarrow>
     caml_oldify_one rt H v p s = Some (Ret () (store_at p (mem s v) s))"
  by (subst caml_oldify_one.simps [of rt H v p s]) (simp only: Let_def Field_0 mark_copied_def tag_order store_fields(2) simp_thms if_True if_False)

lemma oldify_eq3:
  "Is_block v \<and> Is_young s v \<Longrightarrow> Hd_val (mem s) v \<noteq> 0 \<Longrightarrow> Tag_hd (Hd_val (mem s) v) < Infix_tag \<Longrightarrow>
     caml_oldify_one rt H v p s =
       (case caml_alloc_shr_for_minor_gc rt H (Wosize_hd (Hd_val (mem s) v)) (Tag_hd (Hd_val (mem s) v)) s of
          Ret r s1 \<Rightarrow>
            (let s3 = mark_copied v r (store_at p r s1); field0 = mem (store_at p r s1) v
             in if 1 < Wosize_hd (Hd_val (mem s) v)
                then Some (Ret () ((store_at (r + 8) (oldify_todo_list s3) (store_at r field0 s3))\<lparr>oldify_todo_list := v\<rparr>))
                else caml_oldify_one rt H field0 r s3)
        | Longjmp s1 \<Rightarrow> Some (Longjmp s1) | Fatal e \<Rightarrow> Some (Fatal e) | Diverge \<Rightarrow> Some Diverge)"
  by (subst caml_oldify_one.simps [of rt H v p s]) (simp only: Let_def Field_0 mark_copied_def tag_order store_fields(2) simp_thms if_True if_False)

lemma oldify_eq4:
  "Is_block v \<and> Is_young s v \<Longrightarrow> Hd_val (mem s) v \<noteq> 0 \<Longrightarrow> \<not> Tag_hd (Hd_val (mem s) v) < Infix_tag \<Longrightarrow>
     No_scan_tag \<le> Tag_hd (Hd_val (mem s) v) \<Longrightarrow>
     caml_oldify_one rt H v p s =
       (case caml_alloc_shr_for_minor_gc rt H (Wosize_hd (Hd_val (mem s) v)) (Tag_hd (Hd_val (mem s) v)) s of
          Ret r s1 \<Rightarrow>
            Some (Ret () (store_at p r (mark_copied v r (copy_fields (unat (Wosize_hd (Hd_val (mem s) v))) r v s1))))
        | Longjmp s1 \<Rightarrow> Some (Longjmp s1) | Fatal e \<Rightarrow> Some (Fatal e) | Diverge \<Rightarrow> Some Diverge)"
  by (subst caml_oldify_one.simps [of rt H v p s]) (simp only: Let_def Field_0 mark_copied_def tag_order store_fields(2) simp_thms if_True if_False)

lemma oldify_eq5:
  "Is_block v \<and> Is_young s v \<Longrightarrow> Hd_val (mem s) v \<noteq> 0 \<Longrightarrow> Tag_hd (Hd_val (mem s) v) = Infix_tag \<Longrightarrow>
     caml_oldify_one rt H v p s = obind (caml_oldify_one rt H (v - Infix_offset_hd (Hd_val (mem s) v)) p s)
       (\<lambda>s1. Some (Ret () (store_at p (mem s1 p + Infix_offset_hd (Hd_val (mem s) v)) s1)))"
  by (subst caml_oldify_one.simps [of rt H v p s]) (simp only: Let_def Field_0 mark_copied_def tag_order store_fields(2) simp_thms if_True if_False)

lemma oldify_eq6:
  "Is_block v \<and> Is_young s v \<Longrightarrow> Hd_val (mem s) v \<noteq> 0 \<Longrightarrow> Tag_hd (Hd_val (mem s) v) = Forward_tag \<Longrightarrow>
     caml_oldify_one rt H v p s =
       (if keep_forward rt s (mem s v) then
          (case caml_alloc_shr_for_minor_gc rt H 1 Forward_tag s of
             Ret r s1 \<Rightarrow> caml_oldify_one rt H (mem s v) r (mark_copied v r (store_at p r s1))
           | Longjmp s1 \<Rightarrow> Some (Longjmp s1) | Fatal e \<Rightarrow> Some (Fatal e) | Diverge \<Rightarrow> Some Diverge)
        else caml_oldify_one rt H (mem s v) p s)"
  by (subst caml_oldify_one.simps [of rt H v p s]) (simp only: Let_def Field_0 mark_copied_def tag_order store_fields(2) simp_thms if_True if_False)

lemmas oldify_eqs = oldify_eq1 oldify_eq2 oldify_eq3 oldify_eq4 oldify_eq5 oldify_eq6

lemma oldify_other:
  assumes "wf_heap G" "copy_inv rt avail G s E T" "p \<in> E" "\<not> young_block G v"
  shows "ends (caml_oldify_one rt H v p s) (oldified rt avail G E T v p s)"
proof -
  have "\<not> (Is_block v \<and> Is_young s v)"
    using assms(4) copy_invD(1) [OF assms(2)] by (simp add: young_block_def same_young_def)
  then have run: "caml_oldify_one rt H v p s = Some (Ret () (store_at p v s))" by (rule oldify_eqs)
  note st = copy_inv_store [OF assms(2,1,3), of v]
  have "uncopied G (store_at p v s) = uncopied G s" using st(2) by (simp add: uncopied_def)
  then show ?thesis
    unfolding run using st assms(4) by (auto simp: oldified_def intro: exI [of _ "[]"])
qed

lemma young_header:
  assumes "wf_heap G" "copy_inv rt avail G s E T" "v \<in> g_blocks G"
  shows "copied G s v = None \<Longrightarrow> mem s (v - 8) = g_mem G (v - 8) \<and> mem s v = g_mem G v \<and> g_mem G (v - 8) \<noteq> 0"
    "copied G s v = Some r \<Longrightarrow> mem s (v - 8) = 0 \<and> mem s v = r"
proof -
  show "copied G s v = Some r \<Longrightarrow> mem s (v - 8) = 0 \<and> mem s v = r"
    by (simp add: copied_def split: if_splits)
  assume n: "copied G s v = None"
  have "v \<in> block_words v (bsize G v)" using wf_blockD(3) [OF assms(1,3)] block_wordsI(2) [of 0] by simp
  then have "mem s (v - 8) = g_mem G (v - 8)" "mem s v = g_mem G v"
    using copy_invD(3) [OF assms(2)] assms(3) n unfolding young_kept_def by (metis block_wordsI(1), metis)
  then show "mem s (v - 8) = g_mem G (v - 8) \<and> mem s v = g_mem G v \<and> g_mem G (v - 8) \<noteq> 0"
    using wf_blockD(4) [OF assms(1,3)] by simp
qed

lemma young_blockD:
  assumes "wf_heap G" "copy_inv rt avail G s E T" "v \<in> g_blocks G"
  shows "Is_block v \<and> Is_young s v"
  using wf_blockD(2) [OF assms(1,3)] copy_invD(1) [OF assms(2)] by (simp add: young_block_def same_young_def)

lemma oldify_copied:
  assumes "wf_heap G" "copy_inv rt avail G s E T" "p \<in> E" "copied G s v = Some r"
  shows "ends (caml_oldify_one rt H v p s) (oldified rt avail G E T v p s)"
proof -
  note b = copied_blocks [OF assms(4)]
  have run: "caml_oldify_one rt H v p s = Some (Ret () (store_at p r s))"
    using young_blockD [OF assms(1,2) b] young_header(2) [OF assms(1,2) b assms(4)] oldify_eqs(2) [of v s rt H p]
    by (simp add: Hd_val_def)
  note st = copy_inv_store [OF assms(2,1,3), of r]
  have "uncopied G (store_at p r s) = uncopied G s" using st(2) by (simp add: uncopied_def)
  moreover have "new_value G (copied G s) v = Some r"
    using new_value_block [OF assms(1) b copies_apartD(6) [OF copy_invD(4) [OF assms(2)] assms(4)]] assms(4) by simp
  ultimately show ?thesis
    unfolding run using st by (auto simp: oldified_def intro: exI [of _ "[]"])
qed

text \<open>
  The common part of the copying cases: the cell holds the address of the copy, the block is
  marked; the fields of the copy are not settled.
\<close>

lemma copy_started:
  assumes wf: "wf_heap G" and H: "heap_ok H avail" and inv: "copy_inv rt avail G s E T" and p: "p \<in> E"
    and v: "v \<in> g_blocks G" "copied G s v = None" "\<not> short_circuit G v"
    and ad: "alloc_done rt avail G E T v s r s1"
  defines "s3 \<equiv> mark_copied v r (store_at p r s1)"
  shows "copy_inv rt avail G s3 (E \<union> cells r (bsize G v)) T" "copied G s3 = (copied G s)(v \<mapsto> r)" "mem s3 p = r"
    "mem (store_at p r s1) v = g_mem G v" "E \<inter> cells r (bsize G v) = {}" "keeps s s3"
    "avail (fl_globals s3) \<subseteq> avail (fl_globals s)" "Suc (card (uncopied G s3)) = card (uncopied G s)" "v \<notin> set T"
    "\<forall>a. a \<noteq> p \<and> a \<notin> avail (fl_globals s) \<and> a \<notin> young_words G \<longrightarrow> mem s3 a = mem s a"
proof -
  have al: "copy_inv rt avail G s1 E T" "copied G s1 = copied G s" "fresh_copy avail G s1 v r"
      "avail (fl_globals s1) \<subseteq> avail (fl_globals s)" "\<forall>a. a \<notin> avail (fl_globals s) \<longrightarrow> mem s1 a = mem s a" "keeps s s1"
    using ad unfolding alloc_done_def by blast+
  note st = copy_inv_store [OF al(1) wf p, of r] and un = unsettled_old [OF al(1) wf p]
  have fr: "fresh_copy avail G (store_at p r s1) v r" by (rule fresh_store [OF al(1) wf al(3) p])
  have vw: "v \<in> young_words G" "v - 8 \<in> young_words G"
    using v(1) block_wordsI(1) [of v "bsize G v"] block_wordsI(2) [of 0 "bsize G v" v] wf_blockD(3) [OF wf v(1)]
    by (simp_all only: waddr_0) blast+
  have vc: "copied G (store_at p r s1) v = None" using st(2) al(2) v(2) by simp
  show "copy_inv rt avail G s3 (E \<union> cells r (bsize G v)) T"
    unfolding s3_def by (rule copy_inv_mark [OF wf st(1) v(1) vc fr v(3)])
  show c3: "copied G s3 = (copied G s)(v \<mapsto> r)" unfolding s3_def copied_mark [OF wf v(1)] st(2) al(2) ..
  show "mem s3 p = r" using un(1) vw unfolding s3_def by (auto simp: mem_mark)
  show "mem (store_at p r s1) v = g_mem G v" using young_header(1) [OF wf st(1) v(1) vc] by simp
  show "E \<inter> cells r (bsize G v) = {}" using fresh_apart [OF al(1) wf al(3)] cell_in_block by blast
  show "keeps s s3" using al(6) unfolding s3_def by simp
  show "avail (fl_globals s3) \<subseteq> avail (fl_globals s)" using al(4) unfolding s3_def by simp
  show "Suc (card (uncopied G s3)) = card (uncopied G s)" by (rule uncopied_mark [OF wf v(1,2) c3])
  show "v \<notin> set T" using todo_chainD [OF copy_invD(8) [OF inv], of v] v(2) by auto
  show "\<forall>a. a \<noteq> p \<and> a \<notin> avail (fl_globals s) \<and> a \<notin> young_words G \<longrightarrow> mem s3 a = mem s a"
    using al(5) vw unfolding s3_def by (auto simp: mem_mark)
qed
lemma card_cells_1: "cells r (Suc 0) = {r}"
  by (simp add: cells_def lessThan_Suc)

text \<open>A block of size one: the copy of its field goes on in the same call.\<close>

lemma oldify_single:
  assumes wf: "wf_heap G" and H: "heap_ok H avail" and inv: "copy_inv rt avail G s E T" and p: "p \<in> E"
    and v: "v \<in> g_blocks G" "copied G s v = None" "\<not> short_circuit G v" "btag G v < No_scan_tag" "bsize G v = 1"
    and IH: "oldify_up_to rt H avail G (card (uncopied G s))"
    and ad: "alloc_done rt avail G E T v s r s1"
  shows "ends (caml_oldify_one rt H (g_mem G v) r (mark_copied v r (store_at p r s1))) (oldified rt avail G E T v p s)"
proof -
  define s3 where "s3 = mark_copied v r (store_at p r s1)"
  note st = copy_started [OF wf H inv p v(1-3) ad, folded s3_def]
  have inv3: "copy_inv rt avail G s3 (insert r E) T" using st(1) v(5) by (simp add: card_cells_1)
  have "good G (g_mem G v)" using wf_blockD(10) [OF wf v(1,4), of 0] v(5) by simp
  then have "ends (caml_oldify_one rt H (g_mem G v) r s3) (oldified rt avail G (insert r E) T (g_mem G v) r s3)"
    using IH inv3 st(8) unfolding oldify_up_to_def by auto
  then show ?thesis
    unfolding s3_def [symmetric]
  proof (rule ends_mono)
    fix s' assume o: "oldified rt avail G (insert r E) T (g_mem G v) r s3 s'"
    then obtain T' where T': "copy_inv rt avail G s' (insert r E) (T' @ T)"
      "card (uncopied G s') + length T' \<le> card (uncopied G s3)" unfolding oldified_def by blast
    have mono: "copied G s3 \<subseteq>\<^sub>m copied G s'" and val: "new_value G (copied G s') (g_mem G v) = Some (mem s' r)"
      and av: "avail (fl_globals s') \<subseteq> avail (fl_globals s3)" and k: "keeps s3 s'"
      and fr: "\<And>a. a \<noteq> r \<Longrightarrow> a \<notin> avail (fl_globals s3) \<Longrightarrow> a \<notin> young_words G \<Longrightarrow> mem s' a = mem s3 a"
      using o unfolding oldified_def by blast+
    have cv: "copied G s' v = Some r" using map_leD [OF mono, of v r] st(2) by simp
    have rE: "r \<notin> E" using st(5) v(5) by (auto simp: card_cells_1)
    have settle: "settled G s' (T' @ T) r"
      unfolding settled_def
    proof (intro conjI impI allI)
      assume "r \<in> g_cells G"
      moreover have "r \<in> block_words r (bsize G v)" using v(5) block_wordsI(2) [of 0 "bsize G v" r] by simp
      ultimately show "mem s' r = g_mem G r \<or> new_value G (copied G s') (g_mem G r) = Some (mem s' r)"
        using copies_apartD(2) [OF copy_invD(4) [OF T'(1)] cv] wf_cellsD(2) [OF wf] by blast
    next
      fix w q i assume h: "copied G s' w = Some q \<and> i < bsize G w \<and> w \<notin> set (T' @ T) \<and> r = waddr q i"
      have "w = v"
      proof (rule ccontr)
        assume "w \<noteq> v"
        then show False
          using copies_apartD(7) [OF copy_invD(4) [OF T'(1)] _ cv, of w q r] h block_wordsI(2) [of 0 "bsize G v" r] v(5)
            block_wordsI(2) [of i "bsize G w" q] by simp
      qed
      then show "if btag G w < No_scan_tag then new_value G (copied G s') (g_mem G (waddr w i)) = Some (mem s' r)
          else mem s' r = g_mem G (waddr w i)"
        using h v(4,5) val by simp
    qed
    have rav: "r \<in> avail (fl_globals s)"
    proof -
      have "r \<in> block_words r (bsize G v)" using v(5) block_wordsI(2) [of 0 "bsize G v" r] by simp
      then show ?thesis using ad unfolding alloc_done_def by blast
    qed
    have "copy_inv rt avail G s' E (T' @ T)"
      using rE settle by (intro copy_inv_settle [OF T'(1)]) auto
    moreover have "mem s' p = r"
    proof -
      have "p \<noteq> r" using rE p by blast
      moreover have "p \<notin> young_words G" "p \<notin> avail (fl_globals s3)" using unsettled_old [OF inv3 wf] p by blast+
      ultimately show ?thesis using fr [of p] st(3) by simp
    qed
    moreover have "new_value G (copied G s') v = Some r" using new_value_block [OF wf v(1,3)] cv by simp
    moreover have "copied G s \<subseteq>\<^sub>m copied G s'"
      using mono st(2) v(2) by (rule_tac map_le_trans [OF _ mono]) (auto simp: map_le_def)
    moreover have "mem s' a = mem s a" if "a \<noteq> p" "a \<notin> avail (fl_globals s)" "a \<notin> young_words G" for a
    proof -
      have "a \<noteq> r" using rav that(2) by blast
      moreover have "a \<notin> avail (fl_globals s3)" using st(7) that(2) by blast
      ultimately show ?thesis using fr [of a] st(10) that by simp
    qed
    ultimately show "oldified rt avail G E T v p s s'"
      unfolding oldified_def using T'(2) st(6,7,8) av keeps_trans [OF st(6) k] by auto
  qed
qed
text \<open>A larger block to be scanned: the copy goes on the list.\<close>

lemma oldify_queued:
  assumes wf: "wf_heap G" and H: "heap_ok H avail" and inv: "copy_inv rt avail G s E T" and p: "p \<in> E"
    and v: "v \<in> g_blocks G" "copied G s v = None" "\<not> short_circuit G v" "btag G v < No_scan_tag" "1 < bsize G v"
    and ad: "alloc_done rt avail G E T v s r s1"
  defines "s3 \<equiv> mark_copied v r (store_at p r s1)"
  defines "s4 \<equiv> store_at (r + 8) (oldify_todo_list s3) (store_at r (g_mem G v) s3)"
  shows "oldified rt avail G E T v p s (s4\<lparr>oldify_todo_list := v\<rparr>)"
proof -
  note st = copy_started [OF wf H inv p v(1-3) ad, folded s3_def]
  let ?E = "E \<union> cells r (bsize G v)"
  have rc: "r \<in> cells r (bsize G v)" "r + 8 \<in> cells r (bsize G v)"
    using waddr_in_cells [of 0 "bsize G v" r] waddr_in_cells [of 1 "bsize G v" r] v(5) by (simp_all add: waddr_1)
  have ne: "r + 8 \<noteq> r" by simp
  note st1 = copy_inv_store [OF st(1) wf, of r "g_mem G v"]
  have inv3: "copy_inv rt avail G (store_at r (g_mem G v) s3) ?E T" "copied G (store_at r (g_mem G v) s3) = copied G s3"
    using st1 rc(1) by blast+
  have inv4: "copy_inv rt avail G s4 ?E T" "copied G s4 = copied G s3"
    using copy_inv_store [OF inv3(1) wf, of "r + 8"] inv3(2) rc(2) unfolding s4_def by auto
  have m4: "mem s4 r = g_mem G v" "mem s4 (r + 8) = oldify_todo_list s4" "oldify_todo_list s4 = oldify_todo_list s3"
    using ne unfolding s4_def by (auto simp del: add_cancel_left_right)
  have cv: "copied G s4 v = Some r" using inv4(2) st(2) by simp
  have "copy_inv rt avail G (s4\<lparr>oldify_todo_list := v\<rparr>) (?E - cells r (bsize G v)) (v # T)"
    by (rule copy_inv_push [OF wf inv4(1) cv st(9) v(4,5) m4(1,2)])
  moreover have "?E - cells r (bsize G v) = E" using st(5) by blast
  ultimately have "copy_inv rt avail G (s4\<lparr>oldify_todo_list := v\<rparr>) E ([v] @ T)" by simp
  moreover have "card (uncopied G (s4\<lparr>oldify_todo_list := v\<rparr>)) + length [v] \<le> card (uncopied G s)"
    using st(8) inv4(2) by (simp add: uncopied_def)
  moreover have "copied G s \<subseteq>\<^sub>m copied G (s4\<lparr>oldify_todo_list := v\<rparr>)" using inv4(2) st(2) v(2) by (auto simp: map_le_def)
  moreover have "mem s4 p = r"
  proof -
    have "p \<noteq> r" "p \<noteq> r + 8" using rc st(5) p by blast+
    then show ?thesis using st(3) unfolding s4_def by simp
  qed
  moreover have "mem s4 a = mem s a" if "a \<noteq> p" "a \<notin> avail (fl_globals s)" "a \<notin> young_words G" for a
  proof -
    have "cells r (bsize G v) \<subseteq> avail (fl_globals s)" using ad cell_in_block unfolding alloc_done_def by blast
    then have "a \<noteq> r" "a \<noteq> r + 8" using rc that(2) by blast+
    then show ?thesis using st(10) that unfolding s4_def by simp
  qed
  moreover have "new_value G (copied G s4) v = Some r" using new_value_block [OF wf v(1,3)] cv by simp
  moreover have "keeps s s4" "avail (fl_globals s4) \<subseteq> avail (fl_globals s)" using st(6,7) unfolding s4_def by simp_all
  ultimately show ?thesis unfolding oldified_def by (auto intro!: exI [of _ "[v]"])
qed

text \<open>A block of bytes: its words are copied at once.\<close>

lemma copy_fields_mem:
  fixes s :: gc_state
  assumes "\<forall>i<n. \<forall>j<n. waddr dst i \<noteq> waddr src j" "n < 2 ^ 54" "k \<le> n"
  defines "s' \<equiv> copy_fields k dst src s"
  shows "(\<forall>i<k. mem s' (waddr dst i) = mem s (waddr src i)) \<and> (\<forall>a. a \<notin> cells dst k \<longrightarrow> mem s' a = mem s a) \<and>
    fl_globals s' = fl_globals s \<and> oldify_todo_list s' = oldify_todo_list s \<and> keeps s s' \<and>
    same_young rt G s' = same_young rt G s"
  using assms(3) unfolding s'_def
proof (induction k)
  case (Suc k)
  let ?t = "copy_fields k dst src s"
  have step: "copy_fields (Suc k) dst src s = store_at (waddr dst k) (mem ?t (waddr src k)) ?t"
    by (simp add: copy_fields_def)
  have IH: "\<forall>i<k. mem ?t (waddr dst i) = mem s (waddr src i)" "\<forall>a. a \<notin> cells dst k \<longrightarrow> mem ?t a = mem s a"
    "fl_globals ?t = fl_globals s \<and> oldify_todo_list ?t = oldify_todo_list s \<and> keeps s ?t \<and> same_young rt G ?t = same_young rt G s"
    using Suc by simp_all
  have "waddr src k \<notin> cells dst k"
  proof
    assume "waddr src k \<in> cells dst k"
    then obtain i where "i < k" "waddr src k = waddr dst i" by (auto simp: mem_cells_iff)
    then show False using assms(1) Suc.prems by (metis Suc_le_lessD less_trans)
  qed
  then have src: "mem ?t (waddr src k) = mem s (waddr src k)" using IH(2) by simp
  have "waddr dst i \<noteq> waddr dst k" if "i < k" for i
    using waddr_inj [of i k dst] that Suc.prems assms(2) by simp
  then have "\<forall>i<Suc k. mem (copy_fields (Suc k) dst src s) (waddr dst i) = mem s (waddr src i)"
    using IH(1) src unfolding step by (auto simp: less_Suc_eq)
  moreover have "\<forall>a. a \<notin> cells dst (Suc k) \<longrightarrow> mem (copy_fields (Suc k) dst src s) a = mem s a"
    using IH(2) unfolding step by (auto simp: cells_Suc_last)
  ultimately show ?case using IH(3) unfolding step by simp
qed (simp add: copy_fields_def)

lemma oldify_bytes:
  assumes wf: "wf_heap G" and H: "heap_ok H avail" and inv: "copy_inv rt avail G s E T" and p: "p \<in> E"
    and v: "v \<in> g_blocks G" "copied G s v = None" "\<not> short_circuit G v" "\<not> btag G v < No_scan_tag"
    and ad: "alloc_done rt avail G E T v s r s1"
  shows "oldified rt avail G E T v p s (store_at p r (mark_copied v r (copy_fields (bsize G v) r v s1)))"
proof -
  let ?n = "bsize G v" and ?t = "copy_fields (bsize G v) r v s1"
  have al: "copy_inv rt avail G s1 E T" "copied G s1 = copied G s" "fresh_copy avail G s1 v r"
      "block_words r ?n \<subseteq> avail (fl_globals s)" "avail (fl_globals s1) \<subseteq> avail (fl_globals s)"
      "\<forall>a. a \<notin> avail (fl_globals s) \<longrightarrow> mem s1 a = mem s a" "keeps s s1"
    using ad unfolding alloc_done_def by blast+
  have fr: "block_words r ?n \<subseteq> g_free G" using al(3) unfolding fresh_copy_def by blast
  have "\<forall>i<?n. \<forall>j<?n. waddr r i \<noteq> waddr v j"
    using fr wf_blockD(9) [OF wf v(1)] block_wordsI(2) by (metis disjoint_iff subsetD)
  note cf = copy_fields_mem [OF this bsize_less order.refl, of s1 rt G]
  have nc: "a \<notin> block_words q (bsize G w)" if "copied G s1 w = Some q" "a \<in> cells r ?n" for w q a
    using al(3) that cell_in_block unfolding fresh_copy_def by blast
  have "cells r ?n \<subseteq> g_free G" using fr cell_in_block by blast
  then have t: "copy_inv rt avail G ?t E T \<and> copied G ?t = copied G s1"
    using cf nc copy_invD(1) [OF al(1)] by (intro copy_inv_agree [OF wf al(1)]) (simp_all, blast)
  have "r - 8 \<notin> cells r ?n" using header_not_cell [of _ G v r] by (auto simp: mem_cells_iff)
  then have "fresh_copy avail G ?t v r"
    using al(3) cf t unfolding fresh_copy_def Wosize_val_def Hd_val_def by simp
  moreover have "keeps s ?t" using al(7) cf keeps_trans by blast
  moreover have "mem ?t a = mem s a" if "a \<notin> avail (fl_globals s)" for a
  proof -
    have "a \<notin> cells r ?n" using al(4) that cell_in_block by blast
    then show ?thesis using cf al(6) that by simp
  qed
  ultimately have ad': "alloc_done rt avail G E T v s r ?t"
    using t al cf ad unfolding alloc_done_def by simp
  let ?u = "mark_copied v r ?t"
  have pv: "store_at p r ?u = mark_copied v r (store_at p r ?t)"
  proof -
    have "v \<in> young_words G" "v - 8 \<in> young_words G"
      using v(1) block_wordsI(1) [of v ?n] block_wordsI(2) [of 0 ?n v] wf_blockD(3) [OF wf v(1)]
      by (simp_all only: waddr_0) blast+
    then have "p \<noteq> v" "p \<noteq> v - 8" using unsettled_old(1) [OF inv wf p] by auto
    then show ?thesis by (simp add: mark_copied_def store_at_def fun_upd_twist)
  qed
  define s3 where "s3 = mark_copied v r (store_at p r ?t)"
  note st = copy_started [OF wf H inv p v(1-3) ad', folded s3_def]
  have cv: "copied G s3 v = Some r" using st(2) by simp
  have m3: "mem s3 (waddr r i) = g_mem G (waddr v i)" if "i < ?n" for i
  proof -
    have w: "waddr r i \<in> g_free G" "waddr r i \<in> cells r ?n" using fr that by auto
    then have "waddr r i \<noteq> p" using st(5) p by blast
    moreover have "waddr r i \<noteq> v" "waddr r i \<noteq> v - 8"
      using w(1) wf_blockD(9) [OF wf v(1)] block_wordsI(1) [of v ?n] block_wordsI(2) [of 0 ?n v] wf_blockD(3) [OF wf v(1)]
      by (metis disjoint_iff waddr_0, metis disjoint_iff)
    ultimately have "mem s3 (waddr r i) = mem ?t (waddr r i)" unfolding s3_def by (simp add: mem_mark)
    also have "\<dots> = mem s1 (waddr v i)" using cf that by simp
    also have "\<dots> = g_mem G (waddr v i)"
      using copy_invD(3) [OF al(1)] v(1,2) al(2) that block_wordsI(2) [of i ?n v] unfolding young_kept_def by simp
    finally show ?thesis .
  qed
  have "settled G s3 T e" if e: "e \<in> cells r ?n" for e
    unfolding settled_def
  proof (intro conjI impI allI)
    assume "e \<in> g_cells G"
    then show "mem s3 e = g_mem G e \<or> new_value G (copied G s3) (g_mem G e) = Some (mem s3 e)"
      using e fr cell_in_block wf_cellsD(2) [OF wf] by blast
  next
    fix w q i assume h: "copied G s3 w = Some q \<and> i < bsize G w \<and> w \<notin> set T \<and> e = waddr q i"
    have "w = v"
      using copies_apartD(7) [OF copy_invD(4) [OF st(1)] _ cv, of w q e] h e cell_in_block block_wordsI(2) [of i "bsize G w" q]
      by blast
    then show "if btag G w < No_scan_tag then new_value G (copied G s3) (g_mem G (waddr w i)) = Some (mem s3 e)
        else mem s3 e = g_mem G (waddr w i)" using h cv v(4) m3 [of i] by simp
  qed
  then have "copy_inv rt avail G s3 E T" by (intro copy_inv_settle [OF st(1)]) auto
  moreover have "new_value G (copied G s3) v = Some r" using new_value_block [OF wf v(1,3)] cv by simp
  moreover have "copied G s \<subseteq>\<^sub>m copied G s3" using st(2) v(2) by (auto simp: map_le_def)
  ultimately show ?thesis
    unfolding pv s3_def [symmetric] oldified_def using st(3,6,7,8,10) by (auto intro!: exI [of _ "[]"])
qed
lemma infix_ptrD:
  assumes "wf_heap G" "infix_ptr G x"
  obtains k where "2 \<le> k" "k < bsize G (infix_start G x)" "x = waddr (infix_start G x) k" "x - 8 = waddr (infix_start G x) (k - 1)"
    "infix_start G x \<in> g_blocks G" "btag G (infix_start G x) < Infix_tag" "btag G x = Infix_tag" "aligned x"
proof -
  obtain k where k: "2 \<le> k" "k < bsize G (infix_start G x)" "Infix_offset_val (g_mem G) x = 8 * of_nat k"
    and b: "infix_start G x \<in> g_blocks G" "btag G (infix_start G x) < Infix_tag" "btag G x = Infix_tag"
    using assms(2) unfolding infix_ptr_def by blast
  have x: "x = waddr (infix_start G x) k" using k(3) by (simp add: infix_start_def waddr_def)
  moreover have "x - 8 = waddr (infix_start G x) (k - 1)"
  proof -
    obtain j where "k = Suc j" using k(1) by (cases k) auto
    then have "waddr (infix_start G x) k - 8 = waddr (infix_start G x) (k - 1)" by (simp add: waddr_def algebra_simps)
    then show ?thesis using x by simp
  qed
  moreover have "aligned x"
    using x wf_blockD(2) [OF assms(1) b(1)] aligned_add [OF _ aligned_mult8] unfolding waddr_def by metis
  ultimately show thesis using that k(1,2) b by blast
qed

lemma infix_header:
  assumes "wf_heap G" "copy_inv rt avail G s E T" "infix_ptr G x"
  shows "mem s (x - 8) = g_mem G (x - 8)" "mem s (x - 8) \<noteq> 0"
proof -
  obtain k where k: "2 \<le> k" "k < bsize G (infix_start G x)" "x - 8 = waddr (infix_start G x) (k - 1)"
    "infix_start G x \<in> g_blocks G" "btag G x = Infix_tag"
    using infix_ptrD [OF assms(1,3)] by metis
  have "0 < k - 1 \<and> k - 1 < bsize G (infix_start G x)" using k(1,2) by linarith
  then show m: "mem s (x - 8) = g_mem G (x - 8)"
    using copy_invD(3) [OF assms(2)] k(3,4) unfolding young_kept_def by metis
  have "Tag_hd 0 \<noteq> Infix_tag" by (simp add: Tag_hd_def Infix_tag_def)
  then show "mem s (x - 8) \<noteq> 0" using m k(5) by metis
qed

text \<open>The test on a forward block gives the same answer throughout the copy.\<close>

lemma keep_forward_iff:
  assumes wf: "wf_heap G" and inv: "copy_inv rt avail G s E T" and v: "v \<in> g_blocks G" "btag G v = Forward_tag"
  shows "keep_forward rt s (g_mem G v) = (\<not> short_circuit G v)"
proof -
  let ?f = "g_mem G v"
  note I = copy_invD [OF inv]
  have young: "Is_young s ?f = g_young G ?f" using I(1) by (simp add: same_young_def)
  have good: "good G ?f"
  proof -
    have "btag G v < No_scan_tag" using v(2) by (simp add: Forward_tag_def No_scan_tag_def)
    then show ?thesis using wf_blockD(10) [OF wf v(1), of 0] wf_blockD(6) [OF wf v(1)] v(2) by simp
  qed
  consider "\<not> Is_block ?f" | "young_block G ?f" | "Is_block ?f" "\<not> g_young G ?f" by (auto simp: young_block_def)
  then show ?thesis
  proof cases
    case 1
    then show ?thesis
      using v(2) by (simp add: keep_forward_def short_circuit_def Forward_tag_def Lazy_tag_def Double_tag_def)
  next
    case 2
    have "Tag_val (mem s) (if Hd_val (mem s) ?f = 0 then Field (mem s) ?f 0 else ?f) = btag G ?f"
    proof (cases "?f \<in> g_blocks G")
      case True
      show ?thesis
      proof (cases "copied G s ?f")
        case None
        then show ?thesis
          using young_header(1) [OF wf inv True] wf_blockD(2) [OF wf True] by (simp add: Hd_val_def Tag_val_aligned)
      next
        case (Some r)
        then show ?thesis
          using young_header(2) [OF wf inv True] copies_apartD(1,5) [OF I(4) Some]
          by (simp add: Hd_val_def Tag_val_aligned Field_0)
      qed
    next
      case False
      then have i: "infix_ptr G ?f" using good 2 by (simp add: good_def)
      have "aligned ?f" using infix_ptrD [OF wf i] by metis
      then show ?thesis using infix_header [OF wf inv i] by (simp add: Hd_val_def Tag_val_aligned)
    qed
    then show ?thesis
      using 2 v(2) young by (simp add: keep_forward_def short_circuit_def young_block_def Let_def)
  next
    case 3
    have f: "?f \<notin> g_free G" "g_area G ?f \<Longrightarrow> aligned ?f \<and> ?f - 8 \<notin> g_cells G \<union> g_free G \<union> young_words G"
      using wf_blockD(7) [OF wf v(1)] v(2) 3 unfolding forward_ok_def young_block_def by blast+
    have area: "Is_in_value_area rt (caml_state.truncate s) ?f = g_area G ?f" using I(1) f(1) by (simp add: same_young_def)
    have "g_area G ?f \<Longrightarrow> Tag_val (mem s) ?f = btag G ?f"
      using f(2) I(2) unfolding old_kept_def by (simp add: Tag_val_aligned Hd_val_def)
    then show ?thesis
      using 3 v(2) young area by (auto simp: keep_forward_def short_circuit_def Let_def)
  qed
qed

subsection \<open>All cases\<close>

lemma forward_between: "t \<noteq> Infix_tag \<Longrightarrow> t < Infix_tag \<or> No_scan_tag \<le> t \<or> t = Forward_tag"
  unfolding Infix_tag_def No_scan_tag_def Forward_tag_def by unat_arith

lemma alloc_at:
  assumes "wf_heap G" "heap_ok H avail" "copy_inv rt avail G s E T" "v \<in> g_blocks G" "copied G s v = None"
  obtains "caml_alloc_shr_for_minor_gc rt H (Wosize_hd (Hd_val (mem s) v)) (Tag_hd (Hd_val (mem s) v)) s = Fatal ''out of memory''"
  | r s1 where "caml_alloc_shr_for_minor_gc rt H (Wosize_hd (Hd_val (mem s) v)) (Tag_hd (Hd_val (mem s) v)) s = Ret r s1"
      "alloc_done rt avail G E T v s r s1"
proof -
  have h: "Hd_val (mem s) v = g_mem G (v - 8)" using young_header(1) [OF assms(1,3,4,5)] by (simp add: Hd_val_def)
  show thesis using alloc_ok [OF assms(1-4)] that unfolding h by (auto simp: Wosize_val_def Hd_val_def)
qed

lemma oldify_block:
  assumes wf: "wf_heap G" and H: "heap_ok H avail" and inv: "copy_inv rt avail G s E T" and p: "p \<in> E"
    and v: "v \<in> g_blocks G" "\<not> short_circuit G v" and IH: "oldify_up_to rt H avail G (card (uncopied G s))"
  shows "ends (caml_oldify_one rt H v p s) (oldified rt avail G E T v p s)"
proof (cases "copied G s v")
  case (Some r)
  then show ?thesis by (rule oldify_copied [OF wf inv p])
next
  case None
  note h = young_header(1) [OF wf inv v(1) None] and y = young_blockD [OF wf inv v(1)]
  have hd: "Hd_val (mem s) v \<noteq> 0" "Tag_hd (Hd_val (mem s) v) = btag G v" "Wosize_hd (Hd_val (mem s) v) = Wosize_val (g_mem G) v"
    using h by (simp_all add: Hd_val_def Wosize_val_def)
  have one: "1 < Wosize_val (g_mem G) v \<longleftrightarrow> 1 < bsize G v" by (simp add: bsize_def word_less_nat_alt)
  have tags: "t < Infix_tag \<Longrightarrow> t < No_scan_tag" for t unfolding Infix_tag_def No_scan_tag_def by unat_arith
  consider (scan) "btag G v < Infix_tag" | (bytes) "No_scan_tag \<le> btag G v" | (forward) "btag G v = Forward_tag"
    using wf_blockD(5) [OF wf v(1)] forward_between by blast
  then show ?thesis
  proof cases
    case scan
    note eq = oldify_eqs(3) [OF y hd(1), unfolded hd(2,3), OF scan, of rt H p]
    show ?thesis
    proof (rule alloc_at [OF wf H inv v(1) None, unfolded hd(2,3)])
      assume "caml_alloc_shr_for_minor_gc rt H (Wosize_val (g_mem G) v) (btag G v) s = Fatal ''out of memory''"
      then show ?thesis unfolding eq by simp
    next
      fix r s1 assume al: "caml_alloc_shr_for_minor_gc rt H (Wosize_val (g_mem G) v) (btag G v) s = Ret r s1"
        and ad: "alloc_done rt avail G E T v s r s1"
      note f0 = copy_started(4) [OF wf H inv p v(1) None v(2) ad]
      show ?thesis
      proof (cases "1 < bsize G v")
        case True
        then show ?thesis
          using oldify_queued [OF wf H inv p v(1) None v(2) tags [OF scan] True ad] unfolding eq al one cres.case Let_def f0 by simp
      next
        case False
        then have "bsize G v = 1" using wf_blockD(3) [OF wf v(1)] by simp
        then show ?thesis
          using oldify_single [OF wf H inv p v(1) None v(2) tags [OF scan] _ IH ad] False unfolding eq al one cres.case Let_def f0 by simp
      qed
    qed
  next
    case bytes
    have nt: "\<not> btag G v < Infix_tag" "\<not> btag G v < No_scan_tag" using bytes tags by force+
    note eq = oldify_eqs(4) [OF y hd(1), unfolded hd(2,3), OF nt(1) bytes, of rt H p]
    show ?thesis
    proof (rule alloc_at [OF wf H inv v(1) None, unfolded hd(2,3)])
      assume "caml_alloc_shr_for_minor_gc rt H (Wosize_val (g_mem G) v) (btag G v) s = Fatal ''out of memory''"
      then show ?thesis unfolding eq by simp
    next
      fix r s1 assume "caml_alloc_shr_for_minor_gc rt H (Wosize_val (g_mem G) v) (btag G v) s = Ret r s1"
        "alloc_done rt avail G E T v s r s1"
      then show ?thesis
        using oldify_bytes [OF wf H inv p v(1) None v(2) nt(2)] unfolding eq by (simp add: bsize_def)
    qed
  next
    case forward
    have w1: "Wosize_val (g_mem G) v = 1" "bsize G v = 1"
      using wf_blockD(6) [OF wf v(1) forward] by (simp_all add: bsize_def word_unat_eq_iff)
    have sc: "btag G v < No_scan_tag" unfolding forward by (simp add: Forward_tag_def No_scan_tag_def)
    have k: "keep_forward rt s (mem s v)" using keep_forward_iff [OF wf inv v(1) forward] v(2) h by simp
    note eq = oldify_eqs(6) [OF y hd(1), unfolded hd(2), OF forward, of rt H p]
    show ?thesis
    proof (rule alloc_at [OF wf H inv v(1) None, unfolded hd(2,3) w1(1) forward])
      assume "caml_alloc_shr_for_minor_gc rt H 1 Forward_tag s = Fatal ''out of memory''"
      then show ?thesis unfolding eq using k by simp
    next
      fix r s1 assume "caml_alloc_shr_for_minor_gc rt H 1 Forward_tag s = Ret r s1" "alloc_done rt avail G E T v s r s1"
      then show ?thesis
        using oldify_single [OF wf H inv p v(1) None v(2) sc w1(2) IH] h k unfolding eq by simp
    qed
  qed
qed
lemma oldify_infix:
  assumes wf: "wf_heap G" and H: "heap_ok H avail" and inv: "copy_inv rt avail G s E T" and p: "p \<in> E"
    and x: "young_block G x" "infix_ptr G x" and IH: "oldify_up_to rt H avail G (card (uncopied G s))"
  shows "ends (caml_oldify_one rt H x p s) (oldified rt avail G E T x p s)"
proof -
  let ?w = "infix_start G x" and ?o = "Infix_offset_val (g_mem G) x"
  have w: "?w \<in> g_blocks G" "btag G ?w < Infix_tag" "btag G x = Infix_tag" using infix_ptrD [OF wf x(2)] by metis+
  have nf: "t < Infix_tag \<or> t = Infix_tag \<Longrightarrow> t \<noteq> Forward_tag" for t by (auto simp: Infix_tag_def Forward_tag_def)
  have ns: "\<not> short_circuit G ?w" "\<not> short_circuit G x" using w nf by (auto simp: short_circuit_def)
  note hd = infix_header [OF wf inv x(2)]
  have y: "Is_block x \<and> Is_young s x" using x(1) copy_invD(1) [OF inv] by (simp add: young_block_def same_young_def)
  have "caml_oldify_one rt H x p s = obind (caml_oldify_one rt H ?w p s) (\<lambda>s1. Some (Ret () (store_at p (mem s1 p + ?o) s1)))"
    using oldify_eqs(5) [OF y, of rt H p] hd w(3) by (simp add: Hd_val_def infix_start_def Infix_offset_val_def)
  moreover have "ends (obind (caml_oldify_one rt H ?w p s) (\<lambda>s1. Some (Ret () (store_at p (mem s1 p + ?o) s1))))
      (oldified rt avail G E T x p s)"
  proof (rule ends_obind [OF oldify_block [OF wf H inv p w(1) ns(1) IH]])
    fix s1 assume o: "oldified rt avail G E T ?w p s s1"
    then obtain T' where T': "copy_inv rt avail G s1 E (T' @ T)" "card (uncopied G s1) + length T' \<le> card (uncopied G s)"
      unfolding oldified_def by blast
    note st = copy_inv_store [OF T'(1) wf p, of "mem s1 p + ?o"]
    have "copied G s1 ?w = Some (mem s1 p)"
      using o new_value_block [OF wf w(1) ns(1)] unfolding oldified_def by simp
    then have "new_value G (copied G s1) x = Some (mem s1 p + ?o)"
      using x(1) ns(2) w(3) by (simp add: new_value_def new_value0_def)
    moreover have "uncopied G (store_at p (mem s1 p + ?o) s1) = uncopied G s1" using st(2) by (simp add: uncopied_def)
    ultimately show "ends (Some (Ret () (store_at p (mem s1 p + ?o) s1))) (oldified rt avail G E T x p s)"
      using o st T' unfolding oldified_def by (auto intro!: exI [of _ T'])
  qed
  ultimately show ?thesis by simp
qed

lemma oldify_short:
  assumes wf: "wf_heap G" and H: "heap_ok H avail" and inv: "copy_inv rt avail G s E T" and p: "p \<in> E"
    and v: "v \<in> g_blocks G" "short_circuit G v" and IH: "oldify_up_to rt H avail G (card (uncopied G s))"
  shows "ends (caml_oldify_one rt H v p s) (oldified rt avail G E T v p s)"
proof -
  let ?f = "g_mem G v"
  have tag: "btag G v = Forward_tag" using v(2) by (simp add: short_circuit_def)
  have None: "copied G s v = None"
    using copies_apartD(6) [OF copy_invD(4) [OF inv], of v] v(2) by (cases "copied G s v") auto
  note h = young_header(1) [OF wf inv v(1) None]
  have "btag G v < No_scan_tag" unfolding tag by (simp add: Forward_tag_def No_scan_tag_def)
  then have good: "good G ?f" using wf_blockD(10) [OF wf v(1), of 0] wf_blockD(6) [OF wf v(1) tag] by simp
  have nf: "\<not> (young_block G ?f \<and> short_circuit G ?f)"
    using v(2) unfolding short_circuit_def young_block_def by (auto simp: Let_def)
  have run: "caml_oldify_one rt H v p s = caml_oldify_one rt H ?f p s"
    using oldify_eqs(6) [OF young_blockD [OF wf inv v(1)], of rt H p] keep_forward_iff [OF wf inv v(1) tag] v(2) h tag
    by (simp add: Hd_val_def)
  have val: "new_value G \<phi> v = new_value G \<phi> ?f" for \<phi>
    using nf v(2) wf_blockD(2) [OF wf v(1)] unfolding new_value_def by auto
  have "ends (caml_oldify_one rt H ?f p s) (oldified rt avail G E T ?f p s)"
  proof (cases "young_block G ?f")
    case False
    then show ?thesis by (rule oldify_other [OF wf inv p])
  next
    case True
    show ?thesis
    proof (cases "?f \<in> g_blocks G")
      case True
      then show ?thesis using oldify_block [OF wf H inv p _ _ IH] nf \<open>young_block G ?f\<close> by blast
    next
      case False
      then show ?thesis using oldify_infix [OF wf H inv p True _ IH] good True by (simp add: good_def)
    qed
  qed
  then show ?thesis unfolding run oldified_def val .
qed

lemma oldify_all: "wf_heap G \<Longrightarrow> heap_ok H avail \<Longrightarrow> oldify_up_to rt H avail G n"
proof (induction n)
  case (Suc n)
  then have IH: "oldify_up_to rt H avail G n" by blast
  show ?case
    unfolding oldify_up_to_def
  proof (intro allI impI, elim conjE)
    fix E T v p s
    assume h: "copy_inv rt avail G s E T" "p \<in> E" "good G v" "card (uncopied G s) < Suc n"
    then have IH': "oldify_up_to rt H avail G (card (uncopied G s))" using IH unfolding oldify_up_to_def by auto
    consider "\<not> young_block G v" | "v \<in> g_blocks G" "\<not> short_circuit G v" | "v \<in> g_blocks G" "short_circuit G v"
      | "young_block G v" "infix_ptr G v" using h(3) by (auto simp: good_def)
    then show "ends (caml_oldify_one rt H v p s) (oldified rt avail G E T v p s)"
      using oldify_other [OF Suc.prems(1) h(1,2)] oldify_block [OF Suc.prems h(1,2) _ _ IH']
        oldify_short [OF Suc.prems h(1,2) _ _ IH'] oldify_infix [OF Suc.prems h(1,2) _ _ IH']
      by cases blast+
  qed
qed (simp add: oldify_up_to_def)

lemma oldify_one_ok:
  assumes "wf_heap G" "heap_ok H avail" "copy_inv rt avail G s E T" "p \<in> E" "good G v"
  shows "ends (caml_oldify_one rt H v p s) (oldified rt avail G E T v p s)"
  using oldify_all [OF assms(1,2), of rt "Suc (card (uncopied G s))"] assms(3-5) unfolding oldify_up_to_def by blast
section \<open>Runs of the collector\<close>

definition done_cell :: "young_heap \<Rightarrow> gc_state \<Rightarrow> u64 \<Rightarrow> bool" where
  "done_cell G s l \<longleftrightarrow> new_value G (copied G s) (g_mem G l) = Some (mem s l)"

text \<open>A run that may have changed the cells \<open>P\<close>, and keeps what is done.\<close>

definition advance :: "((nat \<Rightarrow> u64) \<Rightarrow> u64 set) \<Rightarrow> young_heap \<Rightarrow> u64 set \<Rightarrow> gc_state \<Rightarrow> gc_state \<Rightarrow> bool" where
  "advance avail G P s s' \<longleftrightarrow> copied G s \<subseteq>\<^sub>m copied G s' \<and> avail (fl_globals s') \<subseteq> avail (fl_globals s) \<and> keeps s s' \<and>
     card (uncopied G s') \<le> card (uncopied G s) \<and>
     (\<forall>a. a \<notin> P \<and> a \<notin> g_free G \<and> a \<notin> young_words G \<longrightarrow> mem s' a = mem s a) \<and>
     (\<forall>l\<in>g_cells G. done_cell G s l \<longrightarrow> done_cell G s' l)"

lemma advance_refl [simp]: "advance avail G P s s"
  by (simp add: advance_def)

lemma advance_trans:
  assumes "advance avail G P s t" "advance avail G Q t u" "P \<union> Q \<subseteq> R"
  shows "advance avail G R s u"
proof -
  have "\<forall>a. a \<notin> R \<and> a \<notin> g_free G \<and> a \<notin> young_words G \<longrightarrow> mem u a = mem s a"
    using assms unfolding advance_def by (metis UnI1 UnI2 subsetD)
  then show ?thesis
    using assms(1,2) keeps_trans unfolding advance_def by (auto intro: map_le_trans)
qed

lemma advance_mono: "advance avail G P s t \<Longrightarrow> P \<subseteq> Q \<Longrightarrow> advance avail G Q s t"
  using advance_trans [of avail G P s t P t Q] by simp

lemma copy_inv_unsettle:
  assumes "copy_inv rt avail G s E T" "E' \<subseteq> g_cells G"
  shows "copy_inv rt avail G s (E \<union> E') T"
  using copy_invD [OF assms(1)] assms(2)
  by (auto simp: copy_inv_def copies_filled_def cells_filled_def split: if_splits)

text \<open>What stands for a value is not young.\<close>

lemma new_value0_old:
  assumes "wf_heap G" "copy_inv rt avail G s E T" "good G x" "new_value0 G (copied G s) x = Some y"
  shows "\<not> young_block G y"
proof -
  note I = copy_invD [OF assms(2)]
  have copy: "\<not> young_block G a" if "copied G s v = Some r" "a \<in> block_words r (bsize G v)" for v r a
    using copies_apartD(2) [OF I(4) that(1)] that(2) wf_cellsD(3) [OF assms(1)] unfolding young_block_def by blast
  have c: "\<not> young_block G r" if "copied G s v = Some r" for v r
    using copy [OF that] wf_blockD(3) [OF assms(1) copied_blocks [OF that]] block_wordsI(2) [of 0 "bsize G v" r] by simp
  consider "\<not> young_block G x" | "young_block G x" "btag G x = Infix_tag" "infix_ptr G x" | "young_block G x" "btag G x \<noteq> Infix_tag"
    using assms(3) wf_blockD(5) [OF assms(1)] by (auto simp: good_def)
  then show ?thesis
  proof cases
    case 2
    then obtain r where r: "copied G s (infix_start G x) = Some r" "y = r + Infix_offset_val (g_mem G) x"
      using assms(4) by (auto simp: new_value0_def)
    obtain k where k: "k < bsize G (infix_start G x)" "Infix_offset_val (g_mem G) x = 8 * of_nat k"
      using 2(3) unfolding infix_ptr_def by blast
    then have "y = waddr r k" using r(2) by (simp add: waddr_def)
    then show ?thesis using copy [OF r(1), of "waddr r k"] k(1) by simp
  qed (use assms(4) c in \<open>auto simp: new_value0_def\<close>)
qed

lemma short_good:
  assumes "wf_heap G" "good G x" "young_block G x" "short_circuit G x"
  shows "good G (g_mem G x)"
proof -
  have t: "btag G x = Forward_tag" using assms(4) by (simp add: short_circuit_def)
  then have "x \<in> g_blocks G" using assms(2,3) tag_order(5) by (auto simp: good_def infix_ptr_def)
  then show ?thesis
    using wf_blockD(10) [OF assms(1), of x 0] wf_blockD(6) [OF assms(1), of x] t
    by (simp add: Forward_tag_def No_scan_tag_def)
qed

lemma new_value_old:
  assumes "wf_heap G" "copy_inv rt avail G s E T" "good G x" "new_value G (copied G s) x = Some y"
  shows "\<not> young_block G y"
proof -
  have "good G (if young_block G x \<and> short_circuit G x then g_mem G x else x)"
    using short_good [OF assms(1,3)] assms(3) by simp
  then show ?thesis using new_value0_old [OF assms(1,2)] assms(4) unfolding new_value_def by blast
qed

lemma cell_good:
  assumes "wf_heap G" "copy_inv rt avail G s {} T" "l \<in> g_cells G"
  shows "good G (mem s l)" "mem s l = g_mem G l \<or> done_cell G s l \<and> \<not> young_block G (mem s l)"
proof -
  have "mem s l = g_mem G l \<or> done_cell G s l"
    using copy_invD(6) [OF assms(2)] assms(3) unfolding cells_filled_def done_cell_def by blast
  moreover have "\<not> young_block G (mem s l)" if "done_cell G s l"
    using new_value_old [OF assms(1,2) wf_cellsD(1) [OF assms(1,3)]] that unfolding done_cell_def by blast
  ultimately show "mem s l = g_mem G l \<or> done_cell G s l \<and> \<not> young_block G (mem s l)" "good G (mem s l)"
    using wf_cellsD(1) [OF assms(1,3)] by (auto simp: good_def)
qed

lemma settled_cell:
  assumes "wf_heap G" "copy_inv rt avail G s E T" "l \<in> g_cells G" "done_cell G s l"
  shows "settled G s T l"
  unfolding settled_def
proof (intro conjI impI allI)
  show "mem s l = g_mem G l \<or> new_value G (copied G s) (g_mem G l) = Some (mem s l)"
    using assms(4) by (simp add: done_cell_def)
next
  fix v r i assume h: "copied G s v = Some r \<and> i < bsize G v \<and> v \<notin> set T \<and> l = waddr r i"
  then have "l \<in> g_free G" using copies_apartD(2) [OF copy_invD(4) [OF assms(2)]] block_wordsI(2) by blast
  then show "if btag G v < No_scan_tag then new_value G (copied G s) (g_mem G (waddr v i)) = Some (mem s l)
      else mem s l = g_mem G (waddr v i)" using wf_cellsD(2) [OF assms(1,3)] by blast
qed

text \<open>A cell outside the minor heap is brought up to date.\<close>

lemma oldify_cell:
  assumes wf: "wf_heap G" and H: "heap_ok H avail" and inv: "copy_inv rt avail G s {} T" and p: "p \<in> g_cells G"
  shows "ends (caml_oldify_one rt H (mem s p) p s) (\<lambda>s'. advance avail G {p} s s' \<and> done_cell G s' p \<and>
    (\<exists>T'. copy_inv rt avail G s' {} (T' @ T) \<and> card (uncopied G s') + length T' \<le> card (uncopied G s)))"
proof -
  have inv1: "copy_inv rt avail G s {p} T" using copy_inv_unsettle [OF inv, of "{p}"] p by simp
  note cell = cell_good [OF wf inv p]
  show ?thesis
  proof (rule ends_mono [OF oldify_one_ok [OF wf H inv1 _ cell(1)]])
    fix s' assume o: "oldified rt avail G {p} T (mem s p) p s s'"
    then obtain T' where T': "copy_inv rt avail G s' {p} (T' @ T)" "card (uncopied G s') + length T' \<le> card (uncopied G s)"
      unfolding oldified_def by blast
    have o': "copied G s \<subseteq>\<^sub>m copied G s'" "new_value G (copied G s') (mem s p) = Some (mem s' p)"
      "avail (fl_globals s') \<subseteq> avail (fl_globals s)" "keeps s s'"
      "\<And>a. a \<noteq> p \<Longrightarrow> a \<notin> avail (fl_globals s) \<Longrightarrow> a \<notin> young_words G \<Longrightarrow> mem s' a = mem s a"
      using o unfolding oldified_def by blast+
    have dn: "done_cell G s' p"
      using cell(2)
    proof
      assume "mem s p = g_mem G p" then show ?thesis using o'(2) by (simp add: done_cell_def)
    next
      assume "done_cell G s p \<and> \<not> young_block G (mem s p)"
      then show ?thesis using o'(2) new_value_mono [OF o'(1)] by (simp add: done_cell_def)
    qed
    have av: "avail (fl_globals s) \<subseteq> g_free G" using copy_invD(4) [OF inv] by (simp add: copies_apart_def)
    have fr: "mem s' a = mem s a" if "a \<noteq> p" "a \<notin> g_free G" "a \<notin> young_words G" for a
      using o'(5) that av by blast
    have "done_cell G s' l" if "l \<in> g_cells G" "done_cell G s l" for l
    proof (cases "l = p")
      case False
      have "l \<notin> g_free G" "l \<notin> young_words G" using wf_cellsD(2) [OF wf that(1)] young_words_apart [OF wf] that(1) by blast+
      then show ?thesis using fr [OF False] that(2) new_value_mono [OF o'(1)] by (simp add: done_cell_def)
    qed (simp add: dn)
    then have "advance avail G {p} s s'" using o'(1,3,4) fr T'(2) by (simp add: advance_def)
    moreover have "copy_inv rt avail G s' {} (T' @ T)"
      using settled_cell [OF wf T'(1) p dn] by (intro copy_inv_settle [OF T'(1)]) auto
    ultimately show "advance avail G {p} s s' \<and> done_cell G s' p \<and>
      (\<exists>T'. copy_inv rt avail G s' {} (T' @ T) \<and> card (uncopied G s') + length T' \<le> card (uncopied G s))"
      using dn T'(2) by blast
  qed simp
qed

text \<open>A set of cells.\<close>

definition visits :: "rt \<Rightarrow> ((nat \<Rightarrow> u64) \<Rightarrow> u64 set) \<Rightarrow> young_heap \<Rightarrow> u64 set \<Rightarrow> gc_state \<Rightarrow> gc_state \<Rightarrow> bool" where
  "visits rt avail G P s s' \<longleftrightarrow> advance avail G P s s' \<and> (\<forall>p\<in>P. done_cell G s' p) \<and> (\<exists>T. copy_inv rt avail G s' {} T)"

lemma visits_trans:
  assumes "visits rt avail G P s t" "visits rt avail G Q t u" "P \<subseteq> g_cells G"
  shows "visits rt avail G (P \<union> Q) s u"
proof -
  have "\<forall>p\<in>P \<union> Q. done_cell G u p" using assms unfolding visits_def advance_def by blast
  moreover have "advance avail G (P \<union> Q) s u"
    using assms advance_trans [of avail G P s t Q u "P \<union> Q"] unfolding visits_def by blast
  ultimately show ?thesis using assms(2) unfolding visits_def by blast
qed

lemma visits_cell:
  assumes "wf_heap G" "heap_ok H avail" "copy_inv rt avail G s {} T" "p \<in> g_cells G"
  shows "ends (caml_oldify_one rt H (mem s p) p s) (visits rt avail G {p} s)"
  by (rule ends_mono [OF oldify_cell [OF assms]]) (auto simp: visits_def)

lemma oldify_cells_ok:
  assumes wf: "wf_heap G" and H: "heap_ok H avail"
  shows "copy_inv rt avail G s {} T \<Longrightarrow> set ps \<subseteq> g_cells G \<Longrightarrow> ends (oldify_cells rt H ps s) (visits rt avail G (set ps) s)"
proof (induction ps arbitrary: s T)
  case Nil
  then show ?case by (auto simp: visits_def)
next
  case (Cons p ps)
  have p: "p \<in> g_cells G" using Cons.prems(2) by simp
  show ?case
    unfolding oldify_cells.simps
  proof (rule ends_obind [OF visits_cell [OF wf H Cons.prems(1) p]])
    fix t assume v: "visits rt avail G {p} s t"
    then obtain T' where T': "copy_inv rt avail G t {} T'" by (auto simp: visits_def)
    show "ends (oldify_cells rt H ps t) (visits rt avail G (set (p # ps)) s)"
    proof (rule ends_mono [OF Cons.IH [OF T']])
      show "visits rt avail G (set ps) t u \<Longrightarrow> visits rt avail G (set (p # ps)) s u" for u
        using visits_trans [OF v, of "set ps" u] p by simp
    qed (use Cons.prems(2) in simp)
  qed
qed

end
