(* ===== verification/Minor_Collection.thy ===== *)
theory Minor_Collection
  imports Minor_Copy Stack_Growth
begin

text \<open>
  The whole copying phase of a minor collection, over the invariant of \<open>Minor_Copy\<close>: the list of
  copies to scan, the ephemerons with young data, the roots, and the theorem on \<open>minor_copy\<close>.
  Termination is part of it: every loop is shown to end, by the blocks not yet copied and the
  young cells left.
\<close>

section \<open>The list of copies to scan\<close>

text \<open>The first \<open>j\<close> fields of the copy \<open>r\<close> of \<open>v\<close> are right.\<close>

definition fields_done :: "young_heap \<Rightarrow> gc_state \<Rightarrow> u64 \<Rightarrow> u64 \<Rightarrow> nat \<Rightarrow> bool" where
  "fields_done G s v r j \<longleftrightarrow> (\<forall>i<j. new_value G (copied G s) (g_mem G (waddr v i)) = Some (mem s (waddr r i)))"

text \<open>A state in which the fields of the copy \<open>r\<close> of \<open>v\<close> are being filled, \<open>n\<close> being a bound on the work left.\<close>

definition scanning :: "rt \<Rightarrow> ((nat \<Rightarrow> u64) \<Rightarrow> u64 set) \<Rightarrow> young_heap \<Rightarrow> gc_state \<Rightarrow> nat \<Rightarrow> u64 \<Rightarrow> u64 \<Rightarrow> nat \<Rightarrow> gc_state \<Rightarrow> bool" where
  "scanning rt avail G s0 n v r j s \<longleftrightarrow> advance avail G {} s0 s \<and> copied G s v = Some r \<and> fields_done G s v r j \<and>
     (\<exists>T. copy_inv rt avail G s (cells r (bsize G v)) T \<and> v \<notin> set T \<and> card (uncopied G s) + length T \<le> n)"

lemma oldified_advance:
  assumes wf: "wf_heap G" and inv: "copy_inv rt avail G s E T" and E: "E \<inter> g_cells G = {}"
    and o: "oldified rt avail G E T x p s s'" and p: "p \<in> E"
  shows "advance avail G {} s s'"
proof -
  obtain T' :: "u64 list" where c: "card (uncopied G s') + length T' \<le> card (uncopied G s)" using o unfolding oldified_def by blast
  have o': "copied G s \<subseteq>\<^sub>m copied G s'" "avail (fl_globals s') \<subseteq> avail (fl_globals s)" "keeps s s'"
    "\<And>a. a \<noteq> p \<Longrightarrow> a \<notin> avail (fl_globals s) \<Longrightarrow> a \<notin> young_words G \<Longrightarrow> mem s' a = mem s a"
    using o unfolding oldified_def by blast+
  note I = copy_invD [OF inv]
  have av: "avail (fl_globals s) \<subseteq> g_free G" using I(4) by (simp add: copies_apart_def)
  have pf: "p \<in> g_free G" using I(9) copy_cells_free [OF I(4)] E p by blast
  have fr: "mem s' a = mem s a" if "a \<notin> g_free G" "a \<notin> young_words G" for a
  proof -
    have "a \<noteq> p" "a \<notin> avail (fl_globals s)" using that pf av by blast+
    then show ?thesis using o'(4) that by simp
  qed
  have "done_cell G s' l" if "l \<in> g_cells G" "done_cell G s l" for l
  proof -
    have "l \<notin> g_free G" "l \<notin> young_words G" using wf_cellsD(2) [OF wf that(1)] young_words_apart [OF wf] that(1) by blast+
    then show ?thesis using fr that(2) new_value_mono [OF o'(1)] by (simp add: done_cell_def)
  qed
  then show ?thesis using o' fr c by (simp add: advance_def)
qed

lemma copy_cells_outside:
  assumes "wf_heap G" "copy_inv rt avail G s E T" "copied G s v = Some r"
  shows "cells r (bsize G v) \<subseteq> g_free G" "cells r (bsize G v) \<inter> g_cells G = {}"
    "cells r (bsize G v) \<inter> avail (fl_globals s) = {}" "cells r (bsize G v) \<inter> young_words G = {}"
proof -
  note c = copies_apartD(2,3) [OF copy_invD(4) [OF assms(2)] assms(3)]
  show f: "cells r (bsize G v) \<subseteq> g_free G" using c(1) cell_in_block by blast
  show "cells r (bsize G v) \<inter> avail (fl_globals s) = {}" using c(2) cell_in_block by blast
  show "cells r (bsize G v) \<inter> g_cells G = {}" using f wf_cellsD(2) [OF assms(1)] by blast
  show "cells r (bsize G v) \<inter> young_words G = {}" using f young_words_apart [OF assms(1)] by blast
qed

lemma scanning_step:
  assumes wf: "wf_heap G" and H: "heap_ok H avail" and sc: "scanning rt avail G s0 n v r j s" and j: "j < bsize G v"
    and v: "btag G v < No_scan_tag"
  shows "ends (caml_oldify_one rt H (g_mem G (waddr v j)) (waddr r j) s) (scanning rt avail G s0 n v r (Suc j))"
proof -
  obtain T where T: "copy_inv rt avail G s (cells r (bsize G v)) T" "v \<notin> set T" "card (uncopied G s) + length T \<le> n"
    and cv: "copied G s v = Some r" and fd: "fields_done G s v r j" and ad: "advance avail G {} s0 s"
    using sc unfolding scanning_def by blast
  have p: "waddr r j \<in> cells r (bsize G v)" using j by simp
  have good: "good G (g_mem G (waddr v j))" by (rule wf_blockD(10) [OF wf copied_blocks [OF cv] v j])
  show ?thesis
  proof (rule ends_mono [OF oldify_one_ok [OF wf H T(1) p good]])
    fix s' assume o: "oldified rt avail G (cells r (bsize G v)) T (g_mem G (waddr v j)) (waddr r j) s s'"
    then obtain T' where T': "copy_inv rt avail G s' (cells r (bsize G v)) (T' @ T)"
      "card (uncopied G s') + length T' \<le> card (uncopied G s)" unfolding oldified_def by blast
    have o': "copied G s \<subseteq>\<^sub>m copied G s'" "new_value G (copied G s') (g_mem G (waddr v j)) = Some (mem s' (waddr r j))"
      "\<And>a. a \<noteq> waddr r j \<Longrightarrow> a \<notin> avail (fl_globals s) \<Longrightarrow> a \<notin> young_words G \<Longrightarrow> mem s' a = mem s a"
      using o unfolding oldified_def by blast+
    note out = copy_cells_outside [OF wf T(1) cv]
    have "advance avail G {} s s'" by (rule oldified_advance [OF wf T(1) out(2) o p])
    then have "advance avail G {} s0 s'" using advance_trans [OF ad] by simp
    moreover have cv': "copied G s' v = Some r" by (rule map_leD [OF o'(1) cv])
    moreover have "fields_done G s' v r (Suc j)"
      unfolding fields_done_def
    proof (intro allI impI)
      fix i assume i: "i < Suc j"
      show "new_value G (copied G s') (g_mem G (waddr v i)) = Some (mem s' (waddr r i))"
      proof (cases "i = j")
        case False
        then have ij: "i < j" using i by simp
        then have "waddr r i \<in> cells r (bsize G v)" "waddr r i \<noteq> waddr r j"
          using j waddr_inj_small [of i G v j v r] by simp_all
        then have "mem s' (waddr r i) = mem s (waddr r i)" using o'(3) out(3,4) by blast
        then show ?thesis using fd ij new_value_mono [OF o'(1)] unfolding fields_done_def by simp
      qed (simp add: o'(2))
    qed
    moreover have "v \<notin> set (T' @ T)"
    proof
      assume "v \<in> set (T' @ T)"
      then show False using todo_not_unsettled [OF T'(1) wf cv' _ j] p by blast
    qed
    moreover have "card (uncopied G s') + length (T' @ T) \<le> n" using T'(2) T(3) by simp
    ultimately show "scanning rt avail G s0 n v r (Suc j) s'" unfolding scanning_def using T'(1) by blast
  qed
qed

lemma scanning_size:
  assumes "scanning rt avail G s0 n v r j s"
  shows "unat (Wosize_val (mem s) r) = bsize G v"
proof -
  obtain T where "copy_inv rt avail G s (cells r (bsize G v)) T" "copied G s v = Some r"
    using assms unfolding scanning_def by blast
  then show ?thesis using copies_apartD(4) copy_invD(4) unfolding bsize_def by metis
qed

text \<open>A field that is not young is stored as it is, which is what a call would do.\<close>

lemma oldify_field_eq: "oldify_field rt H f p s = caml_oldify_one rt H f p s"
  using oldify_eqs(1) [of f s rt H p] by (simp add: oldify_field_def)

lemma oldify_fields_ok:
  assumes wf: "wf_heap G" and H: "heap_ok H avail" and v: "btag G v < No_scan_tag"
  shows "scanning rt avail G s0 n v r j s \<Longrightarrow> 0 < j \<Longrightarrow> j \<le> bsize G v \<Longrightarrow>
    ends (oldify_fields rt H v r (of_nat j) s) (scanning rt avail G s0 n v r (bsize G v))"
proof (induction "bsize G v - j" arbitrary: j s)
  case 0
  then have j: "j = bsize G v" by simp
  have "unat (of_nat j :: u64) = j" using bsize_less [of G v] j by (intro of_nat_inverse) simp_all
  then have "\<not> (of_nat j :: u64) < Wosize_val (mem s) r"
    using scanning_size [OF 0(2)] j by (simp add: word_less_nat_alt)
  then show ?case using 0(2) j by (subst oldify_fields.simps) simp
next
  case (Suc k)
  then have j: "j < bsize G v" by simp
  have "unat (of_nat j :: u64) = j" using bsize_less [of G v] j by (intro of_nat_inverse) simp_all
  then have lt: "(of_nat j :: u64) < Wosize_val (mem s) r"
    using scanning_size [OF Suc(3)] j by (simp add: word_less_nat_alt)
  have f: "Field (mem s) v (of_nat j) = g_mem G (waddr v j)" "r + 8 * of_nat j = waddr r j"
  proof -
    obtain T where "copy_inv rt avail G s (cells r (bsize G v)) T" "v \<in> g_blocks G"
      using Suc(3) copied_blocks unfolding scanning_def by blast
    then have "mem s (waddr v j) = g_mem G (waddr v j)"
      using copy_invD(3) Suc(4) j unfolding young_kept_def by blast
    then show "Field (mem s) v (of_nat j) = g_mem G (waddr v j)" "r + 8 * of_nat j = waddr r j"
      by (simp_all add: Field_def waddr_def)
  qed
  have "ends (obind (oldify_field rt H (g_mem G (waddr v j)) (waddr r j) s) (\<lambda>s. oldify_fields rt H v r (of_nat j + 1) s))
      (scanning rt avail G s0 n v r (bsize G v))"
    unfolding oldify_field_eq
  proof (rule ends_obind [OF scanning_step [OF wf H Suc(3) j v]])
    fix t assume "scanning rt avail G s0 n v r (Suc j) t"
    then show "ends (oldify_fields rt H v r (of_nat j + 1) t) (scanning rt avail G s0 n v r (bsize G v))"
      using Suc(1) [of "Suc j" t] Suc(2) j by (simp add: add.commute)
  qed
  then show ?case using lt f by (subst oldify_fields.simps) simp
qed
lemma advance_todo [simp]: "advance avail G P s (t\<lparr>oldify_todo_list := x\<rparr>) = advance avail G P s t"
  by (simp add: advance_def done_cell_def uncopied_def)

lemma copy_cell_settled:
  assumes wf: "wf_heap G" and inv: "copy_inv rt avail G s (cells r (bsize G v)) T" and v: "copied G s v = Some r" "btag G v < No_scan_tag"
    and fd: "fields_done G s v r (bsize G v)" and e: "e \<in> cells r (bsize G v)"
  shows "settled G s T e"
  unfolding settled_def
proof (intro conjI impI allI)
  assume "e \<in> g_cells G"
  then show "mem s e = g_mem G e \<or> new_value G (copied G s) (g_mem G e) = Some (mem s e)"
    using copy_cells_outside(2) [OF wf inv v(1)] e by blast
next
  fix w q i assume h: "copied G s w = Some q \<and> i < bsize G w \<and> w \<notin> set T \<and> e = waddr q i"
  have wv: "w = v"
    using copies_apartD(7) [OF copy_invD(4) [OF inv] _ v(1), of w q e] h e cell_in_block block_wordsI(2) [of i "bsize G w" q] by blast
  then have "q = r" using h v(1) by simp
  then show "if btag G w < No_scan_tag then new_value G (copied G s) (g_mem G (waddr w i)) = Some (mem s e)
      else mem s e = g_mem G (waddr w i)" using fd h v(2) wv unfolding fields_done_def by simp
qed

text \<open>The loop over the list empties it.\<close>

definition scanned :: "rt \<Rightarrow> ((nat \<Rightarrow> u64) \<Rightarrow> u64 set) \<Rightarrow> young_heap \<Rightarrow> gc_state \<Rightarrow> gc_state \<Rightarrow> bool" where
  "scanned rt avail G s s' \<longleftrightarrow> advance avail G {} s s' \<and> copy_inv rt avail G s' {} []"

lemma scan_start:
  assumes wf: "wf_heap G" and inv: "copy_inv rt avail G s {} (v # T)"
  obtains r where "copied G s v = Some r" "Field (mem s) v 0 = r" "Field (mem s) r 1 = mem s (r + 8)" "Field (mem s) r 0 = g_mem G v"
    "oldify_todo_list s = v" "v \<noteq> 0" "btag G v < No_scan_tag" "1 < bsize G v"
    "scanning rt avail G s (card (uncopied G s) + length T) v r 0 (s\<lparr>oldify_todo_list := mem s (r + 8)\<rparr>)"
proof -
  note I = copy_invD [OF inv]
  obtain r where r: "copied G s v = Some r" "mem s r = g_mem G v" and v: "oldify_todo_list s = v" "v \<in> g_blocks G"
    "btag G v < No_scan_tag" "1 < bsize G v" using I(8) by auto
  have "copy_inv rt avail G (s\<lparr>oldify_todo_list := mem s (r + 8)\<rparr>) (cells r (bsize G v)) T"
    using copy_inv_pop [OF wf inv r(1)] by simp
  moreover have "v \<notin> set T" using I(7) by simp
  ultimately have "scanning rt avail G s (card (uncopied G s) + length T) v r 0 (s\<lparr>oldify_todo_list := mem s (r + 8)\<rparr>)"
    unfolding scanning_def using r(1) by (auto simp: fields_done_def uncopied_def intro!: exI [of _ T])
  moreover have "mem s v = r" using young_header(2) [OF wf inv v(2) r(1)] by simp
  ultimately show thesis using that r v wf_blockD(1) [OF wf v(2)] by (simp add: Field_def)
qed

lemma scan_one:
  assumes wf: "wf_heap G" and H: "heap_ok H avail" and inv: "copy_inv rt avail G s {} (v # T)"
  shows "ends (obind (if Is_block (g_mem G v) \<and> Is_young s (g_mem G v)
        then caml_oldify_one rt H (g_mem G v) (Field (mem s) v 0) (s\<lparr>oldify_todo_list := Field (mem s) (Field (mem s) v 0) 1\<rparr>)
        else Some (Ret () (s\<lparr>oldify_todo_list := Field (mem s) (Field (mem s) v 0) 1\<rparr>)))
      (\<lambda>t. oldify_fields rt H v (Field (mem s) v 0) 1 t))
    (\<lambda>t. advance avail G {} s t \<and> (\<exists>T'. copy_inv rt avail G t {} T' \<and> card (uncopied G t) + length T' \<le> card (uncopied G s) + length T))"
proof (rule scan_start [OF wf inv])
  fix r
  let ?s = "s\<lparr>oldify_todo_list := mem s (r + 8)\<rparr>" and ?n = "card (uncopied G s) + length T"
  assume r: "copied G s v = Some r" "Field (mem s) v 0 = r" "Field (mem s) r 1 = mem s (r + 8)" "Field (mem s) r 0 = g_mem G v"
    and v: "btag G v < No_scan_tag" "1 < bsize G v" and sc: "scanning rt avail G s ?n v r 0 ?s"
  have first: "ends (if Is_block (g_mem G v) \<and> Is_young s (g_mem G v) then caml_oldify_one rt H (g_mem G v) r ?s
      else Some (Ret () ?s)) (scanning rt avail G s ?n v r 1)"
  proof (cases "Is_block (g_mem G v) \<and> Is_young s (g_mem G v)")
    case True
    then show ?thesis using scanning_step [OF wf H sc _ v(1)] v(2) by simp
  next
    case False
    then have "\<not> young_block G (g_mem G v)" using copy_invD(1) [OF inv] by (simp add: young_block_def same_young_def)
    moreover have "mem s r = g_mem G v" using r(4) by (simp add: Field_def)
    ultimately have "fields_done G ?s v r 1" by (simp add: fields_done_def)
    then show ?thesis unfolding if_not_P [OF False] using sc by (simp add: scanning_def)
  qed
  have "ends (obind (if Is_block (g_mem G v) \<and> Is_young s (g_mem G v) then caml_oldify_one rt H (g_mem G v) r ?s
        else Some (Ret () ?s)) (\<lambda>t. oldify_fields rt H v r 1 t)) (scanning rt avail G s ?n v r (bsize G v))"
    using oldify_fields_ok [OF wf H v(1), where j = 1] v(2) by (intro ends_obind [OF first]) simp
  then show ?thesis
    unfolding r(2,3)
  proof (rule ends_mono)
    fix t assume t: "scanning rt avail G s ?n v r (bsize G v) t"
    then obtain T' where T': "copy_inv rt avail G t (cells r (bsize G v)) T'" "card (uncopied G t) + length T' \<le> ?n"
      and cv: "copied G t v = Some r" and fd: "fields_done G t v r (bsize G v)" and ad: "advance avail G {} s t"
      unfolding scanning_def by blast
    have "copy_inv rt avail G t {} T'"
      using copy_cell_settled [OF wf T'(1) cv v(1) fd] by (intro copy_inv_settle [OF T'(1)]) auto
    then show "advance avail G {} s t \<and> (\<exists>T'. copy_inv rt avail G t {} T' \<and> card (uncopied G t) + length T' \<le> ?n)"
      using ad T'(2) by blast
  qed
qed

lemma obind_assoc: "obind (obind r f) g = obind r (\<lambda>s. obind (f s) g)"
proof (cases r)
  case (Some c)
  then show ?thesis by (cases c) simp_all
qed simp

lemma oldify_todo_ok:
  assumes wf: "wf_heap G" and H: "heap_ok H avail"
  shows "copy_inv rt avail G s {} T \<Longrightarrow> ends (oldify_todo rt H s) (scanned rt avail G s)"
proof (induction "card (uncopied G s) + length T" arbitrary: s T rule: less_induct)
  case less
  show ?case
  proof (cases T)
    case Nil
    then have "oldify_todo_list s = 0" using copy_invD(8) [OF less.prems] by simp
    then show ?thesis using less.prems Nil by (subst oldify_todo.simps) (simp add: scanned_def)
  next
    case (Cons v T1)
    note inv = less.prems [unfolded Cons]
    let ?r = "Field (mem s) v 0"
    let ?s = "s\<lparr>oldify_todo_list := Field (mem s) ?r 1\<rparr>"
    have h: "oldify_todo_list s = v" "v \<noteq> 0" "Field (mem s) ?r 0 = g_mem G v" by (rule scan_start [OF wf inv]; simp)+
    have "oldify_todo rt H s = obind (obind (if Is_block (g_mem G v) \<and> Is_young s (g_mem G v)
        then caml_oldify_one rt H (g_mem G v) ?r ?s else Some (Ret () ?s))
      (\<lambda>t. oldify_fields rt H v ?r 1 t)) (\<lambda>t. oldify_todo rt H t)"
      unfolding obind_assoc by (subst oldify_todo.simps) (simp add: h Let_def Is_young_def)
    moreover have "ends \<dots> (scanned rt avail G s)"
    proof (rule ends_obind [OF scan_one [OF wf H inv]], elim conjE exE)
      fix t T' assume t: "advance avail G {} s t" "copy_inv rt avail G t {} T'"
        "card (uncopied G t) + length T' \<le> card (uncopied G s) + length T1"
      then have "card (uncopied G t) + length T' < card (uncopied G s) + length T" using Cons by simp
      from less.hyps [OF this t(2)] show "ends (oldify_todo rt H t) (scanned rt avail G s)"
        by (rule ends_mono) (use advance_trans [OF t(1)] in \<open>auto simp: scanned_def\<close>)
    qed
    ultimately show ?thesis by simp
  qed
qed
section \<open>Ephemerons\<close>

text \<open>How many cells of a set still hold young values.\<close>

definition young_count :: "young_heap \<Rightarrow> u64 set \<Rightarrow> gc_state \<Rightarrow> nat" where
  "young_count G D s = card {p \<in> D. young_block G (mem s p)}"

lemma finite_young [simp]: "finite {p \<in> D. young_block G (mem s p)}" for D :: "u64 set"
  by (rule finite_subset [OF subset_UNIV]) simp

lemma advance_cells:
  assumes "advance avail G P s s'" "wf_heap G" "l \<in> g_cells G - P"
  shows "mem s' l = mem s l"
proof -
  have "l \<notin> g_free G" "l \<notin> young_words G" using wf_cellsD(2) [OF assms(2)] young_words_apart [OF assms(2)] assms(3) by blast+
  then show ?thesis using assms(1,3) unfolding advance_def by blast
qed

lemma young_count_same: "advance avail G {} s s' \<Longrightarrow> wf_heap G \<Longrightarrow> D \<subseteq> g_cells G \<Longrightarrow> young_count G D s' = young_count G D s"
proof -
  assume a: "advance avail G {} s s'" "wf_heap G" "D \<subseteq> g_cells G"
  have "mem s' p = mem s p" if "p \<in> D" for p by (rule advance_cells [OF a(1,2)]) (use that a(3) in blast)
  then have "{p \<in> D. young_block G (mem s' p)} = {p \<in> D. young_block G (mem s p)}" by (auto simp del: split_paired_All)
  then show ?thesis by (simp add: young_count_def)
qed

lemma young_count_less:
  assumes wf: "wf_heap G" and ad: "advance avail G {p} s s'" and inv: "copy_inv rt avail G s' {} T" and dn: "done_cell G s' p"
    and D: "p \<in> D" "D \<subseteq> g_cells G" and y: "young_block G (mem s p)"
  shows "young_count G D s' < young_count G D s"
  unfolding young_count_def
proof (rule psubset_card_mono)
  have "\<not> young_block G (mem s' p)"
    using new_value_old [OF wf inv wf_cellsD(1) [OF wf]] dn D unfolding done_cell_def by blast
  moreover have "mem s' l = mem s l" if "l \<in> D" "l \<noteq> p" for l
    by (rule advance_cells [OF ad wf]) (use that D(2) in blast)
  ultimately show "{p \<in> D. young_block G (mem s' p)} \<subset> {p \<in> D. young_block G (mem s p)}" using D(1) y by force
qed simp

text \<open>A cell that holds a block already copied: the case that \<open>caml_oldify_mopup\<close> treats by itself.\<close>

lemma forward_cell:
  assumes wf: "wf_heap G" and inv: "copy_inv rt avail G s {} T" and p: "p \<in> g_cells G"
    and x: "young_block G (mem s p)" "Hd_val (mem s) (mem s p) = 0"
  defines "s' \<equiv> store_at p (Field (mem s) (mem s p) 0) s"
  shows "copy_inv rt avail G s' {} T" "advance avail G {p} s s'" "done_cell G s' p"
proof -
  let ?x = "mem s p"
  note c = cell_good [OF wf inv p]
  have "\<not> infix_ptr G ?x" using infix_header(2) [OF wf inv, of ?x] x(2) by (auto simp: Hd_val_def)
  then have b: "?x \<in> g_blocks G" using c(1) x(1) by (auto simp: good_def)
  have cx: "copied G s ?x = Some (mem s ?x)" using b x(2) by (simp add: copied_def Hd_val_def)
  have val: "new_value G (copied G s) (g_mem G p) = Some (mem s ?x)"
    using c(2) x(1) new_value_block [OF wf b copies_apartD(6) [OF copy_invD(4) [OF inv] cx], of "copied G s"] cx by metis
  have s': "s' = store_at p (mem s ?x) s" by (simp add: s'_def Field_0)
  have inv1: "copy_inv rt avail G s {p} T" using copy_inv_unsettle [OF inv, of "{p}"] p by simp
  note st = copy_inv_store [OF inv1 wf, of p "mem s ?x", folded s']
  show dn: "done_cell G s' p" using val st(2) by (simp add: done_cell_def s')
  show "copy_inv rt avail G s' {} T"
    using settled_cell [OF wf st(1) p dn] by (intro copy_inv_settle [OF st(1)]) auto
  show "advance avail G {p} s s'"
    unfolding advance_def using st(2) dn by (auto simp: done_cell_def s' uncopied_def)
qed

abbreviation data_cell :: "ephe_ref_elt \<Rightarrow> u64" where
  "data_cell re \<equiv> ephe re + 8"

text \<open>The loop over the ephemerons: it sets the flag only if it has moved a value out of the young heap.\<close>

definition ephes_done :: "rt \<Rightarrow> ((nat \<Rightarrow> u64) \<Rightarrow> u64 set) \<Rightarrow> young_heap \<Rightarrow> u64 set \<Rightarrow> bool \<Rightarrow> u64 list \<Rightarrow> gc_state \<Rightarrow>
    (bool, gc_state) cres option \<Rightarrow> bool" where
  "ephes_done rt avail G D redo T s r \<longleftrightarrow> r = Some (Fatal ''out of memory'') \<or>
     (\<exists>redo' s' T'. r = Some (Ret redo' s') \<and> advance avail G D s s' \<and> copy_inv rt avail G s' {} T' \<and>
        (redo \<longrightarrow> redo') \<and> (\<not> redo' \<longrightarrow> T' = T) \<and> young_count G D s' \<le> young_count G D s \<and>
        (redo' \<and> \<not> redo \<longrightarrow> young_count G D s' < young_count G D s))"

lemma ephes_done_trans:
  assumes "advance avail G D s t" "young_count G D t \<le> young_count G D s" "ephes_done rt avail G D redo1 T1 t r"
    "redo \<longrightarrow> redo1" "\<not> redo1 \<longrightarrow> T1 = T" "redo1 \<and> \<not> redo \<longrightarrow> young_count G D t < young_count G D s"
  shows "ephes_done rt avail G D redo T s r"
  using assms advance_trans [OF assms(1), of D _ D] unfolding ephes_done_def
  by (elim disjE exE conjE) (simp, blast intro: order_trans le_less_trans less_le_trans)

lemma oldify_ephes_ok:
  assumes wf: "wf_heap G" and H: "heap_ok H avail" and D: "D \<subseteq> g_cells G"
  shows "copy_inv rt avail G s {} T \<Longrightarrow> data_cell ` {re \<in> set res. offset re = 1} \<subseteq> D \<Longrightarrow>
    ephes_done rt avail G D redo T s (oldify_ephes rt H res redo s)"
proof (induction res arbitrary: redo s T)
  case Nil
  then show ?case by (auto simp: ephes_done_def)
next
  case (Cons re res)
  let ?p = "data_cell re"
  note IH = Cons.IH
  have rest: "data_cell ` {re \<in> set res. offset re = 1} \<subseteq> D" using Cons.prems(2) by auto
  show ?case
  proof (cases "offset re = 1 \<and> young_live_cell H s (mem s ?p)")
    case False
    have "oldify_ephes rt H (re # res) redo s = oldify_ephes rt H res redo s"
      unfolding oldify_ephes.simps Let_def if_not_P [OF False] ..
    then show ?thesis using IH [OF Cons.prems(1) rest] by simp
  next
    case True
    have pD: "?p \<in> D" "?p \<in> g_cells G" using Cons.prems(2) True D by auto
    have y: "young_block G (mem s ?p)"
      using True copy_invD(1) [OF Cons.prems(1)] by (simp add: young_live_cell_def young_block_def same_young_def)
    show ?thesis
    proof (cases "Hd_val (mem s) (mem s ?p) = 0")
      case hd: True
      let ?t = "store_at ?p (Field (mem s) (mem s ?p) 0) s"
      note f = forward_cell [OF wf Cons.prems(1) pD(2) y hd]
      have "oldify_ephes rt H (re # res) redo s = oldify_ephes rt H res redo ?t" using True hd by (simp add: Let_def)
      then show ?thesis
        using ephes_done_trans [OF advance_mono [OF f(2)] _ IH [OF f(1) rest]] pD(1)
          young_count_less [OF wf f(2,1,3) pD(1) D y] by simp
    next
      case hd: False
      show ?thesis
      proof (cases "ephe_check_alive_data H s (ephe re)")
        case False
        then have "oldify_ephes rt H (re # res) redo s = oldify_ephes rt H res redo s" using True hd by (simp add: Let_def)
        then show ?thesis using IH [OF Cons.prems(1) rest] by simp
      next
        case alive: True
        have run: "oldify_ephes rt H (re # res) redo s = (case caml_oldify_one rt H (mem s ?p) ?p s of
                Some (Ret _ s1) \<Rightarrow> oldify_ephes rt H res True s1
              | Some (Longjmp s1) \<Rightarrow> Some (Longjmp s1) | Some (Fatal e) \<Rightarrow> Some (Fatal e)
              | Some Diverge \<Rightarrow> Some Diverge | None \<Rightarrow> None)"
          using True hd alive by (simp add: Let_def)
        from oldify_cell [OF wf H Cons.prems(1) pD(2)] consider
            "caml_oldify_one rt H (mem s ?p) ?p s = Some (Fatal ''out of memory'')"
          | t T' where "caml_oldify_one rt H (mem s ?p) ?p s = Some (Ret () t)" "advance avail G {?p} s t" "done_cell G t ?p"
              "copy_inv rt avail G t {} (T' @ T)" unfolding ends_def by blast
        then show ?thesis
        proof cases
          case 1
          then show ?thesis unfolding run by (simp add: ephes_done_def)
        next
          case 2
          then show ?thesis
            unfolding run using ephes_done_trans [OF advance_mono [OF 2(2)] _ IH [OF 2(4) rest]] pD(1)
              young_count_less [OF wf 2(2,4,3) pD(1) D y] by simp
        qed
      qed
    qed
  qed
qed

lemma oldify_mopup_ok:
  assumes wf: "wf_heap G" and H: "heap_ok H avail" and D: "D \<subseteq> g_cells G"
  shows "copy_inv rt avail G s {} T \<Longrightarrow> data_cell ` {re \<in> set (tbl_entries (ephe_ref_table s)). offset re = 1} \<subseteq> D \<Longrightarrow>
    ends (caml_oldify_mopup rt H s) (\<lambda>s'. advance avail G D s s' \<and> copy_inv rt avail G s' {} [])"
proof (induction "young_count G D s" arbitrary: s T rule: less_induct)
  case less
  show ?case
  proof (subst caml_oldify_mopup.simps, rule ends_obind [OF oldify_todo_ok [OF wf H less.prems(1)]])
    fix s1 assume "scanned rt avail G s s1"
    then have s1: "advance avail G {} s s1" "copy_inv rt avail G s1 {} []" by (simp_all add: scanned_def)
    have tab: "ephe_ref_table s1 = ephe_ref_table s" using s1(1) by (simp add: advance_def keeps_def)
    have yc: "young_count G D s1 = young_count G D s" by (rule young_count_same [OF s1(1) wf D])
    let ?e = "oldify_ephes rt H (tbl_entries (ephe_ref_table s1)) False s1"
    have "ephes_done rt avail G D False [] s1 ?e"
      using less.prems(2) tab by (intro oldify_ephes_ok [OF wf H D s1(2)]) simp
    then consider "?e = Some (Fatal ''out of memory'')"
      | s2 T2 where "?e = Some (Ret True s2)" "advance avail G D s1 s2" "copy_inv rt avail G s2 {} T2" "young_count G D s2 < young_count G D s1"
      | s2 where "?e = Some (Ret False s2)" "advance avail G D s1 s2" "copy_inv rt avail G s2 {} []"
      unfolding ephes_done_def by (metis (full_types))
    then show "ends (case ?e of None \<Rightarrow> None
       | Some (Ret redo s2) \<Rightarrow> if redo then caml_oldify_mopup rt H s2 else Some (Ret () s2)
       | Some (Longjmp s2) \<Rightarrow> Some (Longjmp s2) | Some (Fatal e) \<Rightarrow> Some (Fatal e) | Some Diverge \<Rightarrow> Some Diverge)
      (\<lambda>s'. advance avail G D s s' \<and> copy_inv rt avail G s' {} [])"
    proof cases
      case 2
      have ad: "advance avail G D s s2" using advance_trans [OF s1(1) 2(2)] by simp
      then have "ephe_ref_table s2 = ephe_ref_table s" by (simp add: advance_def keeps_def)
      then have "ends (caml_oldify_mopup rt H s2) (\<lambda>s'. advance avail G D s2 s' \<and> copy_inv rt avail G s' {} [])"
        using less.hyps [OF _ 2(3)] 2(4) yc less.prems(2) by simp
      then have "ends (caml_oldify_mopup rt H s2) (\<lambda>s'. advance avail G D s s' \<and> copy_inv rt avail G s' {} [])"
        by (rule ends_mono) (use advance_trans [OF ad] in blast)
      then show ?thesis using 2(1) by simp
    next
      case 3
      then show ?thesis using advance_trans [OF s1(1) 3(2), of D] by simp
    qed simp
  qed
qed
section \<open>The roots\<close>

lemma oldify_stack_ok:
  assumes wf: "wf_heap G" and H: "heap_ok H avail" and b: "unat p0 + 8 * n < 2 ^ 64" and L: "cells p0 n \<subseteq> g_cells G"
  shows "k \<le> n \<Longrightarrow> copy_inv rt avail G s {} T \<Longrightarrow> stack_high s = waddr p0 n \<Longrightarrow>
    ends (oldify_stack rt H (waddr p0 k) s) (visits rt avail G (waddr p0 ` {k..<n}) s)"
proof (induction "n - k" arbitrary: k s T)
  case 0
  then have "\<not> waddr p0 k < stack_high s" by simp
  then show ?case using 0 by (subst oldify_stack.simps) (auto simp: visits_def)
next
  case (Suc d)
  then have k: "k < n" by simp
  have lt: "waddr p0 k < stack_high s" using waddr_less_end [OF b k] Suc.prems(3) by simp
  have pL: "waddr p0 k \<in> g_cells G" using L k by auto
  have step: "oldify_stack rt H (waddr p0 k) s =
      obind (caml_oldify_one rt H (mem s (waddr p0 k)) (waddr p0 k) s) (\<lambda>t. oldify_stack rt H (waddr p0 (Suc k)) t)"
    using lt by (subst oldify_stack.simps) (simp add: waddr_def algebra_simps)
  have set: "waddr p0 ` {k..<n} = {waddr p0 k} \<union> waddr p0 ` {Suc k..<n}"
    using k by (auto simp: image_iff Bex_def) (metis Suc_leI le_neq_implies_less)
  show ?case
    unfolding step
  proof (rule ends_obind [OF visits_cell [OF wf H Suc.prems(2) pL]])
    fix t assume v: "visits rt avail G {waddr p0 k} s t"
    then obtain T' where T': "copy_inv rt avail G t {} T'" and h: "stack_high t = stack_high s"
      by (auto simp: visits_def advance_def keeps_def)
    have "ends (oldify_stack rt H (waddr p0 (Suc k)) t) (visits rt avail G (waddr p0 ` {Suc k..<n}) t)"
      using Suc.hyps(1) [of "Suc k"] Suc.hyps(2) k T' h Suc.prems(3) by simp
    then show "ends (oldify_stack rt H (waddr p0 (Suc k)) t) (visits rt avail G (waddr p0 ` {k..<n}) s)"
      unfolding set by (rule ends_mono) (rule visits_trans [OF v], use pL in auto)
  qed
qed

text \<open>The chain of frames of local roots, and the words of a frame.\<close>

fun root_frames :: "store \<Rightarrow> u64 \<Rightarrow> u64 list \<Rightarrow> bool" where
  "root_frames m lr [] \<longleftrightarrow> lr = 0"
| "root_frames m lr (f # fs) \<longleftrightarrow> lr = f \<and> f \<noteq> 0 \<and> root_frames m (m f) fs"

definition frame_words :: "store \<Rightarrow> u64 \<Rightarrow> u64 set" where
  "frame_words m f = {f, f + 8, f + 16} \<union> waddr (f + 24) ` {..<nat (sint (m (f + 8)))}"

lemma frame_cells_cong: "\<forall>a\<in>frame_words m f. m' a = m a \<Longrightarrow> frame_cells m' f = frame_cells m f"
  unfolding frame_cells_def frame_words_def by (intro arg_cong [where f = concat]) (auto intro!: map_cong)

lemma oldify_frames_ok:
  assumes wf: "wf_heap G" and H: "heap_ok H avail"
  shows "root_frames (g_mem G) lr fs \<Longrightarrow> copy_inv rt avail G s {} T \<Longrightarrow>
    \<forall>f\<in>set fs. frame_words (g_mem G) f \<inter> (g_cells G \<union> g_free G \<union> young_words G) = {} \<and> set (frame_cells (g_mem G) f) \<subseteq> g_cells G \<Longrightarrow>
    ends (oldify_frames rt H lr s) (visits rt avail G (\<Union>f\<in>set fs. set (frame_cells (g_mem G) f)) s)"
proof (induction fs arbitrary: lr s T)
  case Nil
  then show ?case by (subst oldify_frames.simps) (auto simp: visits_def)
next
  case (Cons f fs)
  have fw: "frame_words (g_mem G) f \<inter> (g_cells G \<union> g_free G \<union> young_words G) = {}" "set (frame_cells (g_mem G) f) \<subseteq> g_cells G"
    using Cons.prems(3) by auto
  have same: "mem t a = g_mem G a" if "copy_inv rt avail G t {} T" "a \<in> frame_words (g_mem G) f" for t T a
    using copy_invD(2) [OF that(1)] that(2) fw(1) unfolding old_kept_def by blast
  have fc: "frame_cells (mem s) f = frame_cells (g_mem G) f" using same [OF Cons.prems(2)] by (intro frame_cells_cong) simp
  have "oldify_frames rt H lr s = obind (oldify_cells rt H (frame_cells (g_mem G) f) s) (\<lambda>s. oldify_frames rt H (mem s f) s)"
    using Cons.prems(1) fc by (subst oldify_frames.simps) simp
  moreover have "ends \<dots> (visits rt avail G (\<Union>f\<in>set (f # fs). set (frame_cells (g_mem G) f)) s)"
  proof (rule ends_obind [OF oldify_cells_ok [OF wf H Cons.prems(2) fw(2)]])
    fix t assume v: "visits rt avail G (set (frame_cells (g_mem G) f)) s t"
    then obtain T' where T': "copy_inv rt avail G t {} T'" by (auto simp: visits_def)
    have "mem t f = g_mem G f" by (rule same [OF T']) (simp add: frame_words_def)
    then have "ends (oldify_frames rt H (mem t f) t) (visits rt avail G (\<Union>f\<in>set fs. set (frame_cells (g_mem G) f)) t)"
      using Cons.IH [OF _ T'] Cons.prems(1,3) by simp
    then show "ends (oldify_frames rt H (mem t f) t) (visits rt avail G (\<Union>f\<in>set (f # fs). set (frame_cells (g_mem G) f)) s)"
      by (rule ends_mono) (use visits_trans [OF v _ fw(2)] in simp)
  qed
  ultimately show ?case by simp
qed

section \<open>The copying phase\<close>

text \<open>
  A state ready for a collection: the young heap \<open>G\<close> describes it, the frames of local roots
  are \<open>fs\<close>, the roots kept elsewhere are at the addresses \<open>others\<close>, and all cells that the
  collection updates are among those of \<open>G\<close>.
\<close>

definition describes :: "rt \<Rightarrow> ((nat \<Rightarrow> u64) \<Rightarrow> u64 set) \<Rightarrow> young_heap \<Rightarrow> gc_state \<Rightarrow> bool" where
  "describes rt avail G s \<longleftrightarrow> wf_heap G \<and> g_mem G = mem s \<and> g_young G = Is_young s \<and>
     g_area G = Is_in_value_area rt (caml_state.truncate s) \<and> g_free G = avail (fl_globals s) \<and>
     in_minor_collection s \<and> oldify_todo_list s = 0"

definition roots_ready :: "heap_rt \<Rightarrow> young_heap \<Rightarrow> nat \<Rightarrow> u64 list \<Rightarrow> u64 list \<Rightarrow> gc_state \<Rightarrow> bool" where
  "roots_ready H G n fs others s \<longleftrightarrow>
     stack_high s = waddr (extern_sp s) n \<and> unat (extern_sp s) + 8 * n < 2 ^ 64 \<and>
     root_frames (mem s) (local_roots s) fs \<and>
     (\<forall>f\<in>set fs. frame_words (mem s) f \<inter> (g_cells G \<union> g_free G \<union> young_words G) = {}) \<and>
     (\<forall>t. hr_other_roots H t = others)"

definition root_cells :: "nat \<Rightarrow> u64 list \<Rightarrow> u64 list \<Rightarrow> gc_state \<Rightarrow> u64 set" where
  "root_cells n fs others s = cells (extern_sp s) n \<union> (\<Union>f\<in>set fs. set (frame_cells (mem s) f)) \<union> set others \<union>
     set (tbl_entries (ref_table s))"

definition data_cells :: "gc_state \<Rightarrow> u64 set" where
  "data_cells s = data_cell ` {re \<in> set (tbl_entries (ephe_ref_table s)). offset re = 1}"

lemma copy_inv_start:
  assumes "describes rt avail G s"
  shows "copy_inv rt avail G s {} []"
proof -
  have wf: "wf_heap G" using assms by (simp add: describes_def)
  have c: "copied G s = Map.empty"
    using assms wf_blockD(4) [OF wf] by (auto simp: copied_def fun_eq_iff describes_def)
  show ?thesis
    using assms unfolding copy_inv_def describes_def
    by (simp add: same_young_def old_kept_def young_kept_def copies_apart_def copies_filled_def cells_filled_def c)
qed

text \<open>
  What the copy achieves: \<open>\<phi>\<close> sends the copied blocks to disjoint blocks of free memory with the
  same size and tag; the fields of a copy stand for the fields of the block, or are its bytes.
\<close>

definition promoted :: "young_heap \<Rightarrow> (u64 \<rightharpoonup> u64) \<Rightarrow> store \<Rightarrow> bool" where
  "promoted G \<phi> m \<longleftrightarrow>
    (\<forall>v r. \<phi> v = Some r \<longrightarrow> v \<in> g_blocks G \<and> aligned r \<and> block_words r (bsize G v) \<subseteq> g_free G \<and>
       Wosize_val m r = Wosize_val (g_mem G) v \<and> Tag_hd (m (r - 8)) = btag G v \<and>
       (\<forall>i < bsize G v.
          if btag G v < No_scan_tag
          then new_value G \<phi> (g_mem G (waddr v i)) = Some (m (waddr r i)) \<and> \<not> young_block G (m (waddr r i))
          else m (waddr r i) = g_mem G (waddr v i))) \<and>
    (\<forall>v w r q. \<phi> v = Some r \<and> \<phi> w = Some q \<and> v \<noteq> w \<longrightarrow> block_words r (bsize G v) \<inter> block_words q (bsize G w) = {})"

lemma copy_inv_promoted:
  assumes wf: "wf_heap G" and inv: "copy_inv rt avail G s {} []"
  shows "promoted G (copied G s) (mem s)"
  unfolding promoted_def
proof (intro conjI allI impI)
  note I = copy_invD [OF inv]
  fix v r assume v: "copied G s v = Some r"
  note c = copies_apartD(1,2,4,5) [OF I(4) v]
  show "v \<in> g_blocks G" by (rule copied_blocks [OF v])
  show "aligned r" "block_words r (bsize G v) \<subseteq> g_free G" "Wosize_val (mem s) r = Wosize_val (g_mem G) v"
    "Tag_hd (mem s (r - 8)) = btag G v" by (fact c)+
  fix i assume i: "i < bsize G v"
  then have f: "if btag G v < No_scan_tag then new_value G (copied G s) (g_mem G (waddr v i)) = Some (mem s (waddr r i))
      else mem s (waddr r i) = g_mem G (waddr v i)" using I(5) v unfolding copies_filled_def by simp
  show "if btag G v < No_scan_tag
      then new_value G (copied G s) (g_mem G (waddr v i)) = Some (mem s (waddr r i)) \<and> \<not> young_block G (mem s (waddr r i))
      else mem s (waddr r i) = g_mem G (waddr v i)"
  proof (cases "btag G v < No_scan_tag")
    case True
    then show ?thesis using f new_value_old [OF wf inv wf_blockD(10) [OF wf copied_blocks [OF v] True i]] by simp
  qed (use f in simp)
next
  fix v w r q assume "copied G s v = Some r \<and> copied G s w = Some q \<and> v \<noteq> w"
  then show "block_words r (bsize G v) \<inter> block_words q (bsize G w) = {}"
    using copies_apartD(7) [OF copy_invD(4) [OF inv]] by blast
qed

lemma minor_copy_runs:
  assumes d: "describes rt avail G s" and H: "heap_ok H avail" and r: "roots_ready H G n fs others s"
    and L: "root_cells n fs others s \<subseteq> g_cells G" "data_cells s \<subseteq> g_cells G"
  shows "ends (minor_copy rt H s) (\<lambda>s'. copy_inv rt avail G s' {} [] \<and>
    advance avail G (root_cells n fs others s \<union> data_cells s) s s' \<and> (\<forall>p\<in>root_cells n fs others s. done_cell G s' p))"
proof -
  have wf: "wf_heap G" and m: "g_mem G = mem s" using d by (simp_all add: describes_def)
  note inv = copy_inv_start [OF d]
  let ?S = "cells (extern_sp s) n" and ?F = "\<Union>f\<in>set fs. set (frame_cells (mem s) f)"
  have st: "ends (oldify_stack rt H (extern_sp s) s) (visits rt avail G ?S s)"
    using oldify_stack_ok [OF wf H, of "extern_sp s" n 0 rt s "[]"] r L(1) inv
    by (simp add: roots_ready_def root_cells_def cells_def atLeast0LessThan)
  have k: "keeps s t" if "visits rt avail G P s t" for P t using that by (simp add: visits_def advance_def)
  have local: "ends (caml_oldify_local_roots rt H s) (visits rt avail G (?S \<union> ?F \<union> set others) s)"
    unfolding caml_oldify_local_roots_def
  proof (rule ends_obind [OF st])
    fix s1 assume v1: "visits rt avail G ?S s s1"
    then obtain T1 where T1: "copy_inv rt avail G s1 {} T1" by (auto simp: visits_def)
    have "ends (oldify_frames rt H (local_roots s1) s1) (visits rt avail G ?F s1)"
      using oldify_frames_ok [OF wf H _ T1, of "local_roots s1" fs] r L(1) k [OF v1] m
      by (auto simp: roots_ready_def root_cells_def keeps_def)
    then show "ends (obind (oldify_frames rt H (local_roots s1) s1) (\<lambda>s. oldify_cells rt H (hr_other_roots H s) s))
        (visits rt avail G (?S \<union> ?F \<union> set others) s)"
    proof (rule ends_obind)
      fix s2 assume "visits rt avail G ?F s1 s2"
      then have v2: "visits rt avail G (?S \<union> ?F) s s2"
        using visits_trans [OF v1] L(1) by (simp add: root_cells_def)
      then obtain T2 where T2: "copy_inv rt avail G s2 {} T2" by (auto simp: visits_def)
      have "hr_other_roots H s2 = others" "set others \<subseteq> g_cells G" using r L(1) by (simp_all add: roots_ready_def root_cells_def)
      then have "ends (oldify_cells rt H (hr_other_roots H s2) s2) (visits rt avail G (set others) s2)"
        using oldify_cells_ok [OF wf H T2] by simp
      then show "ends (oldify_cells rt H (hr_other_roots H s2) s2) (visits rt avail G (?S \<union> ?F \<union> set others) s)"
        by (rule ends_mono) (rule visits_trans [OF v2], use L(1) in \<open>auto simp: root_cells_def\<close>)
    qed
  qed
  show ?thesis
    unfolding minor_copy_def
  proof (rule ends_obind [OF local])
    fix s1 assume v1: "visits rt avail G (?S \<union> ?F \<union> set others) s s1"
    then obtain T1 where T1: "copy_inv rt avail G s1 {} T1" by (auto simp: visits_def)
    have "ref_table s1 = ref_table s" using k [OF v1] by (simp add: keeps_def)
    then have "ends (oldify_cells rt H (tbl_entries (ref_table s1)) s1) (visits rt avail G (set (tbl_entries (ref_table s))) s1)"
      using oldify_cells_ok [OF wf H T1, of "tbl_entries (ref_table s)"] L(1) by (simp add: root_cells_def)
    then show "ends (obind (oldify_cells rt H (tbl_entries (ref_table s1)) s1) (\<lambda>s. caml_oldify_mopup rt H s))
        (\<lambda>s'. copy_inv rt avail G s' {} [] \<and>
    advance avail G (root_cells n fs others s \<union> data_cells s) s s' \<and> (\<forall>p\<in>root_cells n fs others s. done_cell G s' p))"
    proof (rule ends_obind)
      fix s2 assume "visits rt avail G (set (tbl_entries (ref_table s))) s1 s2"
      then have v2: "visits rt avail G (root_cells n fs others s) s s2"
        unfolding root_cells_def by (rule visits_trans [OF v1]) (use L(1) in \<open>auto simp: root_cells_def\<close>)
      then obtain T2 where T2: "copy_inv rt avail G s2 {} T2" by (auto simp: visits_def)
      have "ephe_ref_table s2 = ephe_ref_table s" using k [OF v2] by (simp add: keeps_def)
      then have "ends (caml_oldify_mopup rt H s2) (\<lambda>s'. advance avail G (data_cells s) s2 s' \<and> copy_inv rt avail G s' {} [])"
        using oldify_mopup_ok [OF wf H L(2) T2] by (simp add: data_cells_def)
      then show "ends (caml_oldify_mopup rt H s2)
        (\<lambda>s'. copy_inv rt avail G s' {} [] \<and>
    advance avail G (root_cells n fs others s \<union> data_cells s) s s' \<and> (\<forall>p\<in>root_cells n fs others s. done_cell G s' p))"
      proof (rule ends_mono, elim conjE, intro conjI ballI)
        fix s' assume a: "advance avail G (data_cells s) s2 s'" "copy_inv rt avail G s' {} []"
        show "advance avail G (root_cells n fs others s \<union> data_cells s) s s'"
          by (rule advance_trans [OF conjunct1 [OF v2 [unfolded visits_def]] a(1)]) simp
        fix p assume p: "p \<in> root_cells n fs others s"
        then have "done_cell G s2 p" using v2 by (simp add: visits_def)
        then show "done_cell G s' p" using a(1) p L(1) unfolding advance_def by blast
      qed
    qed
  qed
qed

text \<open>
  C1: The copying phase of a minor collection ends, out of memory aside, having moved blocks
  of the minor heap to disjoint free blocks of the same size and tag whose fields stand for
  the old fields; every root and remembered cell stands for its old value and none of them is
  young; the rest of the old memory is as it was.
\<close>

theorem minor_copy_correct:
  assumes "describes rt avail G s" "heap_ok H avail" "roots_ready H G n fs others s"
    "root_cells n fs others s \<subseteq> g_cells G" "data_cells s \<subseteq> g_cells G"
  shows "minor_copy rt H s = Some (Fatal ''out of memory'') \<or>
    (\<exists>s' \<phi>. minor_copy rt H s = Some (Ret () s') \<and> promoted G \<phi> (mem s') \<and>
      (\<forall>p\<in>root_cells n fs others s. new_value G \<phi> (mem s p) = Some (mem s' p) \<and> \<not> young_block G (mem s' p)) \<and>
      (\<forall>l\<in>g_cells G. mem s' l = mem s l \<or> new_value G \<phi> (mem s l) = Some (mem s' l)) \<and>
      (\<forall>a. a \<notin> g_cells G \<union> g_free G \<union> young_words G \<longrightarrow> mem s' a = mem s a) \<and> oldify_todo_list s' = 0)"
proof -
  have wf: "wf_heap G" and m: "g_mem G = mem s" using assms(1) by (simp_all add: describes_def)
  from minor_copy_runs [OF assms] consider "minor_copy rt H s = Some (Fatal ''out of memory'')"
    | s' where "minor_copy rt H s = Some (Ret () s')" "copy_inv rt avail G s' {} []"
        "\<forall>p\<in>root_cells n fs others s. done_cell G s' p" unfolding ends_def by blast
  then show ?thesis
  proof cases
    case 2
    note I = copy_invD [OF 2(2)]
    have "new_value G (copied G s') (mem s p) = Some (mem s' p) \<and> \<not> young_block G (mem s' p)"
      if "p \<in> root_cells n fs others s" for p
      using 2(3) that new_value_old [OF wf 2(2) wf_cellsD(1) [OF wf], of p] assms(4) m unfolding done_cell_def by auto
    moreover have "\<forall>l\<in>g_cells G. mem s' l = mem s l \<or> new_value G (copied G s') (mem s l) = Some (mem s' l)"
      using I(6) m by (simp add: cells_filled_def)
    moreover have "\<forall>a. a \<notin> g_cells G \<union> g_free G \<union> young_words G \<longrightarrow> mem s' a = mem s a"
      using I(2) m by (simp add: old_kept_def)
    moreover have "oldify_todo_list s' = 0" using I(8) by simp
    ultimately show ?thesis using 2(1) copy_inv_promoted [OF wf 2(2)] by blast
  qed simp
qed

section \<open>A collection in the small\<close>

text \<open>An allocator that takes blocks from the bottom of a free area, and a heap of two blocks in a cycle.\<close>

definition bump_free :: "(nat \<Rightarrow> u64) \<Rightarrow> u64 set" where
  "bump_free g = {a. unat (g 0) \<le> unat a \<and> unat a < 0x30000}"

definition bump_allocate :: "u64 \<Rightarrow> gc_state \<Rightarrow> u64 \<times> gc_state" where
  "bump_allocate w s =
    (let hp = fl_globals s 0
     in if aligned hp \<and> unat hp + 8 * Suc (unat w) \<le> 0x30000
        then (hp, s\<lparr>fl_globals := (fl_globals s)(0 := hp + 8 * (w + 1))\<rparr>) else (0, s))"

definition bump_heap :: heap_rt where
  "bump_heap = \<lparr>hr_fl_allocate = bump_allocate, hr_expand_heap = (\<lambda>w s. (0, s)), hr_fl_add_blocks = (\<lambda>p s. s),
     hr_other_roots = (\<lambda>s. []), hr_ephe_none = 0x7000, hr_begin_hook = id, hr_end_hook = id,
     hr_final_update_minor_roots = id, hr_memprof_minor_update = id, hr_memprof_renew_minor_sample = id,
     hr_final_empty_young = id, hr_finalize = (\<lambda>f v s. s)\<rparr>"

lemma bump_unat:
  assumes "unat (hp :: u64) + 8 * n \<le> 0x30000" "i \<le> n"
  shows "unat (waddr hp i) = unat hp + 8 * i"
proof -
  have "unat (of_nat i :: u64) = i" using assms by (intro of_nat_inverse [OF refl]) simp
  then show ?thesis using assms by (simp add: waddr_def unat_word_ariths)
qed

lemma alloc_step_globals: "avail g \<subseteq> avail (fl_globals s) \<Longrightarrow> alloc_step avail s (s\<lparr>fl_globals := g\<rparr>)"
  unfolding alloc_step_def
  by (intro conjI exI [of _ "mem s"] exI [of _ "in_heap s"] exI [of _ g] exI [of _ "stat_heap_wsz s"]) simp_all

lemma alloc_step_refl: "alloc_step avail s s"
  using alloc_step_globals [of avail "fl_globals s" s] by simp

lemma bump_heap_ok: "heap_ok bump_heap bump_free"
proof -
  have step: "alloc_step bump_free s (snd (bump_allocate w s)) \<and> (fst (bump_allocate w s) \<noteq> 0 \<longrightarrow> aligned (fst (bump_allocate w s)) \<and>
      cells (fst (bump_allocate w s)) (Suc (unat w)) \<subseteq> bump_free (fl_globals s) - bump_free (fl_globals (snd (bump_allocate w s))))" for w s
  proof (cases "aligned (fl_globals s 0) \<and> unat (fl_globals s 0) + 8 * Suc (unat w) \<le> 0x30000")
    case True
    let ?hp = "fl_globals s 0" and ?s = "s\<lparr>fl_globals := (fl_globals s)(0 := fl_globals s 0 + 8 * (w + 1))\<rparr>"
    have run: "bump_allocate w s = (?hp, ?s)" using True by (simp add: bump_allocate_def Let_def)
    have "waddr ?hp (Suc (unat w)) = ?hp + 8 * (w + 1)" by (simp add: waddr_def algebra_simps)
    then have top: "unat (?hp + 8 * (w + 1)) = unat ?hp + 8 * Suc (unat w)"
      using bump_unat [of ?hp "Suc (unat w)" "Suc (unat w)"] True by simp
    have "alloc_step bump_free s ?s" using top by (intro alloc_step_globals) (auto simp: bump_free_def)
    moreover have "cells ?hp (Suc (unat w)) \<subseteq> bump_free (fl_globals s) - bump_free (fl_globals ?s)"
    proof
      fix a assume "a \<in> cells ?hp (Suc (unat w))"
      then obtain i where i: "i < Suc (unat w)" "a = waddr ?hp i" by (auto simp: mem_cells_iff)
      then have "unat a = unat ?hp + 8 * i" using bump_unat [of ?hp "Suc (unat w)" i] True by simp
      then show "a \<in> bump_free (fl_globals s) - bump_free (fl_globals ?s)" using i(1) True top by (simp add: bump_free_def)
    qed
    ultimately show ?thesis using run True by simp
  next
    case False
    then show ?thesis using alloc_step_refl by (auto simp: bump_allocate_def Let_def)
  qed
  then show ?thesis using alloc_step_refl by (simp add: heap_ok_def bump_heap_def split_beta)
qed

definition cycle_store :: store where
  "cycle_store = (\<lambda>a. if a = 0x8000 then Make_header 2 0 Caml_white else if a = 0x8008 then 0x8020 else if a = 0x8010 then 7
     else if a = 0x8018 then Make_header 1 0 Caml_white else if a = 0x8020 then 0x8008
     else if a = 0x1FF8 then 0x8008 else 1)"

definition sample_gc :: gc_state where
  "sample_gc = caml_state.extend
     ((caml_state.truncate sample_machine)\<lparr>mem := cycle_store, extern_sp := 0x1FF8, young_ptr := 0x8000\<rparr>)
     (gc_state.fields 0 True \<lparr>tbl_allocated = True, tbl_entries = [], tbl_threshold = 512, tbl_limit = 512,
      tbl_end = 768, tbl_size = 512, tbl_reserve = 256\<rparr> 0 0 0 0 0 0 (\<lambda>_. 0x20000))"

definition cycle_heap :: young_heap where
  "cycle_heap = \<lparr>g_mem = cycle_store, g_young = Is_young sample_gc,
     g_area = Is_in_value_area sample_rt (caml_state.truncate sample_gc),
     g_blocks = {0x8008, 0x8020}, g_cells = {0x1FF8}, g_free = bump_free (\<lambda>_. 0x20000)\<rparr>"

lemma sample_gc_fields [simp]:
  "mem sample_gc = cycle_store" "extern_sp sample_gc = 0x1FF8" "stack_high sample_gc = 0x2000" "local_roots sample_gc = 0"
  "tbl_entries (ref_table sample_gc) = []" "tbl_entries (ephe_ref_table sample_gc) = []" "fl_globals sample_gc = (\<lambda>_. 0x20000)"
  "in_minor_collection sample_gc" "oldify_todo_list sample_gc = 0" "young_start sample_gc = 0x7FF8" "young_end sample_gc = 0x10000"
  by (simp_all add: sample_gc_def gc_state.defs caml_state.defs sample_machine_def)

lemma cycle_heap_fields [simp]:
  "g_mem cycle_heap = cycle_store" "g_blocks cycle_heap = {0x8008, 0x8020}" "g_cells cycle_heap = {0x1FF8}"
  "g_young cycle_heap a = (a < 0x10000 \<and> 0x7FF8 < a)" "g_free cycle_heap = bump_free (\<lambda>_. 0x20000)"
  by (simp_all add: cycle_heap_def Is_young_def)

lemma cycle_facts:
  "bsize cycle_heap 0x8008 = 2" "bsize cycle_heap 0x8020 = 1" "btag cycle_heap 0x8008 = 0" "btag cycle_heap 0x8020 = 0"
  "cycle_store 0x8008 = 0x8020" "cycle_store 0x8010 = 7" "cycle_store 0x8020 = 0x8008" "cycle_store 0x1FF8 = 0x8008"
  "cycle_store 0x8000 \<noteq> 0" "cycle_store 0x8018 \<noteq> 0"
  "aligned 0x8008" "aligned 0x8020" "Is_block 0x8008" "Is_block 0x8020" "\<not> Is_block 7"
  unfolding bsize_def cycle_heap_fields by code_simp+

lemma cycle_words: "block_words 0x8008 2 = {0x8000, 0x8008, 0x8010}" "block_words 0x8020 (Suc 0) = {0x8018, 0x8020}"
  by (auto simp: block_words_def cells_def waddr_def lessThan_Suc numeral_2_eq_2)

lemma cycle_wf: "wf_heap cycle_heap"
proof -
  have g: "good cycle_heap 0x8008" "good cycle_heap 0x8020" "good cycle_heap 7"
    using cycle_facts by (simp_all add: good_def young_block_def)
  have "wf_block cycle_heap 0x8008"
    using cycle_facts g by (auto simp: wf_block_def cycle_words bump_free_def Infix_tag_def Forward_tag_def less_2_cases_iff waddr_def)
  moreover have "wf_block cycle_heap 0x8020"
    using cycle_facts g by (auto simp: wf_block_def cycle_words bump_free_def Infix_tag_def Forward_tag_def)
  moreover have "forward_ok cycle_heap 0x8008" "forward_ok cycle_heap 0x8020"
    using cycle_facts by (simp_all add: forward_ok_def Forward_tag_def)
  ultimately show ?thesis
    using g cycle_facts by (auto simp: wf_heap_def cycle_words bump_free_def word_less_nat_alt)
qed

theorem minor_copy_correct_witness:
  "describes sample_rt bump_free cycle_heap sample_gc \<and> heap_ok bump_heap bump_free \<and>
   (minor_copy sample_rt bump_heap sample_gc = Some (Fatal ''out of memory'') \<or>
    (\<exists>s' \<phi>. minor_copy sample_rt bump_heap sample_gc = Some (Ret () s') \<and> promoted cycle_heap \<phi> (mem s') \<and>
       \<phi> 0x8008 = Some (mem s' 0x1FF8)))"
proof -
  have d: "describes sample_rt bump_free cycle_heap sample_gc"
    using cycle_wf unfolding describes_def by (simp add: cycle_heap_def)
  have r: "roots_ready bump_heap cycle_heap (Suc 0) [] [] sample_gc"
    by (simp add: roots_ready_def waddr_def bump_heap_def)
  have rc: "root_cells (Suc 0) [] [] sample_gc = {0x1FF8}" by (simp add: root_cells_def cells_def lessThan_Suc)
  have dc: "data_cells sample_gc = {}" by (simp add: data_cells_def)
  have val: "new_value cycle_heap \<phi> 0x8008 = \<phi> 0x8008" for \<phi>
    using new_value_block [OF cycle_wf, where v = "0x8008" and \<phi> = \<phi>] cycle_facts by (simp add: short_circuit_def Forward_tag_def)
  from minor_copy_correct [OF d bump_heap_ok r] show ?thesis
    using d bump_heap_ok cycle_facts by (auto simp: rc dc val)
qed

section \<open>Ephemeron keys inside blocks of closures\<close>

text \<open>
  The last loop tests the header of a key: null when the key was copied. The header of a
  pointer inside a block of closures is never null, so such a key is taken for dead.
\<close>

text \<open>
  C36: A key of an ephemeron that points inside a block of closures is erased, with the data,
  by a minor collection even when a root keeps the block and it was copied.
\<close>

theorem infix_key_erased:
  assumes ready: "describes rt avail G s" "heap_ok H avail" "roots_ready H G n fs others s"
      "root_cells n fs others s \<subseteq> g_cells G" "data_cells s \<subseteq> g_cells G"
    and key: "key = ephe re + 8 * offset re" "key \<in> g_cells G - (root_cells n fs others s \<union> data_cells s)"
      "offset re < Wosize_val (mem s) (ephe re)" "ephe re - 8 \<notin> g_cells G \<union> g_free G \<union> young_words G"
    and x: "young_block G (mem s key)" "infix_ptr G (mem s key)" "mem s key \<noteq> hr_ephe_none H"
    and root: "p \<in> root_cells n fs others s" "mem s p = infix_start G (mem s key)"
  shows "minor_copy rt H s = Some (Fatal ''out of memory'') \<or>
    (\<exists>s'. minor_copy rt H s = Some (Ret () s') \<and> copied G s' (infix_start G (mem s key)) = Some (mem s' p) \<and>
       mem (update_ephe H re s') key = hr_ephe_none H \<and> mem (update_ephe H re s') (ephe re + 8) = hr_ephe_none H)"
proof -
  have wf: "wf_heap G" and m: "g_mem G = mem s" using ready(1) by (simp_all add: describes_def)
  from minor_copy_runs [OF ready] consider "minor_copy rt H s = Some (Fatal ''out of memory'')"
    | s' where "minor_copy rt H s = Some (Ret () s')" "copy_inv rt avail G s' {} []"
        "advance avail G (root_cells n fs others s \<union> data_cells s) s s'" "\<forall>p\<in>root_cells n fs others s. done_cell G s' p"
    unfolding ends_def by blast
  then show ?thesis
  proof cases
    case 2
    let ?x = "mem s key" and ?w = "infix_start G (mem s key)"
    have same: "mem s' key = ?x" by (rule advance_cells [OF 2(3) wf]) (use key(2) in blast)
    have "mem s' (ephe re - 8) = mem s (ephe re - 8)" using copy_invD(2) [OF 2(2)] key(4) m by (simp add: old_kept_def)
    then have size: "offset re < Wosize_val (mem s') (ephe re)" using key(3) by (simp add: Wosize_val_def Hd_val_def)
    have y: "young_live_cell H s' ?x"
      using x(1,3) copy_invD(1) [OF 2(2)] by (simp add: young_live_cell_def young_block_def same_young_def)
    have h: "Hd_val (mem s') ?x \<noteq> 0" using infix_header(2) [OF wf 2(2) x(2)] by (simp add: Hd_val_def)
    have "update_ephe H re s' = store_at (ephe re + 8) (hr_ephe_none H) (store_at key (hr_ephe_none H) s')"
      using size same y h key(1) by (simp add: update_ephe_def Let_def)
    moreover have "copied G s' ?w = Some (mem s' p)"
    proof -
      have "?w \<in> g_blocks G" "btag G ?w < Infix_tag" using infix_ptrD [OF wf x(2)] by metis+
      moreover from this(2) have "\<not> short_circuit G ?w" by (auto simp: short_circuit_def Infix_tag_def Forward_tag_def)
      ultimately have "new_value G (copied G s') ?w = copied G s' ?w" by (intro new_value_block [OF wf])
      then show ?thesis using 2(4) root m unfolding done_cell_def by auto
    qed
    ultimately show ?thesis using 2(1) by simp
  qed simp
qed

text \<open>Two functions defined together, the first on the stack, the second the key of an ephemeron.\<close>

definition closure_store :: store where
  "closure_store = (\<lambda>a. if a = 0x8000 then Make_header 5 247 Caml_white else if a = 0x8018 then Make_header 3 249 Caml_white
     else if a = 0x1FF8 then 0x8008
     else if a = 0x40000 then Make_header 3 251 Caml_white else if a = 0x40018 then 0x8020 else 1)"

definition closure_gc :: gc_state where
  "closure_gc = sample_gc\<lparr>mem := closure_store,
     ephe_ref_table := (ephe_ref_table sample_gc)\<lparr>tbl_entries := [\<lparr>ephe = 0x40008, offset = 2\<rparr>]\<rparr>\<rparr>"

definition closure_heap :: young_heap where
  "closure_heap = \<lparr>g_mem = closure_store, g_young = Is_young sample_gc,
     g_area = Is_in_value_area sample_rt (caml_state.truncate sample_gc),
     g_blocks = {0x8008}, g_cells = {0x1FF8, 0x40018}, g_free = bump_free (\<lambda>_. 0x20000)\<rparr>"

lemma closure_heap_fields [simp]:
  "g_mem closure_heap = closure_store" "g_blocks closure_heap = {0x8008}" "g_cells closure_heap = {0x1FF8, 0x40018}"
  "g_young closure_heap a = (a < 0x10000 \<and> 0x7FF8 < a)" "g_free closure_heap = bump_free (\<lambda>_. 0x20000)"
  by (simp_all add: closure_heap_def Is_young_def)

lemma closure_facts:
  "bsize closure_heap 0x8008 = 5" "Tag_hd (closure_store 0x8000) = 247" "Tag_hd (closure_store 0x8018) = 249"
  "Infix_offset_val closure_store 0x8020 = 24" "Wosize_val closure_store 0x40008 = 3"
  "closure_store 0x8008 = 1" "closure_store 0x8010 = 1" "closure_store 0x8020 = 1" "closure_store 0x8028 = 1"
  "closure_store 0x1FF8 = 0x8008" "closure_store 0x40018 = 0x8020" "closure_store 0x8000 \<noteq> 0"
  "aligned 0x8008" "Is_block 0x8008" "Is_block 0x8020" "\<not> Is_block 1" "\<not> Is_block (closure_store 0x8018)"
  unfolding bsize_def closure_heap_fields by code_simp+

lemma closure_words: "block_words 0x8008 5 = {0x8000, 0x8008, 0x8010, 0x8018, 0x8020, 0x8028}"
  by (auto simp: block_words_def cells_def waddr_def lessThan_Suc eval_nat_numeral)

lemma closure_infix: "infix_start closure_heap 0x8020 = 0x8008" "infix_ptr closure_heap 0x8020" "young_block closure_heap 0x8020"
proof -
  show s: "infix_start closure_heap 0x8020 = 0x8008" using closure_facts by (simp add: infix_start_def)
  show "infix_ptr closure_heap 0x8020"
    unfolding infix_ptr_def s using closure_facts by (auto simp: Infix_tag_def intro!: exI [of _ 3])
  show "young_block closure_heap 0x8020" using closure_facts by (simp add: young_block_def)
qed

lemma closure_wf: "wf_heap closure_heap"
proof -
  have g: "good closure_heap 0x8008" "good closure_heap 0x8020" "good closure_heap 1" "good closure_heap (closure_store 0x8018)"
    using closure_facts closure_infix by (simp_all add: good_def young_block_def)
  have i: "i < 5 \<Longrightarrow> i = 0 \<or> i = 1 \<or> i = 2 \<or> i = 3 \<or> i = 4" for i :: nat by linarith
  have "good closure_heap (closure_store (waddr 0x8008 i))" if "i < 5" for i
    using i [OF that] closure_facts g by (elim disjE) (simp_all add: waddr_def)
  then have "wf_block closure_heap 0x8008"
    using closure_facts by (auto simp: wf_block_def closure_words bump_free_def Infix_tag_def Forward_tag_def)
  moreover have "forward_ok closure_heap 0x8008" using closure_facts by (simp add: forward_ok_def Forward_tag_def)
  ultimately show ?thesis
    using g closure_facts by (auto simp: wf_heap_def bump_free_def word_less_nat_alt)
qed

theorem infix_key_erased_witness:
  "infix_ptr closure_heap (mem closure_gc 0x40018) \<and>
   (minor_copy sample_rt bump_heap closure_gc = Some (Fatal ''out of memory'') \<or>
    (\<exists>s'. minor_copy sample_rt bump_heap closure_gc = Some (Ret () s') \<and> copied closure_heap s' 0x8008 = Some (mem s' 0x1FF8) \<and>
       mem (update_ephe bump_heap \<lparr>ephe = 0x40008, offset = 2\<rparr> s') 0x40018 = 0x7000))"
proof -
  have f: "mem closure_gc = closure_store" "extern_sp closure_gc = 0x1FF8" "stack_high closure_gc = 0x2000" "local_roots closure_gc = 0"
    "tbl_entries (ref_table closure_gc) = []" "fl_globals closure_gc = (\<lambda>_. 0x20000)" "hr_ephe_none bump_heap = 0x7000"
    "tbl_entries (ephe_ref_table closure_gc) = [\<lparr>ephe = 0x40008, offset = 2\<rparr>]"
    by (simp_all add: closure_gc_def bump_heap_def)
  have d: "describes sample_rt bump_free closure_heap closure_gc"
    using closure_wf unfolding describes_def
    by (simp add: closure_heap_def closure_gc_def Is_young_def fun_eq_iff Is_in_value_area_def caml_state.defs)
  have r: "roots_ready bump_heap closure_heap (Suc 0) [] [] closure_gc"
    by (simp add: roots_ready_def waddr_def bump_heap_def f)
  have rc: "root_cells (Suc 0) [] [] closure_gc = {0x1FF8}" by (simp add: root_cells_def cells_def lessThan_Suc f)
  have dc: "data_cells closure_gc = {}" by (simp add: data_cells_def f)
  have out: "0x40000 \<notin> g_cells closure_heap \<union> g_free closure_heap \<union> young_words closure_heap"
    using closure_facts by (simp add: closure_words bump_free_def)
  let ?re = "\<lparr>ephe = 0x40008, offset = 2\<rparr>"
  have cells: "root_cells (Suc 0) [] [] closure_gc \<subseteq> g_cells closure_heap" "data_cells closure_gc \<subseteq> g_cells closure_heap"
    "0x40018 \<in> g_cells closure_heap - (root_cells (Suc 0) [] [] closure_gc \<union> data_cells closure_gc)"
    "0x1FF8 \<in> root_cells (Suc 0) [] [] closure_gc" by (simp_all add: rc dc)
  have key: "0x40018 = ephe ?re + 8 * offset ?re" "offset ?re < Wosize_val (mem closure_gc) (ephe ?re)"
    "ephe ?re - 8 \<notin> g_cells closure_heap \<union> g_free closure_heap \<union> young_words closure_heap"
    using out closure_facts by (simp_all add: f)
  have mem: "mem closure_gc 0x40018 = 0x8020" "mem closure_gc 0x1FF8 = 0x8008" using closure_facts by (simp_all add: f)
  have x: "young_block closure_heap (mem closure_gc 0x40018)" "infix_ptr closure_heap (mem closure_gc 0x40018)"
    "mem closure_gc 0x40018 \<noteq> hr_ephe_none bump_heap" "mem closure_gc 0x1FF8 = infix_start closure_heap (mem closure_gc 0x40018)"
    unfolding mem closure_infix(1) f(7) using closure_infix(2,3) by simp_all
  from infix_key_erased [OF d bump_heap_ok r cells(1,2) key(1) cells(3) key(2,3) x(1-3) cells(4) x(4)] x(2)
  show ?thesis unfolding mem closure_infix(1) f(7) by blast
qed

end
