(* ===== verification/Lexing.thy ===== *)
theory Lexing
  imports Sample_State
begin

text \<open>
  The lexer engines behind \<^verbatim>\<open>ocamllex\<close> (\<^verbatim>\<open>runtime/lexing.c\<close>): the table-driven automaton with
  backtracking to the last accepting state, and the engine that also records positions in a memory block.
  The tables are compared with an abstract automaton: both engines return the action of the longest match,
  and an engine that stopped for more input goes on as if the input had been there from the start.
\<close>

section \<open>The structures\<close>

text \<open>Offsets in \<open>struct lexer_buffer\<close> and in \<open>struct lexing_table\<close>, in words.\<close>

definition lex_buffer :: nat where "lex_buffer = 1"
definition lex_buffer_len :: nat where "lex_buffer_len = 2"
definition lex_start_pos :: nat where "lex_start_pos = 4"
definition lex_curr_pos :: nat where "lex_curr_pos = 5"
definition lex_last_pos :: nat where "lex_last_pos = 6"
definition lex_last_action :: nat where "lex_last_action = 7"
definition lex_eof_reached :: nat where "lex_eof_reached = 8"
definition lex_mem :: nat where "lex_mem = 9"

definition lex_base :: nat where "lex_base = 0"
definition lex_backtrk :: nat where "lex_backtrk = 1"
definition lex_default :: nat where "lex_default = 2"
definition lex_trans :: nat where "lex_trans = 3"
definition lex_check :: nat where "lex_check = 4"
definition lex_base_code :: nat where "lex_base_code = 5"
definition lex_backtrk_code :: nat where "lex_backtrk_code = 6"
definition lex_default_code :: nat where "lex_default_code = 7"
definition lex_trans_code :: nat where "lex_trans_code = 8"
definition lex_check_code :: nat where "lex_check_code = 9"
definition lex_code :: nat where "lex_code = 10"

lemmas lex_offsets = lex_buffer_def lex_buffer_len_def lex_start_pos_def lex_curr_pos_def lex_last_pos_def
  lex_last_action_def lex_eof_reached_def lex_mem_def

text \<open>The 16-bit signed integer at index \<open>n\<close> of a table.\<close>

definition Short :: "store \<Rightarrow> u64 \<Rightarrow> int \<Rightarrow> int" where
  "Short m t n =
    (let a = t + of_int (2 * n)
     in sint ((push_bit 8 (ucast (load_byte m (a + 1))) OR ucast (load_byte m a)) :: 16 word))"

definition lex_table :: "store \<Rightarrow> u64 \<Rightarrow> nat \<Rightarrow> int \<Rightarrow> int" where
  "lex_table m tbl k n = Short m (m (waddr tbl k)) n"

abbreviation lex_get :: "store \<Rightarrow> u64 \<Rightarrow> nat \<Rightarrow> u64" where
  "lex_get m lexbuf k \<equiv> m (waddr lexbuf k)"

definition lex_set :: "u64 \<Rightarrow> nat \<Rightarrow> u64 \<Rightarrow> store \<Rightarrow> store" where
  "lex_set lexbuf k x m = m(waddr lexbuf k := x)"

definition Val_of_int :: "int \<Rightarrow> u64" where
  "Val_of_int n = Val_int (of_int n)"

section \<open>The engine\<close>

text \<open>Where a turn of the loop goes: out with a value, out by \<open>caml_failwith\<close>, or on with a state.\<close>

datatype lex_out = Lex_return u64 store | Lex_empty store | Lex_next int store

definition lex_enter :: "u64 \<Rightarrow> u64 \<Rightarrow> store \<Rightarrow> int \<times> store" where
  "lex_enter start_state lexbuf m =
    (let state = sint (Int_val start_state)
     in if 0 \<le> state then
          (state, lex_set lexbuf lex_last_action (Val_of_int (- 1))
             (lex_set lexbuf lex_last_pos (lex_get m lexbuf lex_curr_pos)
                (lex_set lexbuf lex_start_pos (lex_get m lexbuf lex_curr_pos) m)))
        else (- state - 1, m))"

text \<open>A state where the automaton may stop is remembered with the position.\<close>

definition lex_mark :: "u64 \<Rightarrow> int \<Rightarrow> store \<Rightarrow> store" where
  "lex_mark lexbuf backtrk m =
    (if 0 \<le> backtrk then
       lex_set lexbuf lex_last_action (Val_of_int backtrk) (lex_set lexbuf lex_last_pos (lex_get m lexbuf lex_curr_pos) m)
     else m)"

text \<open>The next character, 256 at the end of the file; \<open>None\<close> when the buffer must be refilled.\<close>

definition lex_read :: "u64 \<Rightarrow> store \<Rightarrow> (int \<times> store) option" where
  "lex_read lexbuf m =
    (if lex_get m lexbuf lex_buffer_len \<le>s lex_get m lexbuf lex_curr_pos then
       (if lex_get m lexbuf lex_eof_reached = Val_int 0 then None else Some (256, m))
     else
       Some (uint (load_byte m (lex_get m lexbuf lex_buffer + Long_val (lex_get m lexbuf lex_curr_pos))),
             lex_set lexbuf lex_curr_pos (lex_get m lexbuf lex_curr_pos + 2) m))"

definition lex_transition :: "store \<Rightarrow> u64 \<Rightarrow> int \<Rightarrow> int \<Rightarrow> int \<Rightarrow> int" where
  "lex_transition m tbl state base c =
    (if lex_table m tbl lex_check (base + c) = state then lex_table m tbl lex_trans (base + c)
     else lex_table m tbl lex_default state)"

text \<open>No transition: back to the last position where the automaton may stop.\<close>

definition lex_back :: "u64 \<Rightarrow> store \<Rightarrow> lex_out" where
  "lex_back lexbuf m =
    (let m1 = lex_set lexbuf lex_curr_pos (lex_get m lexbuf lex_last_pos) m
     in if lex_get m1 lexbuf lex_last_action = Val_of_int (- 1) then Lex_empty m1
        else Lex_return (lex_get m1 lexbuf lex_last_action) m1)"

definition lex_turn :: "u64 \<Rightarrow> u64 \<Rightarrow> int \<Rightarrow> store \<Rightarrow> lex_out" where
  "lex_turn tbl lexbuf state m =
    (let base = lex_table m tbl lex_base state
     in if base < 0 then Lex_return (Val_of_int (- base - 1)) m
        else
          (let m1 = lex_mark lexbuf (lex_table m tbl lex_backtrk state) m
           in case lex_read lexbuf m1 of
                None \<Rightarrow> Lex_return (Val_of_int (- state - 1)) m1
              | Some (c, m2) \<Rightarrow>
                  (let state' = lex_transition m2 tbl state base c
                   in if state' < 0 then lex_back lexbuf m2
                      else Lex_next state' (if c = 256 then lex_set lexbuf lex_eof_reached (Val_int 0) m2 else m2))))"

partial_function (option) lex_loop :: "u64 \<Rightarrow> u64 \<Rightarrow> int \<Rightarrow> store \<Rightarrow> lex_out option" where
  "lex_loop tbl lexbuf state m =
    (case lex_turn tbl lexbuf state m of
       Lex_next state' m' \<Rightarrow> lex_loop tbl lexbuf state' m'
     | out \<Rightarrow> Some out)"

definition lex_result :: "rt \<Rightarrow> lex_out option \<Rightarrow> caml_state \<Rightarrow> (u64, caml_state) cres" where
  "lex_result rt out s =
    (case out of
       Some (Lex_return v m) \<Rightarrow> Ret v (s\<lparr>mem := m\<rparr>)
     | Some (Lex_empty m) \<Rightarrow> cbind (rt_failwith rt ''lexing: empty token'' (s\<lparr>mem := m\<rparr>)) (\<lambda>_ s. Diverge)
     | _ \<Rightarrow> Diverge)"

definition caml_lex_engine :: "rt \<Rightarrow> u64 \<Rightarrow> u64 \<Rightarrow> u64 \<Rightarrow> caml_state \<Rightarrow> (u64, caml_state) cres" where
  "caml_lex_engine rt tbl start_state lexbuf s =
    (case lex_enter start_state lexbuf (mem s) of (state, m) \<Rightarrow> lex_result rt (lex_loop tbl lexbuf state m) s)"

section \<open>The engine with memory of positions\<close>

text \<open>
  \<open>run_mem\<close> and \<open>run_tag\<close> differ in what a source of 255 stores: the current position, or -1.
\<close>

partial_function (option) run_code :: "u64 \<Rightarrow> u64 \<Rightarrow> u64 \<Rightarrow> store \<Rightarrow> store option" where
  "run_code special p blk m =
    (let dst = load_byte m p
     in if dst = 0xFF then Some m
        else
          (let src = load_byte m (p + 1)
           in run_code special (p + 2) blk
                (m(waddr blk (unat dst) := if src = 0xFF then special else m (waddr blk (unat src))))))"

definition run_mem :: "u64 \<Rightarrow> u64 \<Rightarrow> u64 \<Rightarrow> store \<Rightarrow> store option" where
  "run_mem p blk curr_pos m = run_code curr_pos p blk m"

definition run_tag :: "u64 \<Rightarrow> u64 \<Rightarrow> store \<Rightarrow> store option" where
  "run_tag p blk m = run_code (Val_of_int (- 1)) p blk m"

definition lex_code_at :: "store \<Rightarrow> u64 \<Rightarrow> int \<Rightarrow> u64" where
  "lex_code_at m tbl pc_off = m (waddr tbl lex_code) + of_int pc_off"

definition new_lex_moves :: "u64 \<Rightarrow> u64 \<Rightarrow> int \<Rightarrow> int \<Rightarrow> store \<Rightarrow> store option" where
  "new_lex_moves tbl lexbuf pstate c m =
    (let base_code = lex_table m tbl lex_base_code pstate;
         pc_off = (if lex_table m tbl lex_check_code (base_code + c) = pstate
                   then lex_table m tbl lex_trans_code (base_code + c)
                   else lex_table m tbl lex_default_code pstate)
     in if 0 < pc_off
        then run_mem (lex_code_at m tbl pc_off) (lex_get m lexbuf lex_mem) (lex_get m lexbuf lex_curr_pos) m
        else Some m)"

definition new_lex_mark :: "u64 \<Rightarrow> u64 \<Rightarrow> int \<Rightarrow> store \<Rightarrow> store option" where
  "new_lex_mark tbl lexbuf state m =
    (let backtrk = lex_table m tbl lex_backtrk state
     in if 0 \<le> backtrk then
          map_option (lex_mark lexbuf backtrk)
            (run_tag (lex_code_at m tbl (lex_table m tbl lex_backtrk_code state)) (lex_get m lexbuf lex_mem) m)
        else Some m)"

definition new_lex_turn :: "u64 \<Rightarrow> u64 \<Rightarrow> int \<Rightarrow> store \<Rightarrow> lex_out option" where
  "new_lex_turn tbl lexbuf state m =
    (let base = lex_table m tbl lex_base state
     in if base < 0 then
          map_option (Lex_return (Val_of_int (- base - 1)))
            (run_tag (lex_code_at m tbl (lex_table m tbl lex_base_code state)) (lex_get m lexbuf lex_mem) m)
        else
          Option.bind (new_lex_mark tbl lexbuf state m) (\<lambda>m1.
            case lex_read lexbuf m1 of
              None \<Rightarrow> Some (Lex_return (Val_of_int (- state - 1)) m1)
            | Some (c, m2) \<Rightarrow>
                (let state' = lex_transition m2 tbl state base c
                 in if state' < 0 then Some (lex_back lexbuf m2)
                    else map_option
                      (\<lambda>m3. Lex_next state' (if c = 256 then lex_set lexbuf lex_eof_reached (Val_int 0) m3 else m3))
                      (new_lex_moves tbl lexbuf state c m2))))"

partial_function (option) new_lex_loop :: "u64 \<Rightarrow> u64 \<Rightarrow> int \<Rightarrow> store \<Rightarrow> lex_out option" where
  "new_lex_loop tbl lexbuf state m =
    (case new_lex_turn tbl lexbuf state m of
       None \<Rightarrow> None
     | Some out \<Rightarrow> (case out of Lex_next state' m' \<Rightarrow> new_lex_loop tbl lexbuf state' m' | _ \<Rightarrow> Some out))"

definition caml_new_lex_engine :: "rt \<Rightarrow> u64 \<Rightarrow> u64 \<Rightarrow> u64 \<Rightarrow> caml_state \<Rightarrow> (u64, caml_state) cres" where
  "caml_new_lex_engine rt tbl start_state lexbuf s =
    (case lex_enter start_state lexbuf (mem s) of (state, m) \<Rightarrow> lex_result rt (new_lex_loop tbl lexbuf state m) s)"
section \<open>The automaton and the longest match\<close>

text \<open>The automaton that the tables describe; a negative state is no state.\<close>

record dfa =
  df_base :: "int \<Rightarrow> int"
  df_back :: "int \<Rightarrow> int"
  df_next :: "int \<Rightarrow> int \<Rightarrow> int"

definition dfa_of :: "store \<Rightarrow> u64 \<Rightarrow> dfa" where
  "dfa_of m tbl = \<lparr>df_base = lex_table m tbl lex_base, df_back = lex_table m tbl lex_backtrk,
     df_next = (\<lambda>q c. lex_transition m tbl q (lex_table m tbl lex_base q) c)\<rparr>"

fun reach :: "dfa \<Rightarrow> int \<Rightarrow> int list \<Rightarrow> int option" where
  "reach A q [] = Some q"
| "reach A q (c # cs) = (if df_base A q < 0 \<or> df_next A q c < 0 then None else reach A (df_next A q c) cs)"

definition accepts :: "dfa \<Rightarrow> int \<Rightarrow> int option" where
  "accepts A q = (if df_base A q < 0 then Some (- df_base A q - 1) else if 0 \<le> df_back A q then Some (df_back A q) else None)"

text \<open>What a scan of a list of characters finds: the end of a token with its action, nothing, or that more input is needed.\<close>

datatype munched = Token int nat | No_token | More int "(nat \<times> int) option" nat

definition after_char :: "nat \<Rightarrow> int \<Rightarrow> nat" where
  "after_char i c = (if c = 256 then i else Suc i)"

definition note_last :: "dfa \<Rightarrow> int \<Rightarrow> (nat \<times> int) option \<Rightarrow> nat \<Rightarrow> (nat \<times> int) option" where
  "note_last A q lst i = (if 0 \<le> df_back A q then Some (i, df_back A q) else lst)"

fun munch :: "dfa \<Rightarrow> int \<Rightarrow> (nat \<times> int) option \<Rightarrow> nat \<Rightarrow> int list \<Rightarrow> munched" where
  "munch A q lst i [] = (if df_base A q < 0 then Token (- df_base A q - 1) i else More q (note_last A q lst i) i)"
| "munch A q lst i (c # cs) =
    (if df_base A q < 0 then Token (- df_base A q - 1) i
     else if df_next A q c < 0 then (case note_last A q lst i of None \<Rightarrow> No_token | Some (j, a) \<Rightarrow> Token a j)
     else munch A (df_next A q c) (note_last A q lst i) (after_char i c) cs)"

text \<open>Scanning may stop at the end of the input and go on when there is more.\<close>

lemma munch_append:
  "munch A q lst i (xs @ ys) = (case munch A q lst i xs of More q' lst' i' \<Rightarrow> munch A q' lst' i' ys | r \<Rightarrow> r)"
proof (induction xs arbitrary: q lst i)
  case Nil
  have "note_last A q (note_last A q lst i) i = note_last A q lst i" by (simp add: note_last_def)
  then show ?case by (cases ys) simp_all
next
  case (Cons c cs)
  then show ?case by (auto split: option.split)
qed

definition advance_pos :: "nat \<Rightarrow> int list \<Rightarrow> nat" where
  "advance_pos i cs = foldl after_char i cs"

text \<open>The longest prefix on which the automaton may stop is \<open>take n cs\<close>, with action \<open>a\<close>.\<close>

definition longest :: "dfa \<Rightarrow> int \<Rightarrow> int list \<Rightarrow> nat \<Rightarrow> int \<Rightarrow> bool" where
  "longest A q cs n a \<longleftrightarrow> n \<le> length cs \<and> (\<exists>q'. reach A q (take n cs) = Some q' \<and> accepts A q' = Some a) \<and>
     (\<forall>k q'. n < k \<and> k \<le> length cs \<and> reach A q (take k cs) = Some q' \<longrightarrow> accepts A q' = None)"

definition no_prefix :: "dfa \<Rightarrow> int \<Rightarrow> int list \<Rightarrow> bool" where
  "no_prefix A q cs \<longleftrightarrow> (\<forall>k q'. k \<le> length cs \<and> reach A q (take k cs) = Some q' \<longrightarrow> accepts A q' = None)"

lemma longest_Cons:
  assumes "\<not> df_base A q < 0" "\<not> df_next A q c < 0" "longest A (df_next A q c) cs n a"
  shows "longest A q (c # cs) (Suc n) a"
  using assms unfolding longest_def
  by (auto simp: Suc_less_eq2)

lemma no_prefix_Cons:
  assumes "\<not> df_base A q < 0" "\<not> df_next A q c < 0" "no_prefix A (df_next A q c) cs"
  shows "(accepts A q = None \<longrightarrow> no_prefix A q (c # cs)) \<and> (\<forall>a. accepts A q = Some a \<longrightarrow> longest A q (c # cs) 0 a)"
proof -
  have step: "accepts A q' = None" if "0 < k" "k \<le> length (c # cs)" "reach A q (take k (c # cs)) = Some q'" for k q'
    using that assms unfolding no_prefix_def by (cases k) auto
  then show ?thesis
    unfolding no_prefix_def longest_def by (metis gr0I option.inject reach.simps(1) take0 le0)
qed

lemma accepts_note: "\<not> df_base A q < 0 \<Longrightarrow> note_last A q lst i = (case accepts A q of Some a \<Rightarrow> Some (i, a) | None \<Rightarrow> lst)"
  by (simp add: note_last_def accepts_def)

lemma stuck_prefixes:
  assumes "\<not> df_base A q < 0" "df_next A q c < 0"
  shows "(accepts A q = None \<longrightarrow> no_prefix A q (c # cs)) \<and> (\<forall>a. accepts A q = Some a \<longrightarrow> longest A q (c # cs) 0 a)"
proof -
  have step: "reach A q (take k (c # cs)) = None" if "0 < k" for k using that assms by (cases k) auto
  have k0: "k = 0 \<and> q' = q" if "reach A q (take k (c # cs)) = Some q'" for k q' using step that by (cases "k = 0") auto
  have "no_prefix A q (c # cs)" if "accepts A q = None" unfolding no_prefix_def using k0 that by metis
  moreover have "longest A q (c # cs) 0 a" if "accepts A q = Some a" for a
    unfolding longest_def using k0 that by (metis less_nat_zero_code reach.simps(1) take0 le0)
  ultimately show ?thesis by blast
qed

lemma final_prefixes: "df_base A q < 0 \<Longrightarrow> longest A q cs 0 (- df_base A q - 1)"
proof -
  assume f: "df_base A q < 0"
  have "reach A q (take k cs) = None" if "0 < k" "k \<le> length cs" for k using that f by (cases k; cases cs) auto
  then show ?thesis using f unfolding longest_def by (auto simp: accepts_def)
qed

lemma munch_correct:
  "case munch A q lst i cs of
     Token a j \<Rightarrow> (\<exists>n. longest A q cs n a \<and> j = advance_pos i (take n cs)) \<or> no_prefix A q cs \<and> lst = Some (j, a)
   | No_token \<Rightarrow> no_prefix A q cs \<and> lst = None
   | More q' lst' j \<Rightarrow> reach A q cs = Some q' \<and> \<not> df_base A q' < 0 \<and> j = advance_pos i cs"
proof (induction cs arbitrary: q lst i)
  case Nil
  then show ?case using final_prefixes [of A q "[]"] by (auto simp: advance_pos_def)
next
  case (Cons c cs)
  let ?q = "df_next A q c" and ?l = "note_last A q lst i" and ?i = "after_char i c"
  show ?case
  proof (cases "df_base A q < 0")
    case True
    then show ?thesis using final_prefixes [OF True, of "c # cs"] by (auto simp: advance_pos_def intro!: exI [of _ 0])
  next
    case nf: False
    show ?thesis
    proof (cases "?q < 0")
      case True
      then show ?thesis
        using stuck_prefixes [OF nf True, of cs] nf accepts_note [OF nf, of lst i]
        by (cases "accepts A q"; cases lst) (auto simp: advance_pos_def intro!: exI [of _ 0])
    next
      case False
      note IH = Cons.IH [where q = ?q and lst = ?l and i = ?i]
      have adv: "advance_pos ?i xs = advance_pos i (c # xs)" for xs by (simp add: advance_pos_def)
      have run: "munch A q lst i (c # cs) = munch A ?q ?l ?i cs" using nf False by simp
      show ?thesis
      proof (cases "munch A ?q ?l ?i cs")
        case (Token a j)
        with IH consider n where "longest A ?q cs n a" "j = advance_pos ?i (take n cs)"
          | "no_prefix A ?q cs" "?l = Some (j, a)" by auto
        then show ?thesis
        proof cases
          case 1
          then show ?thesis unfolding run Token using longest_Cons [OF nf False 1(1)] adv by (auto intro!: exI [of _ "Suc n"])
        next
          case 2
          then show ?thesis
            unfolding run Token using no_prefix_Cons [OF nf False 2(1)] accepts_note [OF nf, of lst i]
            by (cases "accepts A q") (auto simp: advance_pos_def intro!: exI [of _ 0])
        qed
      next
        case No_token
        with IH have "no_prefix A ?q cs" "?l = None" by auto
        then show ?thesis
          unfolding run No_token using no_prefix_Cons [OF nf False] accepts_note [OF nf, of lst i]
          by (cases "accepts A q") auto
      next
        case (More q' lst' j)
        with IH show ?thesis unfolding run More using nf False adv by auto
      qed
    qed
  qed
qed
section \<open>The scan over the store is the scan of the automaton\<close>

subsection \<open>Positions and small integers\<close>

abbreviation pos :: "nat \<Rightarrow> u64" where
  "pos p \<equiv> Val_long (of_nat p)"

lemma sint_pos: "p < 2 ^ 61 \<Longrightarrow> sint (pos p) = 2 * int p + 1"
proof -
  assume p: "p < 2 ^ 61"
  have w: "pos p = word_of_int (2 * int p + 1)" by (simp add: Val_long_alt)
  show ?thesis unfolding w using p by (simp only: sint_word_of_int) (simp add: signed_take_bit_int_eq_self)
qed

lemma pos_sle: "p < 2 ^ 61 \<Longrightarrow> n < 2 ^ 61 \<Longrightarrow> pos n \<le>s pos p \<longleftrightarrow> n \<le> p"
  by (simp add: word_sle_eq sint_pos)

lemma Long_val_pos: "p < 2 ^ 61 \<Longrightarrow> Long_val (pos p) = of_nat p"
proof -
  assume p: "p < 2 ^ 61"
  then have "sint (of_nat p :: u64) = int p" by (simp add: signed_of_nat signed_take_bit_int_eq_self)
  then show ?thesis using p by (intro Long_val_Val_long) simp_all
qed

lemma pos_Suc: "pos p + 2 = pos (Suc p)"
  by (simp add: Val_long_alt)

lemma Short_range: "- (2 ^ 15) \<le> Short m t n" "Short m t n < 2 ^ 15"
  using sint_range_size [of "_ :: 16 word"] by (auto simp: Short_def Let_def word_size)

lemma ocaml_int_Val_of_int: "- (2 ^ 31) \<le> a \<Longrightarrow> a < 2 ^ 31 \<Longrightarrow> ocaml_int (Val_of_int a) = a"
  by (simp add: Val_of_int_def Val_int_def ocaml_int_Val_long wrap63_def sint_word_of_int signed_take_bit_int_eq_self
      signed_scast_eq)

lemma Int_val_Val_of_int: "- (2 ^ 31) \<le> a \<Longrightarrow> a < 2 ^ 31 \<Longrightarrow> sint (Int_val (Val_of_int a)) = a"
proof -
  assume a: "- (2 ^ 31) \<le> a" "a < 2 ^ 31"
  have "Int_val (Val_of_int a) = word_of_int (ocaml_int (Val_of_int a))"
    unfolding Int_val_def ocaml_int_def by (rule bit_word_eqI) (auto simp: bit_simps)
  then show ?thesis using a by (simp only: ocaml_int_Val_of_int sint_word_of_int) (simp add: signed_take_bit_int_eq_self)
qed

lemma Val_of_int_inj:
  assumes "- (2 ^ 31) \<le> a" "a < 2 ^ 31"
  shows "Val_of_int a = Val_of_int (- 1) \<longleftrightarrow> a = - 1"
proof
  assume "Val_of_int a = Val_of_int (- 1)"
  then have "ocaml_int (Val_of_int a) = ocaml_int (Val_of_int (- 1))" by simp
  then show "a = - 1" using assms by (simp add: ocaml_int_Val_of_int)
qed simp

subsection \<open>What the engine writes, and what it must not write\<close>

definition lex_scratch :: "u64 \<Rightarrow> u64 set" where
  "lex_scratch lexbuf = waddr lexbuf ` {lex_start_pos, lex_curr_pos, lex_last_pos, lex_last_action, lex_eof_reached}"

definition same_outside :: "u64 set \<Rightarrow> store \<Rightarrow> store \<Rightarrow> bool" where
  "same_outside W m m' \<longleftrightarrow> (\<forall>a. a \<notin> W \<longrightarrow> m' a = m a)"

definition short_cells :: "u64 \<Rightarrow> int \<Rightarrow> u64 set" where
  "short_cells t n = {cell_of (t + of_int (2 * n)), cell_of (t + of_int (2 * n) + 1)}"

text \<open>
  The tables of an automaton of \<open>nq\<close> states, whose transition and check tables have \<open>ns\<close> entries,
  lie outside \<open>W\<close>, and their indices and states are in bounds.
\<close>

definition lex_tables_ok :: "store \<Rightarrow> u64 \<Rightarrow> u64 set \<Rightarrow> int \<Rightarrow> int \<Rightarrow> bool" where
  "lex_tables_ok m tbl W nq ns \<longleftrightarrow>
    (\<forall>k \<in> {lex_base, lex_backtrk, lex_default, lex_trans, lex_check}. waddr tbl k \<notin> W) \<and>
    (\<forall>q \<in> {0..<nq}. \<forall>k \<in> {lex_base, lex_backtrk, lex_default}. short_cells (m (waddr tbl k)) q \<inter> W = {}) \<and>
    (\<forall>n \<in> {0..<ns}. \<forall>k \<in> {lex_trans, lex_check}. short_cells (m (waddr tbl k)) n \<inter> W = {}) \<and>
    (\<forall>q \<in> {0..<nq}. lex_table m tbl lex_base q + 256 < ns \<and> lex_table m tbl lex_default q < nq) \<and>
    (\<forall>n \<in> {0..<ns}. lex_table m tbl lex_trans n < nq)"

definition lex_input :: "store \<Rightarrow> u64 \<Rightarrow> nat \<Rightarrow> nat \<Rightarrow> bool \<Rightarrow> int list" where
  "lex_input m lexbuf p n eof =
    map (\<lambda>i. uint (load_byte m (lex_get m lexbuf lex_buffer + of_nat i))) [p..<n] @ (if eof then [256] else [])"

text \<open>
  The lexer buffer holds \<open>n\<close> characters, the scan stands at \<open>p\<close>, it began at \<open>st\<close>, and \<open>lst\<close> is the last
  position where it could stop.
\<close>

definition lex_at :: "u64 set \<Rightarrow> u64 \<Rightarrow> nat \<Rightarrow> nat \<Rightarrow> store \<Rightarrow> nat \<Rightarrow> (nat \<times> int) option \<Rightarrow> bool \<Rightarrow> bool" where
  "lex_at W lexbuf n st m p lst eof \<longleftrightarrow>
    lex_get m lexbuf lex_buffer_len = pos n \<and> n < 2 ^ 61 \<and> p \<le> n \<and>
    waddr lexbuf lex_buffer \<notin> W \<and> waddr lexbuf lex_buffer_len \<notin> W \<and> lex_scratch lexbuf \<subseteq> W \<and>
    (\<forall>i < n. cell_of (lex_get m lexbuf lex_buffer + of_nat i) \<notin> W) \<and>
    lex_get m lexbuf lex_curr_pos = pos p \<and>
    (lex_get m lexbuf lex_eof_reached = Val_int 0 \<longleftrightarrow> \<not> eof) \<and>
    (case lst of
       None \<Rightarrow> lex_get m lexbuf lex_last_action = Val_of_int (- 1) \<and> lex_get m lexbuf lex_last_pos = pos st
     | Some (j, a) \<Rightarrow> lex_get m lexbuf lex_last_action = Val_of_int a \<and> lex_get m lexbuf lex_last_pos = pos j \<and>
         0 \<le> a \<and> a < 2 ^ 15)"

lemma lex_set_get [simp]:
  "k < 12 \<Longrightarrow> j < 12 \<Longrightarrow> lex_set lexbuf k x m (waddr lexbuf j) = (if j = k then x else m (waddr lexbuf j))"
  by (simp add: lex_set_def waddr_inj)

lemma lex_offset_bounds [simp]:
  "lex_buffer < 12" "lex_buffer_len < 12" "lex_start_pos < 12" "lex_curr_pos < 12" "lex_last_pos < 12"
  "lex_last_action < 12" "lex_eof_reached < 12"
  by (simp_all add: lex_offsets)

lemma same_outside_refl [simp]: "same_outside W m m"
  by (simp add: same_outside_def)

lemma same_outside_trans: "same_outside W m m' \<Longrightarrow> same_outside W m' m'' \<Longrightarrow> same_outside W m m''"
  by (simp add: same_outside_def)

lemma same_outside_set:
  "lex_scratch lexbuf \<subseteq> W \<Longrightarrow> k \<in> {lex_start_pos, lex_curr_pos, lex_last_pos, lex_last_action, lex_eof_reached} \<Longrightarrow>
   same_outside W m (lex_set lexbuf k x m)"
  by (auto simp: same_outside_def lex_set_def lex_scratch_def)

lemma load_byte_outside: "same_outside W m m' \<Longrightarrow> cell_of a \<notin> W \<Longrightarrow> load_byte m' a = load_byte m a"
  by (simp add: same_outside_def load_byte_def)

lemma Short_outside: "same_outside W m m' \<Longrightarrow> short_cells t n \<inter> W = {} \<Longrightarrow> Short m' t n = Short m t n"
  by (simp add: Short_def short_cells_def load_byte_outside Let_def)

lemma lex_table_outside:
  assumes "same_outside W m m'" "waddr tbl k \<notin> W" "short_cells (m (waddr tbl k)) n \<inter> W = {}"
  shows "lex_table m' tbl k n = lex_table m tbl k n"
  using assms Short_outside [OF assms(1,3)] by (simp add: lex_table_def same_outside_def)

lemma dfa_outside:
  assumes ok: "lex_tables_ok m tbl W nq ns" and same: "same_outside W m m'" and q: "0 \<le> q" "q < nq"
  shows "lex_table m' tbl lex_base q = df_base (dfa_of m tbl) q"
    and "lex_table m' tbl lex_backtrk q = df_back (dfa_of m tbl) q"
    and "0 \<le> df_base (dfa_of m tbl) q \<Longrightarrow> 0 \<le> c \<Longrightarrow> c \<le> 256 \<Longrightarrow>
      lex_transition m' tbl q (df_base (dfa_of m tbl) q) c = df_next (dfa_of m tbl) q c \<and> df_next (dfa_of m tbl) q c < nq"
proof -
  have t: "lex_table m' tbl k q = lex_table m tbl k q" if "k \<in> {lex_base, lex_backtrk, lex_default}" for k
    using ok q that by (intro lex_table_outside [OF same]) (auto simp: lex_tables_ok_def)
  show "lex_table m' tbl lex_base q = df_base (dfa_of m tbl) q" "lex_table m' tbl lex_backtrk q = df_back (dfa_of m tbl) q"
    by (simp_all add: t dfa_of_def)
  assume b: "0 \<le> df_base (dfa_of m tbl) q" "0 \<le> c" "c \<le> 256"
  let ?n = "lex_table m tbl lex_base q + c"
  have "lex_table m tbl lex_base q + 256 < ns" using ok q by (simp add: lex_tables_ok_def)
  then have n: "?n \<in> {0..<ns}" using b by (simp add: dfa_of_def)
  have u: "lex_table m' tbl k ?n = lex_table m tbl k ?n" if "k \<in> {lex_trans, lex_check}" for k
    using ok n that by (intro lex_table_outside [OF same]) (auto simp: lex_tables_ok_def)
  have "lex_table m tbl lex_trans ?n < nq" "lex_table m tbl lex_default q < nq"
    using ok n q by (auto simp: lex_tables_ok_def)
  then show "lex_transition m' tbl q (df_base (dfa_of m tbl) q) c = df_next (dfa_of m tbl) q c \<and> df_next (dfa_of m tbl) q c < nq"
    by (simp add: dfa_of_def lex_transition_def u t)
qed

lemma df_range: "- (2 ^ 15) \<le> df_base (dfa_of m tbl) q" "df_back (dfa_of m tbl) q < 2 ^ 15"
  using Short_range by (simp_all add: dfa_of_def lex_table_def)

subsection \<open>The steps of a turn\<close>

lemma lex_mark_at:
  assumes "lex_at W lexbuf n st m p lst eof"
  shows "lex_at W lexbuf n st (lex_mark lexbuf (df_back (dfa_of m0 tbl) q) m) p (note_last (dfa_of m0 tbl) q lst p) eof"
    and "same_outside W m (lex_mark lexbuf (df_back (dfa_of m0 tbl) q) m)"
proof -
  let ?m = "lex_mark lexbuf (df_back (dfa_of m0 tbl) q) m"
  have W: "lex_scratch lexbuf \<subseteq> W" using assms by (simp add: lex_at_def)
  show same: "same_outside W m ?m"
    unfolding lex_mark_def
    by (simp, intro impI same_outside_trans [OF same_outside_set same_outside_set], simp_all add: W)
  show "lex_at W lexbuf n st ?m p (note_last (dfa_of m0 tbl) q lst p) eof"
    using assms df_range(2) [of m0 tbl q] by (auto simp: lex_at_def lex_mark_def note_last_def lex_offsets)
qed

lemma lex_input_outside:
  assumes "same_outside W m m'" "waddr lexbuf lex_buffer \<notin> W" "\<forall>i < n. cell_of (lex_get m lexbuf lex_buffer + of_nat i) \<notin> W"
  shows "lex_input m' lexbuf i n e = lex_input m lexbuf i n e"
proof -
  have "lex_get m' lexbuf lex_buffer = lex_get m lexbuf lex_buffer" using assms by (simp add: same_outside_def)
  moreover have "load_byte m' (lex_get m lexbuf lex_buffer + of_nat j) = load_byte m (lex_get m lexbuf lex_buffer + of_nat j)"
    if "j < n" for j using assms that by (intro load_byte_outside [OF assms(1)]) simp
  ultimately show ?thesis by (auto simp: lex_input_def)
qed

lemma lex_input_cong:
  "lex_at W lexbuf n st m p lst eof \<Longrightarrow> same_outside W m m' \<Longrightarrow> lex_input m' lexbuf i n e = lex_input m lexbuf i n e"
  unfolding lex_at_def by (intro lex_input_outside [of W]) simp_all

lemma lex_read_at:
  assumes at: "lex_at W lexbuf n st m p lst eof"
  shows "lex_input m lexbuf p n eof = [] \<Longrightarrow> lex_read lexbuf m = None \<and> p = n \<and> \<not> eof"
    and "lex_input m lexbuf p n eof = c # cs \<Longrightarrow> \<exists>m'. lex_read lexbuf m = Some (c, m') \<and> same_outside W m m' \<and>
      lex_at W lexbuf n st m' (after_char p c) lst eof \<and> 0 \<le> c \<and> c \<le> 256 \<and>
      (if c = 256 then eof \<and> cs = [] \<and> p = n else lex_input m' lexbuf (after_char p c) n eof = cs)"
proof -
  have n: "lex_get m lexbuf lex_buffer_len = pos n" "lex_get m lexbuf lex_curr_pos = pos p" "n < 2 ^ 61" "p \<le> n"
    and e: "lex_get m lexbuf lex_eof_reached = Val_int 0 \<longleftrightarrow> \<not> eof" and W: "lex_scratch lexbuf \<subseteq> W"
    using at by (simp_all add: lex_at_def)
  have le: "pos n \<le>s pos p \<longleftrightarrow> p = n" using n pos_sle [of p n] by auto
  show "lex_read lexbuf m = None \<and> p = n \<and> \<not> eof" if "lex_input m lexbuf p n eof = []"
    using that n e le by (auto simp: lex_read_def lex_input_def split: if_splits)
  assume i: "lex_input m lexbuf p n eof = c # cs"
  show "\<exists>m'. lex_read lexbuf m = Some (c, m') \<and> same_outside W m m' \<and>
      lex_at W lexbuf n st m' (after_char p c) lst eof \<and> 0 \<le> c \<and> c \<le> 256 \<and>
      (if c = 256 then eof \<and> cs = [] \<and> p = n else lex_input m' lexbuf (after_char p c) n eof = cs)"
  proof (cases "p = n")
    case True
    then have c: "c = 256" "eof" "cs = []" using i by (auto simp: lex_input_def split: if_splits)
    then show ?thesis using True at e n le by (simp add: lex_read_def after_char_def)
  next
    case False
    let ?b = "load_byte m (lex_get m lexbuf lex_buffer + of_nat p)" and ?m = "lex_set lexbuf lex_curr_pos (pos (Suc p)) m"
    have p: "p < n" using False n by simp
    have c: "c = uint ?b" and cs: "cs = lex_input m lexbuf (Suc p) n eof"
      using i p by (auto simp: lex_input_def upt_rec)
    have b: "0 \<le> c" "c < 256" using uint_bounded [of ?b] unfolding c by simp_all
    have same: "same_outside W m ?m" by (rule same_outside_set [OF W]) simp
    have "lex_at W lexbuf n st ?m (Suc p) lst eof"
      using at p by (auto simp: lex_at_def lex_offsets split: option.splits)
    moreover have "lex_read lexbuf m = Some (c, ?m)"
      using n p le False by (simp add: lex_read_def Long_val_pos c pos_Suc)
    ultimately show ?thesis using b same lex_input_cong [OF at same] cs by (simp add: after_char_def)
  qed
qed

lemma lex_eof_at:
  assumes "lex_at W lexbuf n st m n lst eof"
  shows "lex_at W lexbuf n st (lex_set lexbuf lex_eof_reached (Val_int 0) m) n lst False"
    and "same_outside W m (lex_set lexbuf lex_eof_reached (Val_int 0) m)"
    and "lex_input m' lexbuf n n False = []"
  using assms by (auto simp: lex_at_def lex_offsets lex_input_def intro!: same_outside_set split: option.splits)

lemma lex_back_at:
  assumes "lex_at W lexbuf n st m p lst eof"
  shows "case lst of
      None \<Rightarrow> \<exists>m'. lex_back lexbuf m = Lex_empty m' \<and> same_outside W m m' \<and> lex_get m' lexbuf lex_curr_pos = pos st
    | Some (j, a) \<Rightarrow> \<exists>m'. lex_back lexbuf m = Lex_return (Val_of_int a) m' \<and> same_outside W m m' \<and>
        lex_get m' lexbuf lex_curr_pos = pos j"
proof -
  have same: "same_outside W m (lex_set lexbuf lex_curr_pos x m)" for x
    using assms by (intro same_outside_set) (simp_all add: lex_at_def)
  show ?thesis
    using assms same by (auto simp: lex_at_def lex_back_def lex_offsets Val_of_int_inj split: option.splits)
qed

subsection \<open>The loop\<close>

definition lex_outcome :: "u64 set \<Rightarrow> u64 \<Rightarrow> nat \<Rightarrow> nat \<Rightarrow> store \<Rightarrow> lex_out \<Rightarrow> munched \<Rightarrow> bool" where
  "lex_outcome W lexbuf n st m out r \<longleftrightarrow>
    (case r of
       Token a j \<Rightarrow> \<exists>m'. out = Lex_return (Val_of_int a) m' \<and> same_outside W m m' \<and> lex_get m' lexbuf lex_curr_pos = pos j
     | No_token \<Rightarrow> \<exists>m'. out = Lex_empty m' \<and> same_outside W m m' \<and> lex_get m' lexbuf lex_curr_pos = pos st
     | More q lst j \<Rightarrow> \<exists>m'. out = Lex_return (Val_of_int (- q - 1)) m' \<and> same_outside W m m' \<and>
         j = n \<and> lex_at W lexbuf n st m' n lst False)"

lemma lex_outcome_trans: "same_outside W m m1 \<Longrightarrow> lex_outcome W lexbuf n st m1 out r \<Longrightarrow> lex_outcome W lexbuf n st m out r"
  unfolding lex_outcome_def by (auto split: munched.splits intro: same_outside_trans)

lemma lex_outcome_not_next: "\<not> lex_outcome W lexbuf n st m (Lex_next q m') r"
  by (simp add: lex_outcome_def split: munched.split)

text \<open>
  What one turn owes to the automaton: it ends with what the scan from here finds, or it goes on after
  one character.
\<close>

definition turn_ok ::
  "dfa \<Rightarrow> u64 set \<Rightarrow> u64 \<Rightarrow> nat \<Rightarrow> nat \<Rightarrow> int \<Rightarrow> store \<Rightarrow> nat \<Rightarrow> (nat \<times> int) option \<Rightarrow> int \<Rightarrow> int list \<Rightarrow> lex_out \<Rightarrow> bool"
  where
  "turn_ok A W lexbuf n st nq m p lst q cs out \<longleftrightarrow>
    (case out of
       Lex_next q' m' \<Rightarrow> (\<exists>c cs' e. cs = c # cs' \<and> \<not> df_base A q < 0 \<and> q' = df_next A q c \<and> 0 \<le> q' \<and> q' < nq \<and>
         same_outside W m m' \<and> lex_at W lexbuf n st m' (after_char p c) (note_last A q lst p) e \<and>
         lex_input m' lexbuf (after_char p c) n e = cs')
     | _ \<Rightarrow> lex_outcome W lexbuf n st m out (munch A q lst p cs))"

text \<open>
  An engine is a turn and the loop that repeats it; every engine whose turns keep the contract
  returns what the scan of the automaton finds.
\<close>

locale lexer =
  fixes turn loop :: "u64 \<Rightarrow> u64 \<Rightarrow> int \<Rightarrow> store \<Rightarrow> lex_out option"
    and tables_ok :: "store \<Rightarrow> u64 \<Rightarrow> u64 \<Rightarrow> u64 set \<Rightarrow> int \<Rightarrow> int \<Rightarrow> bool"
  assumes loop_unfold: "turn tbl lexbuf q m = Some out \<Longrightarrow>
      loop tbl lexbuf q m = (case out of Lex_next q' m' \<Rightarrow> loop tbl lexbuf q' m' | _ \<Rightarrow> Some out)"
    and turn_munch: "tables_ok m0 tbl lexbuf W nq ns \<Longrightarrow> same_outside W m0 m \<Longrightarrow> 0 \<le> q \<Longrightarrow> q < nq \<Longrightarrow>
      lex_at W lexbuf n st m p lst eof \<Longrightarrow>
      \<exists>out. turn tbl lexbuf q m = Some out \<and>
        turn_ok (dfa_of m0 tbl) W lexbuf n st nq m p lst q (lex_input m lexbuf p n eof) out"
begin

lemma loop_munch:
  assumes ok: "tables_ok m0 tbl lexbuf W nq ns"
  shows "lex_at W lexbuf n st m p lst eof \<Longrightarrow> same_outside W m0 m \<Longrightarrow> 0 \<le> q \<Longrightarrow> q < nq \<Longrightarrow>
    lex_input m lexbuf p n eof = cs \<Longrightarrow>
    \<exists>out. loop tbl lexbuf q m = Some out \<and> lex_outcome W lexbuf n st m out (munch (dfa_of m0 tbl) q lst p cs)"
proof (induction cs arbitrary: m p lst eof q)
  case Nil
  then obtain out where t: "turn tbl lexbuf q m = Some out"
    and o: "turn_ok (dfa_of m0 tbl) W lexbuf n st nq m p lst q [] out" using turn_munch [OF ok] by metis
  then show ?case using loop_unfold [OF t] by (cases out) (auto simp: turn_ok_def)
next
  case (Cons c cs)
  let ?A = "dfa_of m0 tbl"
  obtain out where t: "turn tbl lexbuf q m = Some out" and o: "turn_ok ?A W lexbuf n st nq m p lst q (c # cs) out"
    using turn_munch [OF ok] Cons.prems by metis
  show ?case
  proof (cases out)
    case (Lex_next q' m')
    with o obtain e where q: "\<not> df_base ?A q < 0" "q' = df_next ?A q c" "0 \<le> q'" "q' < nq" and m': "same_outside W m m'"
      and at: "lex_at W lexbuf n st m' (after_char p c) (note_last ?A q lst p) e"
      and inp: "lex_input m' lexbuf (after_char p c) n e = cs" by (auto simp: turn_ok_def)
    have "\<exists>out. loop tbl lexbuf q' m' = Some out \<and>
        lex_outcome W lexbuf n st m' out (munch ?A q' (note_last ?A q lst p) (after_char p c) cs)"
      by (rule Cons.IH [OF at same_outside_trans [OF Cons.prems(2) m'] q(3,4) inp])
    then show ?thesis using loop_unfold [OF t] Lex_next q(1-3) lex_outcome_trans [OF m'] by auto
  qed (use o loop_unfold [OF t] in \<open>auto simp: turn_ok_def\<close>)
qed

end

subsection \<open>Both engines keep the contract\<close>

text \<open>The steps of a turn after the character is read, which both engines share.\<close>

lemma turn_ok_final:
  assumes "lex_at W lexbuf n st m p lst eof" "df_base A q < 0" "same_outside W m m'"
    "lex_get m' lexbuf lex_curr_pos = lex_get m lexbuf lex_curr_pos"
  shows "turn_ok A W lexbuf n st nq m p lst q cs (Lex_return (Val_of_int (- df_base A q - 1)) m')"
  using assms by (cases cs) (auto simp: turn_ok_def lex_outcome_def lex_at_def)

lemma turn_ok_refill:
  assumes "\<not> df_base A q < 0" "same_outside W m m'" "lex_at W lexbuf n st m' p (note_last A q lst p) eof"
    "lex_input m' lexbuf p n eof = []"
  shows "turn_ok A W lexbuf n st nq m p lst q [] (Lex_return (Val_of_int (- q - 1)) m')"
  using assms lex_read_at(1) [OF assms(3,4)] by (auto simp: turn_ok_def lex_outcome_def)

lemma turn_ok_back:
  assumes "\<not> df_base A q < 0" "df_next A q c < 0" "same_outside W m m'"
    "lex_at W lexbuf n st m' p' (note_last A q lst p) eof"
  shows "turn_ok A W lexbuf n st nq m p lst q (c # cs) (lex_back lexbuf m')"
proof -
  have "lex_outcome W lexbuf n st m' (lex_back lexbuf m') (munch A q lst p (c # cs))"
    using lex_back_at [OF assms(4)] assms(1,2) by (auto simp: lex_outcome_def split: option.splits)
  then show ?thesis
    using lex_outcome_trans [OF assms(3)] lex_outcome_not_next by (auto simp: turn_ok_def split: lex_out.split)
qed

lemma turn_ok_next:
  assumes "\<not> df_base A q < 0" "0 \<le> df_next A q c" "df_next A q c < nq" "same_outside W m m'"
    and at: "lex_at W lexbuf n st m' (after_char p c) (note_last A q lst p) eof"
    and cs: "if c = 256 then eof \<and> cs = [] \<and> p = n else lex_input m' lexbuf (after_char p c) n eof = cs"
  shows "turn_ok A W lexbuf n st nq m p lst q (c # cs)
    (Lex_next (df_next A q c) (if c = 256 then lex_set lexbuf lex_eof_reached (Val_int 0) m' else m'))"
proof -
  let ?m = "if c = 256 then lex_set lexbuf lex_eof_reached (Val_int 0) m' else m'" and ?e = "eof \<and> c \<noteq> 256"
  have m3: "lex_at W lexbuf n st ?m (after_char p c) (note_last A q lst p) ?e" "same_outside W m' ?m"
    "lex_input ?m lexbuf (after_char p c) n ?e = cs"
    using lex_eof_at [of W lexbuf n st m' "note_last A q lst p" eof] at cs by (auto simp: after_char_def)
  then have "same_outside W m ?m" using same_outside_trans [OF assms(4)] by blast
  then show ?thesis unfolding turn_ok_def using assms(1-3) m3 by (auto intro!: exI [of _ ?e])
qed

lemma lex_turn_munch:
  assumes ok: "lex_tables_ok m0 tbl W nq ns" and same: "same_outside W m0 m" and q: "0 \<le> q" "q < nq"
    and at: "lex_at W lexbuf n st m p lst eof"
  shows "turn_ok (dfa_of m0 tbl) W lexbuf n st nq m p lst q (lex_input m lexbuf p n eof) (lex_turn tbl lexbuf q m)"
proof -
  let ?A = "dfa_of m0 tbl"
  let ?m1 = "lex_mark lexbuf (df_back ?A q) m" and ?l = "note_last ?A q lst p"
  note tables = dfa_outside [OF ok same q] and m1 = lex_mark_at [OF at, of m0 tbl q]
  note inp = lex_input_cong [OF at m1(2), of p eof]
  show ?thesis
  proof (cases "df_base ?A q < 0")
    case True
    then show ?thesis using turn_ok_final [OF at True, of m] tables(1) by (simp add: lex_turn_def Let_def)
  next
    case nf: False
    show ?thesis
    proof (cases "lex_input m lexbuf p n eof")
      case Nil
      then show ?thesis
        using lex_read_at(1) [OF m1(1)] turn_ok_refill [OF nf m1(2,1)] inp nf tables(1,2) by (simp add: lex_turn_def Let_def)
    next
      case (Cons c cs)
      then obtain m2 where rd: "lex_read lexbuf ?m1 = Some (c, m2)"
        and s2: "same_outside W ?m1 m2" and at2: "lex_at W lexbuf n st m2 (after_char p c) ?l eof" and c: "0 \<le> c" "c \<le> 256"
        and cs: "if c = 256 then eof \<and> cs = [] \<and> p = n else lex_input m2 lexbuf (after_char p c) n eof = cs"
        using lex_read_at(2) [OF m1(1), of c cs] inp by metis
      have mm2: "same_outside W m m2" by (rule same_outside_trans [OF m1(2) s2])
      have tr: "lex_transition m2 tbl q (df_base ?A q) c = df_next ?A q c" "df_next ?A q c < nq"
        using dfa_outside(3) [OF ok same_outside_trans [OF same mm2] q, of c] c nf by auto
      show ?thesis
        using turn_ok_back [OF nf _ mm2 at2, of c] turn_ok_next [OF nf _ tr(2) mm2 at2 cs] nf tables(1,2) rd tr(1) Cons
        by (simp add: lex_turn_def Let_def not_less)
    qed
  qed
qed

interpretation lex: lexer "\<lambda>tbl lexbuf q m. Some (lex_turn tbl lexbuf q m)" lex_loop
  "\<lambda>m tbl lexbuf. lex_tables_ok m tbl"
proof
  fix tbl lexbuf q m out
  assume "Some (lex_turn tbl lexbuf q m) = Some out"
  then show "lex_loop tbl lexbuf q m = (case out of Lex_next q' m' \<Rightarrow> lex_loop tbl lexbuf q' m' | _ \<Rightarrow> Some out)"
    by (subst lex_loop.simps) (auto split: lex_out.split)
next
  fix m0 tbl lexbuf W nq ns m q n st p lst eof
  assume "lex_tables_ok m0 tbl W nq ns" "same_outside W m0 m" "0 \<le> q" "q < nq" "lex_at W lexbuf n st m p lst eof"
  then show "\<exists>out. Some (lex_turn tbl lexbuf q m) = Some out \<and>
      turn_ok (dfa_of m0 tbl) W lexbuf n st nq m p lst q (lex_input m lexbuf p n eof) out"
    using lex_turn_munch by simp
qed

subsection \<open>The moves of the second engine\<close>

text \<open>A sequence of \<open>k\<close> moves at \<open>p\<close>, ended by 255, outside \<open>W\<close>.\<close>

definition code_ok :: "store \<Rightarrow> u64 set \<Rightarrow> u64 \<Rightarrow> nat \<Rightarrow> bool" where
  "code_ok m W p k \<longleftrightarrow> load_byte m (p + of_nat (2 * k)) = 0xFF \<and> (\<forall>i \<le> 2 * k. cell_of (p + of_nat i) \<notin> W)"

lemma code_ok_outside: "code_ok m W p k \<Longrightarrow> same_outside W m m' \<Longrightarrow> code_ok m' W p k"
proof -
  assume ok: "code_ok m W p k" and same: "same_outside W m m'"
  then have "cell_of (p + of_nat (2 * k)) \<notin> W" unfolding code_ok_def by blast
  then show ?thesis using ok load_byte_outside [OF same] by (simp add: code_ok_def)
qed

lemma code_ok_step: "code_ok m W p (Suc k) \<Longrightarrow> code_ok m W (p + 2) k"
  unfolding code_ok_def by (auto simp: algebra_simps dest: spec [where x = "_ + 2"])

lemma run_code_ends:
  "code_ok m W p k \<Longrightarrow> cells blk 255 \<subseteq> W \<Longrightarrow> \<exists>m'. run_code x p blk m = Some m' \<and> same_outside (cells blk 255) m m'"
proof (induction k arbitrary: p m)
  case 0
  then show ?case by (subst run_code.simps) (simp add: code_ok_def)
next
  case (Suc k)
  let ?d = "load_byte m p" and ?s = "load_byte m (p + 1)"
  let ?m = "m(waddr blk (unat ?d) := if ?s = 0xFF then x else m (waddr blk (unat ?s)))"
  show ?case
  proof (cases "?d = 0xFF")
    case True
    then show ?thesis by (subst run_code.simps) simp
  next
    case False
    have "unat ?d < 2 ^ LENGTH(8)" by (rule unsigned_less)
    then have "unat ?d < 256" by simp
    moreover have "unat ?d \<noteq> unat (0xFF :: u8)" using False by (metis word_unat_eq_iff)
    ultimately have d: "waddr blk (unat ?d) \<in> cells blk 255" by simp
    then have same: "same_outside (cells blk 255) m ?m" by (auto simp: same_outside_def)
    have "same_outside W m ?m" using d Suc.prems(2) by (auto simp: same_outside_def)
    then have "code_ok ?m W (p + 2) k" using code_ok_outside [OF code_ok_step [OF Suc.prems(1)]] by simp
    from Suc.IH [OF this Suc.prems(2)] obtain m' where m': "run_code x (p + 2) blk ?m = Some m'" "same_outside (cells blk 255) ?m m'"
      by blast
    then have "run_code x p blk m = Some m'" using False by (subst run_code.simps) (simp add: Let_def)
    then show ?thesis using same_outside_trans [OF same m'(2)] by blast
  qed
qed

text \<open>
  The tables of the second engine: as for the first, with sequences of moves where the engine runs them,
  and a memory block that is not part of the buffer's fields.
\<close>

definition moves_ok :: "store \<Rightarrow> u64 \<Rightarrow> u64 set \<Rightarrow> int \<Rightarrow> bool" where
  "moves_ok m tbl W pc_off \<longleftrightarrow> (\<exists>k. code_ok m W (lex_code_at m tbl pc_off) k)"

definition new_tables_ok :: "store \<Rightarrow> u64 \<Rightarrow> u64 \<Rightarrow> u64 set \<Rightarrow> int \<Rightarrow> int \<Rightarrow> bool" where
  "new_tables_ok m tbl lexbuf W nq ns \<longleftrightarrow>
    lex_tables_ok m tbl W nq ns \<and>
    waddr lexbuf lex_mem \<notin> W \<and> cells (m (waddr lexbuf lex_mem)) 255 \<subseteq> W - lex_scratch lexbuf \<and>
    (\<forall>k \<in> {lex_base_code, lex_backtrk_code, lex_default_code, lex_trans_code, lex_check_code, lex_code}. waddr tbl k \<notin> W) \<and>
    (\<forall>q \<in> {0..<nq}.
      (\<forall>k \<in> {lex_base_code, lex_backtrk_code, lex_default_code}. short_cells (m (waddr tbl k)) q \<inter> W = {}) \<and>
      (if lex_table m tbl lex_base q < 0 then moves_ok m tbl W (lex_table m tbl lex_base_code q)
       else
         (0 \<le> lex_table m tbl lex_backtrk q \<longrightarrow> moves_ok m tbl W (lex_table m tbl lex_backtrk_code q)) \<and>
         (0 < lex_table m tbl lex_default_code q \<longrightarrow> moves_ok m tbl W (lex_table m tbl lex_default_code q)) \<and>
         (\<forall>c \<in> {0..256}.
           (\<forall>k \<in> {lex_trans_code, lex_check_code}. short_cells (m (waddr tbl k)) (lex_table m tbl lex_base_code q + c) \<inter> W = {}) \<and>
           (0 < lex_table m tbl lex_trans_code (lex_table m tbl lex_base_code q + c) \<longrightarrow>
             moves_ok m tbl W (lex_table m tbl lex_trans_code (lex_table m tbl lex_base_code q + c))))))"

lemma run_moves:
  assumes ok: "new_tables_ok m0 tbl lexbuf W nq ns" and same: "same_outside W m0 m" and pc: "moves_ok m0 tbl W pc_off"
    and at: "lex_at W lexbuf n st m p lst eof"
  shows "\<exists>m'. run_code x (lex_code_at m tbl pc_off) (lex_get m lexbuf lex_mem) m = Some m' \<and> same_outside W m m' \<and>
    lex_at W lexbuf n st m' p lst eof \<and> lex_get m' lexbuf lex_curr_pos = lex_get m lexbuf lex_curr_pos"
proof -
  let ?blk = "lex_get m lexbuf lex_mem"
  have o: "waddr lexbuf lex_mem \<notin> W" "cells (m0 (waddr lexbuf lex_mem)) 255 \<subseteq> W - lex_scratch lexbuf" "waddr tbl lex_code \<notin> W"
    using ok by (simp_all add: new_tables_ok_def)
  then have "?blk = lex_get m0 lexbuf lex_mem" "lex_code_at m tbl pc_off = lex_code_at m0 tbl pc_off"
    using same by (simp_all add: same_outside_def lex_code_at_def)
  with o have b: "cells ?blk 255 \<subseteq> W" "cells ?blk 255 \<inter> lex_scratch lexbuf = {}"
    and c: "\<exists>k. code_ok m W (lex_code_at m tbl pc_off) k"
    using pc code_ok_outside [OF _ same] by (auto simp: moves_ok_def)
  then obtain m' where r: "run_code x (lex_code_at m tbl pc_off) ?blk m = Some m'" and s: "same_outside (cells ?blk 255) m m'"
    using run_code_ends by blast
  have w: "same_outside W m m'" using s b(1) by (auto simp: same_outside_def)
  have g: "m' (waddr lexbuf k) = m (waddr lexbuf k)"
    if "k \<in> {lex_start_pos, lex_curr_pos, lex_last_pos, lex_last_action, lex_eof_reached}" for k
  proof -
    have "waddr lexbuf k \<in> lex_scratch lexbuf" using that by (auto simp: lex_scratch_def)
    then show ?thesis using s b(2) by (auto simp: same_outside_def)
  qed
  have "lex_at W lexbuf n st m' p lst eof"
    using at w unfolding lex_at_def by (auto simp: g same_outside_def split: option.splits)
  then show ?thesis using r w g by simp
qed

lemma code_tables_outside:
  assumes ok: "new_tables_ok m0 tbl lexbuf W nq ns" and same: "same_outside W m0 m" and q: "0 \<le> q" "q < nq"
  shows "k \<in> {lex_base_code, lex_backtrk_code, lex_default_code} \<Longrightarrow> lex_table m tbl k q = lex_table m0 tbl k q"
    and "k \<in> {lex_trans_code, lex_check_code} \<Longrightarrow> 0 \<le> df_base (dfa_of m0 tbl) q \<Longrightarrow> 0 \<le> c \<Longrightarrow> c \<le> 256 \<Longrightarrow>
      lex_table m tbl k (lex_table m0 tbl lex_base_code q + c) = lex_table m0 tbl k (lex_table m0 tbl lex_base_code q + c)"
proof -
  have p: "\<forall>k \<in> {lex_base_code, lex_backtrk_code, lex_default_code, lex_trans_code, lex_check_code, lex_code}. waddr tbl k \<notin> W"
    using ok by (simp add: new_tables_ok_def)
  show "k \<in> {lex_base_code, lex_backtrk_code, lex_default_code} \<Longrightarrow> lex_table m tbl k q = lex_table m0 tbl k q"
    using ok q p by (intro lex_table_outside [OF same]) (auto simp: new_tables_ok_def)
  show "lex_table m tbl k (lex_table m0 tbl lex_base_code q + c) = lex_table m0 tbl k (lex_table m0 tbl lex_base_code q + c)"
    if "k \<in> {lex_trans_code, lex_check_code}" "0 \<le> df_base (dfa_of m0 tbl) q" "0 \<le> c" "c \<le> 256"
    using ok q p that by (intro lex_table_outside [OF same]) (auto simp: new_tables_ok_def dfa_of_def not_less split: if_splits)
qed

lemma new_lex_mark_at:
  assumes ok: "new_tables_ok m0 tbl lexbuf W nq ns" and same: "same_outside W m0 m" and q: "0 \<le> q" "q < nq"
    and at: "lex_at W lexbuf n st m p lst eof" and nf: "\<not> df_base (dfa_of m0 tbl) q < 0"
  shows "\<exists>m'. new_lex_mark tbl lexbuf q m = Some m' \<and> same_outside W m m' \<and>
    lex_at W lexbuf n st m' p (note_last (dfa_of m0 tbl) q lst p) eof"
proof -
  let ?A = "dfa_of m0 tbl"
  have okt: "lex_tables_ok m0 tbl W nq ns" using ok by (simp add: new_tables_ok_def)
  note tables = dfa_outside [OF okt same q]
  show ?thesis
  proof (cases "0 \<le> df_back ?A q")
    case True
    then have "moves_ok m0 tbl W (lex_table m0 tbl lex_backtrk_code q)"
      using ok q nf by (auto simp: new_tables_ok_def dfa_of_def)
    from run_moves [OF ok same this at, of "Val_of_int (- 1)"] obtain m' where
      m': "run_tag (lex_code_at m tbl (lex_table m0 tbl lex_backtrk_code q)) (lex_get m lexbuf lex_mem) m = Some m'"
        "same_outside W m m'" "lex_at W lexbuf n st m' p lst eof" by (auto simp: run_tag_def)
    then show ?thesis
      using True tables(2) lex_mark_at [OF m'(3), of m0 tbl q] same_outside_trans [OF m'(2)]
        code_tables_outside(1) [OF ok same q, of lex_backtrk_code] by (simp add: new_lex_mark_def Let_def)
  next
    case False
    then show ?thesis using tables(2) at by (simp add: new_lex_mark_def Let_def note_last_def)
  qed
qed

lemma new_lex_moves_at:
  assumes ok: "new_tables_ok m0 tbl lexbuf W nq ns" and same: "same_outside W m0 m" and q: "0 \<le> q" "q < nq"
    and at: "lex_at W lexbuf n st m p lst eof" and nf: "\<not> df_base (dfa_of m0 tbl) q < 0" and c: "0 \<le> c" "c \<le> 256"
  shows "\<exists>m'. new_lex_moves tbl lexbuf q c m = Some m' \<and> same_outside W m m' \<and> lex_at W lexbuf n st m' p lst eof"
proof -
  let ?b = "lex_table m0 tbl lex_base_code q"
  let ?pc = "if lex_table m0 tbl lex_check_code (?b + c) = q then lex_table m0 tbl lex_trans_code (?b + c)
    else lex_table m0 tbl lex_default_code q"
  have t: "new_lex_moves tbl lexbuf q c m = (if 0 < ?pc
      then run_mem (lex_code_at m tbl ?pc) (lex_get m lexbuf lex_mem) (lex_get m lexbuf lex_curr_pos) m else Some m)"
    using code_tables_outside [OF ok same q] nf c by (simp add: new_lex_moves_def Let_def)
  show ?thesis
  proof (cases "0 < ?pc")
    case True
    have "moves_ok m0 tbl W ?pc"
    proof (cases "lex_table m0 tbl lex_check_code (?b + c) = q")
      case eq: True
      then show ?thesis using True ok q nf c by (auto simp: new_tables_ok_def dfa_of_def)
    next
      case ne: False
      then show ?thesis using True ok q nf by (auto simp: new_tables_ok_def dfa_of_def)
    qed
    from run_moves [OF ok same this at, of "lex_get m lexbuf lex_curr_pos"] show ?thesis
      using True unfolding t run_mem_def by auto
  qed (use t at in auto)
qed

lemma new_lex_turn_munch:
  assumes ok: "new_tables_ok m0 tbl lexbuf W nq ns" and same: "same_outside W m0 m" and q: "0 \<le> q" "q < nq"
    and at: "lex_at W lexbuf n st m p lst eof"
  shows "\<exists>out. new_lex_turn tbl lexbuf q m = Some out \<and>
    turn_ok (dfa_of m0 tbl) W lexbuf n st nq m p lst q (lex_input m lexbuf p n eof) out"
proof -
  let ?A = "dfa_of m0 tbl"
  have okt: "lex_tables_ok m0 tbl W nq ns" using ok by (simp add: new_tables_ok_def)
  note tables = dfa_outside [OF okt same q]
  let ?l = "note_last ?A q lst p"
  show ?thesis
  proof (cases "df_base ?A q < 0")
    case True
    then have "moves_ok m0 tbl W (lex_table m0 tbl lex_base_code q)"
      using ok q by (auto simp: new_tables_ok_def dfa_of_def)
    from run_moves [OF ok same this at, of "Val_of_int (- 1)"] show ?thesis
      using True turn_ok_final [OF at True] tables(1) code_tables_outside(1) [OF ok same q, of lex_base_code]
      by (auto simp: new_lex_turn_def run_tag_def Let_def)
  next
    case nf: False
    from new_lex_mark_at [OF ok same q at nf] obtain m1 where m1: "new_lex_mark tbl lexbuf q m = Some m1"
      "same_outside W m m1" "lex_at W lexbuf n st m1 p ?l eof" by blast
    note inp = lex_input_cong [OF at m1(2), of p eof]
    show ?thesis
    proof (cases "lex_input m lexbuf p n eof")
      case Nil
      then show ?thesis
        using lex_read_at(1) [OF m1(3)] turn_ok_refill [OF nf m1(2,3)] inp nf tables(1) m1(1)
        by (simp add: new_lex_turn_def Let_def)
    next
      case (Cons c cs)
      then obtain m2 where rd: "lex_read lexbuf m1 = Some (c, m2)"
        and s2: "same_outside W m1 m2" and at2: "lex_at W lexbuf n st m2 (after_char p c) ?l eof" and c: "0 \<le> c" "c \<le> 256"
        and cs: "if c = 256 then eof \<and> cs = [] \<and> p = n else lex_input m2 lexbuf (after_char p c) n eof = cs"
        using lex_read_at(2) [OF m1(3), of c cs] inp by metis
      have mm2: "same_outside W m m2" by (rule same_outside_trans [OF m1(2) s2])
      note same2 = same_outside_trans [OF same mm2]
      have tr: "lex_transition m2 tbl q (df_base ?A q) c = df_next ?A q c" "df_next ?A q c < nq"
        using dfa_outside(3) [OF okt same2 q, of c] c nf by auto
      from new_lex_moves_at [OF ok same2 q at2 nf c] obtain m3 where m3: "new_lex_moves tbl lexbuf q c m2 = Some m3"
        "same_outside W m2 m3" "lex_at W lexbuf n st m3 (after_char p c) ?l eof" by blast
      have cs3: "if c = 256 then eof \<and> cs = [] \<and> p = n else lex_input m3 lexbuf (after_char p c) n eof = cs"
        using cs lex_input_cong [OF at2 m3(2)] by simp
      show ?thesis
        using turn_ok_back [OF nf _ mm2 at2, of c] turn_ok_next [OF nf _ tr(2) same_outside_trans [OF mm2 m3(2)] m3(3) cs3]
          nf tables(1) m1(1) rd tr(1) m3(1) Cons
        by (simp add: new_lex_turn_def Let_def not_less)
    qed
  qed
qed

interpretation new_lex: lexer new_lex_turn new_lex_loop new_tables_ok
proof
  fix tbl lexbuf q m out
  assume "new_lex_turn tbl lexbuf q m = Some out"
  then show "new_lex_loop tbl lexbuf q m = (case out of Lex_next q' m' \<Rightarrow> new_lex_loop tbl lexbuf q' m' | _ \<Rightarrow> Some out)"
    by (subst new_lex_loop.simps) simp
qed (rule new_lex_turn_munch)

section \<open>The engines\<close>

text \<open>The lexer buffer before a first entry: \<open>n\<close> characters, the scan at \<open>p\<close>.\<close>

definition lex_buf_ok :: "u64 set \<Rightarrow> u64 \<Rightarrow> nat \<Rightarrow> store \<Rightarrow> nat \<Rightarrow> bool \<Rightarrow> bool" where
  "lex_buf_ok W lexbuf n m p eof \<longleftrightarrow>
    lex_get m lexbuf lex_buffer_len = pos n \<and> n < 2 ^ 61 \<and> p \<le> n \<and>
    waddr lexbuf lex_buffer \<notin> W \<and> waddr lexbuf lex_buffer_len \<notin> W \<and> lex_scratch lexbuf \<subseteq> W \<and>
    (\<forall>i < n. cell_of (lex_get m lexbuf lex_buffer + of_nat i) \<notin> W) \<and>
    lex_get m lexbuf lex_curr_pos = pos p \<and>
    (lex_get m lexbuf lex_eof_reached = Val_int 0 \<longleftrightarrow> \<not> eof)"

lemma lex_buf_input:
  "lex_buf_ok W lexbuf n m p eof \<Longrightarrow> same_outside W m m' \<Longrightarrow> lex_input m' lexbuf i n e = lex_input m lexbuf i n e"
  unfolding lex_buf_ok_def by (intro lex_input_outside [of W]) simp_all

lemma lex_enter_first:
  assumes buf: "lex_buf_ok W lexbuf n m p eof" and q: "0 \<le> q" "q < 2 ^ 31"
  shows "\<exists>m'. lex_enter (Val_of_int q) lexbuf m = (q, m') \<and> same_outside W m m' \<and> lex_at W lexbuf n p m' p None eof \<and>
    lex_get m' lexbuf lex_start_pos = pos p"
proof -
  let ?c = "lex_get m lexbuf lex_curr_pos"
  let ?m1 = "lex_set lexbuf lex_start_pos ?c m"
  let ?m2 = "lex_set lexbuf lex_last_pos ?c ?m1"
  let ?m = "lex_set lexbuf lex_last_action (Val_of_int (- 1)) ?m2"
  have W: "lex_scratch lexbuf \<subseteq> W" using buf by (simp add: lex_buf_ok_def)
  have "same_outside W m ?m1" "same_outside W ?m1 ?m2" "same_outside W ?m2 ?m" by (simp_all add: same_outside_set [OF W])
  then have "same_outside W m ?m" by (blast intro: same_outside_trans)
  moreover have "lex_at W lexbuf n p ?m p None eof" using buf by (auto simp: lex_at_def lex_buf_ok_def lex_offsets)
  moreover have "lex_enter (Val_of_int q) lexbuf m = (q, ?m)" using q by (simp add: lex_enter_def Int_val_Val_of_int)
  moreover have "lex_get ?m lexbuf lex_start_pos = pos p" using buf by (simp add: lex_buf_ok_def lex_offsets)
  ultimately show ?thesis by blast
qed

lemma lex_enter_again:
  "0 \<le> q \<Longrightarrow> q < 2 ^ 31 \<Longrightarrow> lex_enter (Val_of_int (- q - 1)) lexbuf m = (q, m)"
  by (simp add: lex_enter_def Int_val_Val_of_int)

text \<open>The state that the automaton has reached on all of \<open>cs\<close>, when it may still go on from there.\<close>

definition undecided :: "dfa \<Rightarrow> int \<Rightarrow> int list \<Rightarrow> int option" where
  "undecided A q cs = (case reach A q cs of Some q' \<Rightarrow> if df_base A q' < 0 then None else Some q' | None \<Rightarrow> None)"

lemma munch_undecided:
  "undecided A q cs = (case munch A q lst i cs of More q' l j \<Rightarrow> Some q' | _ \<Rightarrow> None)"
  by (induction cs arbitrary: q lst i) (auto simp: undecided_def split: option.split munched.split)

text \<open>
  What an engine must do when it is entered at state \<open>q\<close> with the scan at \<open>p\<close> and the characters \<open>cs\<close>
  ahead: ask for more when the automaton has read them all and has not decided; otherwise return the
  action of the longest prefix on which the automaton may stop, with the position after it, and fail
  when there is none.
\<close>

definition scans_longest ::
  "dfa \<Rightarrow> u64 set \<Rightarrow> rt \<Rightarrow> u64 \<Rightarrow> nat \<Rightarrow> int \<Rightarrow> int list \<Rightarrow> caml_state \<Rightarrow> (u64, caml_state) cres \<Rightarrow> bool" where
  "scans_longest A W rt lexbuf p q cs s res \<longleftrightarrow>
    (\<exists>m'. same_outside W (mem s) m' \<and>
      (case undecided A q cs of
         Some q' \<Rightarrow> res = Ret (Val_of_int (- q' - 1)) (s\<lparr>mem := m'\<rparr>) \<and> lex_get m' lexbuf lex_curr_pos = pos (advance_pos p cs)
       | None \<Rightarrow>
          if no_prefix A q cs
          then res = cbind (rt_failwith rt ''lexing: empty token'' (s\<lparr>mem := m'\<rparr>)) (\<lambda>_ s. Diverge) \<and>
            lex_get m' lexbuf lex_curr_pos = pos p
          else \<exists>k a. longest A q cs k a \<and> res = Ret (Val_of_int a) (s\<lparr>mem := m'\<rparr>) \<and>
            lex_get m' lexbuf lex_curr_pos = pos (advance_pos p (take k cs))))"

lemma longest_not_no_prefix: "longest A q cs k a \<Longrightarrow> \<not> no_prefix A q cs"
  by (auto simp: longest_def no_prefix_def)

lemma scans_longestI:
  assumes out: "lex_outcome W lexbuf n p m out (munch A q None p cs)" and m: "same_outside W (mem s) m"
  shows "scans_longest A W rt lexbuf p q cs s (lex_result rt (Some out) s)"
proof -
  note u = munch_undecided [where A = A and q = q and cs = cs and lst = None and i = p] and c = munch_correct [where A = A and q = q and cs = cs and lst = None and i = p]
  show ?thesis
  proof (cases "munch A q None p cs")
    case (More q' l j)
    then obtain m' where "out = Lex_return (Val_of_int (- q' - 1)) m'" "same_outside W (mem s) m'"
      "lex_get m' lexbuf lex_curr_pos = pos j" using out same_outside_trans [OF m] by (auto simp: lex_outcome_def lex_at_def)
    then show ?thesis using c u More by (auto simp: scans_longest_def lex_result_def intro!: exI [of _ m'])
  next
    case (Token a j)
    then obtain k where k: "longest A q cs k a" "j = advance_pos p (take k cs)" using c by auto
    obtain m' where "out = Lex_return (Val_of_int a) m'" "same_outside W (mem s) m'"
      "lex_get m' lexbuf lex_curr_pos = pos j" using out Token same_outside_trans [OF m] by (auto simp: lex_outcome_def)
    then show ?thesis
      using k u Token longest_not_no_prefix [OF k(1)] by (auto simp: scans_longest_def lex_result_def intro!: exI [of _ m'])
  next
    case No_token
    then obtain m' where "out = Lex_empty m'" "same_outside W (mem s) m'"
      "lex_get m' lexbuf lex_curr_pos = pos p" using out same_outside_trans [OF m] by (auto simp: lex_outcome_def)
    then show ?thesis using c u No_token by (auto simp: scans_longest_def lex_result_def intro!: exI [of _ m'])
  qed
qed

lemma longest_unique: "longest A q cs k a \<Longrightarrow> longest A q cs k' a' \<Longrightarrow> k = k' \<and> a = a'"
proof -
  assume l: "longest A q cs k a" "longest A q cs k' a'"
  have "\<not> k < k'" "\<not> k' < k" using l unfolding longest_def by (metis option.distinct(1))+
  then show ?thesis using l unfolding longest_def by auto
qed

text \<open>
  C3: Entered at a state of well-formed tables, each lexer engine returns: it asks for more
  input when the automaton has read all there is and has not decided; otherwise it returns the
  action of the longest prefix on which the automaton may stop, with the position after that
  prefix, and fails with the start position restored when there is none.
\<close>

theorem lex_engines_longest_match:
  assumes "lex_tables_ok (mem s) tbl W nq ns" and "lex_buf_ok W lexbuf n (mem s) p eof" and "0 \<le> q" "q < nq" "nq \<le> 2 ^ 31"
  shows "scans_longest (dfa_of (mem s) tbl) W rt lexbuf p q (lex_input (mem s) lexbuf p n eof) s
      (caml_lex_engine rt tbl (Val_of_int q) lexbuf s) \<and>
    (new_tables_ok (mem s) tbl lexbuf W nq ns \<longrightarrow>
      scans_longest (dfa_of (mem s) tbl) W rt lexbuf p q (lex_input (mem s) lexbuf p n eof) s
      (caml_new_lex_engine rt tbl (Val_of_int q) lexbuf s))"
proof (intro conjI impI)
  let ?A = "dfa_of (mem s) tbl" and ?cs = "lex_input (mem s) lexbuf p n eof"
  obtain m where m: "lex_enter (Val_of_int q) lexbuf (mem s) = (q, m)" "same_outside W (mem s) m"
    "lex_at W lexbuf n p m p None eof" using lex_enter_first [OF assms(2,3)] assms(4,5) by auto
  have inp: "lex_input m lexbuf p n eof = ?cs" by (rule lex_buf_input [OF assms(2) m(2)])
  obtain out where "lex_loop tbl lexbuf q m = Some out" "lex_outcome W lexbuf n p m out (munch ?A q None p ?cs)"
    using lex.loop_munch [OF assms(1) m(3,2) assms(3,4) inp] by blast
  then show "scans_longest ?A W rt lexbuf p q ?cs s (caml_lex_engine rt tbl (Val_of_int q) lexbuf s)"
    using scans_longestI [OF _ m(2)] m(1) by (simp add: caml_lex_engine_def)
  assume "new_tables_ok (mem s) tbl lexbuf W nq ns"
  then obtain out where "new_lex_loop tbl lexbuf q m = Some out" "lex_outcome W lexbuf n p m out (munch ?A q None p ?cs)"
    using new_lex.loop_munch [OF _ m(3,2) assms(3,4) inp] by blast
  then show "scans_longest ?A W rt lexbuf p q ?cs s (caml_new_lex_engine rt tbl (Val_of_int q) lexbuf s)"
    using scans_longestI [OF _ m(2)] m(1) by (simp add: caml_new_lex_engine_def)
qed

subsection \<open>Refilling the buffer does not change the scan\<close>

text \<open>Two automata that agree on the states below \<open>nq\<close>, which the first does not leave.\<close>

definition dfa_agree :: "int \<Rightarrow> dfa \<Rightarrow> dfa \<Rightarrow> bool" where
  "dfa_agree nq A B \<longleftrightarrow> (\<forall>q \<in> {0..<nq}. df_base B q = df_base A q \<and> df_back B q = df_back A q \<and>
    (0 \<le> df_base A q \<longrightarrow> (\<forall>c \<in> {0..256}. df_next B q c = df_next A q c \<and> df_next A q c < nq)))"

lemma munch_agree:
  "dfa_agree nq A B \<Longrightarrow> 0 \<le> q \<Longrightarrow> q < nq \<Longrightarrow> set cs \<subseteq> {0..256} \<Longrightarrow> munch B q lst i cs = munch A q lst i cs"
proof (induction cs arbitrary: q lst i)
  case Nil
  then show ?case by (simp add: dfa_agree_def note_last_def)
next
  case (Cons c cs)
  have q: "df_base B q = df_base A q" "note_last B q lst i = note_last A q lst i"
    using Cons.prems by (simp_all add: dfa_agree_def note_last_def)
  show ?case
  proof (cases "df_base A q < 0")
    case False
    then have "df_next B q c = df_next A q c" "df_next A q c < nq" using Cons.prems by (auto simp: dfa_agree_def)
    then show ?thesis using Cons q False by (auto split: option.split)
  qed (simp add: q)
qed

lemma reach_agree: "dfa_agree nq A A \<Longrightarrow> 0 \<le> q \<Longrightarrow> q < nq \<Longrightarrow> set cs \<subseteq> {0..256} \<Longrightarrow> reach A q cs = Some q' \<Longrightarrow> 0 \<le> q' \<and> q' < nq"
proof (induction cs arbitrary: q)
  case (Cons c cs)
  then have "0 \<le> df_base A q" "0 \<le> df_next A q c" "reach A (df_next A q c) cs = Some q'" by (auto split: if_splits)
  moreover have "df_next A q c < nq" using Cons.prems calculation by (auto simp: dfa_agree_def)
  ultimately show ?case using Cons by simp
qed simp

lemma dfa_agree_outside:
  assumes "lex_tables_ok m tbl W nq ns" "same_outside W m m'"
  shows "dfa_agree nq (dfa_of m tbl) (dfa_of m' tbl)"
proof -
  have "df_base (dfa_of m' tbl) q = lex_table m' tbl lex_base q" "df_back (dfa_of m' tbl) q = lex_table m' tbl lex_backtrk q"
    "df_next (dfa_of m' tbl) q c = lex_transition m' tbl q (lex_table m' tbl lex_base q) c" for q c by (simp_all add: dfa_of_def)
  then show ?thesis unfolding dfa_agree_def using dfa_outside [OF assms] by auto
qed

lemma lex_input_range: "set (lex_input m lexbuf p n eof) \<subseteq> {0..256}"
proof -
  have "uint (b :: u8) \<le> 256" for b using uint_bounded [of b] by simp
  then show ?thesis by (auto simp: lex_input_def)
qed

text \<open>
  The state \<open>s2\<close> after a refill: the characters read so far are still there, the buffer has more of them
  or the end of the file is known, and the engine's positions and the tables are as it left them.
\<close>

definition lex_refilled :: "u64 set \<Rightarrow> u64 \<Rightarrow> u64 \<Rightarrow> int \<Rightarrow> nat \<Rightarrow> nat \<Rightarrow> bool \<Rightarrow> store \<Rightarrow> store \<Rightarrow> bool" where
  "lex_refilled W tbl lexbuf nq n n' eof m m2 \<longleftrightarrow>
    lex_buf_ok W lexbuf n' m2 n eof \<and> dfa_agree nq (dfa_of m tbl) (dfa_of m2 tbl) \<and>
    lex_get m2 lexbuf lex_last_pos = lex_get m lexbuf lex_last_pos \<and>
    lex_get m2 lexbuf lex_last_action = lex_get m lexbuf lex_last_action"

context lexer
begin

lemma refill_munch:
  assumes ok: "tables_ok m0 tbl lexbuf W nq ns" "lex_tables_ok m0 tbl W nq ns" "lex_at W lexbuf n p m p None False" "same_outside W m0 m"
    and q: "0 \<le> q" "q < nq" and xs: "lex_input m lexbuf p n False = xs"
    and u: "undecided (dfa_of m0 tbl) q xs = Some q'"
    and l1: "loop tbl lexbuf q m = Some (Lex_return v m1)"
    and ok2: "tables_ok m2 tbl lexbuf W2 nq ns2" "lex_refilled W2 tbl lexbuf nq n n' eof m1 m2"
  shows "v = Val_of_int (- q' - 1) \<and> 0 \<le> q' \<and> q' < nq \<and>
    (\<exists>out. loop tbl lexbuf q' m2 = Some out \<and>
      lex_outcome W2 lexbuf n' p m2 out (munch (dfa_of m0 tbl) q None p (xs @ lex_input m2 lexbuf n n' eof)))"
proof -
  let ?A = "dfa_of m0 tbl" and ?ys = "lex_input m2 lexbuf n n' eof"
  obtain lst j where more: "munch ?A q None p xs = More q' lst j"
    using u munch_undecided [where A = ?A and q = q and cs = xs and lst = None and i = p] by (auto split: munched.splits)
  have "lex_outcome W lexbuf n p m (Lex_return v m1) (More q' lst j)"
    using loop_munch [OF ok(1) ok(3,4) q xs] l1 more by auto
  then have v: "v = Val_of_int (- q' - 1)" and at: "lex_at W lexbuf n p m1 n lst False" and j: "j = n" and m1: "same_outside W m m1"
    by (auto simp: lex_outcome_def)
  have range: "set xs \<subseteq> {0..256}" "set ?ys \<subseteq> {0..256}" using lex_input_range xs by blast+
  have "reach ?A q xs = Some q'" using u by (auto simp: undecided_def split: option.splits if_splits)
  then have q': "0 \<le> q'" "q' < nq" using reach_agree [OF dfa_agree_outside [OF ok(2) same_outside_refl] q range(1)] by simp_all
  have "lex_at W2 lexbuf n' p m2 n lst eof"
    using at ok2(2) unfolding lex_at_def lex_buf_ok_def lex_refilled_def by (auto split: option.splits)
  from loop_munch [OF ok2(1) this same_outside_refl q' refl] obtain out where
    o: "loop tbl lexbuf q' m2 = Some out" "lex_outcome W2 lexbuf n' p m2 out (munch (dfa_of m2 tbl) q' lst n ?ys)" by blast
  have "dfa_agree nq ?A (dfa_of m2 tbl)" 
    using dfa_agree_outside [OF ok(2) same_outside_trans [OF ok(4) m1]] ok2(2) by (auto simp: dfa_agree_def lex_refilled_def)
  then have "munch (dfa_of m2 tbl) q' lst n ?ys = munch ?A q None p (xs @ ?ys)"
    using munch_agree [OF _ q' range(2)] by (simp add: munch_append more j)
  then show ?thesis using o v q' by auto
qed

end


section \<open>A sample automaton\<close>

text \<open>
  One or more letters \<open>a\<close>, with action 0: state 0 goes to state 1, where the automaton may stop, and state 1
  goes to itself. All entries that are not written are -1. The buffer holds \<open>aab\<close>.
\<close>

definition lex_sample_mem :: store where
  "lex_sample_mem = (\<lambda>_. - 1)(
     0x10000 := 0x20000, 0x10008 := 0x40000, 0x10010 := 0x210000, 0x10018 := 0x60000, 0x10020 := 0x80000,
     0x10028 := 0x210000, 0x10030 := 0x210000, 0x10038 := 0x210000, 0x10040 := 0x210000, 0x10048 := 0x210000,
     0x10050 := 0x220000,
     0x20000 := 0xFFFFFFFF00010000, 0x40000 := 0xFFFFFFFF0000FFFF, 0x600C0 := 0xFFFF00010001FFFF,
     0x800C0 := 0xFFFF00010000FFFF, 0xA0000 := 0x626161,
     0x800008 := 0xA0000, 0x800010 := 7, 0x800028 := 1, 0x800040 := 1, 0x800048 := 0x900000)"

definition lex_sample :: caml_state where
  "lex_sample = caml_state.truncate sample_machine\<lparr>mem := lex_sample_mem\<rparr>"

definition lex_sample_writes :: "u64 set" where
  "lex_sample_writes = lex_scratch 0x800000 \<union> cells 0x900000 255"

lemma sample_block_high: "a \<in> cells 0x900000 255 \<Longrightarrow> 0x900000 \<le> uint a"
proof -
  assume "a \<in> cells 0x900000 255"
  then obtain i where "i < 255" "a = waddr 0x900000 i" by (auto simp: mem_cells_iff)
  then have "uint a = 0x900000 + 8 * int i"
    by (simp add: waddr_def uint_word_ariths uint_word_of_int unsigned_of_nat take_bit_nat_eq_self)
  then show ?thesis by simp
qed

lemma sample_writes_high: "lex_sample_writes \<subseteq> {0x800000..}"
  unfolding lex_sample_writes_def using sample_block_high
  by (force simp: lex_scratch_def lex_offsets waddr_def word_le_def)

lemma cell_of_le: "cell_of a \<le> a"
  unfolding cell_of_def by (rule word_and_le2)

lemma sample_low: "a < 0x800000 \<Longrightarrow> W \<subseteq> {0x800000..} \<Longrightarrow> cell_of a \<notin> W"
proof
  assume a: "a < 0x800000" "W \<subseteq> {0x800000..}" and "cell_of a \<in> W"
  then have "0x800000 \<le> cell_of a" by auto
  then show False using a(1) cell_of_le [of a] by simp
qed

lemma sample_short_low:
  assumes "- 1 \<le> n" "n < 0x10000" "0x100 \<le> t" "t < 0x400000" "W \<subseteq> {0x800000..}"
  shows "short_cells t n \<inter> W = {}"
proof -
  have t: "0x100 \<le> uint t" "uint t < 0x400000" using assms(3,4) by (simp_all add: word_le_def word_less_def)
  have "uint (t + of_int (2 * n)) = uint t + 2 * n" "uint (t + of_int (2 * n) + 1) = uint t + 2 * n + 1"
    using assms(1,2) t by (simp_all add: uint_word_ariths uint_word_of_int mod_simps)
  then have "t + of_int (2 * n) < 0x800000" "t + of_int (2 * n) + 1 < 0x800000"
    using assms(1,2) t by (simp_all add: word_less_def)
  then show ?thesis using sample_low [OF _ assms(5)] unfolding short_cells_def by auto
qed

lemma sample_blank: "0x200000 \<le> a \<Longrightarrow> a < 0x300000 \<Longrightarrow> load_byte lex_sample_mem a = 0xFF"
proof -
  assume a: "0x200000 \<le> a" "a < 0x300000"
  have "cell_of a + (a AND 7) = a"
    unfolding cell_of_def by (subst disjunctive_add_eq_or) (auto intro!: bit_word_eqI simp: bit_simps)
  then have "cell_of a = a - (a AND 7)" by (simp add: eq_diff_eq)
  then have "uint (cell_of a) = uint a - uint (a AND 7)" by (simp add: uint_minus_simple_alt [THEN iffD1] word_and_le2)
  moreover have "uint (a AND 7) \<le> 7" using word_and_le1 [of a 7] by (simp add: word_le_def)
  ultimately have "0x1FFFF9 \<le> cell_of a" using a(1) by (simp add: word_le_def)
  moreover have "cell_of a < 0x300000" using cell_of_le [of a] a(2) by simp
  ultimately have "lex_sample_mem (cell_of a) = - 1" unfolding lex_sample_mem_def by (auto simp: fun_upd_def)
  moreover have "unat (a AND 7) \<le> 7" using word_and_le1 [of a 7] by (simp add: word_le_nat_alt)
  ultimately have "load_byte lex_sample_mem a = - 1"
    unfolding load_byte_def byte_pos_def by (intro bit_word_eqI) (auto simp: bit_simps)
  then show ?thesis by simp
qed

lemma sample_blank_short:
  assumes "- 1 \<le> n" "n < 0x8000"
  shows "Short lex_sample_mem 0x210000 n = - 1"
proof -
  have "uint (0x210000 + of_int (2 * n) :: u64) = 0x210000 + 2 * n" "uint (0x210000 + of_int (2 * n) + 1 :: u64) = 0x210000 + 2 * n + 1"
    using assms by (simp_all add: uint_word_ariths uint_word_of_int mod_simps)
  then have "load_byte lex_sample_mem (0x210000 + of_int (2 * n)) = 0xFF" "load_byte lex_sample_mem (0x210000 + of_int (2 * n) + 1) = 0xFF"
    using assms by (intro sample_blank; simp add: word_le_def word_less_def)+
  then show ?thesis by (simp add: Short_def Let_def)
qed

lemma sample_tables [simp]:
  "lex_sample_mem (waddr 0x10000 lex_base) = 0x20000" "lex_sample_mem (waddr 0x10000 lex_backtrk) = 0x40000"
  "lex_sample_mem (waddr 0x10000 lex_default) = 0x210000" "lex_sample_mem (waddr 0x10000 lex_trans) = 0x60000"
  "lex_sample_mem (waddr 0x10000 lex_check) = 0x80000" "lex_sample_mem (waddr 0x10000 lex_base_code) = 0x210000"
  "lex_sample_mem (waddr 0x10000 lex_backtrk_code) = 0x210000" "lex_sample_mem (waddr 0x10000 lex_default_code) = 0x210000"
  "lex_sample_mem (waddr 0x10000 lex_trans_code) = 0x210000" "lex_sample_mem (waddr 0x10000 lex_check_code) = 0x210000"
  "lex_sample_mem (waddr 0x10000 lex_code) = 0x220000"
  by (simp_all add: lex_sample_mem_def waddr_def lex_base_def lex_backtrk_def lex_default_def lex_trans_def lex_check_def
      lex_base_code_def lex_backtrk_code_def lex_default_code_def lex_trans_code_def lex_check_code_def lex_code_def)

lemma sample_header_low: "k < 16 \<Longrightarrow> W \<subseteq> {0x800000..} \<Longrightarrow> waddr 0x10000 k \<notin> W"
proof -
  assume "k < 16" and W: "W \<subseteq> {0x800000..}"
  then have "waddr 0x10000 k < 0x800000" by (simp add: waddr_def word_less_nat_alt unat_word_ariths unat_of_nat)
  then show ?thesis using W by fastforce
qed

lemma table_range: "lex_table m tbl k n < 0x8000"
  using Short_range(2) [of m "m (waddr tbl k)" n] by (simp add: lex_table_def)

lemma table_offset_bounds [simp]:
  "lex_base < 16" "lex_backtrk < 16" "lex_default < 16" "lex_trans < 16" "lex_check < 16" "lex_base_code < 16"
  "lex_backtrk_code < 16" "lex_default_code < 16" "lex_trans_code < 16" "lex_check_code < 16" "lex_code < 16"
  by (simp_all add: lex_base_def lex_backtrk_def lex_default_def lex_trans_def lex_check_def
      lex_base_code_def lex_backtrk_code_def lex_default_code_def lex_trans_code_def lex_check_code_def lex_code_def)

lemma sample_tables_ok: "W \<subseteq> {0x800000..} \<Longrightarrow> lex_tables_ok lex_sample_mem 0x10000 W 0x8000 0x8100"
  by (simp add: lex_tables_ok_def sample_short_low sample_header_low table_range less_trans [OF add_strict_right_mono [OF table_range]])

lemma sample_mem_block: "cells 0x900000 255 \<inter> lex_scratch 0x800000 = {}"
proof -
  have "uint a < 0x900000" if "a \<in> lex_scratch 0x800000" for a using that by (auto simp: lex_scratch_def lex_offsets waddr_def)
  then show ?thesis using sample_block_high by (metis disjoint_iff not_less)
qed

lemma sample_fields_low:
  "lex_sample_mem (waddr 0x800000 lex_buffer) = 0xA0000" "lex_sample_mem (waddr 0x800000 lex_buffer_len) = pos 3"
  "lex_sample_mem (waddr 0x800000 lex_curr_pos) = pos 0" "lex_sample_mem (waddr 0x800000 lex_eof_reached) = Val_int 0"
  "lex_sample_mem (waddr 0x800000 lex_mem) = 0x900000"
  "waddr 0x800000 lex_buffer \<notin> lex_sample_writes" "waddr 0x800000 lex_buffer_len \<notin> lex_sample_writes"
  "waddr 0x800000 lex_mem \<notin> lex_sample_writes"
proof -
  have cells: "a \<notin> cells 0x900000 255" if "uint a < 0x900000" for a using sample_block_high [of a] that by auto
  show "waddr 0x800000 lex_buffer \<notin> lex_sample_writes" "waddr 0x800000 lex_buffer_len \<notin> lex_sample_writes"
    "waddr 0x800000 lex_mem \<notin> lex_sample_writes"
    by (simp_all add: lex_sample_writes_def cells waddr_def lex_offsets lex_scratch_def)
qed (simp_all add: lex_sample_mem_def waddr_def lex_offsets Val_long_alt Val_int_def)

lemma sample_buf_ok: "lex_buf_ok lex_sample_writes 0x800000 3 lex_sample_mem 0 False"
proof -
  have "lex_scratch 0x800000 \<subseteq> lex_sample_writes" by (auto simp: lex_sample_writes_def)
  moreover have "cell_of (0xA0000 + of_nat i) \<notin> lex_sample_writes" if "i < 3" for i :: nat
    using that by (intro sample_low [OF _ sample_writes_high]) (auto simp: less_Suc_eq numeral_3_eq_3)
  ultimately show ?thesis by (simp add: lex_buf_ok_def sample_fields_low)
qed

lemma sample_blank_code: "moves_ok lex_sample_mem 0x10000 lex_sample_writes (- 1)"
  unfolding moves_ok_def code_ok_def
  by (rule exI [of _ 0]) (simp add: lex_code_at_def sample_blank sample_low [OF _ sample_writes_high])

lemma sample_new_tables_ok: "new_tables_ok lex_sample_mem 0x10000 0x800000 lex_sample_writes 0x8000 0x8100"
proof -
  have "lex_table lex_sample_mem 0x10000 k q = - 1"
    if "k \<in> {lex_base_code, lex_backtrk_code, lex_default_code, lex_trans_code, lex_check_code}" "- 1 \<le> q" "q < 0x8000" for k q
    using that sample_blank_short by (auto simp: lex_table_def)
  moreover have "cells 0x900000 255 \<subseteq> lex_sample_writes - lex_scratch 0x800000"
    using sample_mem_block by (auto simp: lex_sample_writes_def)
  ultimately show ?thesis
    by (simp add: new_tables_ok_def sample_tables_ok [OF sample_writes_high] sample_fields_low
        sample_header_low [OF _ sample_writes_high] sample_short_low [OF _ _ _ _ sample_writes_high] sample_blank_code)
qed

lemma sample_input: "lex_input lex_sample_mem 0x800000 0 3 False = [97, 97, 98]"
proof -
  have u: "[0..<3] = [0, 1, 2 :: nat]" by code_simp
  have "load_byte lex_sample_mem 0xA0000 = 97" "load_byte lex_sample_mem 0xA0001 = 97" "load_byte lex_sample_mem 0xA0002 = 98"
    by code_simp+
  then show ?thesis unfolding lex_input_def sample_fields_low u by simp
qed

lemma sample_dfa:
  "df_base (dfa_of lex_sample_mem 0x10000) 0 = 0" "df_base (dfa_of lex_sample_mem 0x10000) 1 = 1"
  "df_back (dfa_of lex_sample_mem 0x10000) 0 = - 1" "df_back (dfa_of lex_sample_mem 0x10000) 1 = 0"
  "df_next (dfa_of lex_sample_mem 0x10000) 0 97 = 1" "df_next (dfa_of lex_sample_mem 0x10000) 1 97 = 1"
  "df_next (dfa_of lex_sample_mem 0x10000) 1 98 = - 1"
  by code_simp+

text \<open>An automaton with these entries finds the token \<open>aa\<close> in \<open>aab\<close>.\<close>

lemma aab_longest:
  assumes "df_base A 0 = 0" "df_base A 1 = 1" "df_back A 0 = - 1" "df_back A 1 = 0"
    "df_next A 0 97 = 1" "df_next A 1 97 = 1" "df_next A 1 98 = - 1"
    and "scans_longest A W rt lexbuf 0 0 ([97, 97, 98]) s res"
  shows "\<exists>m. res = Ret (Val_of_int 0) (s\<lparr>mem := m\<rparr>) \<and> lex_get m lexbuf lex_curr_pos = pos 2"
proof -
  let ?cs = "[97, 97, 98] :: int list"
  have "reach A 0 (take k ?cs) = None" if "2 < k" "k \<le> length ?cs" for k
  proof -
    have "k = 3" using that by simp
    then show ?thesis by (simp add: assms)
  qed
  moreover have "reach A 0 (take 2 ?cs) = Some 1" "accepts A 1 = Some 0" by (simp_all add: assms accepts_def)
  ultimately have l: "longest A 0 ?cs 2 0" unfolding longest_def by auto
  have u: "undecided A 0 ?cs = None" by (simp add: undecided_def assms)
  have adv: "advance_pos 0 (take 2 ?cs) = 2" by (simp add: advance_pos_def after_char_def)
  from assms(8) u longest_not_no_prefix [OF l] obtain m k a where g: "longest A 0 ?cs k a"
    "res = Ret (Val_of_int a) (s\<lparr>mem := m\<rparr>)" "lex_get m lexbuf lex_curr_pos = pos (advance_pos 0 (take k ?cs))"
    unfolding scans_longest_def by auto
  then show ?thesis using longest_unique [OF l g(1)] adv by auto
qed

theorem lex_engines_longest_match_witness:
  "(\<exists>m. caml_lex_engine sample_rt 0x10000 (Val_of_int 0) 0x800000 lex_sample = Ret (Val_of_int 0) (lex_sample\<lparr>mem := m\<rparr>) \<and>
     lex_get m 0x800000 lex_curr_pos = pos 2) \<and>
   (\<exists>m. caml_new_lex_engine sample_rt 0x10000 (Val_of_int 0) 0x800000 lex_sample = Ret (Val_of_int 0) (lex_sample\<lparr>mem := m\<rparr>) \<and>
     lex_get m 0x800000 lex_curr_pos = pos 2)"
proof -
  have m: "mem lex_sample = lex_sample_mem" by (simp add: lex_sample_def)
  have ok: "lex_tables_ok (mem lex_sample) 0x10000 lex_sample_writes 0x8000 0x8100"
    "lex_buf_ok lex_sample_writes 0x800000 3 (mem lex_sample) 0 False" by (simp_all add: m sample_tables_ok [OF sample_writes_high] sample_buf_ok)
  show ?thesis
    using lex_engines_longest_match [OF ok, of 0 sample_rt] sample_new_tables_ok
    unfolding m sample_input by (intro conjI aab_longest [OF sample_dfa, of lex_sample_writes sample_rt]) simp_all
qed

text \<open>The same automaton on a buffer that holds one character, and is then refilled to three.\<close>

definition lex_short :: caml_state where
  "lex_short = lex_sample\<lparr>mem := lex_sample_mem(0x800010 := pos 1)\<rparr>"

definition lex_refill :: "caml_state \<Rightarrow> caml_state" where
  "lex_refill s = s\<lparr>mem := (mem s)(0x800010 := pos 3)\<rparr>"

lemma lex_tables_ok_mono: "lex_tables_ok m tbl W' nq ns \<Longrightarrow> W \<subseteq> W' \<Longrightarrow> lex_tables_ok m tbl W nq ns"
  unfolding lex_tables_ok_def by (elim conjE, intro conjI) blast+

lemma lex_tables_ok_outside:
  assumes ok: "lex_tables_ok m tbl W nq ns" and same: "same_outside W m m'"
  shows "lex_tables_ok m' tbl W nq ns"
proof -
  have p: "m' (waddr tbl k) = m (waddr tbl k)" if "k \<in> {lex_base, lex_backtrk, lex_default, lex_trans, lex_check}" for k
    using ok same that unfolding lex_tables_ok_def same_outside_def by blast
  have "lex_table m' tbl k q = lex_table m tbl k q" if "k \<in> {lex_base, lex_default}" "0 \<le> q" "q < nq" for k q
    using ok that by (intro lex_table_outside [OF same]) (auto simp: lex_tables_ok_def)
  moreover have "lex_table m' tbl lex_trans n = lex_table m tbl lex_trans n" if "0 \<le> n" "n < ns" for n
    using ok that by (intro lex_table_outside [OF same]) (auto simp: lex_tables_ok_def)
  ultimately show ?thesis using ok unfolding lex_tables_ok_def by (simp add: p)
qed

lemma short_mem: "mem lex_short = lex_sample_mem(0x800010 := pos 1)" "mem (lex_refill s) = (mem s)(0x800010 := pos 3)"
  by (simp_all add: lex_short_def lex_refill_def)

lemma refill_tables_ok:
  assumes "same_outside (insert 0x800010 lex_sample_writes) lex_sample_mem m"
  shows "lex_tables_ok m 0x10000 lex_sample_writes 0x8000 0x8100"
proof -
  have "lex_tables_ok lex_sample_mem 0x10000 (insert 0x800010 lex_sample_writes) 0x8000 0x8100"
    by (rule sample_tables_ok) (simp add: sample_writes_high)
  then show ?thesis using lex_tables_ok_mono [OF lex_tables_ok_outside [OF _ assms]] by blast
qed

lemma short_buf_ok: "lex_buf_ok lex_sample_writes 0x800000 1 (mem lex_short) 0 False"
  "lex_input (mem lex_short) 0x800000 0 1 False = [97]"
  "lex_tables_ok (mem lex_short) 0x10000 lex_sample_writes 0x8000 0x8100"
proof -
  show "lex_buf_ok lex_sample_writes 0x800000 1 (mem lex_short) 0 False"
    using sample_buf_ok spec [of "\<lambda>i. i < 3 \<longrightarrow> cell_of (lex_sample_mem 0x800008 + of_nat i) \<notin> lex_sample_writes" 0]
    by (simp add: lex_buf_ok_def waddr_def lex_offsets short_mem)
  show "lex_input (mem lex_short) 0x800000 0 1 False = [97]"
  proof -
    have "load_byte (lex_sample_mem(0x800010 := 3)) 0xA0000 = 97" by code_simp
    then show ?thesis using sample_fields_low(1) by (simp add: lex_input_def waddr_def lex_offsets Val_long_alt short_mem)
  qed
  show "lex_tables_ok (mem lex_short) 0x10000 lex_sample_writes 0x8000 0x8100"
    by (rule refill_tables_ok) (simp add: same_outside_def short_mem)
qed

lemma short_agree: "dfa_agree 0x8000 (dfa_of lex_sample_mem 0x10000) (dfa_of (mem lex_short) 0x10000)"
proof (rule dfa_agree_outside [where W = "insert 0x800010 lex_sample_writes"])
  show "lex_tables_ok lex_sample_mem 0x10000 (insert 0x800010 lex_sample_writes) 0x8000 0x8100"
    by (rule sample_tables_ok) (simp add: sample_writes_high)
qed (simp add: same_outside_def short_mem)

lemma short_dfa:
  "df_base (dfa_of (mem lex_short) 0x10000) 0 = 0" "df_base (dfa_of (mem lex_short) 0x10000) 1 = 1"
  "df_back (dfa_of (mem lex_short) 0x10000) 0 = - 1" "df_back (dfa_of (mem lex_short) 0x10000) 1 = 0"
  "df_next (dfa_of (mem lex_short) 0x10000) 0 97 = 1" "df_next (dfa_of (mem lex_short) 0x10000) 1 97 = 1"
  "df_next (dfa_of (mem lex_short) 0x10000) 1 98 = - 1"
  using short_agree unfolding dfa_agree_def by (simp_all add: sample_dfa)

lemma short_run:
  "\<exists>m. caml_lex_engine sample_rt 0x10000 (Val_of_int 0) 0x800000 lex_short = Ret (Val_of_int (- 2)) (lex_short\<lparr>mem := m\<rparr>) \<and>
     same_outside lex_sample_writes (mem lex_short) m \<and> lex_at lex_sample_writes 0x800000 1 0 m 1 (Some (1, 0)) False"
proof -
  let ?A = "dfa_of (mem lex_short) 0x10000"
  note ok = short_buf_ok
  obtain m where m: "lex_enter (Val_of_int 0) 0x800000 (mem lex_short) = (0, m)" "same_outside lex_sample_writes (mem lex_short) m"
    "lex_at lex_sample_writes 0x800000 1 0 m 0 None False" using lex_enter_first [OF ok(1), of 0] by auto
  have inp: "lex_input m 0x800000 0 1 False = [97]" using lex_buf_input [OF ok(1) m(2)] ok(2) by simp
  have more: "munch ?A 0 None 0 [97] = More 1 (Some (1, 0)) 1" by (simp add: short_dfa note_last_def after_char_def)
  obtain out where "lex_loop 0x10000 0x800000 0 m = Some out" "lex_outcome lex_sample_writes 0x800000 1 0 m out (munch ?A 0 None 0 [97])"
    using lex.loop_munch [OF ok(3) m(3,2) _ _ inp, of 0] by auto
  then obtain m' where "lex_loop 0x10000 0x800000 0 m = Some (Lex_return (Val_of_int (- 2)) m')" "same_outside lex_sample_writes m m'"
    "lex_at lex_sample_writes 0x800000 1 0 m' 1 (Some (1, 0)) False"
    unfolding more by (auto simp: lex_outcome_def)
  then show ?thesis
    using m same_outside_trans [OF m(2)] by (intro exI [of _ m']) (simp add: caml_lex_engine_def lex_result_def)
qed

lemma refilled_ok:
  assumes same: "same_outside lex_sample_writes (mem lex_short) m" and at: "lex_at lex_sample_writes 0x800000 1 0 m 1 lst False"
  shows "lex_refilled lex_sample_writes 0x10000 0x800000 0x8000 1 3 False m (m(0x800010 := pos 3))"
    and "lex_tables_ok (m(0x800010 := pos 3)) 0x10000 lex_sample_writes 0x8000 0x8100"
    and "lex_input (m(0x800010 := pos 3)) 0x800000 1 3 False = [97, 98]"
proof -
  let ?m = "m(0x800010 := pos 3)" and ?W = "insert 0x800010 lex_sample_writes"
  have s: "same_outside ?W lex_sample_mem m" "same_outside ?W lex_sample_mem ?m" "same_outside ?W m ?m"
    "same_outside lex_sample_writes lex_sample_mem ?m"
    using same by (auto simp: same_outside_def Val_long_alt lex_sample_mem_def short_mem)
  show "lex_tables_ok ?m 0x10000 lex_sample_writes 0x8000 0x8100" by (rule refill_tables_ok [OF s(2)])
  have low: "lex_get ?m 0x800000 lex_buffer = 0xA0000" "lex_get m 0x800000 lex_buffer = 0xA0000"
    using s(4) same sample_fields_low(1,6) by (simp_all add: same_outside_def waddr_def lex_offsets short_mem)
  have "lex_tables_ok lex_sample_mem 0x10000 ?W 0x8000 0x8100" by (rule sample_tables_ok) (simp add: sample_writes_high)
  then have agree: "dfa_agree 0x8000 (dfa_of m 0x10000) (dfa_of ?m 0x10000)"
    using lex_tables_ok_outside [OF _ s(1)] by (intro dfa_agree_outside [OF _ s(3)]) auto
  have "lex_buf_ok lex_sample_writes 0x800000 3 ?m 1 False"
    using at sample_buf_ok low unfolding lex_at_def lex_buf_ok_def by (simp add: sample_fields_low(1)) (simp add: waddr_def lex_offsets)
  then show "lex_refilled lex_sample_writes 0x10000 0x800000 0x8000 1 3 False m ?m"
    using agree unfolding lex_refilled_def by (simp add: waddr_def lex_offsets)
  have "lex_input ?m 0x800000 1 3 False = lex_input lex_sample_mem 0x800000 1 3 False"
    by (rule lex_buf_input [OF sample_buf_ok s(4)])
  also have "\<dots> = [97, 98]" using sample_input by (simp add: lex_input_def upt_conv_Cons)
  finally show "lex_input ?m 0x800000 1 3 False = [97, 98]" .
qed


end
