(* ===== verification/Free_List.thy ===== *)
theory Free_List
  imports Arrays
begin

text \<open>
  The free list of the major heap under the next-fit policy, the default one
  (\<^verbatim>\<open>runtime/freelist.c\<close>): a list of blocks linked through their first fields, sorted by address,
  with an allocation pointer that moves along the list. The model holds the whole policy; this theory
  relates the links in memory to a list of blocks and shows what allocation does to it.
  \<open>Free_Merge\<close> treats the merging of freed blocks and heap extensions.
\<close>

section \<open>State\<close>

text \<open>
  The globals of the policy. \<open>Nf_head\<close> is the address of the first field of \<open>nf_sentinel\<close>, a constant;
  a null pointer is 0.
\<close>

record fl_state =
  fl_mem :: store
  Nf_head :: u64
  nf_prev :: u64
  nf_last :: u64
  caml_fl_cur_wsz :: u64
  caml_fl_merge :: u64
  nf_last_fragment :: u64
  gc_sweep_hp :: u64

definition Next_small :: "store \<Rightarrow> u64 \<Rightarrow> u64" where
  "Next_small m v = Field m v 0"

definition Whsize_hd :: "u64 \<Rightarrow> u64" where
  "Whsize_hd h = Whsize_wosize (Wosize_hd h)"

definition Whsize_val :: "store \<Rightarrow> u64 \<Rightarrow> u64" where
  "Whsize_val m v = Whsize_hd (Hd_val m v)"

definition Next_in_mem :: "store \<Rightarrow> u64 \<Rightarrow> u64" where
  "Next_in_mem m v = v + 8 * Whsize_val m v"

definition set_next :: "u64 \<Rightarrow> u64 \<Rightarrow> fl_state \<Rightarrow> fl_state" where
  "set_next v x s = s\<lparr>fl_mem := (fl_mem s)(v := x)\<rparr>"

definition set_hd :: "u64 \<Rightarrow> u64 \<Rightarrow> fl_state \<Rightarrow> fl_state" where
  "set_hd v h s = s\<lparr>fl_mem := (fl_mem s)(v - 8 := h)\<rparr>"

definition add_cur_wsz :: "u64 \<Rightarrow> fl_state \<Rightarrow> fl_state" where
  "add_cur_wsz n s = s\<lparr>caml_fl_cur_wsz := caml_fl_cur_wsz s + n\<rparr>"

section \<open>Allocation\<close>

definition nf_allocate_block :: "u64 \<Rightarrow> u64 \<Rightarrow> u64 \<Rightarrow> fl_state \<Rightarrow> u64 \<times> fl_state" where
  "nf_allocate_block wh_sz prev cur s =
    (let h = Hd_val (fl_mem s) cur;
         s1 =
          (if Wosize_hd h < wh_sz + 1 then
             (let s1 = add_cur_wsz (- Whsize_hd h) s;
                  s2 = set_next prev (Next_small (fl_mem s1) cur) s1;
                  s3 = (if caml_fl_merge s2 = cur then s2\<lparr>caml_fl_merge := prev\<rparr> else s2)
              in set_hd cur (Make_header 0 0 Caml_white) s3)
           else
             set_hd cur (Make_header (Wosize_hd h - wh_sz) 0 Caml_blue) (add_cur_wsz (- wh_sz) s))
     in (cur + 8 * (Wosize_hd h - wh_sz), s1\<lparr>nf_prev := prev\<rparr>))"

text \<open>The search from \<open>prev\<close> to the end of the list: the last block, or a block that fits and its predecessor.\<close>

partial_function (option) nf_search_end :: "u64 \<Rightarrow> u64 \<Rightarrow> fl_state \<Rightarrow> (u64 + u64 \<times> u64) option" where
  "nf_search_end wo_sz prev s =
    (let cur = Next_small (fl_mem s) prev
     in if cur = 0 then Some (Inl prev)
        else if wo_sz \<le> Wosize_val (fl_mem s) cur then Some (Inr (prev, cur))
        else nf_search_end wo_sz cur s)"

text \<open>The search from the start of the list to \<open>nf_prev\<close>.\<close>

partial_function (option) nf_search_start :: "u64 \<Rightarrow> u64 \<Rightarrow> fl_state \<Rightarrow> (unit + u64 \<times> u64) option" where
  "nf_search_start wo_sz prev s =
    (if prev = nf_prev s then Some (Inl ())
     else
       (let cur = Next_small (fl_mem s) prev
        in if wo_sz \<le> Wosize_val (fl_mem s) cur then Some (Inr (prev, cur))
           else nf_search_start wo_sz cur s))"

definition nf_allocate :: "u64 \<Rightarrow> fl_state \<Rightarrow> (u64 \<times> fl_state) option" where
  "nf_allocate wo_sz s =
    Option.bind (nf_search_end wo_sz (nf_prev s) s) (\<lambda>r. case r of
      Inr (prev, cur) \<Rightarrow> Some (nf_allocate_block (Whsize_wosize wo_sz) prev cur s)
    | Inl lst \<Rightarrow>
        (let s1 = s\<lparr>nf_last := lst\<rparr>
         in Option.bind (nf_search_start wo_sz (Nf_head s1) s1) (\<lambda>r. case r of
              Inr (prev, cur) \<Rightarrow> Some (nf_allocate_block (Whsize_wosize wo_sz) prev cur s1)
            | Inl u \<Rightarrow> Some (0, s1))))"

section \<open>Merging\<close>

definition nf_init_merge :: "fl_state \<Rightarrow> fl_state" where
  "nf_init_merge s = s\<lparr>nf_last_fragment := 0, caml_fl_merge := Nf_head s\<rparr>"

definition nf_init :: "fl_state \<Rightarrow> fl_state" where
  "nf_init s = (set_next (Nf_head s) 0 s)\<lparr>nf_prev := Nf_head s, caml_fl_cur_wsz := 0\<rparr>"

definition nf_reset :: "fl_state \<Rightarrow> fl_state" where
  "nf_reset s = nf_init s"

text \<open>The fragment before \<open>bp\<close>, when there is one, becomes its header.\<close>

definition merge_fragment :: "u64 \<Rightarrow> u64 \<Rightarrow> fl_state \<Rightarrow> u64 \<times> u64 \<times> fl_state" where
  "merge_fragment bp h s =
    (if nf_last_fragment s = Hp_val bp then
       (let bp_whsz = Whsize_val (fl_mem s) bp
        in if bp_whsz \<le> Max_wosize then
             (let h1 = Make_header bp_whsz 0 Caml_white; bp1 = nf_last_fragment s
              in (bp1, h1, add_cur_wsz (Whsize_wosize 0) (set_hd bp1 h1 s)))
           else (bp, h, s))
     else (bp, h, s))"

text \<open>The next free block, when it follows \<open>bp\<close> in memory, is merged with it.\<close>

definition merge_cur :: "u64 \<Rightarrow> u64 \<Rightarrow> u64 \<Rightarrow> u64 \<Rightarrow> fl_state \<Rightarrow> u64 \<times> u64 \<times> u64 \<times> fl_state" where
  "merge_cur prev cur bp h s =
    (let adj = Next_in_mem (fl_mem s) bp
     in if adj = cur then
          (let next_cur = Next_small (fl_mem s) cur; cur_whsz = Whsize_val (fl_mem s) cur
           in if Wosize_hd h + cur_whsz \<le> Max_wosize then
                (let s1 = set_next prev next_cur s;
                     s2 = (if nf_prev s1 = cur then s1\<lparr>nf_prev := prev\<rparr> else s1);
                     h1 = Make_header (Wosize_hd h + cur_whsz) 0 Caml_blue;
                     s3 = set_hd bp h1 s2
                 in (h1, Next_in_mem (fl_mem s3) bp, next_cur, s3))
              else (h, adj, cur, s))
        else (h, adj, cur, s))"

text \<open>\<open>bp\<close> is merged with the block before it, inserted, or left as a fragment.\<close>

definition merge_prev :: "u64 \<Rightarrow> u64 \<Rightarrow> u64 \<Rightarrow> u64 \<Rightarrow> fl_state \<Rightarrow> fl_state" where
  "merge_prev prev cur bp h s =
    (let prev_wosz = Wosize_val (fl_mem s) prev
     in if Next_in_mem (fl_mem s) prev = bp \<and> prev_wosz + Whsize_hd h < Max_wosize then
          set_hd prev (Make_header (prev_wosz + Whsize_hd h) 0 Caml_blue) s
        else if Wosize_hd h \<noteq> 0 then
          (set_next prev bp (set_next bp cur (set_hd bp (Bluehd_hd h) s)))\<lparr>caml_fl_merge := bp\<rparr>
        else
          add_cur_wsz (- Whsize_wosize 0) (s\<lparr>nf_last_fragment := bp\<rparr>))"

text \<open>\<open>final_fun\<close> is the finalisation function of the custom block, when it has one.\<close>

definition nf_merge_block :: "(u64 \<Rightarrow> fl_state \<Rightarrow> fl_state) \<Rightarrow> u64 \<Rightarrow> fl_state \<Rightarrow> u64 \<times> fl_state" where
  "nf_merge_block final_fun bp s =
    (let hd = Hd_val (fl_mem s) bp;
         s1 = add_cur_wsz (Whsize_hd hd) s;
         s2 = (if Tag_hd hd = Custom_tag then final_fun bp s1 else s1);
         prev = caml_fl_merge s2;
         cur = Next_small (fl_mem s2) prev
     in case merge_fragment bp hd s2 of (bp1, hd1, s3) \<Rightarrow>
          (case merge_cur prev cur bp1 hd1 s3 of (hd2, adj, cur2, s4) \<Rightarrow>
             (Hp_val adj, merge_prev prev cur2 bp1 hd2 s4)))"

section \<open>Heap extensions\<close>

text \<open>The words of a chain of blocks; the loop runs at least once.\<close>

partial_function (option) nf_count :: "u64 \<Rightarrow> fl_state \<Rightarrow> fl_state option" where
  "nf_count cur s =
    (let s1 = add_cur_wsz (Whsize_val (fl_mem s) cur) s; next_cur = Field (fl_mem s1) cur 0
     in if next_cur = 0 then Some s1 else nf_count next_cur s1)"

partial_function (option) nf_place :: "u64 \<Rightarrow> u64 \<Rightarrow> fl_state \<Rightarrow> (u64 \<times> u64) option" where
  "nf_place bp prev s =
    (let cur = Next_small (fl_mem s) prev
     in if cur \<noteq> 0 \<and> cur < bp then nf_place bp cur s else Some (prev, cur))"

definition advance_merge :: "u64 \<Rightarrow> u64 \<Rightarrow> fl_state \<Rightarrow> fl_state" where
  "advance_merge prev bp s =
    (if prev = caml_fl_merge s \<and> bp < gc_sweep_hp s then s\<lparr>caml_fl_merge := Field (fl_mem s) bp 1\<rparr> else s)"

definition nf_add_blocks :: "u64 \<Rightarrow> fl_state \<Rightarrow> fl_state option" where
  "nf_add_blocks bp s =
    Option.bind (nf_count bp s) (\<lambda>s1.
      if nf_last s1 < bp then Some (advance_merge (nf_last s1) bp (set_next (nf_last s1) bp s1))
      else Option.bind (nf_place bp (Nf_head s1) s1) (\<lambda>(prev, cur).
        Some (advance_merge prev bp (set_next prev bp (set_next (Field (fl_mem s1) bp 1) cur s1)))))"

text \<open>A run of \<open>wsz\<close> words is cut into blocks of at most \<open>Max_wosize\<close> words.\<close>

function nf_make_free_blocks :: "(u64 \<Rightarrow> fl_state \<Rightarrow> fl_state) \<Rightarrow> u64 \<Rightarrow> u64 \<Rightarrow> bool \<Rightarrow> u64 \<Rightarrow> fl_state \<Rightarrow> fl_state" where
  "nf_make_free_blocks final_fun p wsz do_merge color s =
    (if 0 < wsz then
       (let sz = (if Whsize_wosize Max_wosize < wsz then Whsize_wosize Max_wosize else wsz);
            s1 = s\<lparr>fl_mem := (fl_mem s)(p := Make_header (sz - 1) 0 color)\<rparr>;
            s2 = (if do_merge then snd (nf_merge_block final_fun (Val_hp p) s1) else s1)
        in nf_make_free_blocks final_fun (p + 8 * sz) (wsz - sz) do_merge color s2)
     else s)"
  by pat_completeness auto
termination
proof (relation "measure (\<lambda>(_, _, wsz, _). unat wsz)", goal_cases)
  case (2 final_fun p wsz do_merge color s sz s1 s2)
  have "0 < Whsize_wosize Max_wosize" by (simp add: Whsize_wosize_def Max_wosize_def)
  then have "0 < sz" "sz \<le> wsz" using 2 by (simp_all add: less_imp_le)
  then have "unat (wsz - sz) = unat wsz - unat sz" "0 < unat sz" "unat sz \<le> unat wsz"
    by (simp_all add: unat_sub word_le_nat_alt word_less_nat_alt unat_gt_0)
  then show ?case by simp
qed simp

section \<open>The free list as a list of blocks\<close>

text \<open>
  A free block is given by its address and its size in words. In memory it spans its header and
  its fields; addresses are compared as natural numbers.
\<close>

type_synonym fblock = "u64 \<times> nat"

definition free_at :: "store \<Rightarrow> fblock \<Rightarrow> bool" where
  "free_at m x \<longleftrightarrow> (case x of (b, n) \<Rightarrow> 8 < unat b \<and> aligned b \<and> unat b + 8 * n + 8 < 2 ^ 64 \<and> 1 \<le> n \<and>
     Wosize_hd (Hd_val m b) = of_nat n \<and> Color_hd (Hd_val m b) = Caml_blue)"

definition before :: "fblock \<Rightarrow> fblock \<Rightarrow> bool" where
  "before x y \<longleftrightarrow> unat (fst x) + 8 * snd x + 8 \<le> unat (fst y)"

text \<open>The links from \<open>p\<close> through the blocks \<open>xs\<close> to \<open>q\<close>.\<close>

fun nf_seg :: "store \<Rightarrow> u64 \<Rightarrow> fblock list \<Rightarrow> u64 \<Rightarrow> bool" where
  "nf_seg m p [] q = (Next_small m p = q)"
| "nf_seg m p (x # xs) q = (Next_small m p = fst x \<and> free_at m x \<and> nf_seg m (fst x) xs q)"

definition link_of :: "u64 \<Rightarrow> fblock list \<Rightarrow> u64" where
  "link_of p xs = (if xs = [] then p else fst (last xs))"

text \<open>The sentinel has an empty header and shares no word with a block.\<close>

definition apart_from :: "u64 \<Rightarrow> fblock \<Rightarrow> bool" where
  "apart_from h x \<longleftrightarrow> unat h + 16 \<le> unat (fst x) \<or> unat (fst x) + 8 * snd x + 8 \<le> unat h"

definition sentinel_ok :: "fl_state \<Rightarrow> bool" where
  "sentinel_ok s \<longleftrightarrow> 8 \<le> unat (Nf_head s) \<and> aligned (Nf_head s) \<and> unat (Nf_head s) + 8 < 2 ^ 64 \<and>
     Hd_val (fl_mem s) (Nf_head s) = Make_header 0 0 Caml_blue"

definition nf_list :: "fl_state \<Rightarrow> fblock list \<Rightarrow> bool" where
  "nf_list s bs \<longleftrightarrow> sentinel_ok s \<and> nf_seg (fl_mem s) (Nf_head s) bs 0 \<and> sorted_wrt before bs \<and>
     (\<forall>x \<in> set bs. apart_from (Nf_head s) x)"

definition total_words :: "fblock list \<Rightarrow> nat" where
  "total_words bs = (\<Sum>x \<leftarrow> bs. snd x + 1)"

definition nf_inv :: "fl_state \<Rightarrow> fblock list \<Rightarrow> bool" where
  "nf_inv s bs \<longleftrightarrow> nf_list s bs \<and> caml_fl_cur_wsz s = of_nat (total_words bs) \<and>
     nf_prev s \<in> insert (Nf_head s) (fst ` set bs) \<and> caml_fl_merge s \<in> insert (Nf_head s) (fst ` set bs)"

subsection \<open>Links and frames\<close>

lemma nf_seg_append:
  "nf_seg m p (xs @ y # ys) q \<longleftrightarrow> nf_seg m p xs (fst y) \<and> free_at m y \<and> nf_seg m (fst y) ys q"
  by (induction xs arbitrary: p) auto

lemma nf_seg_free: "nf_seg m p xs q \<Longrightarrow> x \<in> set xs \<Longrightarrow> free_at m x"
  by (induction xs arbitrary: p) auto

lemma nf_seg_link: "nf_seg m p xs q \<Longrightarrow> Next_small m (link_of p xs) = q"
  by (induction xs arbitrary: p) (auto simp: link_of_def)

lemma link_of_simps [simp]: "link_of p [] = p" "link_of p (xs @ [x]) = fst x" "link_of p (x # xs) = link_of (fst x) xs"
  by (auto simp: link_of_def)

text \<open>The cells that the links and the headers of the blocks occupy.\<close>

definition seg_cells :: "u64 \<Rightarrow> fblock list \<Rightarrow> u64 set" where
  "seg_cells p xs = insert p (\<Union>x \<in> set xs. {fst x, fst x - 8})"

lemma Next_small_eq: "Next_small m v = m v"
  by (simp add: Next_small_def Field_def)

lemma free_at_cong: "m' (fst x - 8) = m (fst x - 8) \<Longrightarrow> free_at m' x = free_at m x"
  by (cases x) (simp add: free_at_def Hd_val_def)

lemma nf_seg_cong: "(\<And>a. a \<in> seg_cells p xs \<Longrightarrow> m' a = m a) \<Longrightarrow> nf_seg m' p xs q = nf_seg m p xs q"
proof (induction xs arbitrary: p)
  case (Cons x xs)
  have c: "m' p = m p" "m' (fst x - 8) = m (fst x - 8)" by (rule Cons.prems; simp add: seg_cells_def)+
  have "nf_seg m' (fst x) xs q = nf_seg m (fst x) xs q"
    by (rule Cons.IH) (rule Cons.prems, auto simp: seg_cells_def)
  then show ?case using c free_at_cong [of m' x m] by (simp add: Next_small_eq)
qed (simp add: seg_cells_def Next_small_eq)

lemma nf_seg_upd: "a \<notin> seg_cells p xs \<Longrightarrow> nf_seg (m(a := x)) p xs q = nf_seg m p xs q"
  by (rule nf_seg_cong) auto

text \<open>The last link may be changed, when it is in no other cell of the segment.\<close>

lemma nf_seg_relink:
  assumes "nf_seg m p xs q" "link_of p xs \<notin> (\<lambda>x. fst x - 8) ` set xs" "distinct (p # map fst xs)"
  shows "nf_seg (m(link_of p xs := q')) p xs q'"
  using assms
proof (induction xs arbitrary: p)
  case (Cons x xs)
  let ?l = "link_of (fst x) xs"
  have "?l \<noteq> p" using Cons.prems(3) by (auto simp: link_of_def)
  moreover have "?l \<noteq> fst x - 8" using Cons.prems(2) by auto
  moreover have "nf_seg (m(?l := q')) (fst x) xs q'" using Cons.prems by (intro Cons.IH) auto
  moreover have "free_at (m(?l := q')) x" using Cons.prems(1) calculation(2) free_at_cong [of "m(?l := q')" x m] by auto
  ultimately show ?case using Cons.prems(1) by (simp add: Next_small_eq del: fun_upd_apply) (simp add: fun_upd_other)
qed (simp add: Next_small_eq)

subsection \<open>Blocks that are apart\<close>

lemma free_atD:
  assumes "free_at m x"
  shows "8 \<le> unat (fst x)" "aligned (fst x)" "unat (fst x) + 8 * snd x < 2 ^ 64" "1 \<le> snd x"
    "Wosize_hd (Hd_val m (fst x)) = of_nat (snd x)" "Color_hd (Hd_val m (fst x)) = Caml_blue" "8 < unat (fst x)"
    "unat (fst x) + 8 * snd x + 8 < 2 ^ 64"
  using assms by (auto simp: free_at_def split: prod.splits)

lemma unat_minus_8: "8 \<le> unat b \<Longrightarrow> unat (b - 8) = unat b - 8" for b :: u64
  by (simp add: unat_sub word_le_nat_alt)

lemma nf_listD:
  assumes "nf_list s bs"
  shows "sentinel_ok s" "nf_seg (fl_mem s) (Nf_head s) bs 0" "sorted_wrt before bs" "x \<in> set bs \<Longrightarrow> apart_from (Nf_head s) x"
    "x \<in> set bs \<Longrightarrow> free_at (fl_mem s) x"
  using assms nf_seg_free [of "fl_mem s" "Nf_head s" bs 0 x] unfolding nf_list_def by blast+

text \<open>Where the blocks are, whatever the memory holds.\<close>

definition placed :: "u64 \<Rightarrow> fblock list \<Rightarrow> bool" where
  "placed h bs \<longleftrightarrow> 8 \<le> unat h \<and> sorted_wrt before bs \<and> (\<forall>x \<in> set bs. apart_from h x \<and> 8 \<le> unat (fst x) \<and> 1 \<le> snd x)"

lemma before_ne:
  assumes "before x y" "8 \<le> unat (fst x)" "1 \<le> snd x"
  shows "fst x \<noteq> fst y" "fst x - 8 \<noteq> fst y" "fst x \<noteq> fst y - 8" "fst x - 8 \<noteq> fst y - 8"
proof -
  have lt: "unat (fst x) + 16 \<le> unat (fst y)" using assms by (simp add: before_def)
  then have u: "unat (fst x - 8) = unat (fst x) - 8" "unat (fst y - 8) = unat (fst y) - 8"
    using assms(2) by (simp_all add: unat_minus_8)
  show "fst x \<noteq> fst y" "fst x - 8 \<noteq> fst y" "fst x \<noteq> fst y - 8" "fst x - 8 \<noteq> fst y - 8"
    by (rule notI, drule arg_cong [of _ _ unat], use lt u assms(2) in linarith)+
qed

lemma apart_ne:
  assumes "apart_from h x" "8 \<le> unat h" "8 \<le> unat (fst x)" "1 \<le> snd x"
  shows "h \<noteq> fst x" "h \<noteq> fst x - 8" "h - 8 \<noteq> fst x" "h - 8 \<noteq> fst x - 8"
proof -
  note u = unat_minus_8 [OF assms(2)] unat_minus_8 [OF assms(3)]
  show "h \<noteq> fst x" "h \<noteq> fst x - 8" "h - 8 \<noteq> fst x" "h - 8 \<noteq> fst x - 8"
    by (rule notI, drule arg_cong [of _ _ unat], use assms u in \<open>unfold apart_from_def, linarith\<close>)+
qed

lemma placed_appendD:
  assumes "placed h (xs @ ys)"
  shows "placed h xs" "placed h ys" "x \<in> set xs \<Longrightarrow> y \<in> set ys \<Longrightarrow> before x y"
  using assms by (auto simp: placed_def sorted_wrt_append)

lemma placed_cells:
  assumes "placed h (xs @ ys)" "w \<in> seg_cells h xs" "y \<in> set ys"
  shows "w \<noteq> fst y \<and> w \<noteq> fst y - 8"
proof -
  have y: "apart_from h y" "8 \<le> unat h" "8 \<le> unat (fst y)" "1 \<le> snd y" using assms(1,3) by (auto simp: placed_def)
  consider "w = h" | x where "x \<in> set xs" "w = fst x \<or> w = fst x - 8" using assms(2) by (auto simp: seg_cells_def)
  then show ?thesis
  proof cases
    case 1
    then show ?thesis using apart_ne [OF y] by simp
  next
    case 2
    have "8 \<le> unat (fst x)" "1 \<le> snd x" "before x y" using assms(1,3) 2(1) by (auto simp: placed_def sorted_wrt_append)
    then show ?thesis using before_ne [of x y] 2(2) by auto
  qed
qed

lemma placed_above:
  assumes "placed h (xs @ y # ys)"
  shows "fst y \<notin> seg_cells h xs" "fst y - 8 \<notin> seg_cells h xs" "fst y - 8 \<notin> seg_cells (fst y) ys"
    "w \<in> seg_cells h xs \<Longrightarrow> w \<notin> seg_cells (fst y) ys"
proof -
  show up: "fst y \<notin> seg_cells h xs" "fst y - 8 \<notin> seg_cells h xs" using placed_cells [OF assms _ list.set_intros(1)] by blast+
  have "fst y - 8 \<noteq> fst y" by (simp add: diff_eq_eq)
  moreover have "placed h ([y] @ ys)" using placed_appendD(2) [OF assms] by simp
  ultimately show "fst y - 8 \<notin> seg_cells (fst y) ys"
    using placed_cells [of h "[y]" ys "fst y - 8"] unfolding seg_cells_def by simp
  show "w \<in> seg_cells h xs \<Longrightarrow> w \<notin> seg_cells (fst y) ys"
    using placed_cells [OF assms, of w] unfolding seg_cells_def [of "fst y"] by simp
qed

lemma link_in_cells: "link_of h xs \<in> seg_cells h xs"
  by (auto simp: link_of_def seg_cells_def)

lemma placed_head:
  assumes "placed h bs"
  shows "h - 8 \<notin> seg_cells h bs"
proof -
  have "h - 8 \<noteq> h" by (simp add: diff_eq_eq)
  moreover have "h - 8 \<noteq> fst x \<and> h - 8 \<noteq> fst x - 8" if "x \<in> set bs" for x
    using apart_ne(3,4) [of h x] assms that unfolding placed_def by blast
  ultimately show ?thesis unfolding seg_cells_def by blast
qed

lemma placed_distinct:
  assumes "placed h xs"
  shows "distinct (h # map fst xs)" "link_of h xs \<notin> (\<lambda>x. fst x - 8) ` set xs"
proof -
  have h: "h \<noteq> fst x" "h \<noteq> fst x - 8" if "x \<in> set xs" for x
    using placed_cells [of h "[]" xs h x] assms that by (simp_all add: seg_cells_def)
  have "sorted_wrt (\<lambda>x y. fst x \<noteq> fst y) xs"
    by (rule sorted_wrt_mono_rel [of _ before]) (use assms before_ne(1) in \<open>auto simp: placed_def\<close>)
  then have "distinct (map fst xs)" by (simp add: distinct_conv_nth sorted_wrt_iff_nth_less) (metis linorder_neqE_nat)
  then show "distinct (h # map fst xs)" using h by auto
  show "link_of h xs \<notin> (\<lambda>x. fst x - 8) ` set xs"
  proof (cases xs rule: rev_cases)
    case (snoc ys y)
    have "fst y - 8 \<noteq> fst y" by (simp add: diff_eq_eq)
    moreover have "fst x - 8 \<noteq> fst y" if "x \<in> set ys" for x
      using before_ne(2) [of x y] assms that unfolding snoc placed_def sorted_wrt_append by simp
    ultimately have "fst y \<noteq> fst x - 8" if "x \<in> set xs" for x using that unfolding snoc by fastforce
    then show ?thesis by (auto simp: snoc image_iff)
  qed simp
qed

lemma nf_list_placed: "nf_list s bs \<Longrightarrow> placed (Nf_head s) bs"
  using nf_listD free_atD(1,4) unfolding placed_def by (metis sentinel_ok_def)

subsection \<open>Removing, inserting and resizing a block\<close>

lemma nf_list_at:
  assumes "nf_list s (xs @ y # ys)"
  shows "nf_seg (fl_mem s) (Nf_head s) xs (fst y)" "free_at (fl_mem s) y" "nf_seg (fl_mem s) (fst y) ys 0"
    "Next_small (fl_mem s) (link_of (Nf_head s) xs) = fst y"
  using nf_listD(2) [OF assms] nf_seg_append nf_seg_link by metis+

lemma sentinel_upd:
  "sentinel_ok s \<Longrightarrow> a \<noteq> Nf_head s - 8 \<Longrightarrow> sentinel_ok (s\<lparr>fl_mem := (fl_mem s)(a := x)\<rparr>)"
  by (simp add: sentinel_ok_def Hd_val_def)

lemma nf_list_other:
  assumes "nf_list s bs" "a \<notin> seg_cells (Nf_head s) bs" "a \<noteq> Nf_head s - 8"
  shows "nf_list (s\<lparr>fl_mem := (fl_mem s)(a := x)\<rparr>) bs"
proof -
  have "nf_seg ((fl_mem s)(a := x)) (Nf_head s) bs 0 = nf_seg (fl_mem s) (Nf_head s) bs 0"
    using assms(2) by (intro nf_seg_cong) auto
  then show ?thesis using assms(1) sentinel_upd [OF nf_listD(1) [OF assms(1)] assms(3)] by (simp add: nf_list_def)
qed

lemma nf_list_remove:
  assumes "nf_list s (xs @ y # ys)"
  shows "nf_list (set_next (link_of (Nf_head s) xs) (Next_small (fl_mem s) (fst y)) s) (xs @ ys)"
proof -
  let ?h = "Nf_head s" and ?m = "fl_mem s"
  let ?p = "link_of ?h xs" and ?q = "Next_small ?m (fst y)"
  note pl = nf_list_placed [OF assms] and at = nf_list_at [OF assms]
  have plx: "placed ?h xs" "placed ?h (y # ys)" using placed_appendD [OF pl] by simp_all
  have seg: "nf_seg (?m(?p := q)) ?h xs q" for q
    by (rule nf_seg_relink [OF at(1)]) (use placed_distinct [OF plx(1)] in simp_all)
  have p: "?p \<in> seg_cells ?h xs" by (rule link_in_cells)
  have hd: "?p \<noteq> ?h - 8" using placed_head [OF plx(1)] p by auto
  have ys: "nf_seg (?m(?p := ?q)) (fst y) ys 0"
    using at(3) nf_seg_upd [OF placed_above(4) [OF pl p]] by blast
  have "nf_seg (?m(?p := ?q)) ?h (xs @ ys) 0"
  proof (cases ys)
    case Nil
    then show ?thesis using seg [of 0] at(3) by simp
  next
    case (Cons z zs)
    then show ?thesis using seg [of "fst z"] at(3) ys by (simp add: nf_seg_append)
  qed
  then show ?thesis
    using assms hd sentinel_upd [OF nf_listD(1) [OF assms]] by (simp add: nf_list_def set_next_def sorted_wrt_append)
qed

lemma nf_list_insert:
  assumes "nf_list s (xs @ ys)" and y: "placed (Nf_head s) (xs @ y # ys)" "free_at (fl_mem s) y"
  shows "nf_list (set_next (link_of (Nf_head s) xs) (fst y) (set_next (fst y) (Next_small (fl_mem s) (link_of (Nf_head s) xs)) s))
    (xs @ y # ys)"
proof -
  let ?h = "Nf_head s" and ?m = "fl_mem s"
  let ?p = "link_of ?h xs" and ?q = "Next_small ?m (link_of ?h xs)"
  let ?m1 = "?m(fst y := ?q)" and ?m2 = "?m(fst y := ?q, ?p := fst y)"
  have plx: "placed ?h xs" "placed ?h (y # ys)" using placed_appendD [OF y(1)] by simp_all
  have p: "?p \<in> seg_cells ?h xs" by (rule link_in_cells)
  have hd: "?p \<noteq> ?h - 8" "fst y \<noteq> ?h - 8"
    using placed_head [OF plx(1)] p placed_head [OF plx(2)] by (auto simp: seg_cells_def)
  have seg: "nf_seg ?m ?h xs ?q \<and> nf_seg ?m ?p ys 0"
  proof (cases ys)
    case Nil
    then show ?thesis using assms(1) nf_seg_link by (auto simp: nf_list_def)
  next
    case (Cons z zs)
    then have "nf_seg ?m ?h xs (fst z) \<and> nf_seg ?m (fst z) zs 0 \<and> free_at ?m z" using nf_list_at [of s xs z zs] assms(1) by simp
    then show ?thesis using nf_seg_link Cons by auto
  qed
  have "nf_seg ?m1 ?h xs ?q"
    using seg nf_seg_upd [OF placed_above(1) [OF y(1)]] by blast
  then have s1: "nf_seg ?m2 ?h xs (fst y)" by (rule nf_seg_relink) (use placed_distinct [OF plx(1)] in simp_all)
  have y8: "fst y - 8 \<noteq> fst y" by (simp add: diff_eq_eq)
  have py: "?p \<noteq> fst y" "?p \<noteq> fst y - 8" using placed_above(1,2) [OF y(1)] p by auto
  have s2: "nf_seg ?m2 (fst y) ys 0"
  proof (cases ys)
    case Nil
    then show ?thesis using seg py(1) nf_seg_link by (auto simp: Next_small_eq)
  next
    case (Cons z zs)
    have pz: "placed ?h ((xs @ [y]) @ z # zs)" using y(1) by (simp add: Cons)
    have c: "?p \<in> seg_cells ?h (xs @ [y])" "fst y \<in> seg_cells ?h (xs @ [y])" using p by (auto simp: seg_cells_def)
    have "nf_seg ?m2 (fst z) zs 0 = nf_seg ?m (fst z) zs 0"
      using nf_seg_upd [OF placed_above(4) [OF pz c(1)]] nf_seg_upd [OF placed_above(4) [OF pz c(2)]] by simp
    moreover have "free_at ?m2 z = free_at ?m z" using placed_above(2) [OF pz] c by (intro free_at_cong) auto
    ultimately show ?thesis using seg py(1) by (simp add: Cons Next_small_eq)
  qed
  have "free_at ?m2 y = free_at ?m y" using py y8 by (intro free_at_cong) auto
  then have "nf_seg ?m2 ?h (xs @ y # ys) 0" using s1 s2 y(2) by (simp add: nf_seg_append)
  moreover have "sentinel_ok (s\<lparr>fl_mem := ?m2\<rparr>)"
    using sentinel_upd [OF sentinel_upd [OF nf_listD(1) [OF assms(1)] hd(2)]] hd(1) by simp
  ultimately show ?thesis using assms(1) y(1) by (auto simp: nf_list_def set_next_def placed_def)
qed

lemma nf_list_resize:
  assumes "nf_list s (xs @ (b, n) # ys)" and y: "placed (Nf_head s) (xs @ (b, k) # ys)" "free_at ((fl_mem s)(b - 8 := h)) (b, k)"
  shows "nf_list (set_hd b h s) (xs @ (b, k) # ys)"
proof -
  let ?h = "Nf_head s" and ?m = "fl_mem s" and ?m1 = "(fl_mem s)(b - 8 := h)"
  note at = nf_list_at [OF assms(1)]
  have plx: "placed ?h xs" "placed ?h ((b, k) # ys)" using placed_appendD [OF y(1)] by simp_all
  have "nf_seg ?m1 ?h xs b"
    using at(1) nf_seg_upd [OF placed_above(2) [OF y(1)]] by simp
  moreover have "nf_seg ?m1 b ys 0 = nf_seg ?m b ys 0" using nf_seg_upd [OF placed_above(3) [OF y(1)]] by simp
  ultimately have "nf_seg ?m1 ?h (xs @ (b, k) # ys) 0" using at(3) y(2) by (simp add: nf_seg_append)
  moreover have "b - 8 \<noteq> ?h - 8" using placed_head [OF plx(2)] by (fastforce simp: seg_cells_def)
  ultimately show ?thesis
    using assms(1) y(1) sentinel_upd [OF nf_listD(1) [OF assms(1)], of "b - 8" h]
    by (auto simp: nf_list_def set_hd_def placed_def)
qed

section \<open>Next-fit allocation\<close>

lemma free_size:
  assumes "free_at m x"
  shows "unat (Wosize_val m (fst x)) = snd x" "snd x < 2 ^ 54"
proof -
  have w: "Wosize_val m (fst x) = of_nat (snd x)" using free_atD(5) [OF assms] by (simp add: Wosize_val_def)
  have "snd x < 2 ^ 64" using free_atD(3) [OF assms] by simp
  then show u: "unat (Wosize_val m (fst x)) = snd x" unfolding w by (simp add: unat_of_nat)
  have "unat (Wosize_val m (fst x)) < 2 ^ 54"
    using unsigned_less [of "Hd_val m (fst x)", where ?'a = nat]
    by (simp add: Wosize_val_def Wosize_hd_def drop_bit_eq_div unat_div_distrib less_mult_imp_div_less)
  then show "snd x < 2 ^ 54" using u by simp
qed

lemma fits_iff: "free_at m x \<Longrightarrow> wo_sz \<le> Wosize_val m (fst x) \<longleftrightarrow> unat wo_sz \<le> snd x"
  by (simp add: word_le_nat_alt free_size)

lemma free_not_null: "free_at m x \<Longrightarrow> fst x \<noteq> 0"
  using free_atD(1) [of m x] by auto

abbreviation fits :: "u64 \<Rightarrow> fblock \<Rightarrow> bool" where
  "fits wo_sz x \<equiv> unat wo_sz \<le> snd x"

lemma nf_search_end_none:
  "nf_seg (fl_mem s) p xs 0 \<Longrightarrow> \<not> (\<exists>x \<in> set xs. fits wo_sz x) \<Longrightarrow> nf_search_end wo_sz p s = Some (Inl (link_of p xs))"
proof (induction xs arbitrary: p)
  case Nil
  then show ?case by (subst nf_search_end.simps) simp
next
  case (Cons x xs)
  then show ?case
    using fits_iff [of "fl_mem s" x wo_sz] free_not_null [of "fl_mem s" x] by (subst nf_search_end.simps) (simp add: Let_def)
qed

lemma nf_search_end_some:
  "nf_seg (fl_mem s) p (xs @ y # ys) 0 \<Longrightarrow> \<not> (\<exists>x \<in> set xs. fits wo_sz x) \<Longrightarrow> fits wo_sz y \<Longrightarrow>
   nf_search_end wo_sz p s = Some (Inr (link_of p xs, fst y))"
proof (induction xs arbitrary: p)
  case Nil
  then show ?case
    using fits_iff [of "fl_mem s" y wo_sz] free_not_null [of "fl_mem s" y] by (subst nf_search_end.simps) (simp add: Let_def)
next
  case (Cons x xs)
  then show ?case
    using fits_iff [of "fl_mem s" x wo_sz] free_not_null [of "fl_mem s" x] by (subst nf_search_end.simps) (simp add: Let_def)
qed

lemma nf_search_start_none:
  "nf_seg (fl_mem s) p xs q \<Longrightarrow> nf_prev s = link_of p xs \<Longrightarrow> distinct (p # map fst xs) \<Longrightarrow>
   \<not> (\<exists>x \<in> set xs. fits wo_sz x) \<Longrightarrow> nf_search_start wo_sz p s = Some (Inl ())"
proof (induction xs arbitrary: p)
  case Nil
  then show ?case by (subst nf_search_start.simps) simp
next
  case (Cons x xs)
  have "p \<noteq> nf_prev s" using Cons.prems(2,3) by (auto simp: link_of_def split: if_splits)
  then show ?case using Cons fits_iff [of "fl_mem s" x wo_sz] by (subst nf_search_start.simps) (simp add: Let_def)
qed

lemma nf_search_start_some:
  "nf_seg (fl_mem s) p (xs @ y # ys) q \<Longrightarrow> nf_prev s = link_of p (xs @ y # ys) \<Longrightarrow> distinct (p # map fst (xs @ y # ys)) \<Longrightarrow>
   \<not> (\<exists>x \<in> set xs. fits wo_sz x) \<Longrightarrow> fits wo_sz y \<Longrightarrow> nf_search_start wo_sz p s = Some (Inr (link_of p xs, fst y))"
proof (induction xs arbitrary: p)
  case Nil
  have "p \<noteq> nf_prev s" using Nil.prems(2,3) by (auto simp: link_of_def split: if_splits)
  then show ?case using Nil fits_iff [of "fl_mem s" y wo_sz] by (subst nf_search_start.simps) (simp add: Let_def)
next
  case (Cons x xs)
  have "p \<noteq> nf_prev s" using Cons.prems(2,3) by (auto simp: link_of_def split: if_splits)
  then show ?case using Cons fits_iff [of "fl_mem s" x wo_sz] by (subst nf_search_start.simps) (simp add: Let_def)
qed

text \<open>What is left of the list when a block of \<open>wo\<close> words is taken at the end of \<open>x\<close>.\<close>

definition cut_block :: "nat \<Rightarrow> fblock \<Rightarrow> fblock list" where
  "cut_block wo x = (if snd x \<le> wo + 1 then [] else [(fst x, snd x - (wo + 1))])"

definition take_block :: "nat \<Rightarrow> fblock \<Rightarrow> fblock list \<Rightarrow> fblock list" where
  "take_block wo x bs = concat (map (\<lambda>y. if y = x then cut_block wo x else [y]) bs)"

lemma take_block_split:
  assumes "distinct (xs @ x # ys)"
  shows "take_block wo x (xs @ x # ys) = xs @ cut_block wo x @ ys"
proof -
  have "concat (map (\<lambda>y. if y = x then cut_block wo x else [y]) zs) = zs" if "x \<notin> set zs" for zs
    using that by (induction zs) auto
  then show ?thesis using assms by (simp add: take_block_def)
qed

lemma total_words_simps [simp]:
  "total_words [] = 0" "total_words (x # xs) = snd x + 1 + total_words xs" "total_words (xs @ ys) = total_words xs + total_words ys"
  by (simp_all add: total_words_def)

lemma placed_resize:
  assumes "placed h (xs @ (b, n) # ys)" "1 \<le> k" "k \<le> n"
  shows "placed h (xs @ (b, k) # ys)"
proof -
  have "apart_from h (b, k)" if "apart_from h (b, n)" using that assms(3) by (auto simp: apart_from_def)
  moreover have "before x (b, k) = before x (b, n)" "before (b, n) y \<Longrightarrow> before (b, k) y" for x y
    using assms(3) by (auto simp: before_def)
  ultimately show ?thesis using assms by (auto simp: placed_def sorted_wrt_append)
qed

lemma placed_remove: "placed h (xs @ x # ys) \<Longrightarrow> placed h (xs @ ys)"
  by (auto simp: placed_def sorted_wrt_append)

lemma link_of_mem: "link_of h xs \<in> insert h (fst ` set xs)"
  by (auto simp: link_of_def)

lemma nf_list_cong: "fl_mem s' = fl_mem s \<Longrightarrow> Nf_head s' = Nf_head s \<Longrightarrow> nf_list s' bs = nf_list s bs"
  by (simp add: nf_list_def sentinel_ok_def)

lemma free_at_header:
  assumes "free_at m (b, n)" "1 \<le> k" "k \<le> n"
  shows "free_at (m(b - 8 := Make_header (of_nat k) 0 Caml_blue)) (b, k)"
proof -
  have k: "k < 2 ^ 54" using free_size(2) [OF assms(1)] assms(3) by simp
  then have u: "unat (of_nat k :: u64) = k" by (simp add: unat_of_nat)
  have "Wosize_hd (Make_header (of_nat k) 0 Caml_blue) = of_nat k"
    using k by (intro Wosize_Make_header) (simp_all add: u Caml_blue_def)
  moreover have "Color_hd (Make_header (of_nat k) 0 Caml_blue) = Caml_blue" by (rule Color_Make_header) (simp_all add: Caml_blue_def)
  ultimately show ?thesis using assms by (auto simp: free_at_def Hd_val_def)
qed

lemma nf_allocate_block_ok:
  assumes inv: "nf_inv s (xs @ (b, n) # ys)" and fit: "1 \<le> unat wo_sz" "unat wo_sz \<le> n"
    and run: "nf_allocate_block (Whsize_wosize wo_sz) (link_of (Nf_head s) xs) b s = (hp, s')"
  shows "nf_inv s' (xs @ cut_block (unat wo_sz) (b, n) @ ys)" "unat hp + 8 * (unat wo_sz + 1) = unat b + 8 * n"
    "hp = b + 8 * (of_nat n - (wo_sz + 1))" "a \<notin> {link_of (Nf_head s) xs, b - 8} \<Longrightarrow> fl_mem s' a = fl_mem s a"
proof -
  let ?p = "link_of (Nf_head s) xs" and ?m = "fl_mem s"
  have list: "nf_list s (xs @ (b, n) # ys)" and sum: "caml_fl_cur_wsz s = of_nat (total_words (xs @ (b, n) # ys))"
    and ptr: "nf_prev s \<in> insert (Nf_head s) (fst ` set (xs @ (b, n) # ys))"
      "caml_fl_merge s \<in> insert (Nf_head s) (fst ` set (xs @ (b, n) # ys))"
    using inv by (auto simp: nf_inv_def)
  have fr: "free_at ?m (b, n)" using nf_list_at(2) [OF list] .
  note f = free_atD [OF fr, simplified] and n = free_size [OF fr, simplified]
  have h: "Wosize_hd (Hd_val ?m b) = of_nat n" using f(5) .
  have wo: "unat wo_sz < 2 ^ 54" using n(2) fit by simp
  have w2: "unat (wo_sz + 1) = unat wo_sz + 1" "unat (wo_sz + 1 + 1) = unat wo_sz + 2"
    using wo by (simp_all add: unat_word_ariths)
  have un: "unat (of_nat n :: u64) = n" using n(2) by (simp add: unat_of_nat)
  have small: "(of_nat n :: u64) < wo_sz + 1 + 1 \<longleftrightarrow> n \<le> unat wo_sz + 1"
    unfolding word_less_nat_alt un w2 by auto
  show hp: "hp = b + 8 * (of_nat n - (wo_sz + 1))"
    using run by (simp add: nf_allocate_block_def Let_def h Whsize_wosize_def)
  have "hp + 8 * (wo_sz + 1) = b + 8 * of_nat n" unfolding hp by (simp add: algebra_simps)
  show "unat hp + 8 * (unat wo_sz + 1) = unat b + 8 * n"
  proof -
    have "unat b + 8 * n - 8 * (unat wo_sz + 1) < 2 ^ 64" using f(3) by simp
    moreover have "hp = of_nat (unat b + 8 * n - 8 * (unat wo_sz + 1))"
      using fit f(1) by (simp add: hp of_nat_diff algebra_simps)
    ultimately have "unat hp = unat b + 8 * n - 8 * (unat wo_sz + 1)" by (simp add: unat_of_nat)
    moreover have "8 * (unat wo_sz + 1) \<le> unat b + 8 * n" using fit f(1) by simp
    ultimately show ?thesis by simp
  qed
  show mem: "fl_mem s' a = fl_mem s a" if "a \<notin> {?p, b - 8}" for a
    using run that by (auto simp: nf_allocate_block_def Let_def set_next_def set_hd_def add_cur_wsz_def split: if_splits)
  show "nf_inv s' (xs @ cut_block (unat wo_sz) (b, n) @ ys)"
  proof (cases "n \<le> unat wo_sz + 1")
    case True
    let ?s1 = "set_next ?p (Next_small ?m b) s"
    have l1: "nf_list ?s1 (xs @ ys)" using nf_list_remove [OF list] by simp
    have pl: "placed (Nf_head s) (xs @ (b, n) # ys)" by (rule nf_list_placed [OF list])
    have c: "b - 8 \<notin> seg_cells (Nf_head s) (xs @ ys)"
    proof -
      have "seg_cells (Nf_head s) (xs @ ys) \<subseteq> seg_cells (Nf_head s) xs \<union> seg_cells b ys" by (auto simp: seg_cells_def)
      then show ?thesis using placed_above(2,3) [OF pl] by auto
    qed
    have "b - 8 \<noteq> Nf_head s - 8" using placed_head [OF pl] by (auto simp: seg_cells_def)
    then have l2: "nf_list (set_hd b (Make_header 0 0 Caml_white) ?s1) (xs @ ys)"
      using nf_list_other [OF l1, of "b - 8"] c by (simp add: set_next_def set_hd_def)
    have s': "s' = (set_hd b (Make_header 0 0 Caml_white) ?s1)\<lparr>caml_fl_cur_wsz := caml_fl_cur_wsz s - (of_nat n + 1),
        caml_fl_merge := if caml_fl_merge s = b then ?p else caml_fl_merge s, nf_prev := ?p\<rparr>"
      using run small True
      by (auto simp: nf_allocate_block_def Let_def set_next_def set_hd_def add_cur_wsz_def h Whsize_wosize_def Whsize_hd_def)
    have "nf_list s' (xs @ ys)" using l2 unfolding s' by (subst nf_list_cong) auto
    then show ?thesis
      using True sum ptr(2) link_of_mem [of "Nf_head s" xs]
      by (auto simp: nf_inv_def cut_block_def s' set_next_def set_hd_def algebra_simps)
  next
    case False
    let ?k = "n - (unat wo_sz + 1)"
    have k: "1 \<le> ?k" "?k \<le> n" using False by simp_all
    have eqk: "of_nat n - (wo_sz + 1) = (of_nat ?k :: u64)" using False by (simp add: of_nat_diff)
    have "s' = (set_hd b (Make_header (of_nat n - (wo_sz + 1)) 0 Caml_blue) s)\<lparr>caml_fl_cur_wsz := caml_fl_cur_wsz s - (wo_sz + 1), nf_prev := ?p\<rparr>"
      using run small False
      by (auto simp: nf_allocate_block_def Let_def set_next_def set_hd_def add_cur_wsz_def h Whsize_wosize_def algebra_simps)
    then have s': "s' = (set_hd b (Make_header (of_nat ?k) 0 Caml_blue) s)\<lparr>caml_fl_cur_wsz := caml_fl_cur_wsz s - (wo_sz + 1), nf_prev := ?p\<rparr>"
      unfolding eqk .
    have "nf_list (set_hd b (Make_header (of_nat ?k) 0 Caml_blue) s) (xs @ (b, ?k) # ys)"
      by (rule nf_list_resize [OF list placed_resize [OF nf_list_placed [OF list] k] free_at_header [OF fr k]])
    then have "nf_list s' (xs @ (b, ?k) # ys)" unfolding s' by (subst nf_list_cong) auto
    then show ?thesis
      using False sum ptr(2) link_of_mem [of "Nf_head s" xs]
      by (auto simp: nf_inv_def cut_block_def s' set_hd_def of_nat_diff algebra_simps)
  qed
qed

lemma nf_list_distinct: "nf_list s bs \<Longrightarrow> distinct bs \<and> distinct (Nf_head s # map fst bs)"
  using placed_distinct(1) [OF nf_list_placed] by (auto simp: distinct_map)

lemma link_of_append: "link_of h (xs @ ys) = link_of (link_of h xs) ys"
  by (simp add: link_of_def)

text \<open>The list splits at the allocation pointer.\<close>

lemma link_of_split:
  assumes "p \<in> insert h (fst ` set bs)"
  obtains us vs where "bs = us @ vs" "p = link_of h us"
proof (cases "p = h")
  case True
  then show thesis using that [of "[]" bs] by simp
next
  case False
  then obtain x where "x \<in> set bs" "p = fst x" using assms by auto
  then show thesis using split_list [of x bs] that [of "_ @ [x]"] by fastforce
qed

text \<open>The words of the free blocks, headers included.\<close>

definition free_words :: "fblock list \<Rightarrow> u64 set" where
  "free_words bs = (\<Union>x \<in> set bs. cells (fst x - 8) (snd x + 1))"

lemma free_words_simps [simp]:
  "free_words [] = {}" "free_words (x # xs) = cells (fst x - 8) (snd x + 1) \<union> free_words xs"
  "free_words (xs @ ys) = free_words xs \<union> free_words ys"
  by (auto simp: free_words_def)

lemma unat_waddr: "unat a + 8 * i < 2 ^ 64 \<Longrightarrow> unat (waddr a i) = unat a + 8 * i"
  by (simp add: waddr_def unat_word_ariths unat_of_nat)

lemma block_cells_range:
  assumes "w \<in> cells (b - 8) (n + 1)" "8 \<le> unat b" "unat b + 8 * n < 2 ^ 64"
  shows "unat b - 8 \<le> unat w" "unat w + 8 \<le> unat b + 8 * n"
proof -
  obtain i where i: "i < n + 1" "w = waddr (b - 8) i" using assms(1) by (auto simp: mem_cells_iff)
  have "unat (b - 8) + 8 * i < 2 ^ 64" using i(1) assms(2,3) unat_minus_8 [OF assms(2)] by simp
  then have "unat w = unat b - 8 + 8 * i" using unat_waddr i(2) unat_minus_8 [OF assms(2)] by simp
  then show "unat b - 8 \<le> unat w" "unat w + 8 \<le> unat b + 8 * n" using i(1) assms(2) by simp_all
qed

lemma before_cells:
  assumes "before x y" "8 \<le> unat (fst x)" "unat (fst x) + 8 * snd x < 2 ^ 64" "8 \<le> unat (fst y)" "unat (fst y) + 8 * snd y < 2 ^ 64"
  shows "cells (fst x - 8) (snd x + 1) \<inter> cells (fst y - 8) (snd y + 1) = {}"
proof -
  have False if "w \<in> cells (fst x - 8) (snd x + 1)" "w \<in> cells (fst y - 8) (snd y + 1)" for w
    using block_cells_range [OF that(1) assms(2,3)] block_cells_range [OF that(2) assms(4,5)] assms(1)
    unfolding before_def by linarith
  then show ?thesis by blast
qed

lemma free_words_apart:
  assumes "nf_list s (xs @ x # ys)"
  shows "cells (fst x - 8) (snd x + 1) \<inter> free_words (xs @ ys) = {}"
proof -
  have free: "free_at (fl_mem s) y" if "y \<in> set (xs @ x # ys)" for y using nf_listD(5) [OF assms that] .
  have srt: "sorted_wrt before (xs @ x # ys)" by (rule nf_listD(3) [OF assms])
  have "cells (fst x - 8) (snd x + 1) \<inter> cells (fst y - 8) (snd y + 1) = {}" if y: "y \<in> set (xs @ ys)" for y
  proof -
    note fx = free_atD [OF free [of x]] and fy = free_atD [OF free [of y]]
    have "before y x \<or> before x y" using srt y by (auto simp: sorted_wrt_append)
    then show ?thesis
      using before_cells [of x y] before_cells [of y x] fx(1,3) fy(1,3) y by (auto simp: Int_commute)
  qed
  then show ?thesis unfolding free_words_def by blast
qed

lemma cut_block_words:
  assumes fr: "free_at m (b, n)" and fit: "unat wo_sz \<le> n" and hp: "hp = b + 8 * (of_nat n - (wo_sz + 1))"
  shows "cells hp (unat wo_sz + 1) \<subseteq> cells (b - 8) (n + 1)" "free_words (cut_block (unat wo_sz) (b, n)) \<subseteq> cells (b - 8) (n + 1)"
    "cells hp (unat wo_sz + 1) \<inter> free_words (cut_block (unat wo_sz) (b, n)) = {}"
proof -
  note f = free_atD [OF fr, simplified]
  let ?k = "n - unat wo_sz"
  have h: "hp = waddr (b - 8) ?k" using fit by (simp add: hp waddr_def of_nat_diff algebra_simps)
  show sub: "cells hp (unat wo_sz + 1) \<subseteq> cells (b - 8) (n + 1)" unfolding h using fit by (intro cells_sub) simp
  have "cells (waddr (b - 8) 0) (n - (unat wo_sz + 1) + 1) \<subseteq> cells (b - 8) (n + 1)" by (rule cells_sub) simp
  then show "free_words (cut_block (unat wo_sz) (b, n)) \<subseteq> cells (b - 8) (n + 1)" by (simp add: cut_block_def)
  show "cells hp (unat wo_sz + 1) \<inter> free_words (cut_block (unat wo_sz) (b, n)) = {}"
  proof (cases "n \<le> unat wo_sz + 1")
    case False
    let ?j = "n - (unat wo_sz + 1)"
    have "unat w < unat (b - 8) + 8 * ?k" if "w \<in> cells (b - 8) (?j + 1)" for w
    proof -
      have "unat b + 8 * ?j < 2 ^ 64" using f(3) by simp
      then have "unat w + 8 \<le> unat b + 8 * ?j" using block_cells_range(2) [OF that f(1)] by simp
      moreover have "?k = Suc ?j" using False by simp
      ultimately show ?thesis using f(1) unat_minus_8 [OF f(1)] by simp
    qed
    moreover have "unat (b - 8) + 8 * ?k \<le> unat w" if w: "w \<in> cells hp (unat wo_sz + 1)" for w
    proof -
      obtain i where i: "i < unat wo_sz + 1" "w = waddr (b - 8) (?k + i)" using w by (auto simp: mem_cells_iff h waddr_add)
      then have "unat (b - 8) + 8 * (?k + i) < 2 ^ 64" using f(1,3) fit unat_minus_8 [OF f(1)] by simp
      then show ?thesis using unat_waddr i(2) by simp
    qed
    ultimately have "w \<notin> cells (b - 8) (?j + 1)" if "w \<in> cells hp (unat wo_sz + 1)" for w using that not_le by blast
    then show ?thesis using False by (auto simp: cut_block_def)
  qed (simp add: cut_block_def)
qed

text \<open>
  One allocation from the list \<open>bs\<close>: the block \<open>x\<close> gives its last words, the rest of it stays in the
  list when it is large enough to be linked, and nothing else in memory changes.
\<close>

definition allocated :: "u64 \<Rightarrow> fblock \<Rightarrow> fblock list \<Rightarrow> fl_state \<Rightarrow> u64 \<Rightarrow> fl_state \<Rightarrow> bool" where
  "allocated wo_sz x bs s hp s' \<longleftrightarrow>
     nf_inv s' (take_block (unat wo_sz) x bs) \<and> Nf_head s' = Nf_head s \<and>
     hp \<noteq> 0 \<and> aligned hp \<and> unat hp + 8 * (unat wo_sz + 1) = unat (fst x) + 8 * snd x \<and>
     cells hp (unat wo_sz + 1) \<subseteq> free_words bs \<and>
     cells hp (unat wo_sz + 1) \<inter> free_words (take_block (unat wo_sz) x bs) = {} \<and>
     free_words (take_block (unat wo_sz) x bs) \<subseteq> free_words bs \<and>
     (\<forall>a. a \<notin> insert (Nf_head s) (free_words bs) \<longrightarrow> fl_mem s' a = fl_mem s a)"

lemma block_cell_free: "x \<in> set bs \<Longrightarrow> free_at m x \<Longrightarrow> fst x \<in> free_words bs \<and> fst x - 8 \<in> free_words bs"
proof -
  assume x: "x \<in> set bs" "free_at m x"
  have "waddr (fst x - 8) 0 \<in> cells (fst x - 8) (snd x + 1)" "waddr (fst x - 8) 1 \<in> cells (fst x - 8) (snd x + 1)"
    using free_atD(4) [OF x(2)] by (intro waddr_in_cells; simp)+
  moreover have "waddr (fst x - 8) 1 = fst x" by (simp add: waddr_def)
  ultimately show ?thesis using x(1) unfolding free_words_def by auto
qed

lemma nf_allocate_block_allocated:
  assumes inv: "nf_inv s (xs @ x # ys)" and fit: "1 \<le> unat wo_sz" "fits wo_sz x"
    and run: "nf_allocate_block (Whsize_wosize wo_sz) (link_of (Nf_head s) xs) (fst x) s = (hp, s')"
  shows "allocated wo_sz x (xs @ x # ys) s hp s'"
proof -
  obtain b n where x: "x = (b, n)" by (cases x)
  have list: "nf_list s (xs @ (b, n) # ys)" using inv by (simp add: nf_inv_def x)
  note fr = nf_list_at(2) [OF list]
  note f = free_atD [OF fr, simplified] and ok = nf_allocate_block_ok [OF inv [unfolded x] fit(1) fit(2) [unfolded x snd_conv]
      run [unfolded x fst_conv]]
  note w = cut_block_words [OF fr fit(2) [unfolded x snd_conv] ok(3)]
  have tb: "take_block (unat wo_sz) x (xs @ x # ys) = xs @ cut_block (unat wo_sz) (b, n) @ ys"
    using take_block_split [of xs x ys] nf_list_distinct [OF list] by (simp add: x)
  have hd: "Nf_head s' = Nf_head s"
    using run by (auto simp: nf_allocate_block_def Let_def set_next_def set_hd_def add_cur_wsz_def split: if_splits)
  have prev: "link_of (Nf_head s) xs \<in> insert (Nf_head s) (free_words (xs @ x # ys))"
  proof (cases xs rule: rev_cases)
    case (snoc zs z)
    have "z \<in> set (xs @ x # ys)" by (simp add: snoc)
    then have "fst z \<in> free_words (xs @ x # ys)" using block_cell_free [of z _ "fl_mem s"] nf_listD(5) [OF list, of z] by (simp only: x)
    then show ?thesis by (simp only: snoc link_of_simps insert_iff simp_thms)
  qed simp
  have "aligned hp" unfolding ok(3) using f(2) aligned_add aligned_mult8 by blast
  moreover have "hp \<noteq> 0" using ok(2) f(7) fit(2) by (auto simp: x)
  moreover have "cells hp (unat wo_sz + 1) \<inter> free_words (xs @ cut_block (unat wo_sz) (b, n) @ ys) = {}"
    using w free_words_apart [OF list] by auto
  moreover have "fl_mem s' a = fl_mem s a" if "a \<notin> insert (Nf_head s) (free_words (xs @ x # ys))" for a
  proof (rule ok(4))
    have "b - 8 \<in> free_words (xs @ x # ys)" using block_cell_free [OF _ fr, of "xs @ x # ys"] by (simp add: x)
    then show "a \<notin> {link_of (Nf_head s) xs, b - 8}" using that prev by blast
  qed
  ultimately show ?thesis
    unfolding allocated_def tb using ok(1,2) w(1,2) hd by (auto simp: x)
qed

lemma find_first: "\<not> (\<exists>y \<in> set ys. P y) \<Longrightarrow> P x \<Longrightarrow> find P (ys @ x # zs) = Some x"
  by (induction ys) auto

text \<open>
  C5: Next-fit allocation returns: the first block that fits, from the allocation pointer
  around the list, gives its last words, which are aligned, were free and are free no more;
  the rest of it stays in the list when it can be linked; the list stays well formed with its
  word count, and no word outside the free blocks changes. When no block fits the result is
  NULL and the last block is remembered.
\<close>

theorem nf_allocate_correct:
  assumes "nf_inv s bs" "1 \<le> unat wo_sz"
  shows "\<exists>us vs. bs = us @ vs \<and> nf_prev s = link_of (Nf_head s) us \<and>
    (case find (fits wo_sz) (vs @ us) of
       None \<Rightarrow> nf_allocate wo_sz s = Some (0, s\<lparr>nf_last := link_of (Nf_head s) bs\<rparr>)
     | Some x \<Rightarrow> \<exists>hp s'. nf_allocate wo_sz s = Some (hp, s') \<and> x \<in> set bs \<and> allocated wo_sz x bs s hp s')"
proof -
  have list: "nf_list s bs" and "nf_prev s \<in> insert (Nf_head s) (fst ` set bs)" using assms(1) by (simp_all add: nf_inv_def)
  then obtain us vs where bs: "bs = us @ vs" and prev: "nf_prev s = link_of (Nf_head s) us" using link_of_split by metis
  let ?h = "Nf_head s" and ?m = "fl_mem s"
  have seg: "nf_seg ?m ?h (us @ vs) 0" using nf_listD(2) [OF list] bs by simp
  have segv: "nf_seg ?m (link_of ?h us) vs 0"
    using seg nf_seg_link [of ?m ?h us] nf_seg_append [of ?m ?h us _ _ 0] by (cases vs) auto
  have segu: "\<exists>q. nf_seg ?m ?h us q" using seg nf_seg_append [of ?m ?h us _ _ 0] by (cases vs) auto
  let ?s1 = "s\<lparr>nf_last := link_of ?h bs\<rparr>"
  have inv1: "nf_inv ?s1 bs" using assms(1) by (simp add: nf_inv_def nf_list_cong [of ?s1 s])
  have dist: "distinct (?h # map fst us)" using nf_list_distinct [OF list] bs by auto
  have all1: "allocated wo_sz x bs ?s1 hp s' \<Longrightarrow> allocated wo_sz x bs s hp s'" for x hp s' by (simp add: allocated_def)
  show ?thesis
  proof (intro exI conjI, rule bs, rule prev)
    show "case find (fits wo_sz) (vs @ us) of
       None \<Rightarrow> nf_allocate wo_sz s = Some (0, ?s1)
     | Some x \<Rightarrow> \<exists>hp s'. nf_allocate wo_sz s = Some (hp, s') \<and> x \<in> set bs \<and> allocated wo_sz x bs s hp s'"
    proof (cases "\<exists>x \<in> set vs. fits wo_sz x")
      case True
      then obtain ys x zs where v: "vs = ys @ x # zs" "\<not> (\<exists>y \<in> set ys. fits wo_sz y)" "fits wo_sz x"
        using split_list_first_prop [of vs "fits wo_sz"] by blast
      obtain hp s' where r: "nf_allocate_block (Whsize_wosize wo_sz) (link_of ?h (us @ ys)) (fst x) s = (hp, s')" by fastforce
      have "find (fits wo_sz) (vs @ us) = Some x" using find_first [OF v(2,3)] by (simp add: v(1))
      moreover have "nf_allocate wo_sz s = Some (hp, s')"
        using nf_search_end_some [OF segv [unfolded v(1)] v(2,3)] r by (simp add: nf_allocate_def prev link_of_append)
      moreover have "allocated wo_sz x bs s hp s'"
        using nf_allocate_block_allocated [of s "us @ ys" x zs, OF _ assms(2) v(3) r] assms(1) by (simp add: bs v(1))
      ultimately show ?thesis by (simp add: bs v(1))
    next
      case none: False
      have e: "nf_search_end wo_sz (nf_prev s) s = Some (Inl (link_of ?h bs))"
        using nf_search_end_none [OF segv none] by (simp add: prev bs link_of_append)
      show ?thesis
      proof (cases "\<exists>x \<in> set us. fits wo_sz x")
        case True
        then obtain ys x zs where u: "us = ys @ x # zs" "\<not> (\<exists>y \<in> set ys. fits wo_sz y)" "fits wo_sz x"
          using split_list_first_prop [of us "fits wo_sz"] by blast
        obtain hp s' where r: "nf_allocate_block (Whsize_wosize wo_sz) (link_of ?h ys) (fst x) ?s1 = (hp, s')" by fastforce
        obtain q where "nf_seg (fl_mem ?s1) ?h (ys @ x # zs) q" using segu u(1) by auto
        then have "nf_search_start wo_sz ?h ?s1 = Some (Inr (link_of ?h ys, fst x))"
          using prev dist u by (intro nf_search_start_some) auto
        then have "nf_allocate wo_sz s = Some (hp, s')" using r e by (simp add: nf_allocate_def Let_def)
        moreover have "find (fits wo_sz) (vs @ us) = Some x"
          using find_first [of "vs @ ys" "fits wo_sz" x zs] none u by auto
        moreover have "allocated wo_sz x bs s hp s'"
          using all1 nf_allocate_block_allocated [of ?s1 ys x "zs @ vs", OF _ assms(2) u(3)] r inv1 by (simp add: bs u(1))
        ultimately show ?thesis by (simp add: bs u(1))
      next
        case False
        obtain q where "nf_seg (fl_mem ?s1) ?h us q" using segu by auto
        then have "nf_search_start wo_sz ?h ?s1 = Some (Inl ())"
          using prev dist False by (intro nf_search_start_none) simp_all
        then have "nf_allocate wo_sz s = Some (0, ?s1)" using e by (simp add: nf_allocate_def Let_def)
        moreover have "find (fits wo_sz) (vs @ us) = None" using none False by (auto simp: find_None_iff)
        ultimately show ?thesis by simp
      qed
    qed
  qed
qed

section \<open>A sample heap\<close>

text \<open>Two free blocks, of 3 and of 10 words.\<close>

definition fl_sample :: fl_state where
  "fl_sample = \<lparr>fl_mem = (\<lambda>_. 0)(0xFF8 := 0x200, 0x1000 := 0x2008, 0x2000 := 0xE00, 0x2008 := 0x3008, 0x3000 := 0x2A00),
     Nf_head = 0x1000, nf_prev = 0x1000, nf_last = 0, caml_fl_cur_wsz = 15, caml_fl_merge = 0x1000,
     nf_last_fragment = 0, gc_sweep_hp = 0\<rparr>"

abbreviation sample_blocks :: "fblock list" where
  "sample_blocks \<equiv> [(0x2008, 3), (0x3008, 10)]"

lemmas fl_eval = fl_sample_def nf_inv_def nf_list_def sentinel_ok_def free_at_def before_def apart_from_def Next_small_def Field_def
  Hd_val_def Wosize_hd_def Color_hd_def Caml_blue_def Caml_black_def Make_header_def aligned_def

lemma fl_sample_inv: "nf_inv fl_sample sample_blocks"
  by (simp add: fl_eval)

theorem nf_allocate_correct_witness:
  "\<exists>s'. nf_allocate 4 fl_sample = Some (0x3030, s') \<and> nf_inv s' [(0x2008, 3), (0x3008, 5)]"
proof -
  obtain us vs where uv: "sample_blocks = us @ vs" "nf_prev fl_sample = link_of (Nf_head fl_sample) us"
    and r: "case find (fits 4) (vs @ us) of
       None \<Rightarrow> nf_allocate 4 fl_sample = Some (0, fl_sample\<lparr>nf_last := link_of (Nf_head fl_sample) sample_blocks\<rparr>)
     | Some x \<Rightarrow> \<exists>hp s'. nf_allocate 4 fl_sample = Some (hp, s') \<and> x \<in> set sample_blocks \<and> allocated 4 x sample_blocks fl_sample hp s'"
    using nf_allocate_correct [OF fl_sample_inv, of 4] by auto
  have "us = []"
  proof (rule ccontr)
    assume "us \<noteq> []"
    then have "link_of (Nf_head fl_sample) us \<in> fst ` set sample_blocks" by (simp add: uv(1) link_of_def)
    then show False using uv(2) by (auto simp: fl_sample_def)
  qed
  with uv(1) r have "\<exists>hp s'. nf_allocate 4 fl_sample = Some (hp, s') \<and> allocated 4 (0x3008, 10) sample_blocks fl_sample hp s'"
    by (auto split: option.splits)
  then obtain hp s' where a: "nf_allocate 4 fl_sample = Some (hp, s')" "unat hp + 8 * (unat (4 :: u64) + 1) = unat (0x3008 :: u64) + 80"
    "nf_inv s' (take_block 4 (0x3008, 10) sample_blocks)" by (auto simp: allocated_def)
  have "hp = 0x3030" by (rule word_unat_eq_iff [THEN iffD2]) (use a(2) in simp)
  then show ?thesis using a(1,3) by (simp add: take_block_def cut_block_def)
qed

end
