(* ===== verification/Free_Merge.thy ===== *)
theory Free_Merge
  imports Free_List
begin

text \<open>
  The free list when blocks come back to it: the sweep merges each dead block with the fragment and the
  free blocks next to it, and a heap extension brings a chain of new blocks.
\<close>

section \<open>Merging a block into the list\<close>

text \<open>
  The list with the block \<open>(b, n)\<close> between \<open>xs\<close> and \<open>ys\<close>: the part up to the merge pointer, and the rest.
  Blocks that touch are merged as long as a header can hold the size.
\<close>

definition max_wosize :: nat where
  "max_wosize = 2 ^ 54 - 1"

definition touches :: "fblock \<Rightarrow> fblock \<Rightarrow> bool" where
  "touches x y \<longleftrightarrow> unat (fst x) + 8 * (snd x + 1) = unat (fst y)"

definition absorb_next :: "fblock \<Rightarrow> fblock list \<Rightarrow> nat \<times> fblock list" where
  "absorb_next x ys =
    (case ys of
       [] \<Rightarrow> (snd x, [])
     | y # zs \<Rightarrow> if touches x y \<and> snd x + snd y + 1 \<le> max_wosize then (snd x + snd y + 1, zs) else (snd x, ys))"

definition absorb_prev :: "fblock list \<Rightarrow> fblock \<Rightarrow> fblock list" where
  "absorb_prev xs x =
    (if xs \<noteq> [] \<and> touches (last xs) x \<and> snd (last xs) + snd x + 1 < max_wosize
     then butlast xs @ [(fst (last xs), snd (last xs) + snd x + 1)]
     else if snd x \<noteq> 0 then xs @ [x] else xs)"

definition merged :: "fblock list \<Rightarrow> fblock \<Rightarrow> fblock list \<Rightarrow> fblock list \<times> fblock list" where
  "merged xs x ys = (case absorb_next x ys of (n, zs) \<Rightarrow> (absorb_prev xs (fst x, n), zs))"

text \<open>A region, possibly one word only, that lies between \<open>xs\<close> and \<open>ys\<close>.\<close>

definition region_ok :: "u64 \<Rightarrow> fblock list \<Rightarrow> fblock \<Rightarrow> fblock list \<Rightarrow> bool" where
  "region_ok h xs x ys \<longleftrightarrow> 8 < unat (fst x) \<and> aligned (fst x) \<and> unat (fst x) + 8 * snd x + 8 < 2 ^ 64 \<and> snd x < 2 ^ 54 \<and>
     apart_from h x \<and> (\<forall>z \<in> set xs. before z x) \<and> (\<forall>y \<in> set ys. before x y)"

lemma Max_wosize_nat: "w \<le> Max_wosize \<longleftrightarrow> unat w \<le> max_wosize" "w < Max_wosize \<longleftrightarrow> unat w < max_wosize"
  by (simp_all add: Max_wosize_def max_wosize_def word_le_nat_alt word_less_nat_alt)

lemma region_cells:
  assumes "nf_list s (xs @ ys)" "region_ok (Nf_head s) xs x ys" "a = fst x - 8"
  shows "a \<notin> seg_cells (Nf_head s) (xs @ ys)" "a \<noteq> Nf_head s - 8"
proof -
  let ?h = "Nf_head s"
  have pl: "placed ?h (xs @ ys)" by (rule nf_list_placed [OF assms(1)])
  note r = assms(2) [unfolded region_ok_def]
  have u: "unat a = unat (fst x) - 8" using r by (simp add: assms(3) unat_minus_8)
  have h: "8 \<le> unat ?h" using pl by (simp add: placed_def)
  have ne: "a \<noteq> ?h" "a \<noteq> ?h - 8"
    by (rule notI, drule arg_cong [of _ _ unat], use r u h unat_minus_8 [OF h] in \<open>auto simp: apart_from_def\<close>)+
  have "a \<noteq> fst z \<and> a \<noteq> fst z - 8" if z: "z \<in> set (xs @ ys)" for z
  proof -
    have z8: "8 \<le> unat (fst z)" "1 \<le> snd z" using pl z by (auto simp: placed_def)
    have "before z x \<or> before x z" using r z by auto
    then have "unat (fst z) < unat a \<and> unat (fst z) - 8 < unat a \<or> unat a < unat (fst z) - 8"
      using u r z8 unfolding before_def by linarith
    then show ?thesis using unat_minus_8 [OF z8(1)] by auto
  qed
  then show "a \<notin> seg_cells ?h (xs @ ys)" using ne(1) unfolding seg_cells_def by blast
  show "a \<noteq> ?h - 8" by (rule ne(2))
qed

lemma region_placed:
  assumes "nf_list s (xs @ ys)" "region_ok (Nf_head s) xs x ys" "1 \<le> snd x"
  shows "placed (Nf_head s) (xs @ x # ys)"
  using nf_list_placed [OF assms(1)] assms(2,3) by (auto simp: placed_def region_ok_def sorted_wrt_append)

lemma next_block: "nf_list s (xs @ ys) \<Longrightarrow>
    Next_small (fl_mem s) (link_of (Nf_head s) xs) = (case ys of [] \<Rightarrow> 0 | y # _ \<Rightarrow> fst y)"
  using nf_listD(2) [of s "xs @ ys"] nf_seg_link nf_list_at(4) [of s xs] by (cases ys) auto

text \<open>A region whose header gives its size.\<close>

definition region_at :: "fl_state \<Rightarrow> fblock list \<Rightarrow> fblock \<Rightarrow> fblock list \<Rightarrow> u64 \<Rightarrow> bool" where
  "region_at s xs x ys h \<longleftrightarrow> nf_list s (xs @ ys) \<and> region_ok (Nf_head s) xs x ys \<and>
     Hd_val (fl_mem s) (fst x) = h \<and> Wosize_hd h = of_nat (snd x)"

lemma unat_after: "unat b + 8 * n + 8 < 2 ^ 64 \<Longrightarrow> unat (b + 8 * (of_nat n + 1)) = unat b + 8 * (n + 1)" for b :: u64
  using unat_waddr [of b "n + 1"] by (simp add: waddr_def algebra_simps)

lemma region_adj:
  assumes "region_at s xs x ys h"
  shows "Next_in_mem (fl_mem s) (fst x) = fst x + 8 * (of_nat (snd x) + 1)"
    "unat (Next_in_mem (fl_mem s) (fst x)) = unat (fst x) + 8 * (snd x + 1)"
proof -
  show n: "Next_in_mem (fl_mem s) (fst x) = fst x + 8 * (of_nat (snd x) + 1)"
    using assms by (simp add: region_at_def Next_in_mem_def Whsize_val_def Whsize_hd_def Whsize_wosize_def)
  show "unat (Next_in_mem (fl_mem s) (fst x)) = unat (fst x) + 8 * (snd x + 1)"
    unfolding n using assms by (intro unat_after) (simp add: region_at_def region_ok_def)
qed

lemma region_grow:
  assumes "region_ok h xs (b, n) ((c, k) # ys)" "touches (b, n) (c, k)" "n + k + 1 \<le> max_wosize"
    and "placed h ((c, k) # ys)" "unat c + 8 * k + 8 < 2 ^ 64"
  shows "region_ok h xs (b, n + k + 1) ys"
proof -
  have e: "unat b + 8 * (n + k + 1) = unat c + 8 * k" using assms(2) by (simp add: touches_def)
  have "apart_from h (c, k)" "apart_from h (b, n)" using assms(1,4) by (simp_all add: placed_def region_ok_def)
  then have "apart_from h (b, n + k + 1)" using e assms(2) by (auto simp: apart_from_def touches_def)
  moreover have "before (b, n + k + 1) y" if "y \<in> set ys" for y
  proof -
    have "unat c + 8 * k + 8 \<le> unat (fst y)" using assms(4) that by (simp add: placed_def before_def)
    then show ?thesis using e by (simp only: before_def fst_conv snd_conv)
  qed
  moreover have "n + k + 1 < 2 ^ 54" using assms(3) by (simp add: max_wosize_def)
  moreover have "before z (b, n + k + 1)" if "z \<in> set xs" for z using assms(1) that by (simp add: region_ok_def before_def)
  ultimately show ?thesis using assms(1,5) e by (simp add: region_ok_def)
qed

lemma Make_blue:
  assumes "k < 2 ^ 54"
  shows "Wosize_hd (Make_header (of_nat k) 0 Caml_blue) = of_nat k" "Color_hd (Make_header (of_nat k) 0 Caml_blue) = Caml_blue"
    "Wosize_hd (Make_header (of_nat k) 0 Caml_white) = of_nat k"
proof -
  have u: "unat (of_nat k :: u64) < 2 ^ 54" using assms by (simp add: unat_of_nat)
  show "Wosize_hd (Make_header (of_nat k) 0 Caml_blue) = of_nat k" "Wosize_hd (Make_header (of_nat k) 0 Caml_white) = of_nat k"
    by (rule Wosize_Make_header [OF u]; simp add: Caml_blue_def Caml_white_def)+
  show "Color_hd (Make_header (of_nat k) 0 Caml_blue) = Caml_blue" by (rule Color_Make_header) (simp_all add: Caml_blue_def)
qed

lemma merge_cur_ok:
  assumes at: "region_at s xs (b, n) ys h" and abs: "absorb_next (b, n) ys = (n1, zs)"
    and run: "merge_cur (link_of (Nf_head s) xs) (Next_small (fl_mem s) (link_of (Nf_head s) xs)) b h s = (h1, adj, cur1, s1)"
  shows "region_at s1 xs (b, n1) zs h1" "adj = b + 8 * (of_nat n1 + 1)" "cur1 = Next_small (fl_mem s1) (link_of (Nf_head s) xs)"
    "s1 = s\<lparr>fl_mem := fl_mem s1, nf_prev := nf_prev s1\<rparr> \<and> (\<forall>a. a \<notin> {link_of (Nf_head s) xs, b - 8} \<longrightarrow> fl_mem s1 a = fl_mem s a)"
    "nf_prev s \<in> insert (Nf_head s) (fst ` set (xs @ ys)) \<Longrightarrow> nf_prev s1 \<in> insert (Nf_head s) (fst ` set (xs @ zs))"
proof -
  let ?h = "Nf_head s" and ?m = "fl_mem s"
  let ?p = "link_of ?h xs"
  have list: "nf_list s (xs @ ys)" and reg: "region_ok ?h xs (b, n) ys" and hd: "Hd_val ?m b = h" "Wosize_hd h = of_nat n"
    using at by (simp_all add: region_at_def)
  note adj0 = region_adj [OF at, simplified] and nb = next_block [OF list]
  have "region_at s1 xs (b, n1) zs h1 \<and> adj = b + 8 * (of_nat n1 + 1) \<and> cur1 = Next_small (fl_mem s1) ?p \<and>
    (s1 = s\<lparr>fl_mem := fl_mem s1, nf_prev := nf_prev s1\<rparr> \<and> (\<forall>a. a \<notin> {?p, b - 8} \<longrightarrow> fl_mem s1 a = ?m a)) \<and>
    (nf_prev s \<in> insert ?h (fst ` set (xs @ ys)) \<longrightarrow> nf_prev s1 \<in> insert ?h (fst ` set (xs @ zs)))"
  proof (cases "\<exists>c k r. ys = (c, k) # r \<and> touches (b, n) (c, k) \<and> n + k + 1 \<le> max_wosize")
    case True
    then obtain c k where ys: "ys = (c, k) # zs" and t: "touches (b, n) (c, k)" "n + k + 1 \<le> max_wosize" and n1: "n1 = n + k + 1"
      using abs by (auto simp: absorb_next_def)
    have cur: "Next_small ?m ?p = c" using nb ys by simp
    have "Next_in_mem ?m b = c" by (rule word_unat_eq_iff [THEN iffD2]) (use adj0(2) t(1) in \<open>simp add: touches_def\<close>)
    moreover have fr: "free_at ?m (c, k)" using nf_listD(5) [OF list] ys by simp
    then have ck: "Whsize_val ?m c = of_nat k + 1"
      using free_atD(5) [OF fr] by (simp add: Whsize_val_def Whsize_hd_def Whsize_wosize_def)
    have sum: "Wosize_hd h + Whsize_val ?m c = of_nat n1" by (simp add: hd ck n1)
    have n54: "n1 < 2 ^ 54" using t(2) by (simp add: n1 max_wosize_def)
    then have "unat (of_nat n1 :: u64) = n1" by (simp only: unat_of_nat) simp
    then have "(of_nat n1 :: u64) \<le> Max_wosize" using t(2) by (simp only: Max_wosize_nat n1)
    ultimately have s1: "s1 = set_hd b (Make_header (of_nat n1) 0 Caml_blue)
        ((set_next ?p (Next_small ?m c) s)\<lparr>nf_prev := if nf_prev s = c then ?p else nf_prev s\<rparr>)"
      and h1: "h1 = Make_header (of_nat n1) 0 Caml_blue" and adj: "adj = Next_in_mem (fl_mem s1) b" and cur1: "cur1 = Next_small ?m c"
      using run by (auto simp: merge_cur_def Let_def cur sum set_next_def)
    let ?s0 = "set_next ?p (Next_small ?m c) s"
    have l0: "nf_list ?s0 (xs @ zs)" using nf_list_remove [of s xs "(c, k)" zs] list ys by simp
    have reg1: "region_ok ?h xs (b, n1) zs"
      unfolding n1 using region_grow [OF _ t] reg ys placed_appendD(2) [OF nf_list_placed [OF list]] free_atD(8) [OF fr] by simp
    note rc = region_cells [of ?s0 xs zs "(b, n1)" "b - 8"]
    have "nf_list (set_hd b (Make_header (of_nat n1) 0 Caml_blue) ?s0) (xs @ zs)"
      using nf_list_other [OF l0] rc l0 reg1 by (simp add: set_hd_def set_next_def)
    then have l1: "nf_list s1 (xs @ zs)" unfolding s1 by (subst nf_list_cong) (auto simp: set_hd_def set_next_def)
    have hd1: "Nf_head s1 = ?h" "Hd_val (fl_mem s1) b = h1" by (simp_all add: s1 h1 set_hd_def set_next_def Hd_val_def)
    then have at1: "region_at s1 xs (b, n1) zs h1" using l1 reg1 Make_blue(1) [OF n54] by (simp add: region_at_def h1)
    have "Next_small (fl_mem s1) ?p = Next_small ?m c"
    proof -
      have "?p \<in> seg_cells ?h (xs @ ys)" using link_in_cells [of ?h xs] by (auto simp: seg_cells_def)
      then have "?p \<noteq> b - 8" using region_cells(1) [OF list reg] by auto
      then show ?thesis by (simp add: s1 set_hd_def set_next_def Next_small_eq)
    qed
    moreover have "nf_prev s1 \<in> insert ?h (fst ` set (xs @ zs))" if "nf_prev s \<in> insert ?h (fst ` set (xs @ ys))"
      using that link_of_mem [of ?h xs] by (auto simp: s1 ys set_hd_def)
    moreover have "s1 = s\<lparr>fl_mem := fl_mem s1, nf_prev := nf_prev s1\<rparr>" "\<forall>a. a \<notin> {?p, b - 8} \<longrightarrow> fl_mem s1 a = ?m a"
      by (simp_all add: s1 set_hd_def set_next_def)
    ultimately show ?thesis using at1 region_adj(1) [OF at1] adj cur1 by simp
  next
    case False
    then have eq: "n1 = n" "zs = ys" using abs by (auto simp: absorb_next_def split: list.splits if_splits)
    have "Next_in_mem ?m b \<noteq> Next_small ?m ?p \<or> Max_wosize < Wosize_hd h + Whsize_val ?m (Next_small ?m ?p)"
    proof (cases ys)
      case Nil
      then show ?thesis using nb adj0(2) by auto
    next
      case (Cons y r)
      obtain c k where y: "y = (c, k)" by (cases y)
      have cur: "Next_small ?m ?p = c" using nb Cons y by simp
      have fr: "free_at ?m (c, k)" using nf_listD(5) [OF list] Cons y by simp
      then have sum: "Wosize_hd h + Whsize_val ?m c = of_nat (n + k + 1)"
        using free_atD(5) [OF fr] by (simp add: Whsize_val_def Whsize_hd_def Whsize_wosize_def hd)
      have "n + k + 1 < 2 ^ 64" using reg free_size(2) [OF fr] by (simp add: region_ok_def)
      then have "unat (of_nat (n + k + 1) :: u64) = n + k + 1" by (simp only: unat_of_nat) simp
      moreover have "Next_in_mem ?m b = c \<Longrightarrow> touches (b, n) (c, k)" using adj0(2) by (simp add: touches_def)
      ultimately show ?thesis using False Cons y sum cur Max_wosize_nat(1) [of "of_nat (n + k + 1)"] by (auto simp: not_le)
    qed
    then have "h1 = h" "adj = Next_in_mem ?m b" "cur1 = Next_small ?m ?p" "s1 = s"
      using run by (auto simp: merge_cur_def Let_def not_less split: if_splits)
    then show ?thesis using at adj0(1) eq by simp
  qed
  then show "region_at s1 xs (b, n1) zs h1" "adj = b + 8 * (of_nat n1 + 1)" "cur1 = Next_small (fl_mem s1) ?p"
    "s1 = s\<lparr>fl_mem := fl_mem s1, nf_prev := nf_prev s1\<rparr> \<and> (\<forall>a. a \<notin> {?p, b - 8} \<longrightarrow> fl_mem s1 a = ?m a)"
    "nf_prev s \<in> insert ?h (fst ` set (xs @ ys)) \<Longrightarrow> nf_prev s1 \<in> insert ?h (fst ` set (xs @ zs))" by blast+
qed

lemma prev_test:
  assumes at: "region_at s xs (b, n) ys h"
  shows "Next_in_mem (fl_mem s) (link_of (Nf_head s) xs) = b \<and>
      Wosize_val (fl_mem s) (link_of (Nf_head s) xs) + Whsize_hd h < Max_wosize \<longleftrightarrow>
    xs \<noteq> [] \<and> touches (last xs) (b, n) \<and> snd (last xs) + n + 1 < max_wosize"
proof -
  let ?h = "Nf_head s" and ?m = "fl_mem s"
  have list: "nf_list s (xs @ ys)" and reg: "region_ok ?h xs (b, n) ys" and hd: "Wosize_hd h = of_nat n"
    using at by (simp_all add: region_at_def)
  show ?thesis
  proof (cases xs rule: rev_cases)
    case Nil
    have "Hd_val ?m ?h = Make_header (of_nat 0) 0 Caml_blue" and h: "unat ?h + 8 < 2 ^ 64"
      using nf_listD(1) [OF list] by (simp_all add: sentinel_ok_def)
    then have "Next_in_mem ?m ?h = ?h + 8 * (of_nat 0 + 1)"
      using Make_blue(1) [of 0] by (simp add: Next_in_mem_def Whsize_val_def Whsize_hd_def Whsize_wosize_def)
    then have "unat (Next_in_mem ?m ?h) = unat ?h + 8" using h unat_after [of ?h 0] by simp
    then have "Next_in_mem ?m ?h \<noteq> b" using reg by (auto simp: region_ok_def apart_from_def)
    then show ?thesis using Nil by simp
  next
    case (snoc zs z)
    obtain p j where z: "z = (p, j)" by (cases z)
    have fr: "free_at ?m (p, j)" using nf_listD(5) [OF list] by (simp add: snoc z)
    have "Next_in_mem ?m p = p + 8 * (of_nat j + 1)"
      using free_atD(5) [OF fr] by (simp add: Next_in_mem_def Whsize_val_def Whsize_hd_def Whsize_wosize_def)
    then have "unat (Next_in_mem ?m p) = unat p + 8 * (j + 1)" using unat_after [of p j] free_atD(8) [OF fr] by simp
    then have t: "Next_in_mem ?m p = b \<longleftrightarrow> touches (p, j) (b, n)" by (auto simp: touches_def word_unat_eq_iff)
    have "Wosize_val ?m p + Whsize_hd h = of_nat (j + n + 1)"
      using free_atD(5) [OF fr] by (simp add: Wosize_val_def Whsize_hd_def Whsize_wosize_def hd)
    moreover have "j + n + 1 < 2 ^ 64" using reg free_size(2) [OF fr] by (simp add: region_ok_def)
    then have "unat (of_nat (j + n + 1) :: u64) = j + n + 1" by (simp only: unat_of_nat) simp
    ultimately show ?thesis using t Max_wosize_nat(2) [of "of_nat (j + n + 1)"] by (simp add: snoc z)
  qed
qed

lemma placed_grow:
  assumes list: "nf_list s ((zs @ [(p, j)]) @ ys)" and reg: "region_ok (Nf_head s) (zs @ [(p, j)]) (b, n) ys"
    and t: "touches (p, j) (b, n)"
  shows "placed (Nf_head s) (zs @ (p, j + n + 1) # ys)"
proof -
  let ?h = "Nf_head s"
  have pl: "placed ?h (zs @ (p, j) # ys)" using nf_list_placed [OF list] by simp
  have e: "unat p + 8 * (j + n + 1) = unat b + 8 * n" using t by (simp add: touches_def)
  have "apart_from ?h (p, j)" "apart_from ?h (b, n)" using pl reg by (simp_all add: placed_def region_ok_def)
  then have "apart_from ?h (p, j + n + 1)" using e t by (auto simp: apart_from_def touches_def)
  moreover have "before (p, j + n + 1) y" if "y \<in> set ys" for y
  proof -
    have "before (b, n) y" using reg that by (simp add: region_ok_def)
    then show ?thesis using e by (simp only: before_def fst_conv snd_conv)
  qed
  moreover have "before z (p, j + n + 1)" if "z \<in> set zs" for z using pl that by (simp add: placed_def sorted_wrt_append before_def)
  ultimately show ?thesis using pl by (auto simp: placed_def sorted_wrt_append)
qed

lemma link_words:
  assumes "nf_list s (xs @ ys)"
  shows "link_of (Nf_head s) xs \<in> insert (Nf_head s) (free_words (xs @ ys))"
    "xs \<noteq> [] \<Longrightarrow> link_of (Nf_head s) xs - 8 \<in> free_words (xs @ ys)"
proof -
  have "link_of (Nf_head s) xs \<in> free_words (xs @ ys) \<and> link_of (Nf_head s) xs - 8 \<in> free_words (xs @ ys)" if "xs \<noteq> []"
    using block_cell_free [of "last xs" "xs @ ys", OF _ nf_listD(5) [OF assms]] that by (simp add: link_of_def)
  then show "link_of (Nf_head s) xs \<in> insert (Nf_head s) (free_words (xs @ ys))"
    "xs \<noteq> [] \<Longrightarrow> link_of (Nf_head s) xs - 8 \<in> free_words (xs @ ys)" by (cases "xs = []"; simp)+
qed

lemma merge_prev_ok:
  assumes at: "region_at s xs (b, n) ys h" and sum: "caml_fl_cur_wsz s = of_nat (total_words (xs @ ys) + n + 1)"
    and np: "nf_prev s \<in> insert (Nf_head s) (fst ` set (xs @ ys))" and mg: "caml_fl_merge s = link_of (Nf_head s) xs"
    and run: "merge_prev (link_of (Nf_head s) xs) (Next_small (fl_mem s) (link_of (Nf_head s) xs)) b h s = s1"
  shows "nf_inv s1 (absorb_prev xs (b, n) @ ys)" "caml_fl_merge s1 = link_of (Nf_head s) (absorb_prev xs (b, n))"
    "Nf_head s1 = Nf_head s" "gc_sweep_hp s1 = gc_sweep_hp s"
    "nf_last_fragment s1 = (if absorb_prev xs (b, n) = xs then b else nf_last_fragment s)"
    "a \<notin> insert (Nf_head s) (free_words (xs @ ys) \<union> cells (b - 8) (n + 1)) \<Longrightarrow> fl_mem s1 a = fl_mem s a"
proof -
  let ?h = "Nf_head s" and ?m = "fl_mem s"
  let ?p = "link_of ?h xs"
  have list: "nf_list s (xs @ ys)" and reg: "region_ok ?h xs (b, n) ys" and hd: "Hd_val ?m b = h" "Wosize_hd h = of_nat n"
    using at by (simp_all add: region_at_def)
  note test = prev_test [OF at]
  show "Nf_head s1 = ?h" "gc_sweep_hp s1 = gc_sweep_hp s"
    using run by (auto simp: merge_prev_def Let_def set_hd_def set_next_def add_cur_wsz_def split: if_splits)
  have n54: "n < 2 ^ 54" using reg by (simp add: region_ok_def)
  have n0: "Wosize_hd h = 0 \<longleftrightarrow> n = 0"
  proof -
    have "unat (of_nat n :: u64) = n" using n54 by (simp add: unat_of_nat)
    then show ?thesis unfolding hd(2) by (metis unat_0 word_unat_eq_iff)
  qed
  show "fl_mem s1 a = ?m a" if a: "a \<notin> insert ?h (free_words (xs @ ys) \<union> cells (b - 8) (n + 1))"
  proof -
    have p: "?p \<in> insert ?h (free_words (xs @ ys))" "xs \<noteq> [] \<Longrightarrow> ?p - 8 \<in> free_words (xs @ ys)"
      using link_words [OF list] by auto
    have "b - 8 \<in> cells (b - 8) (n + 1)" "n \<noteq> 0 \<Longrightarrow> b \<in> cells (b - 8) (n + 1)"
      using waddr_in_cells [of 0 "n + 1" "b - 8"] waddr_in_cells [of 1 "n + 1" "b - 8"] by (simp_all add: waddr_def)
    then have "a \<noteq> ?p" "a \<noteq> b - 8" "n \<noteq> 0 \<Longrightarrow> a \<noteq> b" "xs \<noteq> [] \<Longrightarrow> a \<noteq> ?p - 8" using a p by auto
    then show ?thesis
      using run test n0 by (auto simp: merge_prev_def Let_def set_hd_def set_next_def add_cur_wsz_def split: if_splits)
  qed
  have "nf_inv s1 (absorb_prev xs (b, n) @ ys) \<and> caml_fl_merge s1 = link_of ?h (absorb_prev xs (b, n)) \<and>
    nf_last_fragment s1 = (if absorb_prev xs (b, n) = xs then b else nf_last_fragment s)"
  proof (cases "xs \<noteq> [] \<and> touches (last xs) (b, n) \<and> snd (last xs) + n + 1 < max_wosize")
    case True
    then obtain zs p j where xs: "xs = zs @ [(p, j)]" by (metis append_butlast_last_id surj_pair)
    let ?k = "j + n + 1"
    have t: "touches (p, j) (b, n)" "?k < max_wosize" using True xs by simp_all
    have fr: "free_at ?m (p, j)" using nf_listD(5) [OF list] by (simp add: xs)
    have "Wosize_val ?m p = of_nat j" using free_atD(5) [OF fr] by (simp add: Wosize_val_def)
    then have "Wosize_val ?m p + Whsize_hd h = of_nat ?k" by (simp add: Whsize_hd_def Whsize_wosize_def hd)
    then have s1: "s1 = set_hd p (Make_header (of_nat ?k) 0 Caml_blue) s"
      using run True test by (simp add: merge_prev_def Let_def xs)
    have k: "?k < 2 ^ 54" using t(2) by (simp add: max_wosize_def)
    have "unat p + 8 * ?k + 8 < 2 ^ 64"
      using t(1) reg by (simp add: touches_def region_ok_def)
    then have "free_at (?m(p - 8 := Make_header (of_nat ?k) 0 Caml_blue)) (p, ?k)"
      using fr Make_blue [OF k] by (simp add: free_at_def Hd_val_def)
    then have "nf_list s1 (zs @ (p, ?k) # ys)"
      unfolding s1 using nf_list_resize [of s zs p j ys ?k] placed_grow [of s zs p j ys b n] list reg t(1) by (simp add: xs)
    moreover have ap: "absorb_prev xs (b, n) = zs @ [(p, ?k)]" using True by (simp add: absorb_prev_def xs)
    ultimately show ?thesis
      using sum np mg by (auto simp: nf_inv_def xs s1 set_hd_def ap algebra_simps)
  next
    case no: False
    show ?thesis
    proof (cases "n = 0")
      case True
      then have s1: "s1 = add_cur_wsz (- Whsize_wosize 0) (s\<lparr>nf_last_fragment := b\<rparr>)"
        using run no test n0 by (auto simp: merge_prev_def Let_def split: if_splits)
      have "nf_list s1 (xs @ ys)" using list unfolding s1 by (subst nf_list_cong) (auto simp: add_cur_wsz_def)
      moreover have ap: "absorb_prev xs (b, n) = xs" using no True by (auto simp: absorb_prev_def)
      ultimately show ?thesis
        using sum np mg link_of_mem [of ?h xs] True by (auto simp: nf_inv_def s1 ap add_cur_wsz_def Whsize_wosize_def)
    next
      case False
      let ?s0 = "set_hd b (Bluehd_hd h) s"
      have s1: "s1 = (set_next ?p b (set_next b (Next_small ?m ?p) ?s0))\<lparr>caml_fl_merge := b\<rparr>"
        using run no test n0 False by (auto simp: merge_prev_def Let_def split: if_splits)
      have l0: "nf_list ?s0 (xs @ ys)"
        using nf_list_other [OF list] region_cells [OF list reg] by (simp add: set_hd_def)
      have pb: "?p \<noteq> b - 8" using region_cells(1) [OF list reg] link_in_cells [of ?h xs] by (auto simp: seg_cells_def)
      have "Color_hd (Bluehd_hd h) = Caml_blue" "Wosize_hd (Bluehd_hd h) = of_nat n"
        unfolding recolour_eqs using recolour_fields [of Caml_blue h] hd(2) by (simp_all add: Caml_blue_def)
      then have fr: "free_at (fl_mem ?s0) (b, n)" using reg False by (simp add: free_at_def set_hd_def Hd_val_def region_ok_def)
      have "nf_list (set_next ?p b (set_next b (Next_small ?m ?p) ?s0)) (xs @ (b, n) # ys)"
        using nf_list_insert [OF l0 _ fr] region_placed [OF list reg] False pb by (simp add: set_hd_def Next_small_eq)
      then have "nf_list s1 (xs @ (b, n) # ys)" unfolding s1 by (subst nf_list_cong) auto
      moreover have ap: "absorb_prev xs (b, n) = xs @ [(b, n)]" using no False by (auto simp: absorb_prev_def)
      ultimately show ?thesis
        using sum np by (auto simp: nf_inv_def s1 set_hd_def set_next_def ap algebra_simps)
    qed
  qed
  then show "nf_inv s1 (absorb_prev xs (b, n) @ ys)" "caml_fl_merge s1 = link_of ?h (absorb_prev xs (b, n))"
    "nf_last_fragment s1 = (if absorb_prev xs (b, n) = xs then b else nf_last_fragment s)" by blast+
qed

text \<open>
  Finalisation functions of custom blocks free what the block owns outside the heap: they leave the
  globals of the allocator and the words of \<open>A\<close> alone.
\<close>

definition final_keeps :: "u64 set \<Rightarrow> (u64 \<Rightarrow> fl_state \<Rightarrow> fl_state) \<Rightarrow> bool" where
  "final_keeps A final_fun \<longleftrightarrow> (\<forall>bp s. \<exists>m. final_fun bp s = s\<lparr>fl_mem := m\<rparr> \<and> (\<forall>a \<in> A. m a = fl_mem s a))"

text \<open>The block that is merged: with the fragment before it, when that is the last one seen.\<close>

definition with_fragment :: "fl_state \<Rightarrow> fblock \<Rightarrow> fblock" where
  "with_fragment s x = (if nf_last_fragment s = fst x - 8 \<and> snd x + 1 \<le> max_wosize then (fst x - 8, snd x + 1) else x)"

text \<open>The sweep hands over a block between the merge pointer and the next free block.\<close>

definition merge_ready :: "fl_state \<Rightarrow> fblock list \<Rightarrow> fblock \<Rightarrow> fblock list \<Rightarrow> bool" where
  "merge_ready s xs x ys \<longleftrightarrow> nf_inv s (xs @ ys) \<and> caml_fl_merge s = link_of (Nf_head s) xs \<and>
     Wosize_val (fl_mem s) (fst x) = of_nat (snd x) \<and>
     region_ok (Nf_head s) xs x ys \<and> region_ok (Nf_head s) xs (with_fragment s x) ys"

lemma nf_list_agree:
  assumes "nf_list s bs" "\<forall>a \<in> insert (Nf_head s - 8) (seg_cells (Nf_head s) bs). m a = fl_mem s a"
  shows "nf_list (s\<lparr>fl_mem := m\<rparr>) bs"
proof -
  have "nf_seg m (Nf_head s) bs 0 = nf_seg (fl_mem s) (Nf_head s) bs 0" using assms(2) by (intro nf_seg_cong) auto
  then show ?thesis using assms by (simp add: nf_list_def sentinel_ok_def Hd_val_def)
qed

lemma merge_fragment_ok:
  assumes at: "region_at s xs x ys h" and reg: "region_ok (Nf_head s) xs (with_fragment s x) ys"
    and run: "merge_fragment (fst x) h s = (b1, h1, s1)"
  shows "region_at s1 xs (with_fragment s x) ys h1" "b1 = fst (with_fragment s x)"
    "s1 = s\<lparr>fl_mem := fl_mem s1, caml_fl_cur_wsz := caml_fl_cur_wsz s + of_nat (snd (with_fragment s x)) - of_nat (snd x)\<rparr>"
    "a \<noteq> b1 - 8 \<Longrightarrow> fl_mem s1 a = fl_mem s a"
proof -
  obtain b n where x: "x = (b, n)" by (cases x)
  have hd: "Hd_val (fl_mem s) b = h" "Wosize_hd h = of_nat n" and list: "nf_list s (xs @ ys)" and n: "n < 2 ^ 54"
    using at by (simp_all add: region_at_def x region_ok_def)
  have wh: "Whsize_val (fl_mem s) b = of_nat (n + 1)" by (simp add: Whsize_val_def Whsize_hd_def Whsize_wosize_def hd)
  have "unat (of_nat (n + 1) :: u64) = n + 1" using n by (simp only: unat_of_nat) simp
  then have mx: "Whsize_val (fl_mem s) b \<le> Max_wosize \<longleftrightarrow> n + 1 \<le> max_wosize" unfolding wh by (simp only: Max_wosize_nat)
  have "region_at s1 xs (with_fragment s x) ys h1 \<and> b1 = fst (with_fragment s x) \<and>
    s1 = s\<lparr>fl_mem := fl_mem s1, caml_fl_cur_wsz := caml_fl_cur_wsz s + of_nat (snd (with_fragment s x)) - of_nat (snd x)\<rparr> \<and>
    (a \<noteq> b1 - 8 \<longrightarrow> fl_mem s1 a = fl_mem s a)"
  proof (cases "nf_last_fragment s = b - 8 \<and> n + 1 \<le> max_wosize")
    case True
    let ?h = "Make_header (of_nat (n + 1)) 0 Caml_white"
    have w: "with_fragment s x = (b - 8, n + 1)" using True by (simp add: with_fragment_def x)
    have r: "b1 = b - 8" "h1 = ?h" "s1 = add_cur_wsz 1 (set_hd (b - 8) ?h s)"
      using run True mx wh by (auto simp: merge_fragment_def x Hp_val_def Whsize_wosize_def Let_def)
    have "n + 1 < 2 ^ 54" using True by (simp add: max_wosize_def)
    then have sz: "Wosize_hd ?h = of_nat (n + 1)" by (rule Make_blue(3))
    have "nf_list (set_hd (b - 8) ?h s) (xs @ ys)"
      using nf_list_other [OF list] region_cells [OF list reg] by (simp add: set_hd_def w)
    then have "nf_list s1 (xs @ ys)" unfolding r(3) by (subst nf_list_cong) (auto simp: add_cur_wsz_def)
    then have "region_at s1 xs (with_fragment s x) ys h1"
      using reg sz by (simp add: region_at_def w r add_cur_wsz_def set_hd_def Hd_val_def)
    then show ?thesis using r w by (simp add: add_cur_wsz_def set_hd_def x)
  next
    case False
    then have "with_fragment s x = x" "b1 = b" "h1 = h" "s1 = s"
      using run mx by (auto simp: with_fragment_def merge_fragment_def x Hp_val_def Let_def split: if_splits)
    then show ?thesis using at by (simp add: x)
  qed
  then show "region_at s1 xs (with_fragment s x) ys h1" "b1 = fst (with_fragment s x)"
    "s1 = s\<lparr>fl_mem := fl_mem s1, caml_fl_cur_wsz := caml_fl_cur_wsz s + of_nat (snd (with_fragment s x)) - of_nat (snd x)\<rparr>"
    "a \<noteq> b1 - 8 \<Longrightarrow> fl_mem s1 a = fl_mem s a" by blast+
qed

lemma absorb_next_words: "absorb_next x ys = (n, zs) \<Longrightarrow> total_words zs + n = total_words ys + snd x"
  by (auto simp: absorb_next_def split: list.splits if_splits)

lemma cells_plus: "cells a (i + j) = cells a i \<union> cells (waddr a i) j"
proof
  show "cells a (i + j) \<subseteq> cells a i \<union> cells (waddr a i) j"
  proof
    fix w assume "w \<in> cells a (i + j)"
    then obtain k where k: "k < i + j" "w = waddr a k" by (auto simp: mem_cells_iff)
    show "w \<in> cells a i \<union> cells (waddr a i) j"
    proof (cases "k < i")
      case False
      then have "w = waddr (waddr a i) (k - i)" using k(2) by (simp add: waddr_add)
      then show ?thesis using False k(1) by simp
    qed (simp add: k(2))
  qed
  show "cells a i \<union> cells (waddr a i) j \<subseteq> cells a (i + j)"
    using cells_sub [of 0 i "i + j" a] cells_sub [of i j "i + j" a] by simp
qed

lemma touching_cells:
  assumes "touches (b, n) (c, k)"
  shows "cells (b - 8) (n + k + 1 + 1) = cells (b - 8) (n + 1) \<union> cells (c - 8) (k + 1)"
proof -
  have "of_nat (unat b + 8 * (n + 1)) = (of_nat (unat c) :: u64)" using assms by (simp only: touches_def fst_conv snd_conv)
  then have "c - 8 = waddr (b - 8) (n + 1)" by (simp add: waddr_def algebra_simps)
  then show ?thesis using cells_plus [of "b - 8" "n + 1" "k + 1"] by (simp add: algebra_simps)
qed

lemma absorb_next_cells:
  assumes "absorb_next (b, n) ys = (n1, vs)"
  shows "free_words vs \<union> cells (b - 8) (n1 + 1) = free_words ys \<union> cells (b - 8) (n + 1)"
  using assms touching_cells [of b n] by (auto simp: absorb_next_def split: list.splits if_splits)

lemma seg_cells_words: "nf_list s bs \<Longrightarrow> seg_cells (Nf_head s) bs \<subseteq> insert (Nf_head s) (free_words bs)"
  using block_cell_free [of _ bs "fl_mem s"] nf_listD(5) [of s bs] unfolding seg_cells_def by blast

lemma merged_words:
  assumes "merged xs x ys = (us, vs)"
  shows "free_words (us @ vs) = free_words (xs @ ys) \<union> (if us = xs then {} else cells (fst x - 8) (snd x + 1))"
proof -
  obtain b n where x: "x = (b, n)" by (cases x)
  obtain n1 where ab: "absorb_next (b, n) ys = (n1, vs)" and us: "us = absorb_prev xs (b, n1)"
    using assms by (auto simp: merged_def x split: prod.splits)
  have nxt: "free_words vs \<union> cells (b - 8) (n1 + 1) = free_words ys \<union> cells (b - 8) (n + 1)" "n1 = 0 \<Longrightarrow> vs = ys"
    using ab absorb_next_cells [OF ab] by (auto simp: absorb_next_def split: list.splits if_splits)
  show ?thesis
  proof (cases "xs \<noteq> [] \<and> touches (last xs) (b, n1) \<and> snd (last xs) + n1 + 1 < max_wosize")
    case True
    then obtain zs p j where xs: "xs = zs @ [(p, j)]" by (metis append_butlast_last_id surj_pair)
    have u: "us = zs @ [(p, j + n1 + 1)]" "us \<noteq> xs" using True by (simp_all add: us absorb_prev_def xs)
    have "cells (p - 8) (j + n1 + 1 + 1) = cells (p - 8) (j + 1) \<union> cells (b - 8) (n1 + 1)"
      using touching_cells True xs by simp
    then show ?thesis using nxt(1) u(2) by (auto simp: u(1) xs x)
  next
    case False
    then have u: "us = (if n1 \<noteq> 0 then xs @ [(b, n1)] else xs)" by (auto simp: us absorb_prev_def)
    then show ?thesis using nxt by (auto simp: x)
  qed
qed

lemma nf_merge_block_ok:
  assumes ready: "merge_ready s xs x ys" and fin: "final_keeps A final_fun"
    and A: "{Nf_head s, Nf_head s - 8} \<union> free_words (xs @ ys) \<union> cells (fst x - 8) (snd x + 1) \<subseteq> A"
    and m: "merged xs (with_fragment s x) ys = (us, vs)"
  shows "\<exists>s'. nf_merge_block final_fun (fst x) s =
      (fst (with_fragment s x) + 8 * of_nat (fst (absorb_next (with_fragment s x) ys)), s') \<and>
    nf_inv s' (us @ vs) \<and> caml_fl_merge s' = link_of (Nf_head s') us \<and> Nf_head s' = Nf_head s \<and>
    free_words (us @ vs) = free_words (xs @ ys) \<union>
      (if us = xs then {} else cells (fst (with_fragment s x) - 8) (snd (with_fragment s x) + 1)) \<and>
    nf_last_fragment s' = (if us = xs then fst (with_fragment s x) else nf_last_fragment s) \<and> gc_sweep_hp s' = gc_sweep_hp s \<and>
    (\<forall>a \<in> A. a \<notin> insert (Nf_head s) (free_words (xs @ ys) \<union> cells (fst (with_fragment s x) - 8) (snd (with_fragment s x) + 1)) \<longrightarrow>
      fl_mem s' a = fl_mem s a)"
proof -
  obtain b n where x: "x = (b, n)" by (cases x)
  obtain b1 n1 where w: "with_fragment s x = (b1, n1)" by (cases "with_fragment s x")
  obtain n2 zs where ab: "absorb_next (b1, n1) ys = (n2, zs)" by fastforce
  let ?h = "Nf_head s" and ?m = "fl_mem s"
  let ?p = "link_of ?h xs"
  let ?hd = "Hd_val ?m b" and ?s1 = "add_cur_wsz (Whsize_hd (Hd_val ?m b)) s"
  note r = ready [unfolded merge_ready_def x, simplified]
  have list: "nf_list s (xs @ ys)" and sum: "caml_fl_cur_wsz s = of_nat (total_words (xs @ ys))"
    and np: "nf_prev s \<in> insert ?h (fst ` set (xs @ ys))" and mg: "caml_fl_merge s = ?p"
    using r by (simp_all add: nf_inv_def)
  have hn: "Wosize_hd ?hd = of_nat n" using r by (simp add: Wosize_val_def)
  obtain s2 m2 where s2: "s2 = (if Tag_hd ?hd = Custom_tag then final_fun b ?s1 else ?s1)" "s2 = ?s1\<lparr>fl_mem := m2\<rparr>"
    and mA: "\<forall>a \<in> A. m2 a = ?m a"
  proof (cases "Tag_hd ?hd = Custom_tag")
    case True
    obtain m where "final_fun b ?s1 = ?s1\<lparr>fl_mem := m\<rparr>" "\<forall>a \<in> A. m a = fl_mem ?s1 a"
      using fin unfolding final_keeps_def by blast
    then show thesis using that [of _ m] True by (simp add: add_cur_wsz_def)
  next
    case False
    then show thesis using that [of ?s1 ?m] by (simp add: add_cur_wsz_def)
  qed
  have m2: "\<forall>a \<in> insert (?h - 8) (insert (b - 8) (seg_cells ?h (xs @ ys))). m2 a = ?m a"
  proof -
    have "b - 8 \<in> cells (b - 8) (n + 1)" using waddr_in_cells [of 0 "n + 1" "b - 8"] by simp
    then show ?thesis using mA A seg_cells_words [OF list] by (auto simp: x)
  qed
  have f2: "Nf_head s2 = ?h" "caml_fl_merge s2 = ?p" "nf_prev s2 = nf_prev s" "nf_last_fragment s2 = nf_last_fragment s"
    "caml_fl_cur_wsz s2 = of_nat (total_words (xs @ ys) + n + 1)" "fl_mem s2 = m2" "gc_sweep_hp s2 = gc_sweep_hp s"
    using mg sum hn by (simp_all add: s2(2) add_cur_wsz_def Whsize_hd_def Whsize_wosize_def)
  have "nf_list (s\<lparr>fl_mem := m2\<rparr>) (xs @ ys)" by (rule nf_list_agree [OF list]) (use m2 in blast)
  then have l2: "nf_list s2 (xs @ ys)" by (subst nf_list_cong [of s2 "s\<lparr>fl_mem := m2\<rparr>"]) (simp_all add: f2)
  have at2: "region_at s2 xs (b, n) ys ?hd" using l2 r hn m2 by (simp add: region_at_def f2 Hd_val_def)
  have w2: "with_fragment s2 (b, n) = (b1, n1)" using w by (simp add: with_fragment_def f2 x)
  obtain c3 h3 s3 where run3: "merge_fragment b ?hd s2 = (c3, h3, s3)" by (metis prod_cases3)
  have reg1: "region_ok (Nf_head s2) xs (with_fragment s2 (b, n)) ys" using r w w2 by (simp add: f2 x)
  note k3 = merge_fragment_ok [OF at2 reg1, unfolded w2, simplified, OF run3]
  have f3: "Nf_head s3 = ?h" "caml_fl_merge s3 = ?p" "nf_prev s3 = nf_prev s"
    "caml_fl_cur_wsz s3 = of_nat (total_words (xs @ ys) + n1 + 1)" "nf_last_fragment s3 = nf_last_fragment s" "gc_sweep_hp s3 = gc_sweep_hp s"
    using arg_cong [OF k3(3), of nf_last_fragment] arg_cong [OF k3(3), of gc_sweep_hp] arg_cong [OF k3(3), of Nf_head] arg_cong [OF k3(3), of caml_fl_merge] arg_cong [OF k3(3), of nf_prev]
      arg_cong [OF k3(3), of caml_fl_cur_wsz] f2 by simp_all
  have cur3: "Next_small m2 ?p = Next_small (fl_mem s3) ?p"
    using next_block [OF l2] next_block [of s3 xs ys] k3(1) f2 f3(1) by (simp add: region_at_def)
  obtain h4 adj cur4 s4 where run4: "merge_cur ?p (Next_small (fl_mem s3) ?p) b1 h3 s3 = (h4, adj, cur4, s4)" by (metis prod_cases4)
  note k4 = merge_cur_ok [OF k3(1) ab, unfolded f3, OF run4]
  have f4: "Nf_head s4 = ?h" "caml_fl_merge s4 = ?p" "caml_fl_cur_wsz s4 = of_nat (total_words (xs @ ys) + n1 + 1)"
    "nf_last_fragment s4 = nf_last_fragment s" "gc_sweep_hp s4 = gc_sweep_hp s"
    using arg_cong [OF conjunct1 [OF k4(4)], of nf_last_fragment] arg_cong [OF conjunct1 [OF k4(4)], of gc_sweep_hp] arg_cong [OF conjunct1 [OF k4(4)], of Nf_head] arg_cong [OF conjunct1 [OF k4(4)], of caml_fl_merge]
      arg_cong [OF conjunct1 [OF k4(4)], of caml_fl_cur_wsz] f3 by simp_all
  have "total_words (xs @ ys) + n1 + 1 = total_words (xs @ zs) + n2 + 1" using absorb_next_words [OF ab] by simp
  then have sum4: "caml_fl_cur_wsz s4 = of_nat (total_words (xs @ zs) + n2 + 1)" using f4(3) by (simp only:)
  have np4: "nf_prev s4 \<in> insert (Nf_head s4) (fst ` set (xs @ zs))" using k4(5) np f3(3) f4(1) by simp
  define s5 where "s5 = merge_prev ?p cur4 b1 h4 s4"
  note k5 = merge_prev_ok [OF k4(1) sum4 np4, unfolded f4, OF refl, folded k4(3), OF s5_def [symmetric]]
  have uv: "us = absorb_prev xs (b1, n2)" "vs = zs" using m ab by (simp_all add: merged_def w)
  have words: "free_words (us @ vs) = free_words (xs @ ys) \<union> (if us = xs then {} else cells (b1 - 8) (n1 + 1))"
    using merged_words [of xs "(b1, n1)" ys us vs] m w by simp
  have "nf_merge_block final_fun b s = (Hp_val adj, s5)"
    unfolding nf_merge_block_def Let_def s2(1) [symmetric] f2(2) f2(6) run3 prod.case cur3 k3(2) run4 s5_def by simp
  moreover have "Hp_val adj = b1 + 8 * of_nat n2" using k4(2) by (simp add: Hp_val_def)
  moreover have "fl_mem s5 a = ?m a" if a: "a \<in> A" "a \<notin> insert ?h (free_words (xs @ ys) \<union> cells (b1 - 8) (n1 + 1))" for a
  proof -
    have "b1 - 8 \<in> cells (b1 - 8) (n1 + 1)" using waddr_in_cells [of 0 "n1 + 1" "b1 - 8"] by simp
    then have ne: "a \<noteq> b1 - 8" "a \<noteq> ?p" using a(2) link_words(1) [OF list] by auto
    have "free_words zs \<union> cells (b1 - 8) (n2 + 1) = free_words ys \<union> cells (b1 - 8) (n1 + 1)" by (rule absorb_next_cells [OF ab])
    then have "a \<notin> insert ?h (free_words (xs @ zs) \<union> cells (b1 - 8) (n2 + 1))" using a(2) by auto
    then have "fl_mem s5 a = fl_mem s4 a" by (rule k5(6))
    also have "\<dots> = fl_mem s3 a" using conjunct2 [OF k4(4)] ne by blast
    also have "\<dots> = m2 a" using k3(4) ne(1) k3(2) f2(6) by simp
    finally show ?thesis using mA a(1) by simp
  qed
  ultimately show ?thesis using k5 uv ab words by (simp add: w [unfolded x] x)
qed

text \<open>
  C6: Merging a dead block keeps the list sorted, well formed and counted, joins the block
  with the fragment and the free blocks it touches as long as a header can hold the size,
  makes exactly its words free unless it is left as a fragment, keeps the merge pointer at the
  last free block before the sweep, and returns the header after the merged block.
\<close>

theorem nf_merge_block_correct:
  assumes ready: "merge_ready s xs x ys" and fin: "final_keeps A final_fun"
    and A: "{Nf_head s, Nf_head s - 8} \<union> free_words (xs @ ys) \<union> cells (fst x - 8) (snd x + 1) \<subseteq> A"
    and m: "merged xs (with_fragment s x) ys = (us, vs)"
  shows "\<exists>s'. nf_merge_block final_fun (fst x) s =
      (fst (with_fragment s x) + 8 * of_nat (fst (absorb_next (with_fragment s x) ys)), s') \<and>
    nf_inv s' (us @ vs) \<and> caml_fl_merge s' = link_of (Nf_head s') us \<and> Nf_head s' = Nf_head s \<and>
    free_words (us @ vs) = free_words (xs @ ys) \<union>
      (if us = xs then {} else cells (fst (with_fragment s x) - 8) (snd (with_fragment s x) + 1)) \<and>
    nf_last_fragment s' = (if us = xs then fst (with_fragment s x) else nf_last_fragment s) \<and> gc_sweep_hp s' = gc_sweep_hp s \<and>
    (\<forall>a \<in> A. a \<notin> insert (Nf_head s) (free_words (xs @ ys) \<union> cells (fst (with_fragment s x) - 8) (snd (with_fragment s x) + 1)) \<longrightarrow>
      fl_mem s' a = fl_mem s a)"
  by (rule nf_merge_block_ok [OF assms])

section \<open>Initialisation and heap extensions\<close>

lemma nf_init_ok:
  assumes "sentinel_ok s"
  shows "nf_inv (nf_init_merge (nf_init s)) []"
proof -
  have "Nf_head s - 8 \<noteq> Nf_head s" by (simp add: diff_eq_eq)
  then show ?thesis
    using assms by (simp add: nf_inv_def nf_list_def nf_init_merge_def nf_init_def set_next_def sentinel_ok_def Hd_val_def Next_small_eq)
qed

lemma nf_init_merge_ok: "nf_inv s bs \<Longrightarrow> nf_inv (nf_init_merge s) bs"
proof -
  assume inv: "nf_inv s bs"
  have "nf_list (nf_init_merge s) bs = nf_list s bs" by (rule nf_list_cong) (simp_all add: nf_init_merge_def)
  then show ?thesis using inv by (simp add: nf_inv_def) (simp add: nf_init_merge_def)
qed

text \<open>A chain of blocks, by their first fields, that starts at \<open>x\<close>.\<close>

lemma nf_count_words:
  assumes "nf_seg (fl_mem s) (fst x) xs 0" "free_at (fl_mem s) x"
  shows "nf_count (fst x) s = Some (add_cur_wsz (of_nat (total_words (x # xs))) s)"
  using assms
proof (induction xs arbitrary: x s)
  case Nil
  have "Field (fl_mem s) (fst x) 0 = 0" using Nil(1) by (simp add: Next_small_def)
  then show ?case using free_atD(5) [OF Nil(2)]
    by (subst nf_count.simps) (simp add: Let_def add_cur_wsz_def Whsize_val_def Whsize_hd_def Whsize_wosize_def add.commute)
next
  case (Cons y ys)
  let ?s = "add_cur_wsz (of_nat (snd x + 1)) s"
  have "Field (fl_mem s) (fst x) 0 = fst y" "fst y \<noteq> 0" "free_at (fl_mem s) y"
    using Cons.prems(1) free_not_null [of "fl_mem s" y] by (simp_all add: Next_small_def)
  moreover have "nf_count (fst y) ?s = Some (add_cur_wsz (of_nat (total_words (y # ys))) ?s)"
    using Cons.prems(1) by (intro Cons.IH) (simp_all add: add_cur_wsz_def)
  ultimately show ?case using free_atD(5) [OF Cons.prems(2)]
    by (subst nf_count.simps) (simp add: Let_def add_cur_wsz_def Whsize_val_def Whsize_hd_def Whsize_wosize_def algebra_simps)
qed

lemma nf_place_at:
  assumes "nf_seg (fl_mem s) p (xs @ ys) 0" "\<forall>x \<in> set xs. fst x < bp" "\<forall>y \<in> set ys. \<not> fst y < bp"
  shows "nf_place bp p s = Some (link_of p xs, case ys of [] \<Rightarrow> 0 | y # _ \<Rightarrow> fst y)"
  using assms
proof (induction xs arbitrary: p)
  case Nil
  then show ?case by (subst nf_place.simps) (auto simp: Let_def split: list.splits)
next
  case (Cons x xs)
  then show ?case using free_not_null [of "fl_mem s" x] by (subst nf_place.simps) (simp add: Let_def)
qed

text \<open>A chain of free blocks \<open>c # cs\<close> goes into the list between \<open>xs\<close> and \<open>ys\<close>.\<close>

lemma nf_list_splice:
  assumes list: "nf_list s (xs @ ys)" and pl: "placed (Nf_head s) (xs @ (c # cs) @ ys)"
    and seg: "nf_seg (fl_mem s) (fst c) cs 0" "free_at (fl_mem s) c"
  shows "nf_list (set_next (link_of (Nf_head s) xs) (fst c)
    (set_next (link_of (fst c) cs) (Next_small (fl_mem s) (link_of (Nf_head s) xs)) s)) (xs @ (c # cs) @ ys)"
proof -
  let ?h = "Nf_head s" and ?m = "fl_mem s"
  let ?p = "link_of ?h xs" and ?l = "link_of (fst c) cs" and ?q = "Next_small ?m (link_of ?h xs)"
  let ?m1 = "?m(?l := ?q)" and ?m2 = "?m(?l := ?q, ?p := fst c)"
  have plc: "placed ?h (c # cs)" "placed ?h xs" using placed_appendD [OF placed_appendD(2) [OF pl]] placed_appendD [OF pl] by simp_all
  have p: "?p \<in> seg_cells ?h xs" by (rule link_in_cells)
  have cc: "placed ?h ([] @ c # cs)" using plc by simp
  have l: "?l \<in> insert (fst c) (fst ` set cs)" by (rule link_of_mem)
  have above: "fst z \<notin> seg_cells ?h xs" "fst z - 8 \<notin> seg_cells ?h xs" if "z \<in> set ((c # cs) @ ys)" for z
    using placed_cells [OF pl _ that] by blast+
  have "last (c # cs) \<in> set ((c # cs) @ ys)" "?l = fst (last (c # cs))" by (auto simp: link_of_def)
  then obtain z where z: "z \<in> set ((c # cs) @ ys)" "?l = fst z" by blast
  have l_xs: "?l \<notin> seg_cells ?h xs" using above(1) [OF z(1)] z(2) by simp
  have seg1: "nf_seg ?m1 (fst c) cs ?q"
    by (rule nf_seg_relink [OF seg(1)])
      (use placed_distinct [OF plc(1)] in \<open>auto simp: link_of_def split: if_splits\<close>)
  have p_cs: "?p \<notin> seg_cells (fst c) cs" 
  proof -
    have "?p \<noteq> fst z" "?p \<noteq> fst z - 8" if "z \<in> set (c # cs)" for z using above [of z] p that by auto
    then show ?thesis unfolding seg_cells_def by auto
  qed
  have seg2: "nf_seg ?m2 (fst c) cs ?q" using seg1 nf_seg_upd [OF p_cs] by blast
  have lc: "?l \<noteq> fst c - 8" using placed_distinct(2) [OF plc(1)] by (auto simp: link_of_def split: if_splits)
  have "free_at ?m2 c = free_at ?m c" using lc above(2) [of c] p by (intro free_at_cong) auto
  then have c2: "free_at ?m2 c" using seg(2) by simp
  have sx: "\<exists>q. nf_seg ?m ?h xs q" using nf_listD(2) [OF list] nf_seg_append [of ?m ?h xs] by (cases ys) auto
  then have "nf_seg ?m1 ?h xs ?q" using nf_seg_upd [OF l_xs] nf_seg_link by metis
  then have s1: "nf_seg ?m2 ?h xs (fst c)" by (rule nf_seg_relink) (use placed_distinct [OF plc(2)] in simp_all)
  have hd: "?p \<noteq> ?h - 8" "?l \<noteq> ?h - 8"
    using placed_head [OF plc(2)] p placed_head [OF plc(1)] l by (auto simp: seg_cells_def)
  have ys: "nf_seg ?m2 ?h (xs @ (c # cs) @ ys) 0"
  proof (cases ys)
    case Nil
    then have "?q = 0" using next_block [OF list] by simp
    then show ?thesis using s1 c2 seg2 Nil by (simp add: nf_seg_append)
  next
    case (Cons y zs)
    have q: "?q = fst y" using next_block [OF list] Cons by simp
    have pz: "placed ?h ((xs @ c # cs) @ y # zs)" using pl Cons by simp
    have pc: "?p \<in> seg_cells ?h (xs @ c # cs)" "?l \<in> seg_cells ?h (xs @ c # cs)" using p l by (auto simp: seg_cells_def)
    have "nf_seg ?m (fst y) zs 0" "free_at ?m y" using nf_list_at [of s xs y zs] list Cons by simp_all
    moreover have "nf_seg ?m2 (fst y) zs 0 = nf_seg ?m (fst y) zs 0"
      using nf_seg_upd [OF placed_above(4) [OF pz pc(1)]] nf_seg_upd [OF placed_above(4) [OF pz pc(2)]] by simp
    moreover have "free_at ?m2 y = free_at ?m y" using placed_above(2) [OF pz] pc by (intro free_at_cong) auto
    ultimately have "nf_seg ?m2 (fst c) (cs @ ys) 0" using seg2 q by (simp add: nf_seg_append Cons)
    then show ?thesis using s1 c2 by (simp add: nf_seg_append)
  qed
  moreover have "sentinel_ok (s\<lparr>fl_mem := ?m2\<rparr>)"
    using sentinel_upd [OF sentinel_upd [OF nf_listD(1) [OF list] hd(2)]] hd(1) by simp
  ultimately show ?thesis using pl by (simp add: nf_list_def set_next_def placed_def)
qed

text \<open>
  An extension of the heap: the blocks are blue, chained by their first fields, and the second field of the
  first block, which has one, points to the last block. The last block of the list is known from the
  allocation that failed.
\<close>

definition extension_ok :: "fl_state \<Rightarrow> fblock list \<Rightarrow> fblock \<Rightarrow> fblock list \<Rightarrow> fblock list \<Rightarrow> bool" where
  "extension_ok s xs c cs ys \<longleftrightarrow> nf_inv s (xs @ ys) \<and> nf_last s = link_of (Nf_head s) (xs @ ys) \<and>
     placed (Nf_head s) (xs @ (c # cs) @ ys) \<and> nf_seg (fl_mem s) (fst c) cs 0 \<and> free_at (fl_mem s) c \<and>
     2 \<le> snd c \<and> Field (fl_mem s) (fst c) 1 = link_of (fst c) cs"

lemma second_field:
  assumes "placed h (xs @ (c # cs) @ ys)" "2 \<le> snd c" "unat (fst c) + 8 * snd c + 8 < 2 ^ 64"
  shows "fst c + 8 \<notin> seg_cells h (xs @ (c # cs) @ ys)"
proof -
  have u: "unat (fst c + 8) = unat (fst c) + 8" using assms(2,3) by (simp add: unat_word_ariths)
  have ne: "fst c + 8 \<noteq> w" if "unat w \<noteq> unat (fst c) + 8" for w using that u by auto
  note pl = assms(1) [unfolded placed_def]
  have "apart_from h c" "8 \<le> unat h" using pl by auto
  then have "fst c + 8 \<noteq> h" using assms(2) by (intro ne) (auto simp: apart_from_def)
  moreover have "fst c + 8 \<noteq> fst z \<and> fst c + 8 \<noteq> fst z - 8" if z: "z \<in> set (xs @ (c # cs) @ ys)" for z
  proof -
    have z8: "unat (fst z - 8) = unat (fst z) - 8" "8 \<le> unat (fst z)" "1 \<le> snd z" using pl z by (auto simp: unat_minus_8)
    have "z = c \<or> before z c \<or> before c z" using pl z by (auto simp: sorted_wrt_append)
    then show ?thesis using z8 assms(2) by (intro conjI; intro ne) (auto simp: before_def)
  qed
  ultimately show ?thesis unfolding seg_cells_def by blast
qed

text \<open>
  C7: A heap extension is spliced into the list at its place by address, counted, and the
  merge pointer moves over it when it lies before the sweep pointer.
\<close>

theorem nf_add_blocks_correct:
  assumes ext: "extension_ok s xs c cs ys"
  shows "\<exists>s'. nf_add_blocks (fst c) s = Some s' \<and> nf_inv s' (xs @ (c # cs) @ ys) \<and>
    caml_fl_merge s' = (if caml_fl_merge s = link_of (Nf_head s) xs \<and> fst c < gc_sweep_hp s
      then link_of (Nf_head s) (xs @ c # cs) else caml_fl_merge s)"
proof -
  let ?h = "Nf_head s" and ?m = "fl_mem s"
  let ?p = "link_of ?h xs" and ?l = "link_of (fst c) cs" and ?q = "Next_small ?m (link_of ?h xs)"
  note e = ext [unfolded extension_ok_def]
  let ?s1 = "add_cur_wsz (of_nat (total_words (c # cs))) s"
  let ?s2 = "set_next ?p (fst c) (set_next ?l ?q ?s1)"
  have inv: "nf_inv s (xs @ ys)" and list: "nf_list s (xs @ ys)" and pl: "placed ?h (xs @ (c # cs) @ ys)" and fr: "free_at ?m c"
    using e by (simp_all add: nf_inv_def)
  have cnt: "nf_count (fst c) s = Some ?s1" using e by (intro nf_count_words) simp_all
  have l1: "nf_list ?s1 (xs @ ys)" using list by (subst nf_list_cong) (auto simp: add_cur_wsz_def)
  have l2: "nf_list ?s2 (xs @ (c # cs) @ ys)"
    using nf_list_splice [OF l1, of c cs] e by (simp add: add_cur_wsz_def)
  have sc: "fst c + 8 \<notin> seg_cells ?h (xs @ (c # cs) @ ys)" using second_field [OF pl] e free_atD(8) [OF fr] by simp
  have "?p \<in> seg_cells ?h (xs @ (c # cs) @ ys)" "?l \<in> seg_cells ?h (xs @ (c # cs) @ ys)"
    using link_of_mem [of ?h xs] link_of_mem [of "fst c" cs] by (auto simp: seg_cells_def)
  then have f1: "Field (fl_mem ?s2) (fst c) 1 = ?l"
    using sc e by (auto simp: set_next_def add_cur_wsz_def Field_def)
  have less: "fst x < fst y" if "before x y" for x y using that by (simp add: before_def word_less_nat_alt)
  have lt: "fst x < fst c" if "x \<in> set xs" for x using pl that by (intro less) (simp add: placed_def sorted_wrt_append)
  have gt: "fst c < fst y" if "y \<in> set ys" for y using pl that by (intro less) (simp add: placed_def sorted_wrt_append)
  have add: "nf_add_blocks (fst c) s = Some (advance_merge ?p (fst c) ?s2)"
  proof (cases "nf_last s < fst c")
    case True
    then have "ys = []" using e gt [of "last ys"] by (cases "ys = []") (auto simp: link_of_def dest: less_trans less_not_sym)
    then have eq: "?q = 0" "nf_last s = ?p" using next_block [OF list] e by simp_all
    have "set_next ?l 0 ?s1 = ?s1"
    proof -
      have "?m ?l = 0" using nf_seg_link [of ?m "fst c" cs 0] e by (simp add: Next_small_eq)
      then show ?thesis by (simp add: set_next_def add_cur_wsz_def fun_upd_idem)
    qed
    then show ?thesis using True cnt eq by (simp add: nf_add_blocks_def add_cur_wsz_def)
  next
    case False
    have seg: "nf_seg (fl_mem ?s1) ?h (xs @ ys) 0" using nf_listD(2) [OF list] by (simp add: add_cur_wsz_def)
    have "\<forall>y \<in> set ys. \<not> fst y < fst c" using gt less_not_sym by blast
    then have "nf_place (fst c) ?h ?s1 = Some (?p, case ys of [] \<Rightarrow> 0 | y # _ \<Rightarrow> fst y)" using nf_place_at [OF seg] lt by blast
    then have pl1: "nf_place (fst c) ?h ?s1 = Some (?p, ?q)" using next_block [OF list] by simp
    have f0: "Field (fl_mem ?s1) (fst c) 1 = ?l" using e by (simp add: add_cur_wsz_def)
    show ?thesis using False cnt pl1 f0 by (simp add: nf_add_blocks_def) (simp add: add_cur_wsz_def)
  qed
  let ?s3 = "advance_merge ?p (fst c) ?s2"
  have mg: "caml_fl_merge ?s3 = (if caml_fl_merge s = ?p \<and> fst c < gc_sweep_hp s then ?l else caml_fl_merge s)"
    using f1 by (auto simp: advance_merge_def set_next_def add_cur_wsz_def)
  have l3: "nf_list ?s3 (xs @ (c # cs) @ ys)" using l2 by (subst nf_list_cong) (auto simp: advance_merge_def)
  have "?l \<in> fst ` set (c # cs)" using link_of_mem [of "fst c" cs] by auto
  moreover have "nf_prev ?s3 = nf_prev s" "Nf_head ?s3 = ?h" "caml_fl_cur_wsz ?s3 = caml_fl_cur_wsz s + of_nat (total_words (c # cs))"
    by (simp_all add: advance_merge_def set_next_def add_cur_wsz_def)
  ultimately have "nf_inv ?s3 (xs @ (c # cs) @ ys)" using l3 inv mg by (auto simp: nf_inv_def algebra_simps)
  then show ?thesis using add mg by (simp add: link_of_append)
qed

definition fl_sweeping :: fl_state where
  "fl_sweeping = fl_sample\<lparr>fl_mem := (fl_mem fl_sample)(0x2020 := 0x800), caml_fl_merge := 0x2008\<rparr>"

theorem nf_merge_block_correct_witness:
  "\<exists>s'. nf_merge_block (\<lambda>bp s. s) 0x2028 fl_sweeping = (0x2038, s') \<and> nf_inv s' [(0x2008, 6), (0x3008, 10)]"
proof -
  have w: "with_fragment fl_sweeping (0x2028, 2) = (0x2028, 2)" by (simp add: with_fragment_def fl_sweeping_def fl_sample_def)
  have ready: "merge_ready fl_sweeping [(0x2008, 3)] (0x2028, 2) [(0x3008, 10)]"
    unfolding merge_ready_def w by (simp add: fl_sweeping_def fl_eval region_ok_def Wosize_val_def)
  have fin: "final_keeps UNIV (\<lambda>bp s. s)"
    unfolding final_keeps_def
  proof (intro allI exI conjI)
    show "s = s\<lparr>fl_mem := fl_mem s\<rparr>" for s :: fl_state by simp
  qed simp
  have ab: "absorb_next (0x2028, 2) [(0x3008, 10)] = (2, [(0x3008, 10)])" by (simp add: absorb_next_def touches_def)
  have "merged [(0x2008, 3)] (with_fragment fl_sweeping (0x2028, 2)) [(0x3008, 10)] = ([(0x2008, 6)], [(0x3008, 10)])"
    by (simp add: w merged_def ab absorb_prev_def touches_def max_wosize_def)
  from nf_merge_block_correct [OF ready fin _ this] show ?thesis by (auto simp: w ab)
qed

definition fl_extended :: fl_state where
  "fl_extended = fl_sample\<lparr>fl_mem := (fl_mem fl_sample)(0x5000 := 0x1200, 0x5010 := 0x5008), nf_last := 0x3008\<rparr>"

theorem nf_add_blocks_correct_witness:
  "\<exists>s'. nf_add_blocks 0x5008 fl_extended = Some s' \<and> nf_inv s' [(0x2008, 3), (0x3008, 10), (0x5008, 4)]"
proof -
  have "extension_ok fl_extended sample_blocks (0x5008, 4) [] []"
    by (simp add: extension_ok_def fl_extended_def fl_eval placed_def link_of_def)
  from nf_add_blocks_correct [OF this] show ?thesis by auto
qed

end
