(* ===== verification/Spec2Isabelle.thy ===== *)
theory Spec2Isabelle
  imports Interp_Arith Interp_Calls Jit_Support Barrier Stack_Growth Page_Table Md5
    Gc_Dispatch Alloc Ints Boxed_Ints Str Arrays Hash Skip_List Global_Roots Compare Minor_Collection Lexing
    Free_Merge
begin

text \<open>
  A verification library for the C runtime of an OCaml bytecode JIT: the runtime of OCaml 4.11
  as the project carries it (\<^verbatim>\<open>src/src/ocaml/runtime\<close>), with the helpers the project adds for the
  code its JIT generates (\<^verbatim>\<open>jit_support.c\<close>).

  \<^bold>\<open>The program.\<close> Compiled code is bytecode run by \<^verbatim>\<open>interp.c\<close>, or machine code of the JIT that
  calls \<^verbatim>\<open>jit_support.c\<close> for what it does not inline. Both work on a stack of words (\<^verbatim>\<open>stacks.c\<close>),
  on values that are tagged integers or pointers to blocks with a header (\<^verbatim>\<open>mlvalues.h\<close>,
  \<^verbatim>\<open>gc.h\<close>), and on a state shared with the collector (\<^verbatim>\<open>domain_state.tbl\<close>). Allocation goes to
  the young generation (\<^verbatim>\<open>memory.h\<close>, \<^verbatim>\<open>alloc.c\<close>, \<^verbatim>\<open>minor_gc.c\<close>, \<^verbatim>\<open>signals.c\<close>); stores go through
  the write barrier (\<^verbatim>\<open>memory.c\<close>) into the tables of the minor collector; the page table
  classifies addresses. Primitives (\<^verbatim>\<open>array.c\<close>, \<^verbatim>\<open>str.c\<close>, \<^verbatim>\<open>ints.c\<close>, \<^verbatim>\<open>hash.c\<close>, \<^verbatim>\<open>md5.c\<close>) are C
  functions on values that the interpreter calls.

  \<^bold>\<open>Conventions.\<close> A machine word is \<open>u64\<close>, memory is a function from word addresses to words
  (\<open>store\<close>), a byte is read from its word in little-endian order. A C function that changes
  state takes the state and returns \<open>cres\<close>: \<open>Ret\<close> a result, \<open>Longjmp\<close> when it raises an OCaml
  exception, \<open>Fatal\<close> for \<open>caml_fatal_error\<close>, \<open>Diverge\<close> when it does not return. Code that is
  called and not modelled (the collections proper, signal handlers, floating point, the
  debugger, primitives by number) is a field of the record \<open>rt\<close>, and theorems name what they
  need of it. Local roots of C functions are the list \<open>c_roots\<close> of the state, which a
  collection may rewrite. The configuration is 64-bit, little-endian, flat float arrays, no
  profiling information in headers, built with the JIT (no threaded code).

  \<^bold>\<open>The theories.\<close>
  \<^item> \<open>Rt_Prelude\<close>: words, stores, results; the lemma collections. \<open>Mlvalues\<close>: the value macros,
    headers, colours, with the arithmetic of tagged integers.
  \<^item> \<open>Caml_State\<close>: the runtime state, the tables of the minor collector, \<open>caml_darken\<close>,
    \<open>caml_initialize\<close>, \<open>caml_modify\<close>, the inline allocator. \<open>Barrier\<close>: an interface \<open>entry_log\<close>
    for growing tables, interpreted for the three tables; the barrier keeps the remembered set
    and shades the overwritten block.
  \<^item> \<open>Stacks\<close>, \<open>Stack_Growth\<close>: the bytecode stack; growth ends, has room, and moves the stack
    with its chain of trap frames.
  \<^item> \<open>Interp\<close>: every instruction, the labels that handlers share, the dispatch loop.
    \<open>Interp_Arith\<close>: integer instructions against 63-bit arithmetic. \<open>Interp_Calls\<close>: calls and
    returns, partial application, tail calls, exceptions, method lookup.
  \<^item> \<open>Jit_Support\<close>: the helpers of the JIT, each equal to the instruction it stands for.
  \<^item> \<open>Page_Table\<close>: the hash table of pages, an interface \<open>page_map\<close> interpreted on it.
  \<^item> \<open>Gc_Dispatch\<close>, \<open>Alloc\<close>: the loop of small allocation with its pending actions, which
    always returns a block; allocation of blocks, strings, custom blocks.
  \<^item> \<open>Ints\<close>, \<open>Boxed_Ints\<close>, \<open>Str\<close>, \<open>Arrays\<close>, \<open>Hash\<close>, \<open>Md5\<close>: the primitives. \<open>Md5\<close> has the
    interface \<open>streaming_digest\<close>.
  \<^item> \<open>Global_Roots\<close>: the skip lists of global roots and the generational discipline.
  \<^item> \<open>Sample_State\<close>: a concrete state and runtime for the witnesses.

  \<^bold>\<open>Loops and fuel.\<close> No definition uses fuel. A loop is structural recursion, recursion with a
  proved measure, or a partial function whose \<open>None\<close> is a loop that does not end; where the
  code relies on the end of such a loop there is a theorem that it returns.

  \<^bold>\<open>Not modelled.\<close> The copying and marking of the collector, the free-list allocators,
  compaction, marshalling, input and output, floating point, signals of the operating system,
  the native-code runtime, \<^verbatim>\<open>ocamlyacc\<close>, the libraries under \<^verbatim>\<open>otherlibs\<close>, and the code
  generator of the JIT, which is written in Rust.
\<close>

end
